(* ===== verification/Prelude.thy ===== *)
theory Prelude
  imports Main "HOL-Library.Word"
begin

text \<open>
  Shared base of the development: the values an operation can end in (a result or a thrown
  exception), little-endian byte codecs (the code's \<open>std::bit_cast\<close> and \<open>memcpy\<close> between integers
  and bytes on a little-endian machine), and reading and writing a range of a byte buffer.
  The locale \<open>fixed_codec\<close> is the interface every fixed-width field of a page or of a header uses;
  it is interpreted here for the integer widths the code stores.
\<close>

named_theorems codec_simps "lengths and round trips of the byte codecs"
named_theorems buffer_simps "reading a byte buffer after writing it"
named_theorems res_simps "running results and exceptions"

section \<open>Results and exceptions\<close>

text \<open>
  A C++ call returns a value or throws. \<open>Undefined\<close> stands for undefined behaviour (a read or a
  write outside the buffer): the model stops there, and the safety theorems show where it is not
  reached. \<open>Assert_failed\<close> is a failing \<open>assert\<close>. \<open>Out_of_fuel\<close> is no exception of the code: a loop over
  linked pages or rows was cut off; the theorems on such loops show that it does not happen.
\<close>

datatype exn =
    Runtime_error string
  | Invalid_argument string
  | Out_of_range
  | Bad_variant_access
  | Assert_failed string
  | Length_error
  | Undefined
  | Out_of_fuel

type_synonym 'a res = "exn + 'a"

definition bind_res :: "'a res \<Rightarrow> ('a \<Rightarrow> 'b res) \<Rightarrow> 'b res" where
  "bind_res m f = (case m of Inl e \<Rightarrow> Inl e | Inr x \<Rightarrow> f x)"

text \<open>\<open>check b e\<close> is the code's \<open>if (!b) throw e\<close>.\<close>

definition check :: "bool \<Rightarrow> exn \<Rightarrow> unit res" where
  "check b e = (if b then Inr () else Inl e)"

fun map_res :: "('a \<Rightarrow> 'b res) \<Rightarrow> 'a list \<Rightarrow> 'b list res" where
  "map_res f [] = Inr []"
| "map_res f (x # xs) = bind_res (f x) (\<lambda>y. bind_res (map_res f xs) (\<lambda>ys. Inr (y # ys)))"

lemma bind_res_Inr [simp, res_simps]: "bind_res (Inr x) f = f x"
  by (simp add: bind_res_def)

lemma bind_res_Inl [simp, res_simps]: "bind_res (Inl e) f = Inl e"
  by (simp add: bind_res_def)

lemma check_True [simp, res_simps]: "check True e = Inr ()"
  by (simp add: check_def)

lemma check_False [simp, res_simps]: "check False e = Inl e"
  by (simp add: check_def)

lemma check_eq_Inr [simp]: "check b e = Inr u \<longleftrightarrow> b"
  by (simp add: check_def)

lemma bind_res_eq_Inr: "bind_res m f = Inr y \<longleftrightarrow> (\<exists>x. m = Inr x \<and> f x = Inr y)"
  by (cases m) auto

lemma bind_check_eq_Inr: "bind_res (check b e) f = Inr y \<longleftrightarrow> b \<and> f () = Inr y"
  by (cases b) auto

lemma map_res_Inr: "(\<And>x. x \<in> set xs \<Longrightarrow> f x = Inr (g x)) \<Longrightarrow> map_res f xs = Inr (map g xs)"
  by (induction xs) auto

section \<open>Bytes\<close>

type_synonym byte = "8 word"

definition byte_of_char :: "char \<Rightarrow> byte" where
  "byte_of_char c = word_of_int (of_char c)"

definition char_of_byte :: "byte \<Rightarrow> char" where
  "char_of_byte b = char_of (uint b)"

lemma uint_byte_of_char [simp]: "uint (byte_of_char c) = of_char c"
proof -
  have "(of_char c :: int) = int (of_char c)" by (simp only: of_nat_of_char)
  moreover have "(of_char c :: nat) < 256" by simp
  ultimately have "0 \<le> (of_char c :: int)" "(of_char c :: int) < 256" by linarith+
  then show ?thesis by (simp add: byte_of_char_def uint_word_of_int)
qed

lemma char_of_byte_of_char [simp]: "char_of_byte (byte_of_char c) = c"
  by (simp add: char_of_byte_def)

lemma map_char_of_byte_of_char [simp]: "map (char_of_byte \<circ> byte_of_char) s = s"
  by (simp add: comp_def)

text \<open>The \<open>n\<close> low bytes of a number, least significant first, and back.\<close>

fun le_bytes :: "nat \<Rightarrow> int \<Rightarrow> byte list" where
  "le_bytes 0 v = []"
| "le_bytes (Suc n) v = word_of_int (v mod 256) # le_bytes n (v div 256)"

fun le_int :: "byte list \<Rightarrow> int" where
  "le_int [] = 0"
| "le_int (b # bs) = uint b + 256 * le_int bs"

lemma length_le_bytes [simp, codec_simps]: "length (le_bytes n v) = n"
  by (induction n arbitrary: v) auto

lemma le_int_le_bytes: "le_int (le_bytes n v) = v mod 256 ^ n"
proof (induction n arbitrary: v)
  case 0
  then show ?case by simp
next
  case (Suc n)
  have "uint (word_of_int (v mod 256) :: byte) = v mod 256"
    by (simp add: uint_word_of_int)
  then have "le_int (le_bytes (Suc n) v) = v mod 256 + 256 * (v div 256 mod 256 ^ n)"
    using Suc by simp
  also have "\<dots> = v mod 256 ^ Suc n"
    by (simp add: zmod_zmult2_eq)
  finally show ?case .
qed

lemma le_int_bounds: "0 \<le> le_int bs \<and> le_int bs < 256 ^ length bs"
proof (induction bs)
  case Nil
  then show ?case by simp
next
  case (Cons b bs)
  have "uint b < 256" using unsigned_less [of b, where 'a = int] by simp
  moreover have "0 \<le> uint b" by simp
  moreover have "256 * le_int bs + 256 \<le> 256 * 256 ^ length bs"
    using Cons by linarith
  ultimately show ?case using Cons by simp
qed

lemma le_bytes_le_int: "le_bytes (length bs) (le_int bs) = bs"
proof (induction bs)
  case Nil
  then show ?case by simp
next
  case (Cons b bs)
  have "uint b < 256" using unsigned_less [of b, where 'a = int] by simp
  with Cons show ?case by simp
qed

section \<open>Ranges of a buffer\<close>

text \<open>
  \<open>slice off n xs\<close> is \<open>subspan(off, n)\<close>, \<open>splice off ys xs\<close> copies \<open>ys\<close> over \<open>xs\<close> from \<open>off\<close> on.
  Both are used with the range inside the buffer; the callers check it.
\<close>

definition slice :: "nat \<Rightarrow> nat \<Rightarrow> 'a list \<Rightarrow> 'a list" where
  "slice off n xs = take n (drop off xs)"

definition splice :: "nat \<Rightarrow> 'a list \<Rightarrow> 'a list \<Rightarrow> 'a list" where
  "splice off ys xs = take off xs @ ys @ drop (off + length ys) xs"

lemma length_slice [simp, buffer_simps]: "off + n \<le> length xs \<Longrightarrow> length (slice off n xs) = n"
  by (simp add: slice_def)

lemma length_splice [simp, buffer_simps]:
  "off + length ys \<le> length xs \<Longrightarrow> length (splice off ys xs) = length xs"
  by (simp add: splice_def)

lemma slice_zero [simp]: "slice off 0 xs = []"
  by (simp add: slice_def)

lemma splice_Nil [simp]: "splice off [] xs = xs"
  by (simp add: splice_def)

lemma nth_slice: "i < n \<Longrightarrow> off + n \<le> length xs \<Longrightarrow> slice off n xs ! i = xs ! (off + i)"
  by (simp add: slice_def)

lemma nth_splice:
  "off + length ys \<le> length xs \<Longrightarrow> i < length xs \<Longrightarrow>
   splice off ys xs ! i = (if off \<le> i \<and> i < off + length ys then ys ! (i - off) else xs ! i)"
  by (auto simp: splice_def nth_append min_def)

lemma slice_eqI:
  assumes "off + n \<le> length xs" and "off + n \<le> length ys"
    and "\<And>i. off \<le> i \<Longrightarrow> i < off + n \<Longrightarrow> xs ! i = ys ! i"
  shows "slice off n xs = slice off n ys"
  using assms by (intro nth_equalityI) (auto simp: nth_slice)

lemma slice_splice_same [buffer_simps]:
  "off + length ys \<le> length xs \<Longrightarrow> slice off (length ys) (splice off ys xs) = ys"
  by (simp add: slice_def splice_def)

lemma slice_splice_inside:
  "off + length ys \<le> length xs \<Longrightarrow> off \<le> k \<Longrightarrow> k + n \<le> off + length ys \<Longrightarrow>
   slice k n (splice off ys xs) = slice (k - off) n ys"
  by (rule nth_equalityI) (auto simp: nth_slice nth_splice)

lemma slice_splice_other [buffer_simps]:
  "off + length ys \<le> length xs \<Longrightarrow> k + n \<le> off \<or> off + length ys \<le> k \<Longrightarrow> k + n \<le> length xs \<Longrightarrow>
   slice k n (splice off ys xs) = slice k n xs"
  by (rule slice_eqI) (auto simp: nth_splice)

lemma splice_slice_id: "off + n \<le> length xs \<Longrightarrow> splice off (slice off n xs) xs = xs"
  by (rule nth_equalityI) (auto simp: nth_splice nth_slice)

lemma slice_append_skip: "length pre = off \<Longrightarrow> slice off n (pre @ xs) = take n xs"
  by (simp add: slice_def)

lemma length_concat_uniform: "(\<And>x. x \<in> set xs \<Longrightarrow> length (f x) = w) \<Longrightarrow> length (concat (map f xs)) = w * length xs"
  by (induction xs) auto

lemma slice_concat_uniform:
  assumes "\<And>x. x \<in> set xs \<Longrightarrow> length (f x) = w" and "j < length xs"
  shows "slice (w * j) w (concat (map f xs)) = f (xs ! j)"
  using assms
proof (induction xs arbitrary: j)
  case Nil
  then show ?case by simp
next
  case (Cons x xs)
  show ?case
  proof (cases j)
    case 0
    with Cons.prems show ?thesis by (simp add: slice_def)
  next
    case (Suc i)
    have "slice (w * Suc i) w (f x @ concat (map f xs)) = slice (w * i) w (concat (map f xs))"
      using Cons.prems(1) by (simp add: slice_def)
    with Cons.IH [of i] Cons.prems Suc show ?thesis by simp
  qed
qed

section \<open>Fixed-width codecs\<close>

locale fixed_codec =
  fixes enc :: "'a \<Rightarrow> byte list"
    and dec :: "byte list \<Rightarrow> 'a"
    and width :: nat
  assumes enc_width: "length (enc x) = width"
    and dec_enc: "dec (enc x) = x"
begin

lemma enc_inj: "enc x = enc y \<Longrightarrow> x = y"
  by (metis dec_enc)

lemma dec_prefix: "dec (take width (enc x @ rest)) = x"
  by (simp add: dec_enc enc_width)

lemma read_after_write:
  "off + width \<le> length xs \<Longrightarrow> dec (slice off width (splice off (enc x) xs)) = x"
  using slice_splice_same [of off "enc x" xs] by (simp add: enc_width dec_enc)

lemma read_other:
  "off + width \<le> length xs \<Longrightarrow> k + width \<le> off \<or> off + width \<le> k \<Longrightarrow> k + width \<le> length xs \<Longrightarrow>
   dec (slice k width (splice off (enc x) xs)) = dec (slice k width xs)"
  by (simp add: slice_splice_other enc_width)

end

definition bytes16 :: "16 word \<Rightarrow> byte list" where
  "bytes16 w = le_bytes 2 (uint w)"

definition of_bytes16 :: "byte list \<Rightarrow> 16 word" where
  "of_bytes16 bs = word_of_int (le_int bs)"

definition bytes32 :: "32 word \<Rightarrow> byte list" where
  "bytes32 w = le_bytes 4 (uint w)"

definition of_bytes32 :: "byte list \<Rightarrow> 32 word" where
  "of_bytes32 bs = word_of_int (le_int bs)"

definition bytes64 :: "64 word \<Rightarrow> byte list" where
  "bytes64 w = le_bytes 8 (uint w)"

definition of_bytes64 :: "byte list \<Rightarrow> 64 word" where
  "of_bytes64 bs = word_of_int (le_int bs)"

lemma le_word_roundtrip:
  assumes "256 ^ n = (2 :: int) ^ LENGTH('a::len)"
  shows "word_of_int (le_int (le_bytes n (uint (w :: 'a word)))) = w"
  using assms by (simp add: le_int_le_bytes)

interpretation u16: fixed_codec bytes16 of_bytes16 2
  by unfold_locales (simp_all add: bytes16_def of_bytes16_def le_word_roundtrip)

interpretation u32: fixed_codec bytes32 of_bytes32 4
  by unfold_locales (simp_all add: bytes32_def of_bytes32_def le_word_roundtrip)

interpretation u64: fixed_codec bytes64 of_bytes64 8
  by unfold_locales (simp_all add: bytes64_def of_bytes64_def le_word_roundtrip)

lemmas codec_widths [simp, codec_simps] = u16.enc_width u32.enc_width u64.enc_width
lemmas codec_roundtrips [simp, codec_simps] = u16.dec_enc u32.dec_enc u64.dec_enc

lemma bytes_nonempty [simp]: "bytes16 a \<noteq> []" "bytes32 b \<noteq> []" "bytes64 c \<noteq> []"
  using codec_widths by (metis list.size(3) zero_neq_numeral)+

end
