(* ===== verification/Floats.thy ===== *)
theory Floats
  imports Prelude
begin

text \<open>
  The part of IEEE 754 the code uses on \<open>double\<close> and \<open>float\<close>: values are kept as their bit patterns
  (the code stores and loads them with \<open>std::bit_cast\<close>), \<open>std::isnan\<close>, the order and equality of
  two doubles, the widening \<open>static_cast<double>(float)\<close>, and the conversion
  \<open>static_cast<double>(std::uint64_t)\<close> rounding to nearest, ties to even.
\<close>

text \<open>The position of the leading one bit of a positive number.\<close>

function int_log2 :: "int \<Rightarrow> nat" where
  "int_log2 n = (if n < 2 then 0 else Suc (int_log2 (n div 2)))"
  by pat_completeness auto
termination
  by (relation "measure nat") auto

declare int_log2.simps [simp del]

lemma int_log2_bounds: "0 < n \<Longrightarrow> 2 ^ int_log2 n \<le> n \<and> n < 2 ^ Suc (int_log2 n)"
proof (induction n rule: int_log2.induct)
  case (1 n)
  show ?case
  proof (cases "n < 2")
    case True
    with 1 show ?thesis by (simp add: int_log2.simps [of n])
  next
    case False
    then have "2 ^ int_log2 (n div 2) \<le> n div 2 \<and> n div 2 < 2 ^ Suc (int_log2 (n div 2))"
      using 1 by simp
    then have "2 * 2 ^ int_log2 (n div 2) \<le> n \<and> n < 2 * 2 ^ Suc (int_log2 (n div 2))"
      by linarith
    with False show ?thesis by (simp add: int_log2.simps [of n])
  qed
qed

section \<open>Double precision\<close>

type_synonym f64 = "64 word"
type_synonym f32 = "32 word"

definition f64_exp :: "f64 \<Rightarrow> int" where
  "f64_exp w = uint w div 2 ^ 52 mod 2 ^ 11"

definition f64_man :: "f64 \<Rightarrow> int" where
  "f64_man w = uint w mod 2 ^ 52"

definition f64_isnan :: "f64 \<Rightarrow> bool" where
  "f64_isnan w \<longleftrightarrow> f64_exp w = 2047 \<and> f64_man w \<noteq> 0"

text \<open>Sign and magnitude: the order of two doubles that are not NaN is the order of these numbers.\<close>

definition f64_key :: "f64 \<Rightarrow> int" where
  "f64_key w = (let m = uint w mod 2 ^ 63 in if uint w < 2 ^ 63 then m else - m)"

definition f64_less :: "f64 \<Rightarrow> f64 \<Rightarrow> bool" where
  "f64_less a b \<longleftrightarrow> \<not> f64_isnan a \<and> \<not> f64_isnan b \<and> f64_key a < f64_key b"

definition f64_equal :: "f64 \<Rightarrow> f64 \<Rightarrow> bool" where
  "f64_equal a b \<longleftrightarrow> \<not> f64_isnan a \<and> \<not> f64_isnan b \<and> f64_key a = f64_key b"

definition f64_pack :: "bool \<Rightarrow> int \<Rightarrow> int \<Rightarrow> f64" where
  "f64_pack neg e m = word_of_int ((if neg then 2 ^ 63 else 0) + e * 2 ^ 52 + m)"

section \<open>Conversions\<close>

definition f32_exp :: "f32 \<Rightarrow> int" where
  "f32_exp w = uint w div 2 ^ 23 mod 2 ^ 8"

definition f32_man :: "f32 \<Rightarrow> int" where
  "f32_man w = uint w mod 2 ^ 23"

definition f32_neg :: "f32 \<Rightarrow> bool" where
  "f32_neg w \<longleftrightarrow> 2 ^ 31 \<le> uint w"

definition f32_isnan :: "f32 \<Rightarrow> bool" where
  "f32_isnan w \<longleftrightarrow> f32_exp w = 255 \<and> f32_man w \<noteq> 0"

definition f32_equal :: "f32 \<Rightarrow> f32 \<Rightarrow> bool" where
  "f32_equal a b \<longleftrightarrow> \<not> f32_isnan a \<and> \<not> f32_isnan b \<and>
     (a = b \<or> (uint a mod 2 ^ 31 = 0 \<and> uint b mod 2 ^ 31 = 0))"

definition f64_of_f32 :: "f32 \<Rightarrow> f64" where
  "f64_of_f32 w =
     (let e = f32_exp w; m = f32_man w; s = f32_neg w in
      if e = 255 then f64_pack s 2047 (m * 2 ^ 29)
      else if e = 0 then
        (if m = 0 then f64_pack s 0 0
         else let k = int_log2 m in f64_pack s (int k + 874) ((m - 2 ^ k) * 2 ^ (52 - k)))
      else f64_pack s (e + 896) (m * 2 ^ 29))"

text \<open>
  \<open>k\<close> is the position of the leading bit; a rounding carry out of the mantissa moves into the
  exponent because the two fields are adjacent.
\<close>

definition f64_of_u64 :: "64 word \<Rightarrow> f64" where
  "f64_of_u64 w =
     (let n = uint w; k = int_log2 n in
      if n = 0 then 0
      else if k \<le> 52 then f64_pack False (int k + 1023) ((n - 2 ^ k) * 2 ^ (52 - k))
      else
        let s = k - 52; q = n div 2 ^ s; r = n mod 2 ^ s;
            up = 2 ^ (s - 1) < r \<or> (r = 2 ^ (s - 1) \<and> odd q)
        in word_of_int ((int k + 1023) * 2 ^ 52 + ((if up then q + 1 else q) - 2 ^ 52)))"

lemma f64_less_irrefl: "\<not> f64_less a a"
  by (simp add: f64_less_def)

lemma f64_less_trans: "f64_less a b \<Longrightarrow> f64_less b c \<Longrightarrow> f64_less a c"
  by (auto simp: f64_less_def)

lemma f64_trichotomy:
  "\<not> f64_isnan a \<Longrightarrow> \<not> f64_isnan b \<Longrightarrow> f64_less a b \<or> f64_equal a b \<or> f64_less b a"
  by (auto simp: f64_less_def f64_equal_def)

lemma f64_less_asym: "f64_less a b \<Longrightarrow> \<not> f64_less b a"
  by (auto simp: f64_less_def)

end
