(* ===== verification/Value_Model.thy ===== *)
theory Value_Model
  imports Floats
begin

text \<open>
  \<open>include/duck/tuple/value.hpp\<close>, \<open>src/tuple/value.cpp\<close> and the type enumerations of
  \<open>include/duck/tuple/column.hpp\<close>: a \<open>Value\<close> is a type tag, a null flag and a variant that the
  constructor does not force to agree with the tag, so every accessor can throw.
\<close>

section \<open>Types\<close>

text \<open>
  \<open>TypeId\<close> is an enumeration over \<open>std::uint16_t\<close> that is read from disk with a \<open>bit_cast\<close>, so a
  stored code without an enumerator is a value of the type too: \<open>Unknown_TypeId\<close>.
\<close>

datatype type_id =
    T_INT32 | T_INT64 | T_UINT32 | T_UINT64 | T_FLOAT | T_DOUBLE | T_BOOL
  | T_CHAR | T_VARCHAR | T_VARBINARY | Unknown_TypeId "16 word"

datatype value_type =
    INT64 | UINT64 | INT32 | UINT32 | DOUBLE | FLOAT | BOOL | STRING | BYTES

fun type_code :: "type_id \<Rightarrow> 16 word" where
  "type_code T_INT32 = 0"
| "type_code T_INT64 = 1"
| "type_code T_UINT32 = 2"
| "type_code T_UINT64 = 3"
| "type_code T_FLOAT = 4"
| "type_code T_DOUBLE = 5"
| "type_code T_BOOL = 6"
| "type_code T_CHAR = 7"
| "type_code T_VARCHAR = 8"
| "type_code T_VARBINARY = 9"
| "type_code (Unknown_TypeId c) = c"

definition type_of_code :: "16 word \<Rightarrow> type_id" where
  "type_of_code c =
     (if c = 0 then T_INT32 else if c = 1 then T_INT64 else if c = 2 then T_UINT32
      else if c = 3 then T_UINT64 else if c = 4 then T_FLOAT else if c = 5 then T_DOUBLE
      else if c = 6 then T_BOOL else if c = 7 then T_CHAR else if c = 8 then T_VARCHAR
      else if c = 9 then T_VARBINARY else Unknown_TypeId c)"

fun known_type :: "type_id \<Rightarrow> bool" where
  "known_type (Unknown_TypeId c) = False"
| "known_type _ = True"

lemma type_of_code_type_code: "known_type t \<Longrightarrow> type_of_code (type_code t) = t"
  by (cases t) (simp_all add: type_of_code_def)

lemma type_code_of_code: "type_code (type_of_code c) = c"
  by (simp add: type_of_code_def)

fun type_id_to_value_type :: "type_id \<Rightarrow> value_type res" where
  "type_id_to_value_type T_BOOL = Inr BOOL"
| "type_id_to_value_type T_DOUBLE = Inr DOUBLE"
| "type_id_to_value_type T_FLOAT = Inr FLOAT"
| "type_id_to_value_type T_INT64 = Inr INT64"
| "type_id_to_value_type T_UINT64 = Inr UINT64"
| "type_id_to_value_type T_INT32 = Inr INT32"
| "type_id_to_value_type T_UINT32 = Inr UINT32"
| "type_id_to_value_type T_CHAR = Inr STRING"
| "type_id_to_value_type T_VARCHAR = Inr STRING"
| "type_id_to_value_type T_VARBINARY = Inr BYTES"
| "type_id_to_value_type (Unknown_TypeId c) =
     Inl (Runtime_error ''type_id_to_value_type: invalid type id'')"

section \<open>Values\<close>

datatype variant =
    V_uint64 "64 word" | V_int64 "64 word" | V_uint32 "32 word" | V_int32 "32 word"
  | V_double f64 | V_float f32 | V_bool bool | V_string string | V_bytes "byte list"

record sql_value =
  vtype :: value_type
  is_null :: bool
  vdata :: variant

text \<open>\<open>value_variant{}\<close> holds its first alternative, zero-initialised.\<close>

definition null_value :: "value_type \<Rightarrow> sql_value" where
  "null_value t = \<lparr>vtype = t, is_null = True, vdata = V_uint64 0\<rparr>"

definition of_int64 :: "64 word \<Rightarrow> sql_value" where
  "of_int64 v = \<lparr>vtype = INT64, is_null = False, vdata = V_int64 v\<rparr>"
definition of_uint64 :: "64 word \<Rightarrow> sql_value" where
  "of_uint64 v = \<lparr>vtype = UINT64, is_null = False, vdata = V_uint64 v\<rparr>"
definition of_int32 :: "32 word \<Rightarrow> sql_value" where
  "of_int32 v = \<lparr>vtype = INT32, is_null = False, vdata = V_int32 v\<rparr>"
definition of_uint32 :: "32 word \<Rightarrow> sql_value" where
  "of_uint32 v = \<lparr>vtype = UINT32, is_null = False, vdata = V_uint32 v\<rparr>"
definition of_double :: "f64 \<Rightarrow> sql_value" where
  "of_double v = \<lparr>vtype = DOUBLE, is_null = False, vdata = V_double v\<rparr>"
definition of_float :: "f32 \<Rightarrow> sql_value" where
  "of_float v = \<lparr>vtype = FLOAT, is_null = False, vdata = V_float v\<rparr>"
definition of_boolean :: "bool \<Rightarrow> sql_value" where
  "of_boolean v = \<lparr>vtype = BOOL, is_null = False, vdata = V_bool v\<rparr>"
definition of_string :: "string \<Rightarrow> sql_value" where
  "of_string v = \<lparr>vtype = STRING, is_null = False, vdata = V_string v\<rparr>"
definition of_blob :: "byte list \<Rightarrow> sql_value" where
  "of_blob v = \<lparr>vtype = BYTES, is_null = False, vdata = V_bytes v\<rparr>"

lemmas of_value_defs = of_int64_def of_uint64_def of_int32_def of_uint32_def of_double_def
  of_float_def of_boolean_def of_string_def of_blob_def

text \<open>\<open>std::get<T>\<close> throws \<open>std::bad_variant_access\<close> when another alternative is held.\<close>

definition get_int64 :: "variant \<Rightarrow> 64 word res" where
  "get_int64 d = (case d of V_int64 v \<Rightarrow> Inr v | _ \<Rightarrow> Inl Bad_variant_access)"
definition get_uint64 :: "variant \<Rightarrow> 64 word res" where
  "get_uint64 d = (case d of V_uint64 v \<Rightarrow> Inr v | _ \<Rightarrow> Inl Bad_variant_access)"
definition get_int32 :: "variant \<Rightarrow> 32 word res" where
  "get_int32 d = (case d of V_int32 v \<Rightarrow> Inr v | _ \<Rightarrow> Inl Bad_variant_access)"
definition get_uint32 :: "variant \<Rightarrow> 32 word res" where
  "get_uint32 d = (case d of V_uint32 v \<Rightarrow> Inr v | _ \<Rightarrow> Inl Bad_variant_access)"
definition get_double :: "variant \<Rightarrow> f64 res" where
  "get_double d = (case d of V_double v \<Rightarrow> Inr v | _ \<Rightarrow> Inl Bad_variant_access)"
definition get_float :: "variant \<Rightarrow> f32 res" where
  "get_float d = (case d of V_float v \<Rightarrow> Inr v | _ \<Rightarrow> Inl Bad_variant_access)"
definition get_bool :: "variant \<Rightarrow> bool res" where
  "get_bool d = (case d of V_bool v \<Rightarrow> Inr v | _ \<Rightarrow> Inl Bad_variant_access)"
definition get_string :: "variant \<Rightarrow> string res" where
  "get_string d = (case d of V_string v \<Rightarrow> Inr v | _ \<Rightarrow> Inl Bad_variant_access)"
definition get_bytes :: "variant \<Rightarrow> byte list res" where
  "get_bytes d = (case d of V_bytes v \<Rightarrow> Inr v | _ \<Rightarrow> Inl Bad_variant_access)"

lemmas get_defs = get_int64_def get_uint64_def get_int32_def get_uint32_def get_double_def
  get_float_def get_bool_def get_string_def get_bytes_def

definition as_int64 :: "sql_value \<Rightarrow> 64 word res" where
  "as_int64 v = (if is_null v then Inl (Runtime_error ''Value::as_int64: tried to read null value'')
     else get_int64 (vdata v))"
definition as_uint64 :: "sql_value \<Rightarrow> 64 word res" where
  "as_uint64 v = (if is_null v then Inl (Runtime_error ''Value::as_uint64: tried to read null value'')
     else get_uint64 (vdata v))"
definition as_int32 :: "sql_value \<Rightarrow> 32 word res" where
  "as_int32 v = (if is_null v then Inl (Runtime_error ''Value::as_int32: tried to read null value'')
     else get_int32 (vdata v))"
definition as_uint32 :: "sql_value \<Rightarrow> 32 word res" where
  "as_uint32 v = (if is_null v then Inl (Runtime_error ''Value::as_uint32: tried to read null value'')
     else get_uint32 (vdata v))"
definition as_double :: "sql_value \<Rightarrow> f64 res" where
  "as_double v = (if is_null v then Inl (Runtime_error ''Value::as_double: tried to read null value'')
     else get_double (vdata v))"
definition as_float :: "sql_value \<Rightarrow> f32 res" where
  "as_float v = (if is_null v then Inl (Runtime_error ''Value::as_float: tried to read null value'')
     else get_float (vdata v))"
definition as_bool :: "sql_value \<Rightarrow> bool res" where
  "as_bool v = (if is_null v then Inl (Runtime_error ''Value::as_bool: tried to read null value'')
     else get_bool (vdata v))"
definition as_string :: "sql_value \<Rightarrow> string res" where
  "as_string v = (if is_null v then Inl (Runtime_error ''Value::as_string: tried to read null value'')
     else get_string (vdata v))"
definition as_bytes :: "sql_value \<Rightarrow> byte list res" where
  "as_bytes v = (if is_null v then Inl (Runtime_error ''Value::as_bytes: tried to read null value'')
     else get_bytes (vdata v))"

lemmas as_defs = as_int64_def as_uint64_def as_int32_def as_uint32_def as_double_def
  as_float_def as_bool_def as_string_def as_bytes_def

text \<open>\<open>static_cast<std::int64_t>\<close> sign-extends an \<open>int32\<close> and zero-extends a \<open>uint32\<close>.\<close>

definition as_integral :: "sql_value \<Rightarrow> 64 word res" where
  "as_integral v =
     (case vtype v of
        INT32 \<Rightarrow> bind_res (as_int32 v) (\<lambda>w. Inr (scast w))
      | UINT32 \<Rightarrow> bind_res (as_uint32 v) (\<lambda>w. Inr (ucast w))
      | INT64 \<Rightarrow> as_int64 v
      | _ \<Rightarrow> Inl (Runtime_error ''Value::as_integral: is not a non-uint64 integral''))"

definition is_integral :: "sql_value \<Rightarrow> bool" where
  "is_integral v \<longleftrightarrow> vtype v \<in> {INT32, INT64, UINT32, UINT64}"

definition is_floating :: "sql_value \<Rightarrow> bool" where
  "is_floating v \<longleftrightarrow> vtype v \<in> {FLOAT, DOUBLE}"

definition is_numeric :: "sql_value \<Rightarrow> bool" where
  "is_numeric v \<longleftrightarrow> is_integral v \<or> is_floating v"

section \<open>Serialisation of one value\<close>

definition serialized_size :: "sql_value \<Rightarrow> nat res" where
  "serialized_size v =
     (case vtype v of
        INT64 \<Rightarrow> Inr 8 | UINT64 \<Rightarrow> Inr 8 | DOUBLE \<Rightarrow> Inr 8
      | INT32 \<Rightarrow> Inr 4 | UINT32 \<Rightarrow> Inr 4 | FLOAT \<Rightarrow> Inr 4
      | BOOL \<Rightarrow> Inr 1
      | STRING \<Rightarrow> bind_res (get_string (vdata v)) (\<lambda>s. Inr (length s))
      | BYTES \<Rightarrow> bind_res (get_bytes (vdata v)) (\<lambda>b. Inr (length b)))"

definition serialize_to :: "sql_value \<Rightarrow> byte list \<Rightarrow> byte list res" where
  "serialize_to v out =
     (case vtype v of
        INT64 \<Rightarrow> bind_res (get_int64 (vdata v)) (\<lambda>w. Inr (out @ bytes64 w))
      | UINT64 \<Rightarrow> bind_res (get_uint64 (vdata v)) (\<lambda>w. Inr (out @ bytes64 w))
      | DOUBLE \<Rightarrow> bind_res (get_double (vdata v)) (\<lambda>w. Inr (out @ bytes64 w))
      | INT32 \<Rightarrow> bind_res (get_int32 (vdata v)) (\<lambda>w. Inr (out @ bytes32 w))
      | UINT32 \<Rightarrow> bind_res (get_uint32 (vdata v)) (\<lambda>w. Inr (out @ bytes32 w))
      | FLOAT \<Rightarrow> bind_res (get_float (vdata v)) (\<lambda>w. Inr (out @ bytes32 w))
      | BOOL \<Rightarrow> bind_res (get_bool (vdata v)) (\<lambda>b. Inr (out @ [if b then 1 else 0]))
      | STRING \<Rightarrow> bind_res (get_string (vdata v)) (\<lambda>s. Inr (out @ map byte_of_char s))
      | BYTES \<Rightarrow> bind_res (get_bytes (vdata v)) (\<lambda>b. Inr (out @ b)))"

section \<open>Equality\<close>

fun variant_equal :: "variant \<Rightarrow> variant \<Rightarrow> bool" where
  "variant_equal (V_double a) (V_double b) = f64_equal a b"
| "variant_equal (V_float a) (V_float b) = f32_equal a b"
| "variant_equal a b = (a = b)"

definition value_equal :: "sql_value \<Rightarrow> sql_value \<Rightarrow> bool" where
  "value_equal a b =
     (if is_null a \<noteq> is_null b then False
      else if is_null a then vtype a = vtype b
      else vtype a = vtype b \<and> variant_equal (vdata a) (vdata b))"

section \<open>Well-typed values\<close>

text \<open>What the static factories \<open>Value::of\<close> and \<open>Value::null\<close> build: the variant agrees with the tag.\<close>

fun variant_type :: "variant \<Rightarrow> value_type" where
  "variant_type (V_uint64 _) = UINT64"
| "variant_type (V_int64 _) = INT64"
| "variant_type (V_uint32 _) = UINT32"
| "variant_type (V_int32 _) = INT32"
| "variant_type (V_double _) = DOUBLE"
| "variant_type (V_float _) = FLOAT"
| "variant_type (V_bool _) = BOOL"
| "variant_type (V_string _) = STRING"
| "variant_type (V_bytes _) = BYTES"

definition wf_value :: "sql_value \<Rightarrow> bool" where
  "wf_value v \<longleftrightarrow> (if is_null v then vdata v = V_uint64 0 else variant_type (vdata v) = vtype v)"

fun variant_bytes :: "variant \<Rightarrow> byte list" where
  "variant_bytes (V_uint64 w) = bytes64 w"
| "variant_bytes (V_int64 w) = bytes64 w"
| "variant_bytes (V_uint32 w) = bytes32 w"
| "variant_bytes (V_int32 w) = bytes32 w"
| "variant_bytes (V_double w) = bytes64 w"
| "variant_bytes (V_float w) = bytes32 w"
| "variant_bytes (V_bool b) = [if b then 1 else 0]"
| "variant_bytes (V_string s) = map byte_of_char s"
| "variant_bytes (V_bytes b) = b"

lemma wf_factories [simp]:
  "wf_value (null_value t)" "wf_value (of_int64 a)" "wf_value (of_uint64 a)" "wf_value (of_int32 b)"
  "wf_value (of_uint32 b)" "wf_value (of_double a)" "wf_value (of_float b)" "wf_value (of_boolean c)"
  "wf_value (of_string s)" "wf_value (of_blob d)"
  by (simp_all add: wf_value_def null_value_def of_value_defs)

lemma serialize_to_wf:
  "wf_value v \<Longrightarrow> \<not> is_null v \<Longrightarrow> serialize_to v out = Inr (out @ variant_bytes (vdata v))"
  by (cases "vdata v") (auto simp: wf_value_def serialize_to_def get_defs)

lemma serialized_size_wf:
  "wf_value v \<Longrightarrow> \<not> is_null v \<Longrightarrow> serialized_size v = Inr (length (variant_bytes (vdata v)))"
  by (cases "vdata v") (auto simp: wf_value_def serialized_size_def get_defs)

end
