(* ===== verification/Schema_Model.thy ===== *)
theory Schema_Model
  imports Value_Model
begin

text \<open>
  \<open>Column\<close> and \<open>Schema\<close> (\<open>include/duck/tuple/column.hpp\<close>, \<open>schema.hpp\<close> and their sources): column
  metadata, lookup by name and position, concatenation, projection, and the byte format the catalog
  stores. A \<open>Schema\<close> is its vector of columns. The locale \<open>record_codec\<close> is the contract between
  the decoder of one record and the loop that reads a sequence of them behind a 16-bit offset.
\<close>

section \<open>Columns\<close>

record column =
  col_name :: string
  col_type :: type_id
  col_length :: "16 word"

definition is_fixed_size :: "column \<Rightarrow> bool" where
  "is_fixed_size c \<longleftrightarrow>
     col_type c \<in> {T_INT64, T_UINT64, T_INT32, T_UINT32, T_DOUBLE, T_FLOAT, T_BOOL, T_CHAR}"

definition column_serialize :: "column \<Rightarrow> byte list" where
  "column_serialize c =
     bytes16 (of_nat (length (col_name c))) @ map byte_of_char (col_name c)
     @ bytes16 (type_code (col_type c)) @ bytes16 (col_length c)"

definition column_deserialize :: "byte list \<Rightarrow> (column \<times> 16 word) res" where
  "column_deserialize raw =
     bind_res (check (\<not> length raw < 2)
       (Runtime_error ''Column::deserialize: raw data too small for name length'')) (\<lambda>_.
     let name_length = unat (of_bytes16 (slice 0 2 raw)); offset = 2 in
     bind_res (check (\<not> length raw < offset + name_length + 4)
       (Runtime_error ''Column::deserialize: raw data too small for column body'')) (\<lambda>_.
     let name = map char_of_byte (slice offset name_length raw);
         offset = offset + name_length;
         type = type_of_code (of_bytes16 (slice offset 2 raw));
         offset = offset + 2;
         len = of_bytes16 (slice offset 2 raw)
     in Inr (\<lparr>col_name = name, col_type = type, col_length = len\<rparr>, of_nat (offset + 2))))"

section \<open>Schemas\<close>

type_synonym schema = "column list"

definition schema_make :: "column list \<Rightarrow> schema res" where
  "schema_make columns =
     (if length columns = 0
      then Inl (Runtime_error ''Schema::Schema: tried to create schema with 0 columns'')
      else Inr columns)"

text \<open>\<open>columns_.at(index)\<close>\<close>

definition schema_column :: "schema \<Rightarrow> nat \<Rightarrow> column res" where
  "schema_column s i = (if i < length s then Inr (s ! i) else Inl Out_of_range)"

fun column_index_from :: "nat \<Rightarrow> schema \<Rightarrow> string \<Rightarrow> nat option" where
  "column_index_from i [] name = None"
| "column_index_from i (c # cs) name =
     (if col_name c = name then Some i else column_index_from (Suc i) cs name)"

definition column_index :: "schema \<Rightarrow> string \<Rightarrow> nat option" where
  "column_index s name = column_index_from 0 s name"

definition fixed_size_of_column :: "column \<Rightarrow> 16 word res" where
  "fixed_size_of_column c =
     (case col_type c of
        T_INT64 \<Rightarrow> Inr 8 | T_UINT64 \<Rightarrow> Inr 8 | T_DOUBLE \<Rightarrow> Inr 8
      | T_INT32 \<Rightarrow> Inr 4 | T_UINT32 \<Rightarrow> Inr 4 | T_FLOAT \<Rightarrow> Inr 4
      | T_BOOL \<Rightarrow> Inr 1
      | T_CHAR \<Rightarrow> Inr (col_length c)
      | T_VARCHAR \<Rightarrow> Inr 0 | T_VARBINARY \<Rightarrow> Inr 0
      | Unknown_TypeId _ \<Rightarrow> Inl (Runtime_error ''Schema::fixed_size_of: unknown typeId''))"

definition fixed_size_of :: "schema \<Rightarrow> nat \<Rightarrow> 16 word res" where
  "fixed_size_of s i = bind_res (schema_column s i) fixed_size_of_column"

definition compatible_with :: "schema \<Rightarrow> schema \<Rightarrow> bool" where
  "compatible_with s other \<longleftrightarrow> s = other"

definition schema_plus :: "schema \<Rightarrow> schema \<Rightarrow> schema res" where
  "schema_plus s other = schema_make (s @ other)"

definition schema_projected :: "schema \<Rightarrow> nat list \<Rightarrow> schema res" where
  "schema_projected s idxs = bind_res (map_res (schema_column s) idxs) schema_make"

text \<open>
  The column count is cast to 16 bits and bounds the loop, so only that many columns are written.
\<close>

definition schema_serialize :: "schema \<Rightarrow> byte list" where
  "schema_serialize s =
     (let n = (of_nat (length s) :: 16 word)
      in bytes16 n @ concat (map column_serialize (take (unat n) s)))"

text \<open>
  The reading loop: \<open>n\<close> records are left, \<open>offset\<close> is a \<open>std::uint16_t\<close> that wraps.
\<close>

fun read_records ::
  "(byte list \<Rightarrow> ('a \<times> 16 word) res) \<Rightarrow> exn \<Rightarrow> nat \<Rightarrow> 16 word \<Rightarrow> byte list \<Rightarrow> 'a list res" where
  "read_records decode too_small 0 offset raw = Inr []"
| "read_records decode too_small (Suc n) offset raw =
     bind_res (check (\<not> length raw < unat offset) too_small) (\<lambda>_.
     bind_res (decode (drop (unat offset) raw)) (\<lambda>(x, size).
     bind_res (read_records decode too_small n (offset + size) raw) (\<lambda>xs.
     Inr (x # xs))))"

definition schema_deserialize :: "byte list \<Rightarrow> schema res" where
  "schema_deserialize raw =
     bind_res (check (\<not> length raw < 2)
       (Runtime_error ''Schema::deserialize: raw data too small for column count'')) (\<lambda>_.
     read_records column_deserialize
       (Runtime_error ''Schema::deserialize: raw data too small for specified column count'')
       (unat (of_bytes16 (slice 0 2 raw))) 2 raw)"

section \<open>Reading a sequence of records\<close>

locale record_codec =
  fixes enc :: "'a \<Rightarrow> byte list"
    and decode :: "byte list \<Rightarrow> ('a \<times> 16 word) res"
    and ok :: "'a \<Rightarrow> bool"
  assumes decode_enc:
    "ok x \<Longrightarrow> length (enc x) < 2 ^ 16 \<Longrightarrow> decode (enc x @ rest) = Inr (x, of_nat (length (enc x)))"
begin

lemma read_records_concat:
  "(\<And>x. x \<in> set xs \<Longrightarrow> ok x) \<Longrightarrow>
   length pre + length (concat (map enc xs)) < 2 ^ 16 \<Longrightarrow>
   read_records decode e (length xs) (of_nat (length pre)) (pre @ concat (map enc xs) @ rest) = Inr xs"
proof (induction xs arbitrary: pre)
  case Nil
  then show ?case by simp
next
  case (Cons x xs)
  let ?raw = "pre @ concat (map enc (x # xs)) @ rest"
  have off: "unat (of_nat (length pre) :: 16 word) = length pre"
    using Cons.prems(2) by (simp add: unat_of_nat)
  have "decode (drop (length pre) ?raw) = Inr (x, of_nat (length (enc x)))"
    using decode_enc [of x "concat (map enc xs) @ rest"] Cons.prems by simp
  moreover have "read_records decode e (length xs) (of_nat (length (pre @ enc x)))
      ((pre @ enc x) @ concat (map enc xs) @ rest) = Inr xs"
    using Cons.prems by (intro Cons.IH) auto
  ultimately show ?case by (simp add: off)
qed

end

section \<open>Round trips\<close>

definition storable_column :: "column \<Rightarrow> bool" where
  "storable_column c \<longleftrightarrow> known_type (col_type c)"

lemma length_column_serialize [simp]: "length (column_serialize c) = length (col_name c) + 6"
  by (simp add: column_serialize_def)

lemma column_deserialize_serialize:
  assumes "known_type (col_type c)" and "length (col_name c) < 2 ^ 16"
  shows "column_deserialize (column_serialize c @ rest) = Inr (c, of_nat (length (col_name c) + 6))"
proof -
  let ?n = "length (col_name c)"
  let ?name = "map byte_of_char (col_name c)"
  let ?type = "bytes16 (type_code (col_type c))" and ?len = "bytes16 (col_length c)"
  let ?raw = "bytes16 (of_nat ?n) @ ?name @ ?type @ ?len @ rest"
  have n: "unat (of_nat ?n :: 16 word) = ?n"
    using assms(2) by (simp add: unat_of_nat)
  have s: "slice 0 2 ?raw = bytes16 (of_nat ?n)" "slice 2 ?n ?raw = ?name"
    "slice (2 + ?n) 2 ?raw = ?type" "slice (2 + ?n + 2) 2 ?raw = ?len"
    by (simp_all add: slice_def)
  have raw: "column_serialize c @ rest = ?raw" by (simp add: column_serialize_def)
  show ?thesis
    unfolding raw column_deserialize_def Let_def s(1) u16.dec_enc n s(2-4)
    using assms(1) by (simp add: type_of_code_type_code algebra_simps)
qed

interpretation col: record_codec column_serialize column_deserialize storable_column
  by unfold_locales (simp add: column_deserialize_serialize storable_column_def)

text \<open>
  Serialisation of a column reads back as that column, whatever follows it in the buffer.
\<close>

lemma schema_deserialize_serialize:
  assumes "\<And>c. c \<in> set s \<Longrightarrow> known_type (col_type c)"
    and "length (schema_serialize s) < 2 ^ 16" and "length s < 2 ^ 16"
  shows "schema_deserialize (schema_serialize s @ rest) = Inr s"
proof -
  have n: "unat (of_nat (length s) :: 16 word) = length s"
    using assms(3) by (simp add: unat_of_nat)
  have ser: "schema_serialize s =
      bytes16 (of_nat (length s)) @ concat (map column_serialize s)"
    unfolding schema_serialize_def Let_def n by simp
  have "read_records column_deserialize e (length s)
      (of_nat (length (bytes16 (of_nat (length s)))))
      (bytes16 (of_nat (length s)) @ concat (map column_serialize s) @ rest) = Inr s" for e
    using assms by (intro col.read_records_concat) (auto simp: storable_column_def ser)
  moreover have "slice 0 2 (schema_serialize s @ rest) = bytes16 (of_nat (length s))"
    by (simp add: ser slice_def)
  ultimately show ?thesis
    unfolding schema_deserialize_def by (simp add: ser n)
qed

lemma column_index_from_Suc:
  "column_index_from (Suc i) s name = map_option Suc (column_index_from i s name)"
  by (induction s arbitrary: i) auto

lemma column_index_Cons:
  "column_index (c # s) name =
     (if col_name c = name then Some 0 else map_option Suc (column_index s name))"
  by (simp add: column_index_def column_index_from_Suc)

lemma column_index_None: "column_index s name = None \<longleftrightarrow> name \<notin> set (map col_name s)"
  by (induction s) (auto simp: column_index_Cons, simp add: column_index_def)

lemma column_index_Some:
  "column_index s name = Some j \<Longrightarrow>
   j < length s \<and> col_name (s ! j) = name \<and> (\<forall>k < j. col_name (s ! k) \<noteq> name)"
proof (induction s arbitrary: j)
  case Nil
  then show ?case by (simp add: column_index_def)
next
  case (Cons c s)
  show ?case
  proof (cases "col_name c = name")
    case True
    with Cons.prems show ?thesis by (simp add: column_index_Cons)
  next
    case False
    with Cons.prems obtain i where i: "column_index s name = Some i" and j: "j = Suc i"
      by (auto simp: column_index_Cons)
    from Cons.IH [OF i] have "\<forall>k < Suc i. col_name ((c # s) ! k) \<noteq> name"
      using False by (auto simp: nth_Cons split: nat.splits)
    with Cons.IH [OF i] j show ?thesis by simp
  qed
qed

lemma schema_column_plus:
  "schema_plus s t = Inr u \<Longrightarrow> i < length t \<Longrightarrow> schema_column u (length s + i) = schema_column t i"
  by (auto simp: schema_plus_def schema_make_def schema_column_def split: if_splits)

end
