(* ===== verification/Tuple_Codec.thy ===== *)
theory Tuple_Codec
  imports Schema_Model
begin

unbundle bit_operations_syntax

text \<open>
  \<open>Tuple\<close> and \<open>NullBitmap\<close> (\<open>include/duck/tuple/tuple.hpp\<close>, \<open>src/tuple/tuple.cpp\<close>): the row format
  is a null bitmap, then one field per column, fixed-size columns padded and variable-length columns
  behind a 16-bit length. Offsets are kept in \<open>std::uint16_t\<close>. A read behind the end of the raw
  bytes is \<open>Undefined\<close>.
\<close>

section \<open>The null bitmap\<close>

definition bitmap_size :: "nat \<Rightarrow> nat" where
  "bitmap_size column_count = (column_count + 7) div 8"

definition bitmap_is_null :: "byte list \<Rightarrow> nat \<Rightarrow> bool res" where
  "bitmap_is_null bitmap column =
     (if column div 8 < length bitmap then Inr (bit (bitmap ! (column div 8)) (column mod 8))
      else Inl Undefined)"

definition bitmap_set_null :: "byte list \<Rightarrow> nat \<Rightarrow> byte list" where
  "bitmap_set_null bitmap column =
     (let byte_index = column div 8; bit_index = column mod 8
      in bitmap[byte_index := bitmap ! byte_index OR push_bit bit_index 1])"

section \<open>Tuples\<close>

record tuple =
  tvalues :: "sql_value list"
  tschema :: schema

text \<open>\<open>Tuple(std::vector<Value>, const Schema&)\<close>: the values' tags must match the column types.\<close>

fun check_value_types :: "sql_value list \<Rightarrow> schema \<Rightarrow> unit res" where
  "check_value_types (v # vs) (c # cs) =
     bind_res (type_id_to_value_type (col_type c)) (\<lambda>t.
     if vtype v \<noteq> t
     then Inl (Runtime_error ''Tuple::Tuple: value type is not supported by column type'')
     else check_value_types vs cs)"
| "check_value_types _ _ = Inr ()"

definition tuple_make :: "sql_value list \<Rightarrow> schema \<Rightarrow> tuple res" where
  "tuple_make values s =
     bind_res (check (length values = length s)
       (Runtime_error ''Tuple::Tuple: value vector size doesn't match schema column count'')) (\<lambda>_.
     bind_res (check_value_types values s) (\<lambda>_.
     Inr \<lparr>tvalues = values, tschema = s\<rparr>))"

definition tuple_get :: "tuple \<Rightarrow> nat \<Rightarrow> sql_value res" where
  "tuple_get t i = (if i < length (tvalues t) then Inr (tvalues t ! i) else Inl Out_of_range)"

definition tuple_get_by_name :: "tuple \<Rightarrow> string \<Rightarrow> sql_value res" where
  "tuple_get_by_name t name =
     (case column_index (tschema t) name of
        None \<Rightarrow> Inl (Runtime_error ''Tuple::get: no such column'')
      | Some i \<Rightarrow> tuple_get t i)"

section \<open>Reading\<close>

definition read_length :: "byte list \<Rightarrow> 16 word \<Rightarrow> 16 word res" where
  "read_length raw offset =
     (if unat offset + 2 \<le> length raw then Inr (of_bytes16 (slice (unat offset) 2 raw))
      else Inl Undefined)"

text \<open>
  \<open>offset\<close> is a \<open>size_t\<close>; it is cast to 16 bits when it is stored and when a length is read. A fixed
  size of 0 is taken for a variable-length column.
\<close>

fun compute_offsets_from :: "schema \<Rightarrow> byte list \<Rightarrow> nat \<Rightarrow> 16 word list res" where
  "compute_offsets_from [] raw offset = Inr []"
| "compute_offsets_from (c # cs) raw offset =
     bind_res (fixed_size_of_column c) (\<lambda>fixed.
     bind_res (if fixed > 0 then Inr (unat fixed)
               else bind_res (read_length raw (of_nat offset)) (\<lambda>len. Inr (unat len + 2))) (\<lambda>step.
     bind_res (compute_offsets_from cs raw (offset + step)) (\<lambda>rest.
     Inr (of_nat offset # rest))))"

definition compute_offsets :: "schema \<Rightarrow> byte list \<Rightarrow> 16 word list res" where
  "compute_offsets s raw = compute_offsets_from s raw (bitmap_size (length s))"

text \<open>\<open>find_last_not_of('\0')\<close> and \<open>resize\<close>\<close>

definition strip_nul :: "string \<Rightarrow> string" where
  "strip_nul s = rev (dropWhile (\<lambda>c. c = CHR 0x00) (rev s))"

definition decode_field :: "type_id \<Rightarrow> byte list \<Rightarrow> sql_value res" where
  "decode_field type raw =
     (case type of
        T_INT64 \<Rightarrow> Inr (of_int64 (of_bytes64 raw))
      | T_UINT64 \<Rightarrow> Inr (of_uint64 (of_bytes64 raw))
      | T_DOUBLE \<Rightarrow> Inr (of_double (of_bytes64 raw))
      | T_INT32 \<Rightarrow> Inr (of_int32 (of_bytes32 raw))
      | T_UINT32 \<Rightarrow> Inr (of_uint32 (of_bytes32 raw))
      | T_FLOAT \<Rightarrow> Inr (of_float (of_bytes32 raw))
      | T_BOOL \<Rightarrow> Inr (of_boolean (raw ! 0 \<noteq> 0))
      | T_CHAR \<Rightarrow> Inr (of_string (strip_nul (map char_of_byte raw)))
      | T_VARCHAR \<Rightarrow> Inr (of_string (map char_of_byte raw))
      | T_VARBINARY \<Rightarrow> Inr (of_blob raw)
      | Unknown_TypeId _ \<Rightarrow> Inl (Runtime_error ''Tuple::get: unknown TypeId''))"

definition deserialize_value :: "schema \<Rightarrow> byte list \<Rightarrow> 16 word list \<Rightarrow> nat \<Rightarrow> sql_value res" where
  "deserialize_value s raw offsets i =
     bind_res (bitmap_is_null raw i) (\<lambda>null.
     bind_res (schema_column s i) (\<lambda>c.
     if null then bind_res (type_id_to_value_type (col_type c)) (\<lambda>t. Inr (null_value t))
     else
       bind_res (fixed_size_of s i) (\<lambda>fixed.
       bind_res (if is_fixed_size c then Inr (offsets ! i, unat fixed)
                 else bind_res (read_length raw (offsets ! i))
                        (\<lambda>len. Inr (offsets ! i + 2, unat len))) (\<lambda>(offset, size).
       if unat offset + size \<le> length raw
       then decode_field (col_type c) (slice (unat offset) size raw)
       else Inl Undefined))))"

definition tuple_deserialize :: "byte list \<Rightarrow> schema \<Rightarrow> tuple res" where
  "tuple_deserialize raw s =
     bind_res (compute_offsets s raw) (\<lambda>offsets.
     bind_res (map_res (deserialize_value s raw offsets) [0..<length s]) (\<lambda>values.
     Inr \<lparr>tvalues = values, tschema = s\<rparr>))"

section \<open>Writing\<close>

fun set_nulls :: "nat \<Rightarrow> sql_value list \<Rightarrow> byte list \<Rightarrow> byte list" where
  "set_nulls i [] out = out"
| "set_nulls i (v # vs) out = set_nulls (Suc i) vs (if is_null v then bitmap_set_null out i else out)"

text \<open>
  The length checks. The tests on \<open>T_VARBINARY\<close> stand inside the branch for the two string types, as
  they do in the code.
\<close>

definition check_field_length :: "column \<Rightarrow> sql_value \<Rightarrow> unit res" where
  "check_field_length c v =
     (if is_null v then Inr ()
      else if col_type c = T_CHAR \<or> col_type c = T_VARCHAR then
        bind_res (serialized_size v) (\<lambda>value_size.
        if col_type c = T_CHAR \<and> value_size > unat (col_length c)
        then Inl (Runtime_error ''Tuple::serialize: CHAR value exceeds defined size'')
        else if col_type c = T_VARCHAR \<and> col_length c > 0 \<and> value_size > unat (col_length c)
        then Inl (Runtime_error ''Tuple::serialize: VARCHAR value exceeds defined maximum size'')
        else if col_type c = T_VARCHAR \<and> value_size > 0xFFFF
        then Inl (Runtime_error ''Tuple::serialize: VARCHAR value exceeds 65535-byte protocol limit'')
        else if col_type c = T_VARBINARY \<and> col_length c > 0 \<and> value_size > unat (col_length c)
        then Inl (Runtime_error ''Tuple::serialize: VARBINARY value exceeds defined maximum size'')
        else if col_type c = T_VARBINARY \<and> value_size > 0xFFFF
        then Inl (Runtime_error ''Tuple::serialize: VARBINARY value exceeds 65535-byte protocol limit'')
        else Inr ())
      else Inr ())"

definition serialize_field :: "column \<Rightarrow> sql_value \<Rightarrow> byte list \<Rightarrow> byte list res" where
  "serialize_field c v out =
     bind_res (check_field_length c v) (\<lambda>_.
     if is_fixed_size c then
       bind_res (fixed_size_of_column c) (\<lambda>fixed.
       let start = length out in
       bind_res (if \<not> is_null v then serialize_to v out else Inr out) (\<lambda>out.
       let written = length out - start in
       Inr (if written < unat fixed then out @ replicate (unat fixed - written) 0 else out)))
     else
       bind_res (if is_null v then Inr 0 else bind_res (serialized_size v) (\<lambda>n. Inr (of_nat n))) (\<lambda>len.
       let out = out @ bytes16 len in
       if \<not> is_null v then serialize_to v out else Inr out))"

fun serialize_fields :: "schema \<Rightarrow> sql_value list \<Rightarrow> byte list \<Rightarrow> byte list res" where
  "serialize_fields (c # cs) (v # vs) out =
     bind_res (serialize_field c v out) (\<lambda>out. serialize_fields cs vs out)"
| "serialize_fields _ _ out = Inr out"

definition tuple_serialize :: "tuple \<Rightarrow> byte list res" where
  "tuple_serialize t =
     (let out = replicate (bitmap_size (length (tschema t))) 0
      in serialize_fields (tschema t) (tvalues t) (set_nulls 0 (tvalues t) out))"

section \<open>The row format\<close>

text \<open>
  \<open>field_bytes c v\<close> is what a field occupies in a row; \<open>storable c v\<close> are the values a column can
  hold without loss: a \<open>CHAR\<close> value has no trailing NUL and its column a positive length.
\<close>

definition payload :: "sql_value \<Rightarrow> byte list" where
  "payload v = (if is_null v then [] else variant_bytes (vdata v))"

fun fixed_width :: "column \<Rightarrow> nat" where
  "fixed_width c = (case col_type c of
      T_INT64 \<Rightarrow> 8 | T_UINT64 \<Rightarrow> 8 | T_DOUBLE \<Rightarrow> 8 | T_INT32 \<Rightarrow> 4 | T_UINT32 \<Rightarrow> 4 | T_FLOAT \<Rightarrow> 4
    | T_BOOL \<Rightarrow> 1 | T_CHAR \<Rightarrow> unat (col_length c) | _ \<Rightarrow> 0)"

definition field_bytes :: "column \<Rightarrow> sql_value \<Rightarrow> byte list" where
  "field_bytes c v =
     (if is_fixed_size c then payload v @ replicate (fixed_width c - length (payload v)) 0
      else bytes16 (of_nat (length (payload v))) @ payload v)"

definition storable :: "column \<Rightarrow> sql_value \<Rightarrow> bool" where
  "storable c v \<longleftrightarrow>
     wf_value v \<and> type_id_to_value_type (col_type c) = Inr (vtype v) \<and>
     (col_type c = T_CHAR \<longrightarrow> 0 < col_length c) \<and>
     (\<not> is_null v \<longrightarrow>
        (case vdata v of
           V_string s \<Rightarrow>
             (if col_type c = T_CHAR then length s \<le> unat (col_length c) \<and> strip_nul s = s
              else length s \<le> 65535 \<and> (col_length c = 0 \<or> length s \<le> unat (col_length c)))
         | V_bytes b \<Rightarrow> length b \<le> 65535
         | _ \<Rightarrow> True))"

lemma storable_known: "storable c v \<Longrightarrow> known_type (col_type c)"
  by (cases "col_type c") (auto simp: storable_def)

lemma fixed_size_of_column_known:
  "known_type (col_type c) \<Longrightarrow> fixed_size_of_column c = Inr (of_nat (fixed_width c))"
  by (cases "col_type c") (auto simp: fixed_size_of_column_def)

lemma fixed_width_less: "fixed_width c < 65536"
  using unsigned_less [of "col_length c", where 'a = nat] by (auto split: type_id.split)

lemma unat_fixed_width [simp]: "unat (of_nat (fixed_width c) :: 16 word) = fixed_width c"
  using fixed_width_less [of c] by (simp add: unat_of_nat del: fixed_width.simps)

lemma storable_variant_type:
  "storable c v \<Longrightarrow> \<not> is_null v \<Longrightarrow> type_id_to_value_type (col_type c) = Inr (variant_type (vdata v))"
  by (auto simp: storable_def wf_value_def)

lemma storable_payload_width:
  assumes "storable c v"
  shows "if is_fixed_size c then length (payload v) \<le> fixed_width c else length (payload v) < 2 ^ 16"
  using assms storable_variant_type [OF assms]
  by (cases "col_type c"; cases "vdata v")
     (auto simp: payload_def is_fixed_size_def storable_def split: if_splits)

lemma check_field_length_storable: "storable c v \<Longrightarrow> check_field_length c v = Inr ()"
  using storable_variant_type [of c v]
  by (cases "col_type c"; cases "vdata v")
     (auto simp: check_field_length_def serialized_size_wf storable_def not_less word_gt_0)

lemma serialize_field_storable:
  assumes "storable c v"
  shows "serialize_field c v out = Inr (out @ field_bytes c v)"
proof -
  have wf: "wf_value v" using assms by (simp add: storable_def)
  have ser: "(if \<not> is_null v then serialize_to v xs else Inr xs) = Inr (xs @ payload v)" for xs
    using wf by (simp add: serialize_to_wf payload_def)
  have len: "(if is_null v then Inr 0 else bind_res (serialized_size v) (\<lambda>n. Inr (of_nat n)))
      = (Inr (of_nat (length (payload v))) :: 16 word res)"
    using wf by (simp add: serialized_size_wf payload_def)
  show ?thesis
    unfolding serialize_field_def ser len check_field_length_storable [OF assms]
    using fixed_size_of_column_known [OF storable_known [OF assms]] storable_payload_width [OF assms]
    by (simp add: field_bytes_def Let_def del: fixed_width.simps)
qed

definition row_fields :: "schema \<Rightarrow> sql_value list \<Rightarrow> byte list list" where
  "row_fields s vs = map (\<lambda>(c, v). field_bytes c v) (zip s vs)"

lemma serialize_fields_storable:
  "list_all2 storable s vs \<Longrightarrow> serialize_fields s vs out = Inr (out @ concat (row_fields s vs))"
  by (induction s vs arbitrary: out rule: list_all2_induct)
     (simp_all add: row_fields_def serialize_field_storable)

section \<open>The bitmap read back\<close>

lemma length_set_nulls [simp]: "length (set_nulls i vs out) = length out"
  by (induction vs arbitrary: i out) (simp_all add: bitmap_set_null_def Let_def)

lemma bit_set_null:
  assumes "i div 8 < length out" and "j div 8 < length out"
  shows "bit (bitmap_set_null out i ! (j div 8)) (j mod 8) \<longleftrightarrow> i = j \<or> bit (out ! (j div 8)) (j mod 8)"
proof -
  have "i = j \<longleftrightarrow> i div 8 = j div 8 \<and> i mod 8 = j mod 8"
    by (metis div_mod_decomp)
  with assms show ?thesis
    by (auto simp: bitmap_set_null_def Let_def nth_list_update bit_or_iff bit_exp_iff)
qed

lemma bit_set_nulls:
  assumes "j div 8 < length out" and "i + length vs \<le> 8 * length out"
  shows "bit (set_nulls i vs out ! (j div 8)) (j mod 8) \<longleftrightarrow>
    bit (out ! (j div 8)) (j mod 8) \<or> (i \<le> j \<and> j < i + length vs \<and> is_null (vs ! (j - i)))"
  using assms
proof (induction vs arbitrary: i out)
  case Nil
  then show ?case by auto
next
  case (Cons v vs)
  have i: "i div 8 < length out" using Cons.prems(2) by simp
  show ?case
  proof (cases "is_null v")
    case True
    have "length (bitmap_set_null out i) = length out"
      by (simp add: bitmap_set_null_def Let_def)
    with Cons.IH [of "bitmap_set_null out i" "Suc i"] Cons.prems True i show ?thesis
      by (auto simp: bit_set_null nth_Cons' Suc_diff_Suc)
  next
    case False
    with Cons.IH [of out "Suc i"] Cons.prems show ?thesis
      by (auto simp: nth_Cons' not_less_eq_eq)
  qed
qed

lemma bitmap_bits:
  assumes "i < length vs"
  shows "bitmap_is_null (set_nulls 0 vs (replicate (bitmap_size (length vs)) 0) @ rest) i
    = Inr (is_null (vs ! i))"
proof -
  have "i div 8 < bitmap_size (length vs)" and "length vs \<le> 8 * bitmap_size (length vs)"
    using assms by (auto simp: bitmap_size_def)
  with bit_set_nulls [of i "replicate (bitmap_size (length vs)) 0" 0 vs] assms show ?thesis
    by (auto simp: bitmap_is_null_def nth_append)
qed

section \<open>Offsets\<close>

fun starts :: "nat \<Rightarrow> byte list list \<Rightarrow> 16 word list" where
  "starts off [] = []"
| "starts off (f # fs) = of_nat off # starts (off + length f) fs"

lemma length_starts [simp]: "length (starts off fs) = length fs"
  by (induction fs arbitrary: off) auto

lemma nth_starts: "i < length fs \<Longrightarrow> starts off fs ! i = of_nat (off + length (concat (take i fs)))"
proof (induction fs arbitrary: off i)
  case Nil
  then show ?case by simp
next
  case (Cons f fs)
  then show ?case by (cases i) (simp_all add: add.assoc)
qed

lemma storable_fixed_width_pos:
  "storable c v \<Longrightarrow> 0 < fixed_width c \<longleftrightarrow> is_fixed_size c"
  by (cases "col_type c") (auto simp: storable_def is_fixed_size_def unat_gt_0)

lemma length_field_bytes:
  "storable c v \<Longrightarrow> length (field_bytes c v) =
     (if is_fixed_size c then fixed_width c else length (payload v) + 2)"
  using storable_payload_width [of c v]
  by (auto simp: field_bytes_def simp del: fixed_width.simps split: if_splits)

text \<open>The length prefix of a variable-length field, read where the field starts.\<close>

lemma read_length_field:
  assumes "storable c v" and "\<not> is_fixed_size c" and "length pre < 2 ^ 16"
  shows "read_length (pre @ field_bytes c v @ rest) (of_nat (length pre)) = Inr (of_nat (length (payload v)))"
  using assms by (simp add: read_length_def field_bytes_def unat_of_nat slice_def)

lemma compute_offsets_from_fields:
  "list_all2 storable s vs \<Longrightarrow> length pre + length (concat (row_fields s vs)) < 2 ^ 16 \<Longrightarrow>
   compute_offsets_from s (pre @ concat (row_fields s vs)) (length pre) = Inr (starts (length pre) (row_fields s vs))"
proof (induction s vs arbitrary: pre rule: list_all2_induct)
  case Nil
  then show ?case by (simp add: row_fields_def)
next
  case (Cons c s v vs)
  let ?f = "field_bytes c v" and ?fs = "row_fields s vs"
  have fs: "row_fields (c # s) (v # vs) = ?f # ?fs" by (simp add: row_fields_def)
  have small: "length pre < 2 ^ 16" "length (payload v) < 2 ^ 16"
    using Cons.prems storable_payload_width [OF Cons.hyps(1)]
      length_field_bytes [OF Cons.hyps(1)] by (auto simp: fs split: if_splits)
  have "compute_offsets_from s ((pre @ ?f) @ concat ?fs) (length (pre @ ?f))
      = Inr (starts (length (pre @ ?f)) ?fs)"
    using Cons.prems by (intro Cons.IH) (simp add: fs)
  moreover have "bind_res (fixed_size_of_column c) (\<lambda>fixed.
      if fixed > 0 then Inr (unat fixed)
      else bind_res (read_length (pre @ ?f @ concat ?fs) (of_nat (length pre)))
        (\<lambda>len. Inr (unat len + 2))) = Inr (length ?f)"
    using small storable_fixed_width_pos [OF Cons.hyps(1)] read_length_field [OF Cons.hyps(1)]
      fixed_width_less [of c]
    by (simp add: fixed_size_of_column_known [OF storable_known [OF Cons.hyps(1)]]
        length_field_bytes [OF Cons.hyps(1)] word_gt_0 unat_of_nat del: fixed_width.simps
        flip: unat_gt_0)
  ultimately show ?case
    by (simp add: fs fixed_size_of_column_known [OF storable_known [OF Cons.hyps(1)]])
qed

section \<open>Round trip of a row\<close>

lemma strip_nul_pad: "strip_nul (s @ replicate n (CHR 0x00)) = strip_nul s"
proof -
  have "dropWhile (\<lambda>c. c = CHR 0x00) (replicate n (CHR 0x00) @ rev s) = dropWhile (\<lambda>c. c = CHR 0x00) (rev s)"
    by (induction n) auto
  then show ?thesis by (simp add: strip_nul_def)
qed

lemma char_of_byte_zero [simp]: "char_of_byte 0 = CHR 0x00"
  by (simp add: char_of_byte_def char_of_def)

definition stored :: "column \<Rightarrow> sql_value \<Rightarrow> byte list" where
  "stored c v = (if is_fixed_size c then field_bytes c v else payload v)"

lemma decode_stored:
  assumes "storable c v" and "\<not> is_null v"
  shows "decode_field (col_type c) (stored c v) = Inr v"
  using assms storable_variant_type [OF assms]
  by (cases "col_type c"; cases "vdata v"; cases v)
     (auto simp: decode_field_def stored_def field_bytes_def payload_def is_fixed_size_def
       of_value_defs storable_def wf_value_def strip_nul_pad)

lemma null_value_storable:
  "storable c v \<Longrightarrow> is_null v \<Longrightarrow> null_value (vtype v) = v"
  by (cases v) (auto simp: storable_def wf_value_def null_value_def)

lemma concat_split_at:
  "i < length fs \<Longrightarrow> concat fs = concat (take i fs) @ fs ! i @ concat (drop (Suc i) fs)"
  by (metis id_take_nth_drop concat_append concat.simps(2))

lemma deserialize_value_field:
  assumes st: "list_all2 storable s vs" and i: "i < length s"
    and small: "length pre + length (concat (row_fields s vs)) < 2 ^ 16"
    and bit: "bitmap_is_null (pre @ concat (row_fields s vs)) i = Inr (is_null (vs ! i))"
  shows "deserialize_value s (pre @ concat (row_fields s vs)) (starts (length pre) (row_fields s vs)) i
    = Inr (vs ! i)"
proof -
  let ?fs = "row_fields s vs" and ?c = "s ! i" and ?v = "vs ! i"
  let ?raw = "pre @ concat ?fs" and ?front = "pre @ concat (take i ?fs)"
  have len: "length vs = length s" "length ?fs = length s"
    using st by (auto simp: row_fields_def dest: list_all2_lengthD)
  have sv: "storable ?c ?v" using st i by (rule list_all2_nthD)
  have f: "?fs ! i = field_bytes ?c ?v" using i len by (simp add: row_fields_def)
  have raw: "?raw = ?front @ field_bytes ?c ?v @ concat (drop (Suc i) ?fs)"
    using concat_split_at [of i ?fs] i len by (simp add: f)
  have fits: "length ?front + length (field_bytes ?c ?v) \<le> length ?raw" "length ?raw < 2 ^ 16"
  proof -
    show "length ?front + length (field_bytes ?c ?v) \<le> length ?raw" unfolding raw by simp
    show "length ?raw < 2 ^ 16" using small by simp
  qed
  define k where "k = length ?front"
  have off: "starts (length pre) ?fs ! i = of_nat k"
    using i len by (simp add: nth_starts k_def)
  have kfits: "k + length (field_bytes ?c ?v) < 2 ^ 16" "k + length (field_bytes ?c ?v) \<le> length ?raw"
    using fits by (simp_all add: k_def)
  have uoff: "unat (of_nat k :: 16 word) = k"
    using kfits by (simp add: unat_of_nat)
  show ?thesis
  proof (cases "is_null ?v")
    case True
    with bit i sv null_value_storable [OF sv] show ?thesis
      by (simp add: deserialize_value_def schema_column_def storable_def)
  next
    case False
    note known = fixed_size_of_column_known [OF storable_known [OF sv]]
    note w = storable_payload_width [OF sv] length_field_bytes [OF sv]
    note d = decode_stored [OF sv False]
    show ?thesis
    proof (cases "is_fixed_size ?c")
      case fixed: True
      have "slice k (fixed_width ?c) ?raw = stored ?c ?v"
        using w fixed by (simp add: raw slice_def stored_def k_def del: fixed_width.simps)
      with False bit i known d kfits w fixed show ?thesis
        by (simp add: deserialize_value_def schema_column_def fixed_size_of_def off uoff
            del: fixed_width.simps)
    next
      case var: False
      have rl: "read_length ?raw (of_nat k) = Inr (of_nat (length (payload ?v)))"
        unfolding raw k_def using sv var fits by (intro read_length_field) auto
      have "slice (k + 2) (length (payload ?v)) ?raw = stored ?c ?v"
        using var by (simp add: raw slice_def stored_def field_bytes_def k_def)
      moreover have "unat (of_nat k + 2 :: 16 word) = k + 2"
        using kfits w var by (subst unat_add_lem [THEN iffD1]) (simp_all add: uoff)
      moreover have "unat (of_nat (length (payload ?v)) :: 16 word) = length (payload ?v)"
        using w var by (simp add: unat_of_nat)
      ultimately show ?thesis
        using False bit i known d kfits w var rl
        by (simp add: deserialize_value_def schema_column_def fixed_size_of_def off
            del: fixed_width.simps)
    qed
  qed
qed

definition row_bytes :: "schema \<Rightarrow> sql_value list \<Rightarrow> byte list" where
  "row_bytes s vs = set_nulls 0 vs (replicate (bitmap_size (length s)) 0) @ concat (row_fields s vs)"

lemma tuple_serialize_storable:
  "list_all2 storable s vs \<Longrightarrow> tuple_serialize \<lparr>tvalues = vs, tschema = s\<rparr> = Inr (row_bytes s vs)"
  by (simp add: tuple_serialize_def row_bytes_def Let_def serialize_fields_storable)

lemma tuple_deserialize_row:
  assumes st: "list_all2 storable s vs" and small: "length (row_bytes s vs) < 2 ^ 16"
  shows "tuple_deserialize (row_bytes s vs) s = Inr \<lparr>tvalues = vs, tschema = s\<rparr>"
proof -
  let ?pre = "set_nulls 0 vs (replicate (bitmap_size (length s)) 0)"
  have len: "length vs = length s" using st by (simp add: list_all2_lengthD)
  have pre: "length ?pre = bitmap_size (length s)" by simp
  have "compute_offsets_from s (?pre @ concat (row_fields s vs)) (length ?pre)
      = Inr (starts (length ?pre) (row_fields s vs))"
    using st small by (intro compute_offsets_from_fields) (auto simp: row_bytes_def)
  then have "compute_offsets s (row_bytes s vs) = Inr (starts (length ?pre) (row_fields s vs))"
    by (simp add: compute_offsets_def row_bytes_def)
  moreover have "map_res (deserialize_value s (row_bytes s vs) (starts (length ?pre) (row_fields s vs)))
      [0..<length s] = Inr (map (nth vs) [0..<length s])"
  proof (rule map_res_Inr)
    fix i assume "i \<in> set [0..<length s]"
    then have i: "i < length s" by simp
    have "bitmap_is_null (row_bytes s vs) i = Inr (is_null (vs ! i))"
      using bitmap_bits [of i vs "concat (row_fields s vs)"] i len by (simp add: row_bytes_def)
    with st small i show "deserialize_value s (row_bytes s vs)
        (starts (length ?pre) (row_fields s vs)) i = Inr (vs ! i)"
      unfolding row_bytes_def by (intro deserialize_value_field) auto
  qed
  moreover have "map (nth vs) [0..<length s] = vs"
    using len by (metis map_nth)
  ultimately show ?thesis
    by (simp add: tuple_deserialize_def)
qed

end
