(* ===== verification/Row_Properties.thy ===== *)
theory Row_Properties
  imports Tuple_Codec
begin

text \<open>
  What the row format promises: rows and schemas read back as they were written, lookup by name finds
  the first column, length limits are enforced on strings; and two inputs the code gets wrong,
  oversized \<open>VARBINARY\<close> values and \<open>CHAR\<close> columns without a length.
\<close>

section \<open>Library\<close>

lemma storable_check_types: "list_all2 storable s vs \<Longrightarrow> check_value_types vs s = Inr ()"
  by (induction s vs rule: list_all2_induct) (simp_all add: storable_def)

lemma storable_tuple_make:
  "list_all2 storable s vs \<Longrightarrow> tuple_make vs s = Inr \<lparr>tvalues = vs, tschema = s\<rparr>"
  by (simp add: tuple_make_def storable_check_types list_all2_lengthD)

section \<open>Properties\<close>

text \<open>
  C18: round trip of a row. For every schema and every list of values its columns can hold whose row is
  shorter than 64 KiB, the tuple can be built, it serialises, and the bytes read back, with the null
  bitmap, as the same tuple.
\<close>

theorem row_round_trip:
  assumes "list_all2 storable s vs" and "length (row_bytes s vs) < 2 ^ 16"
  shows "\<exists>t raw. tuple_make vs s = Inr t \<and> tvalues t = vs \<and> tuple_serialize t = Inr raw \<and>
    tuple_deserialize raw s = Inr t"
  using storable_tuple_make [OF assms(1)] tuple_serialize_storable [OF assms(1)]
    tuple_deserialize_row [OF assms] by auto

definition sample_schema :: schema where
  "sample_schema =
     [\<lparr>col_name = ''id'', col_type = T_INT32, col_length = 0\<rparr>,
      \<lparr>col_name = ''name'', col_type = T_VARCHAR, col_length = 5\<rparr>,
      \<lparr>col_name = ''tag'', col_type = T_CHAR, col_length = 4\<rparr>]"

theorem row_round_trip_witness:
  "\<exists>t raw. tuple_make [of_int32 7, null_value STRING, of_string ''ab''] sample_schema = Inr t \<and>
    tuple_serialize t = Inr raw \<and> tuple_deserialize raw sample_schema = Inr t"
proof -
  let ?vs = "[of_int32 7, null_value STRING, of_string ''ab'']"
  have "list_all2 storable sample_schema ?vs"
    by (simp add: sample_schema_def storable_def of_value_defs null_value_def wf_value_def strip_nul_def)
  moreover have "length (row_bytes sample_schema ?vs) < 2 ^ 16"
    by (simp add: sample_schema_def row_bytes_def row_fields_def field_bytes_def payload_def
        bitmap_size_def is_fixed_size_def of_value_defs null_value_def bitmap_set_null_def)
  ultimately show ?thesis using row_round_trip [of sample_schema ?vs] by blast
qed

text \<open>
  C35: the declared limits of string columns. A non-null string value for a \<open>CHAR\<close> or \<open>VARCHAR\<close>
  column is refused exactly when it is longer than the column allows (for \<open>VARCHAR\<close> a length of 0
  means no declared limit, only the 65535 bytes of the length prefix); otherwise its field is appended.
\<close>

theorem string_limits_enforced:
  assumes "col_type c = T_CHAR \<or> col_type c = T_VARCHAR" and "vtype v = STRING" and "\<not> is_null v"
    and "vdata v = V_string s"
  shows "(\<exists>out'. serialize_field c v out = Inr out') \<longleftrightarrow>
    (if col_type c = T_CHAR then length s \<le> unat (col_length c)
     else length s \<le> 65535 \<and> (col_length c = 0 \<or> length s \<le> unat (col_length c)))"
  using assms
  by (auto simp: serialize_field_def check_field_length_def serialized_size_def serialize_to_def
      get_defs is_fixed_size_def fixed_size_of_column_def Let_def word_gt_0 not_le)

theorem string_limits_enforced_witness:
  "\<not> (\<exists>out'. serialize_field \<lparr>col_name = ''t'', col_type = T_CHAR, col_length = 2\<rparr> (of_string ''abc'') [] = Inr out')"
  using string_limits_enforced [of "\<lparr>col_name = ''t'', col_type = T_CHAR, col_length = 2\<rparr>"
      "of_string ''abc''" "''abc''" "[]"]
  by (simp add: of_string_def)

text \<open>
  The limits of \<open>VARBINARY\<close> columns are not enforced: whatever length the column declares and
  however long the value is, the field is written, and its length prefix is the length modulo 65536.
\<close>

theorem varbinary_limits_ignored:
  assumes "col_type c = T_VARBINARY"
  shows "serialize_field c (of_blob b) out = Inr (out @ bytes16 (of_nat (length b)) @ b)"
  using assms
  by (simp add: serialize_field_def check_field_length_def serialized_size_def serialize_to_def
      get_defs is_fixed_size_def of_blob_def Let_def)

theorem varbinary_limits_ignored_witness:
  "serialize_field \<lparr>col_name = ''b'', col_type = T_VARBINARY, col_length = 1\<rparr> (of_blob [1, 2, 3]) []
    = Inr [3, 0, 1, 2, 3]"
  using varbinary_limits_ignored [of "\<lparr>col_name = ''b'', col_type = T_VARBINARY, col_length = 1\<rparr>"
      "[1, 2, 3]" "[]"]
  by simp code_simp

definition char0_schema :: schema where
  "char0_schema = [\<lparr>col_name = ''c'', col_type = T_CHAR, col_length = 0\<rparr>,
                   \<lparr>col_name = ''n'', col_type = T_INT32, col_length = 0\<rparr>]"

lemma char0_row: "tuple_serialize \<lparr>tvalues = [of_string [], of_int32 w], tschema = char0_schema\<rparr>
    = Inr (0 # bytes32 w)"
  by (simp add: tuple_serialize_def char0_schema_def bitmap_size_def serialize_field_def is_fixed_size_def
      check_field_length_def serialized_size_def serialize_to_def get_defs of_value_defs
      fixed_size_of_column_def Let_def)

lemma low_half: "unat (of_bytes16 (take 2 (bytes32 w))) = nat (uint w mod 65536)"
proof -
  have "le_int (take 2 (bytes32 w)) = uint w mod 65536"
    by (simp add: bytes32_def numeral_eq_Suc uint_word_of_int zmod_zmult2_eq [of 256 _ 256, simplified])
  then show ?thesis by (simp add: of_bytes16_def unat_eq_nat_uint uint_word_of_int)
qed

lemma char0_offsets: "compute_offsets char0_schema (0 # bytes32 w) = Inr [1, of_nat (3 + nat (uint w mod 65536))]"
proof -
  have "read_length (0 # bytes32 w) 1 = Inr (of_bytes16 (take 2 (bytes32 w)))" by (simp add: read_length_def slice_def)
  then show ?thesis by (simp add: compute_offsets_def char0_schema_def bitmap_size_def fixed_size_of_column_def low_half)
qed

text \<open>The number is read from the place behind the length that was never written, wrapped to 16 bits.\<close>

lemma char0_read:
  "tuple_deserialize (0 # bytes32 w) char0_schema =
     (let k = unat (of_nat (3 + nat (uint w mod 65536)) :: 16 word) in
      if k + 4 \<le> 5 then Inr \<lparr>tvalues = [of_string [], of_int32 (of_bytes32 (slice k 4 (0 # bytes32 w)))], tschema = char0_schema\<rparr>
      else Inl Undefined)"
  unfolding tuple_deserialize_def char0_offsets
  by (simp add: deserialize_value_def char0_schema_def schema_column_def Let_def slice_def strip_nul_def
      fixed_size_of_def fixed_size_of_column_def is_fixed_size_def bitmap_is_null_def decode_field_def upt_rec [of _ 2])

lemma low_byte_zero: "uint w mod 65536 = 65533 \<Longrightarrow> of_bytes32 (0 # bs) \<noteq> w"
proof
  assume "uint w mod 65536 = 65533" and e: "of_bytes32 (0 # bs) = w"
  then have "uint w mod 65536 mod 256 = 253" by simp
  then have "uint w mod 256 = 253" by (simp add: mod_mod_cancel)
  moreover have "uint w = 256 * le_int bs mod 2 ^ 32"
    unfolding e [symmetric] of_bytes32_def uint_word_of_int by simp
  then have "uint w mod 256 = 256 * le_int bs mod 256" by (simp add: mod_mod_cancel)
  ultimately show False by simp
qed

text \<open>
  C38: a \<open>CHAR\<close> column declared without a length. Its empty value writes no byte, but the reader takes
  the fixed size 0 for a variable-length column and reads a length from the bytes of the next column:
  the row with an \<open>INT32\<close> behind it is read back as written only when the low 16 bits of the number are
  65534, which wraps the 16-bit offset to the right place; unless they are 65533 or 65534 the read runs
  past the end of the row.
\<close>

theorem char0_misread:
  "\<exists>t raw. tuple_make [of_string [], of_int32 w] char0_schema = Inr t \<and> tuple_serialize t = Inr raw \<and>
     (tuple_deserialize raw char0_schema = Inr t \<longleftrightarrow> uint w mod 65536 = 65534) \<and>
     (uint w mod 65536 \<noteq> 65533 \<and> uint w mod 65536 \<noteq> 65534 \<longrightarrow> tuple_deserialize raw char0_schema = Inl Undefined)"
proof -
  let ?n = "uint w mod 65536" and ?raw = "0 # bytes32 w" and ?t = "\<lparr>tvalues = [of_string [], of_int32 w], tschema = char0_schema\<rparr>"
  define k where "k = unat (of_nat (3 + nat ?n) :: 16 word)"
  have n: "0 \<le> ?n" "?n < 65536" by simp_all
  have k: "k = (3 + nat ?n) mod 65536" unfolding k_def unat_of_nat by simp
  have r: "tuple_deserialize ?raw char0_schema = (if k \<le> 1 then Inr \<lparr>tvalues = [of_string [], of_int32 (of_bytes32 (slice k 4 ?raw))], tschema = char0_schema\<rparr>
      else Inl Undefined)" unfolding char0_read k_def [symmetric] Let_def by simp
  have "(tuple_deserialize ?raw char0_schema = Inr ?t \<longleftrightarrow> ?n = 65534) \<and>
     (?n \<noteq> 65533 \<and> ?n \<noteq> 65534 \<longrightarrow> tuple_deserialize ?raw char0_schema = Inl Undefined)"
  proof -
    consider "?n < 65533" | "?n = 65533" | "?n = 65534" | "?n = 65535" using n by linarith
    then show ?thesis
    proof cases
      case 1
      then have "k = 3 + nat ?n" using k n by simp
      then show ?thesis using r 1 by simp
    next
      case 2
      have "slice 0 4 ?raw = 0 # take 3 (bytes32 w)" by (simp add: slice_def)
      moreover have "of_bytes32 (0 # take 3 (bytes32 w)) \<noteq> w" using low_byte_zero 2 by blast
      ultimately show ?thesis using r 2 k by (simp add: of_value_defs)
    next
      case 3
      have "slice 1 4 ?raw = bytes32 w" by (simp add: slice_def bytes32_def)
      then show ?thesis using r 3 k by simp
    next
      case 4
      then show ?thesis using r k by simp
    qed
  qed
  then show ?thesis using char0_row [of w] by (simp add: tuple_make_def char0_schema_def of_value_defs)
qed

theorem char0_misread_witness:
  "\<exists>t raw. tuple_make [of_string [], of_int32 5] char0_schema = Inr t \<and> tuple_serialize t = Inr raw \<and>
    tuple_deserialize raw char0_schema = Inl Undefined"
  using char0_misread [of 5] by auto

text \<open>
  C19: round trip of a schema: a catalog entry's bytes read back as the schema that was written, with
  whatever follows in the buffer left alone, when they fit the reader's 16-bit offset.
\<close>

theorem schema_round_trip:
  assumes "\<forall>c\<in>set s. known_type (col_type c)" and "length (schema_serialize s) < 2 ^ 16"
    and "length s < 2 ^ 16"
  shows "schema_deserialize (schema_serialize s @ rest) = Inr s"
  using schema_deserialize_serialize [of s rest] assms by blast

theorem schema_round_trip_witness:
  "schema_deserialize (schema_serialize sample_schema @ [1, 2]) = Inr sample_schema"
  using schema_round_trip [of sample_schema "[1, 2]"]
  by (simp add: sample_schema_def schema_serialize_def)

text \<open>
  Lookup by name. \<open>column_index\<close> answers the first position whose column has the name, and no
  position exactly when none has it; \<open>Tuple::get(name)\<close> reads the value at that position.
\<close>

theorem lookup_by_name:
  "case column_index s name of
     None \<Rightarrow> name \<notin> set (map col_name s) \<and>
       tuple_get_by_name \<lparr>tvalues = vs, tschema = s\<rparr> name = Inl (Runtime_error ''Tuple::get: no such column'')
   | Some j \<Rightarrow> j < length s \<and> col_name (s ! j) = name \<and> (\<forall>k. k < j \<longrightarrow> col_name (s ! k) \<noteq> name) \<and>
       (length vs = length s \<longrightarrow> tuple_get_by_name \<lparr>tvalues = vs, tschema = s\<rparr> name = Inr (vs ! j))"
  using column_index_Some [of s name] column_index_None [of s name]
  by (auto simp: tuple_get_by_name_def tuple_get_def split: option.splits)

theorem lookup_by_name_witness:
  "column_index sample_schema ''tag'' = Some 2 \<and>
   tuple_get_by_name \<lparr>tvalues = [of_int32 1, of_string ''x'', of_string ''y''], tschema = sample_schema\<rparr> ''tag''
     = Inr (of_string ''y'')"
proof -
  have "column_index sample_schema ''tag'' = Some 2"
    by (simp add: column_index_def sample_schema_def)
  then show ?thesis
    using lookup_by_name [where s = sample_schema and name = "''tag''"
        and vs = "[of_int32 1, of_string ''x'', of_string ''y'']"]
    by (simp add: sample_schema_def)
qed

end
