(* ===== verification/Common_Types.thy ===== *)
theory Common_Types
  imports Prelude
begin

text \<open>
  \<open>include/duck/common/types.hpp\<close>, \<open>rid.hpp\<close>, \<open>config.hpp\<close> and \<open>include/duck/config\<close>: page, frame
  and transaction identifiers at their widths, row identifiers, and the constants of the format.
\<close>

type_synonym page_id = "32 word"
type_synonym frame_id = "32 word"
type_synonym transaction_id = "64 word"

text \<open>\<open>std::numeric_limits<std::uint32_t>::max()\<close>\<close>

definition INVALID_PAGE_ID :: page_id where
  "INVALID_PAGE_ID = - 1"

definition INVALID_FRAME_ID :: frame_id where
  "INVALID_FRAME_ID = - 1"

record rid =
  rid_page :: page_id
  rid_slot :: "16 word"

definition kPAGE_SIZE :: nat where
  "kPAGE_SIZE = 8192"

definition kDISK_METADATA_PAGE_ID :: page_id where
  "kDISK_METADATA_PAGE_ID = 0"

definition kCATALOG_FIRST_PAGE_ID :: page_id where
  "kCATALOG_FIRST_PAGE_ID = 1"

definition kDB_FORMAT_VERSION :: "64 word" where
  "kDB_FORMAT_VERSION = 1"

definition kDB_MAGIC :: "64 word" where
  "kDB_MAGIC = 0x4455434B"

type_synonym page_data = "byte list"

definition zero_page :: page_data where
  "zero_page = replicate kPAGE_SIZE 0"

lemma length_zero_page [simp]: "length zero_page = kPAGE_SIZE"
  by (simp add: zero_page_def)

lemma INVALID_PAGE_ID_neq_zero [simp]: "INVALID_PAGE_ID \<noteq> 0" "INVALID_PAGE_ID \<noteq> 1"
  by (simp_all add: INVALID_PAGE_ID_def)

lemma uint16_less [simp]: "unat (w :: 16 word) < 65536"
  using unsigned_less [of w, where 'a = nat] by simp

end
