(* ===== verification/Slotted_Page.thy ===== *)
theory Slotted_Page
  imports Common_Types
begin

text \<open>
  \<open>SlottedPage\<close> (\<open>include/duck/table/slotted_page.hpp\<close>, \<open>src/table/slotted_page.cpp\<close>): the operations on
  the bytes of one page. The first eight bytes are the packed \<open>PageHeader\<close>, the slot array follows,
  tuples grow down from the end. Every slot access and every \<open>subspan\<close> outside the page is
  \<open>Undefined\<close>; \<open>wf_page\<close> is the invariant under which that does not happen.
\<close>

section \<open>Header and slots\<close>

definition sp_next :: "page_data \<Rightarrow> page_id" where
  "sp_next d = of_bytes32 (slice 0 4 d)"

definition sp_count :: "page_data \<Rightarrow> 16 word" where
  "sp_count d = of_bytes16 (slice 4 2 d)"

definition sp_free :: "page_data \<Rightarrow> 16 word" where
  "sp_free d = of_bytes16 (slice 6 2 d)"

definition slot_offset :: "page_data \<Rightarrow> nat \<Rightarrow> 16 word" where
  "slot_offset d i = of_bytes16 (slice (8 + 4 * i) 2 d)"

definition slot_length :: "page_data \<Rightarrow> nat \<Rightarrow> 16 word" where
  "slot_length d i = of_bytes16 (slice (10 + 4 * i) 2 d)"

definition put_next :: "page_id \<Rightarrow> page_data \<Rightarrow> page_data" where
  "put_next v d = splice 0 (bytes32 v) d"

definition put_count :: "16 word \<Rightarrow> page_data \<Rightarrow> page_data" where
  "put_count v d = splice 4 (bytes16 v) d"

definition put_free :: "16 word \<Rightarrow> page_data \<Rightarrow> page_data" where
  "put_free v d = splice 6 (bytes16 v) d"

definition put_slot_offset :: "nat \<Rightarrow> 16 word \<Rightarrow> page_data \<Rightarrow> page_data" where
  "put_slot_offset i v d = splice (8 + 4 * i) (bytes16 v) d"

definition put_slot_length :: "nat \<Rightarrow> 16 word \<Rightarrow> page_data \<Rightarrow> page_data" where
  "put_slot_length i v d = splice (10 + 4 * i) (bytes16 v) d"

definition slot_in_page :: "page_data \<Rightarrow> nat \<Rightarrow> bool" where
  "slot_in_page d i \<longleftrightarrow> 8 + 4 * i + 4 \<le> length d"

section \<open>Operations\<close>

definition sp_init :: "page_data \<Rightarrow> page_data" where
  "sp_init d = put_count 0 (put_free (of_nat (length d)) (put_next INVALID_PAGE_ID d))"

definition free_space_bytes :: "page_data \<Rightarrow> int" where
  "free_space_bytes d = uint (sp_free d) - int (8 + unat (sp_count d) * 4)"

definition slot_is_free :: "page_data \<Rightarrow> nat \<Rightarrow> bool res" where
  "slot_is_free d i =
     bind_res (check (slot_in_page d i) Undefined) (\<lambda>_. Inr (slot_offset d i = 0))"

text \<open>The loops over slot numbers stop at the first slot with the property.\<close>

fun first_slot :: "(nat \<Rightarrow> bool res) \<Rightarrow> nat list \<Rightarrow> 16 word option res" where
  "first_slot p [] = Inr None"
| "first_slot p (i # is) = bind_res (p i) (\<lambda>b. if b then Inr (Some (of_nat i)) else first_slot p is)"

definition find_empty_slot :: "page_data \<Rightarrow> 16 word option res" where
  "find_empty_slot d = first_slot (slot_is_free d) [0..<unat (sp_count d)]"

definition allocate_slot :: "page_data \<Rightarrow> (16 word \<times> page_data) res" where
  "allocate_slot d =
     (let slot_idx = sp_count d; d = put_count (slot_idx + 1) d in
      bind_res (check (slot_in_page d (unat slot_idx)) Undefined) (\<lambda>_.
      Inr (slot_idx, put_slot_offset (unat slot_idx) 0 d)))"

text \<open>
  Which slot an insert uses: the preferred one when it exists and is free, else the first free one,
  else a new one when four more bytes are left; \<open>None\<close> is the early \<open>return std::nullopt\<close>.
\<close>

definition choose_slot ::
  "page_data \<Rightarrow> int \<Rightarrow> 16 word option \<Rightarrow> ((16 word \<times> page_data) option) res" where
  "choose_slot d room prefered_slot =
     bind_res (case prefered_slot of
         None \<Rightarrow> Inr False
       | Some s \<Rightarrow> if s < sp_count d then slot_is_free d (unat s) else Inr False) (\<lambda>usable.
     if usable then Inr (Some (the prefered_slot, d))
     else bind_res (find_empty_slot d) (\<lambda>slot.
       case slot of
         Some s \<Rightarrow> Inr (Some (s, d))
       | None \<Rightarrow> if room < 4 then Inr None
                 else bind_res (allocate_slot d) (\<lambda>r. Inr (Some r))))"

definition write_tuple :: "page_data \<Rightarrow> nat \<Rightarrow> byte list \<Rightarrow> page_data res" where
  "write_tuple d i tuple_data =
     (let tuple_size = (of_nat (length tuple_data) :: 16 word);
          d = put_slot_length i tuple_size d;
          offset = sp_free d - tuple_size;
          d = put_free offset (put_slot_offset i offset d) in
      bind_res (check (slot_in_page d i \<and> unat offset + length tuple_data \<le> length d) Undefined)
        (\<lambda>_. Inr (splice (unat offset) tuple_data d)))"

definition sp_insert_tuple ::
  "page_data \<Rightarrow> byte list \<Rightarrow> 16 word option \<Rightarrow> (rid option \<times> page_data) res" where
  "sp_insert_tuple d tuple_data prefered_slot =
     (let available_space = free_space_bytes d;
          tuple_size = (of_nat (length tuple_data) :: 16 word) in
      if available_space < uint tuple_size then Inr (None, d)
      else bind_res (choose_slot d (available_space - uint tuple_size) prefered_slot) (\<lambda>chosen.
        case chosen of
          None \<Rightarrow> Inr (None, d)
        | Some (slot_idx, d) \<Rightarrow>
            bind_res (write_tuple d (unat slot_idx) tuple_data) (\<lambda>d.
            Inr (Some \<lparr>rid_page = INVALID_PAGE_ID, rid_slot = slot_idx\<rparr>, d))))"

definition sp_get_tuple :: "page_data \<Rightarrow> 16 word \<Rightarrow> byte list res" where
  "sp_get_tuple d slot_num =
     (if slot_num \<ge> sp_count d then Inr []
      else bind_res (slot_is_free d (unat slot_num)) (\<lambda>free.
        if free then Inr []
        else
          let offset = unat (slot_offset d (unat slot_num)); len = unat (slot_length d (unat slot_num)) in
          bind_res (check (offset + len \<le> length d) Undefined) (\<lambda>_. Inr (slice offset len d))))"

definition sp_try_update_in_place :: "page_data \<Rightarrow> rid \<Rightarrow> byte list \<Rightarrow> (bool \<times> page_data) res" where
  "sp_try_update_in_place d r tuple_data =
     (let i = unat (rid_slot r); tuple_size = (of_nat (length tuple_data) :: 16 word) in
      if rid_slot r \<ge> sp_count d then Inr (False, d)
      else bind_res (slot_is_free d i) (\<lambda>free.
        if free then Inr (False, d)
        else if tuple_size > slot_length d i then Inr (False, d)
        else
          bind_res (check (unat (slot_offset d i) + unat tuple_size \<le> length d \<and>
                           unat (slot_offset d i) + length tuple_data \<le> length d) Undefined) (\<lambda>_.
          Inr (True, put_slot_length i tuple_size (splice (unat (slot_offset d i)) tuple_data d)))))"

definition sp_delete_tuple :: "page_data \<Rightarrow> 16 word \<Rightarrow> (bool \<times> page_data) res" where
  "sp_delete_tuple d slot_num =
     (if slot_num \<ge> sp_count d then Inr (False, d)
      else bind_res (slot_is_free d (unat slot_num)) (\<lambda>free.
        if free then Inr (False, d)
        else Inr (True, put_slot_offset (unat slot_num) 0 d)))"

text \<open>
  The loop of \<open>compact\<close>: the slots written so far, the page under construction, and the 16-bit
  offset of the last tuple placed.
\<close>

fun compact_slots ::
  "page_data \<Rightarrow> nat list \<Rightarrow> (16 word \<times> 16 word) list \<Rightarrow> page_data \<Rightarrow> 16 word
   \<Rightarrow> ((16 word \<times> 16 word) list \<times> page_data \<times> 16 word) res" where
  "compact_slots d [] slots compacted offset = Inr (slots, compacted, offset)"
| "compact_slots d (i # is) slots compacted offset =
     bind_res (slot_is_free d i) (\<lambda>free.
     if free then compact_slots d is (slots @ [(0, 0)]) compacted offset
     else
       let len = slot_length d i; from = unat (slot_offset d i); offset = offset - len in
       bind_res (check (from + unat len \<le> length d \<and> unat offset + unat len \<le> kPAGE_SIZE) Undefined)
         (\<lambda>_. compact_slots d is (slots @ [(offset, len)])
                (splice (unat offset) (slice from (unat len) d) compacted) offset))"

definition slot_bytes :: "16 word \<times> 16 word \<Rightarrow> byte list" where
  "slot_bytes s = bytes16 (fst s) @ bytes16 (snd s)"

definition sp_compact :: "page_data \<Rightarrow> page_data res" where
  "sp_compact d =
     bind_res (compact_slots d [0..<unat (sp_count d)] [] zero_page (of_nat kPAGE_SIZE))
       (\<lambda>(slots, compacted, offset).
     bind_res (check (8 + 4 * length slots \<le> length d \<and> unat offset \<le> kPAGE_SIZE) Undefined) (\<lambda>_.
     let header = bytes32 (sp_next d) @ bytes16 (sp_count d) @ bytes16 offset;
         d = replicate (length d) 0;
         d = splice 0 header d;
         d = splice 8 (concat (map slot_bytes slots)) d
     in Inr (splice (unat offset) (drop (unat offset) compacted) d)))"

fun is_compacted_from :: "page_data \<Rightarrow> nat list \<Rightarrow> 16 word \<Rightarrow> bool res" where
  "is_compacted_from d [] next_offset = Inr (unat next_offset = kPAGE_SIZE)"
| "is_compacted_from d (i # is) next_offset =
     bind_res (slot_is_free d i) (\<lambda>free.
     if free then is_compacted_from d is next_offset
     else if next_offset \<noteq> slot_offset d i then Inr False
     else is_compacted_from d is (next_offset + slot_length d i))"

definition sp_is_compacted :: "page_data \<Rightarrow> bool res" where
  "sp_is_compacted d =
     (if sp_count d = 0 then Inr True
      else bind_res (check (slot_in_page d 0) Undefined) (\<lambda>_.
        is_compacted_from d [0..<unat (sp_count d)] (slot_offset d 0)))"

definition sp_restore_tuple :: "page_data \<Rightarrow> 16 word \<Rightarrow> byte list \<Rightarrow> page_data res" where
  "sp_restore_tuple d slot_num tuple_data =
     bind_res (check (slot_num < sp_count d) (Assert_failed ''slot_num < header_->slot_count'')) (\<lambda>_.
     bind_res (slot_is_free d (unat slot_num)) (\<lambda>free.
     bind_res (check free (Assert_failed ''slot.offset == INVALID_SLOT_OFFSET'')) (\<lambda>_.
     let tuple_size = (of_nat (length tuple_data) :: 16 word) in
     bind_res (if free_space_bytes d < uint tuple_size
               then bind_res (sp_compact d) (\<lambda>d.
                 bind_res (check (uint tuple_size \<le> free_space_bytes d)
                   (Assert_failed ''tuple_size <= free_space_bytes()'')) (\<lambda>_. Inr d))
               else Inr d) (\<lambda>d.
     bind_res (sp_insert_tuple d tuple_data (Some slot_num)) (\<lambda>(inserted, d).
     bind_res (check (inserted \<noteq> None) (Assert_failed ''inserted'')) (\<lambda>_. Inr d))))))"

definition sp_has_slot :: "page_data \<Rightarrow> 16 word \<Rightarrow> bool res" where
  "sp_has_slot d slot_num =
     (if slot_num < sp_count d then bind_res (slot_is_free d (unat slot_num)) (\<lambda>free. Inr (\<not> free))
      else Inr False)"

text \<open>\<open>++slot_num\<close> wraps at 16 bits.\<close>

definition sp_next_occupied_slot :: "page_data \<Rightarrow> 16 word \<Rightarrow> 16 word option res" where
  "sp_next_occupied_slot d slot_num =
     first_slot (\<lambda>i. bind_res (slot_is_free d i) (\<lambda>free. Inr (\<not> free)))
       [unat (slot_num + 1)..<unat (sp_count d)]"

definition sp_has_next_page :: "page_data \<Rightarrow> bool" where
  "sp_has_next_page d \<longleftrightarrow> sp_next d \<noteq> INVALID_PAGE_ID"

end
