(* ===== verification/Page_Layout.thy ===== *)
theory Page_Layout
  imports Slotted_Page
begin

text \<open>
  What a page's bytes mean: \<open>page_tuples\<close> lists the rows by slot number, \<open>wf_page\<close> is the layout
  invariant (slot array below the tuples, live tuples inside the tuple area and disjoint). The lemmas
  say what each field reads after each write; \<open>layout_simps\<close> collects them.
\<close>

named_theorems layout_simps "fields of a page after a write"

section \<open>Fields after writes\<close>

lemmas field_defs = sp_next_def sp_count_def sp_free_def slot_offset_def slot_length_def
  put_next_def put_count_def put_free_def put_slot_offset_def put_slot_length_def

lemma length_put [simp, layout_simps]:
  "4 \<le> length d \<Longrightarrow> length (put_next a d) = length d"
  "6 \<le> length d \<Longrightarrow> length (put_count b d) = length d"
  "8 \<le> length d \<Longrightarrow> length (put_free c d) = length d"
  "slot_in_page d i \<Longrightarrow> length (put_slot_offset i v d) = length d"
  "slot_in_page d i \<Longrightarrow> length (put_slot_length i v d) = length d"
  by (simp_all add: field_defs slot_in_page_def)

lemma slot_in_page_cong: "length d = length e \<Longrightarrow> slot_in_page d i = slot_in_page e i"
  by (simp add: slot_in_page_def)

lemma get_put_header [layout_simps]:
  assumes "8 \<le> length d"
  shows "sp_next (put_next a d) = a" "sp_count (put_next a d) = sp_count d"
    "sp_free (put_next a d) = sp_free d"
    "sp_next (put_count b d) = sp_next d" "sp_count (put_count b d) = b"
    "sp_free (put_count b d) = sp_free d"
    "sp_next (put_free b d) = sp_next d" "sp_count (put_free b d) = sp_count d"
    "sp_free (put_free b d) = b"
  using assms by (simp_all add: field_defs slice_splice_other u32.read_after_write u16.read_after_write)

lemma slot_put_header [layout_simps]:
  assumes "slot_in_page d i"
  shows "slot_offset (put_next a d) i = slot_offset d i" "slot_length (put_next a d) i = slot_length d i"
    "slot_offset (put_count b d) i = slot_offset d i" "slot_length (put_count b d) i = slot_length d i"
    "slot_offset (put_free b d) i = slot_offset d i" "slot_length (put_free b d) i = slot_length d i"
  using assms by (simp_all add: field_defs slot_in_page_def slice_splice_other)

lemma header_put_slot [layout_simps]:
  assumes "slot_in_page d i"
  shows "sp_next (put_slot_offset i v d) = sp_next d" "sp_count (put_slot_offset i v d) = sp_count d"
    "sp_free (put_slot_offset i v d) = sp_free d"
    "sp_next (put_slot_length i v d) = sp_next d" "sp_count (put_slot_length i v d) = sp_count d"
    "sp_free (put_slot_length i v d) = sp_free d"
  using assms by (simp_all add: field_defs slot_in_page_def slice_splice_other)

lemma slot_put_slot [layout_simps]:
  assumes "slot_in_page d i" and "slot_in_page d j"
  shows "slot_offset (put_slot_offset i v d) j = (if i = j then v else slot_offset d j)"
    "slot_length (put_slot_offset i v d) j = slot_length d j"
    "slot_offset (put_slot_length i v d) j = slot_offset d j"
    "slot_length (put_slot_length i v d) j = (if i = j then v else slot_length d j)"
proof -
  have "8 + 4 * i + 2 \<le> 8 + 4 * j \<or> 8 + 4 * j + 2 \<le> 8 + 4 * i" if "i \<noteq> j"
    using that by linarith
  moreover have "10 + 4 * i + 2 \<le> 10 + 4 * j \<or> 10 + 4 * j + 2 \<le> 10 + 4 * i" if "i \<noteq> j"
    using that by linarith
  moreover have "8 + 4 * i + 2 \<le> 10 + 4 * j \<or> 10 + 4 * j + 2 \<le> 8 + 4 * i"
    by presburger
  moreover have "10 + 4 * i + 2 \<le> 8 + 4 * j \<or> 8 + 4 * j + 2 \<le> 10 + 4 * i"
    by presburger
  ultimately show "slot_offset (put_slot_offset i v d) j = (if i = j then v else slot_offset d j)"
    "slot_length (put_slot_offset i v d) j = slot_length d j"
    "slot_offset (put_slot_length i v d) j = slot_offset d j"
    "slot_length (put_slot_length i v d) j = (if i = j then v else slot_length d j)"
    using assms by (auto simp: field_defs slot_in_page_def u16.read_after_write u16.read_other)
qed

text \<open>A write into the tuple area leaves the header and the slots alone, and the other way round.\<close>

lemma fields_splice_area [layout_simps]:
  assumes "off + length t \<le> length d"
  shows "8 \<le> off \<Longrightarrow> sp_next (splice off t d) = sp_next d"
    "8 \<le> off \<Longrightarrow> sp_count (splice off t d) = sp_count d"
    "8 \<le> off \<Longrightarrow> sp_free (splice off t d) = sp_free d"
    "12 + 4 * i \<le> off \<Longrightarrow> slot_offset (splice off t d) i = slot_offset d i"
    "12 + 4 * i \<le> off \<Longrightarrow> slot_length (splice off t d) i = slot_length d i"
  using assms by (simp_all add: field_defs slice_splice_other)

lemma slice_put [layout_simps]:
  assumes "8 \<le> k" and "k + n \<le> length d"
  shows "slice k n (put_next a d) = slice k n d" "slice k n (put_count b d) = slice k n d"
    "slice k n (put_free c d) = slice k n d"
    "12 + 4 * i \<le> k \<Longrightarrow> slice k n (put_slot_offset i v d) = slice k n d"
    "12 + 4 * i \<le> k \<Longrightarrow> slice k n (put_slot_length i v d) = slice k n d"
  using assms by (simp_all add: field_defs slice_splice_other)

section \<open>The rows of a page\<close>

definition page_slots :: "page_data \<Rightarrow> nat" where
  "page_slots d = unat (sp_count d)"

definition live :: "page_data \<Rightarrow> nat \<Rightarrow> bool" where
  "live d i \<longleftrightarrow> i < page_slots d \<and> slot_offset d i \<noteq> 0"

abbreviation slot_off :: "page_data \<Rightarrow> nat \<Rightarrow> nat" where
  "slot_off d i \<equiv> unat (slot_offset d i)"

abbreviation slot_len :: "page_data \<Rightarrow> nat \<Rightarrow> nat" where
  "slot_len d i \<equiv> unat (slot_length d i)"

abbreviation page_free :: "page_data \<Rightarrow> nat" where
  "page_free d \<equiv> unat (sp_free d)"

definition tuple_at :: "page_data \<Rightarrow> nat \<Rightarrow> byte list option" where
  "tuple_at d i = (if live d i then Some (slice (slot_off d i) (slot_len d i) d) else None)"

definition page_tuples :: "page_data \<Rightarrow> byte list option list" where
  "page_tuples d = map (tuple_at d) [0..<page_slots d]"

definition disjoint_tuples :: "page_data \<Rightarrow> nat \<Rightarrow> nat \<Rightarrow> bool" where
  "disjoint_tuples d i j \<longleftrightarrow> slot_off d i + slot_len d i \<le> slot_off d j \<or> slot_off d j + slot_len d j \<le> slot_off d i"

definition wf_page :: "page_data \<Rightarrow> bool" where
  "wf_page d \<longleftrightarrow>
     length d = kPAGE_SIZE \<and> 8 + 4 * page_slots d \<le> page_free d \<and> page_free d \<le> kPAGE_SIZE \<and>
     (\<forall>i. live d i \<longrightarrow> page_free d \<le> slot_off d i \<and> slot_off d i + slot_len d i \<le> kPAGE_SIZE) \<and>
     (\<forall>i j. live d i \<longrightarrow> live d j \<longrightarrow> i \<noteq> j \<longrightarrow> disjoint_tuples d i j)"

lemma length_page_tuples [simp]: "length (page_tuples d) = page_slots d"
  by (simp add: page_tuples_def)

lemma nth_page_tuples: "i < page_slots d \<Longrightarrow> page_tuples d ! i = tuple_at d i"
  by (simp add: page_tuples_def)

lemma page_tuples_eqI:
  "page_slots d = length ts \<Longrightarrow> (\<And>i. i < length ts \<Longrightarrow> tuple_at d i = ts ! i) \<Longrightarrow> page_tuples d = ts"
  by (rule nth_equalityI) (simp_all add: nth_page_tuples)

lemma wf_pageD:
  assumes "wf_page d"
  shows "length d = kPAGE_SIZE" "8 + 4 * page_slots d \<le> page_free d" "page_free d \<le> kPAGE_SIZE"
    "live d i \<Longrightarrow> page_free d \<le> slot_off d i" "live d i \<Longrightarrow> slot_off d i + slot_len d i \<le> kPAGE_SIZE"
    "live d i \<Longrightarrow> live d j \<Longrightarrow> i \<noteq> j \<Longrightarrow> disjoint_tuples d i j"
  using assms by (auto simp: wf_page_def)

lemma wf_slot_in_page: "wf_page d \<Longrightarrow> i < page_slots d \<Longrightarrow> slot_in_page d i"
  using wf_pageD(1-3) [of d] by (auto simp: slot_in_page_def)

lemma wf_length_ge: "wf_page d \<Longrightarrow> 8 \<le> length d"
  using wf_pageD(1) [of d] by (simp add: kPAGE_SIZE_def)

lemma slot_is_free_wf: "wf_page d \<Longrightarrow> i < page_slots d \<Longrightarrow> slot_is_free d i = Inr (\<not> live d i)"
  by (simp add: slot_is_free_def wf_slot_in_page live_def)

lemma free_space_bytes_wf: "wf_page d \<Longrightarrow> free_space_bytes d = int (page_free d - (8 + 4 * page_slots d))"
  using wf_pageD(2) [of d] by (simp add: free_space_bytes_def page_slots_def)

section \<open>An empty page\<close>

lemma sp_init_fields:
  assumes "length d = kPAGE_SIZE"
  shows "length (sp_init d) = kPAGE_SIZE" "sp_count (sp_init d) = 0" "page_free (sp_init d) = kPAGE_SIZE"
    "sp_next (sp_init d) = INVALID_PAGE_ID"
  using assms by (simp_all add: sp_init_def layout_simps kPAGE_SIZE_def)

lemma sp_init_wf:
  assumes "length d = kPAGE_SIZE"
  shows "wf_page (sp_init d)" "page_tuples (sp_init d) = []"
  using sp_init_fields [OF assms] by (simp_all add: wf_page_def page_tuples_def page_slots_def live_def kPAGE_SIZE_def)

section \<open>Slot searches\<close>

lemma first_slot_pure:
  assumes "\<And>i. i \<in> set is \<Longrightarrow> p i = Inr (q i)"
  shows "first_slot p is = Inr (map_option of_nat (List.find q is))"
  using assms by (induction "is") auto

lemma find_empty_slot_wf:
  "wf_page d \<Longrightarrow> find_empty_slot d =
     Inr (map_option of_nat (List.find (\<lambda>i. \<not> live d i) [0..<page_slots d]))"
  unfolding find_empty_slot_def page_slots_def [symmetric]
  by (rule first_slot_pure) (simp add: slot_is_free_wf)

lemma find_upt_Some:
  "List.find q [m..<n] = Some i \<longleftrightarrow> m \<le> i \<and> i < n \<and> q i \<and> (\<forall>j. m \<le> j \<longrightarrow> j < i \<longrightarrow> \<not> q j)"
  (is "?l = ?r")
proof
  assume ?l
  then obtain k where k: "k < n - m" "q (m + k)" "i = m + k" "\<forall>j<k. \<not> q (m + j)"
    by (auto simp: find_Some_iff)
  have "\<not> q j" if "m \<le> j" "j < i" for j
    using k(3,4) that by (metis le_add_diff_inverse nat_add_left_cancel_less)
  with k show ?r by auto
next
  assume ?r
  then have "i - m < length [m..<n] \<and> q ([m..<n] ! (i - m)) \<and> i = [m..<n] ! (i - m) \<and>
      (\<forall>j<i - m. \<not> q ([m..<n] ! j))"
    by auto
  then show ?l unfolding find_Some_iff by blast
qed

lemma find_upt_None: "List.find q [m..<n] = None \<longleftrightarrow> (\<forall>i. m \<le> i \<longrightarrow> i < n \<longrightarrow> \<not> q i)"
  by (auto simp: find_None_iff)

end
