(* ===== verification/Page_Ops.thy ===== *)
theory Page_Ops
  imports Page_Layout
begin

text \<open>
  Correctness of the \<open>SlottedPage\<close> operations against a list of rows: on a well-formed page every
  operation stays inside the page (never \<open>Undefined\<close>), keeps the layout invariant, and changes the
  list \<open>page_tuples\<close> as its specification says.
\<close>

section \<open>Specification\<close>

text \<open>\<open>insert_index ts pref\<close> is the slot an insert must take; \<open>length ts\<close> stands for a new slot.\<close>

definition free_index :: "byte list option list \<Rightarrow> nat" where
  "free_index ts =
     (case List.find (\<lambda>i. ts ! i = None) [0..<length ts] of Some i \<Rightarrow> i | None \<Rightarrow> length ts)"

definition insert_index :: "byte list option list \<Rightarrow> 16 word option \<Rightarrow> nat" where
  "insert_index ts prefered =
     (case prefered of
        Some s \<Rightarrow> if unat s < length ts \<and> ts ! unat s = None then unat s else free_index ts
      | None \<Rightarrow> free_index ts)"

definition put_tuple :: "byte list option list \<Rightarrow> nat \<Rightarrow> byte list \<Rightarrow> byte list option list" where
  "put_tuple ts i t = (if i < length ts then ts[i := Some t] else ts @ [Some t])"

definition page_room :: "page_data \<Rightarrow> nat" where
  "page_room d = page_free d - (8 + 4 * page_slots d)"

definition insert_fits :: "page_data \<Rightarrow> byte list \<Rightarrow> 16 word option \<Rightarrow> bool" where
  "insert_fits d t prefered \<longleftrightarrow>
     length t + (if insert_index (page_tuples d) prefered = page_slots d then 4 else 0) \<le> page_room d"

lemma tuple_at_None: "tuple_at d i = None \<longleftrightarrow> \<not> live d i"
  by (simp add: tuple_at_def)

lemma live_less: "live d i \<Longrightarrow> i < page_slots d"
  by (simp add: live_def)

lemma free_index_page:
  "free_index (page_tuples d) =
     (case List.find (\<lambda>i. \<not> live d i) [0..<page_slots d] of Some i \<Rightarrow> i | None \<Rightarrow> page_slots d)"
proof -
  have "List.find (\<lambda>i. page_tuples d ! i = None) [0..<page_slots d]
      = List.find (\<lambda>i. \<not> live d i) [0..<page_slots d]"
    by (rule find_cong) (auto simp: nth_page_tuples tuple_at_None)
  then show ?thesis by (simp add: free_index_def cong: option.case_cong)
qed

lemma free_index_le: "free_index ts \<le> length ts"
  by (auto simp: free_index_def find_upt_Some split: option.splits)

lemma insert_index_le: "insert_index ts p \<le> length ts"
  using free_index_le [of ts] by (auto simp: insert_index_def split: option.splits)

lemma free_index_free: "free_index ts < length ts \<Longrightarrow> ts ! free_index ts = None"
proof (cases "List.find (\<lambda>i. ts ! i = None) [0..<length ts]")
  case (Some i)
  then have "free_index ts = i" by (simp add: free_index_def)
  with Some show ?thesis by (simp add: find_upt_Some)
qed (simp add: free_index_def)

lemma insert_index_free: "insert_index ts p < length ts \<Longrightarrow> ts ! insert_index ts p = None"
  using free_index_free [of ts] by (auto simp: insert_index_def split: option.splits if_splits)

lemma page_slots_word [simp]: "(of_nat (page_slots d) :: 16 word) = sp_count d"
  by (simp add: page_slots_def)

lemma wf_page_slots_less: "wf_page d \<Longrightarrow> page_slots d < 2047"
  using wf_pageD(2,3) [of d] by (simp add: kPAGE_SIZE_def)

section \<open>Placing a tuple\<close>

definition place_tuple :: "page_data \<Rightarrow> nat \<Rightarrow> byte list \<Rightarrow> page_data" where
  "place_tuple d i t =
     (let size = of_nat (length t); d1 = put_slot_length i size d; offset = sp_free d1 - size in
      splice (unat offset) t (put_free offset (put_slot_offset i offset d1)))"

lemma place_tuple_fields:
  assumes wf: "wf_page d" and i: "i < page_slots d" and t: "length t \<le> page_room d"
  defines "e \<equiv> place_tuple d i t"
  shows "length e = kPAGE_SIZE" "sp_count e = sp_count d" "sp_next e = sp_next d"
    "page_free e = page_free d - length t" "slot_off e i = page_free d - length t" "slot_len e i = length t"
    "slice (page_free d - length t) (length t) e = t"
    "j < page_slots d \<Longrightarrow> j \<noteq> i \<Longrightarrow> slot_offset e j = slot_offset d j"
    "j < page_slots d \<Longrightarrow> j \<noteq> i \<Longrightarrow> slot_length e j = slot_length d j"
    "page_free d \<le> k \<Longrightarrow> k + n \<le> kPAGE_SIZE \<Longrightarrow> slice k n e = slice k n d"
    "8 + 4 * page_slots d \<le> page_free d - length t"
proof -
  let ?size = "of_nat (length t) :: 16 word"
  define o1 where "o1 = sp_free d - ?size"
  note D = wf_pageD(1-3) [OF wf]
  have si: "slot_in_page d i" using wf i by (rule wf_slot_in_page)
  have sj: "slot_in_page d j" if "j < page_slots d" for j using wf that by (rule wf_slot_in_page)
  have small: "length t \<le> page_free d" "length t < 65536"
    using t D by (auto simp: page_room_def kPAGE_SIZE_def)
  have us: "unat ?size = length t" using small by (simp add: unat_of_nat)
  have le: "?size \<le> sp_free d" using small by (simp add: word_le_nat_alt us)
  have uo: "unat o1 = page_free d - length t"
    unfolding o1_def using unat_sub [OF le] by (simp add: us)
  have room: "8 + 4 * page_slots d \<le> page_free d - length t"
    using t D by (simp add: page_room_def)
  define d3 where "d3 = put_free o1 (put_slot_offset i o1 (put_slot_length i ?size d))"
  have e: "e = splice (unat o1) t d3"
    using si D by (simp add: e_def place_tuple_def d3_def o1_def Let_def layout_simps)
  have len8: "8 \<le> length d" using wf by (rule wf_length_ge)
  have l1: "length (put_slot_length i ?size d) = length d" using si by simp
  have l2: "length (put_slot_offset i o1 (put_slot_length i ?size d)) = length d"
    using si by (simp add: slot_in_page_def)
  have l3: "length d3 = kPAGE_SIZE" using len8 D l2 by (simp add: d3_def)
  have s1: "slot_in_page (put_slot_length i ?size d) j = slot_in_page d j" for j
    using l1 by (simp add: slot_in_page_def)
  have s2: "slot_in_page (put_slot_offset i o1 (put_slot_length i ?size d)) j = slot_in_page d j" for j
    using l2 by (simp add: slot_in_page_def)
  note S = layout_simps s1 s2 l1 l2 l3
  have area: "unat o1 + length t \<le> length d3" "unat o1 + length t = page_free d" "8 \<le> unat o1"
    using small D room by (simp_all add: uo l3)
  have below: "12 + 4 * j \<le> unat o1" if "j < page_slots d" for j
    using that room by (simp add: uo)
  show "length e = kPAGE_SIZE" using area by (simp add: e l3)
  show "sp_count e = sp_count d" "sp_next e = sp_next d"
    using area si len8 by (simp_all add: e S d3_def)
  show "page_free e = page_free d - length t"
    using area si len8 by (simp add: e S d3_def uo)
  show "slot_off e i = page_free d - length t" "slot_len e i = length t"
    using area si len8 below [OF i] by (simp_all add: e S d3_def uo us)
  show "slice (page_free d - length t) (length t) e = t"
    using area by (simp add: e slice_splice_same flip: uo)
  show "j < page_slots d \<Longrightarrow> j \<noteq> i \<Longrightarrow> slot_offset e j = slot_offset d j"
    "j < page_slots d \<Longrightarrow> j \<noteq> i \<Longrightarrow> slot_length e j = slot_length d j"
    using area si len8 below [of j] sj [of j] by (simp_all add: e S d3_def)
  show "slice k n e = slice k n d" if "page_free d \<le> k" "k + n \<le> kPAGE_SIZE"
  proof -
    have "slice k n e = slice k n d3"
      using that area by (simp add: e slice_splice_other l3)
    also have "\<dots> = slice k n d"
      using that room i D l1 l2 by (simp add: d3_def slice_put)
    finally show ?thesis .
  qed
  show "8 + 4 * page_slots d \<le> page_free d - length t" by (rule room)
qed

lemma place_tuple_wf:
  assumes wf: "wf_page d" and i: "i < page_slots d" and dead: "\<not> live d i"
    and t: "length t \<le> page_room d"
  shows "wf_page (place_tuple d i t)" "page_tuples (place_tuple d i t) = (page_tuples d)[i := Some t]"
proof -
  let ?e = "place_tuple d i t"
  note F = place_tuple_fields [OF wf i t]
  note D = wf_pageD [OF wf]
  have slots: "page_slots ?e = page_slots d" using F(2) by (simp add: page_slots_def)
  have nz: "slot_offset ?e i \<noteq> 0"
    using F(5,11) by (metis add_is_0 le_zero_eq unsigned_0 zero_neq_numeral)
  have live: "live ?e j \<longleftrightarrow> j = i \<or> live d j" for j
    using i nz F(8) [of j] dead by (cases "j = i") (auto simp: live_def slots)
  have old: "slot_off ?e j = slot_off d j \<and> slot_len ?e j = slot_len d j" if "live d j" for j
    using that dead F(8,9) [of j] live_less [OF that] by (metis)
  have fit: "length t \<le> page_free d" using F(11) t by (simp add: page_room_def)
  show "wf_page ?e"
    unfolding wf_page_def slots live
  proof (intro conjI allI impI)
    show "length ?e = kPAGE_SIZE" by (rule F(1))
    show "8 + 4 * page_slots d \<le> page_free ?e" using F(4,11) by simp
    show "page_free ?e \<le> kPAGE_SIZE" using F(4) D(3) by simp
  next
    fix j assume "j = i \<or> live d j"
    then show "page_free ?e \<le> slot_off ?e j" "slot_off ?e j + slot_len ?e j \<le> kPAGE_SIZE"
      using F(4-6) fit D(3) D(4,5) [of j] old [of j] by auto
  next
    fix j k assume "j = i \<or> live d j" "k = i \<or> live d k" "j \<noteq> k"
    then show "disjoint_tuples ?e j k"
      using F(5,6) fit D(4) [of j] D(4) [of k] D(6) [of j k] old [of j] old [of k]
      by (auto simp: disjoint_tuples_def)
  qed
  show "page_tuples ?e = (page_tuples d)[i := Some t]"
  proof (rule page_tuples_eqI)
    show "page_slots ?e = length ((page_tuples d)[i := Some t])" by (simp add: slots)
    fix j assume "j < length ((page_tuples d)[i := Some t])"
    then have j: "j < page_slots d" by simp
    show "tuple_at ?e j = (page_tuples d)[i := Some t] ! j"
    proof (cases "j = i")
      case True
      with i F(5-7) show ?thesis by (simp add: tuple_at_def live)
    next
      case False
      have "slice (slot_off d j) (slot_len d j) ?e = slice (slot_off d j) (slot_len d j) d" if "live d j"
        using that D(4,5) by (intro F(10)) auto
      with False j old [of j] show ?thesis
        by (simp add: nth_page_tuples tuple_at_def live)
    qed
  qed
qed

section \<open>Insert\<close>

text \<open>Allocating a slot on a page with room keeps the layout; the new slot is free.\<close>

lemma allocate_slot_wf:
  assumes wf: "wf_page d" and room: "4 \<le> page_room d"
  obtains e where "allocate_slot d = Inr (sp_count d, e)" "wf_page e"
    "page_tuples e = page_tuples d @ [None]" "sp_next e = sp_next d" "sp_free e = sp_free d"
    "page_slots e = Suc (page_slots d)"
proof -
  let ?n = "page_slots d"
  let ?d1 = "put_count (sp_count d + 1) d"
  let ?e = "put_slot_offset ?n 0 ?d1"
  note D = wf_pageD [OF wf]
  have n: "unat (sp_count d) = ?n" by (simp add: page_slots_def)
  have len8: "8 \<le> length d" using wf by (rule wf_length_ge)
  have l1: "length ?d1 = length d" using len8 by simp
  have in1: "slot_in_page ?d1 j = slot_in_page d j" for j using l1 by (simp add: slot_in_page_def)
  have inn: "slot_in_page d ?n" using D(1-3) room by (simp add: slot_in_page_def page_room_def)
  have sj: "slot_in_page d j" if "j < ?n" for j using wf that by (rule wf_slot_in_page)
  have l2: "length ?e = length d" using inn in1 l1 by simp
  have cnt: "unat (sp_count d + 1) = Suc ?n"
    using wf_page_slots_less [OF wf] by (simp add: n unat_word_ariths)
  have fields: "sp_count ?e = sp_count d + 1" "sp_next ?e = sp_next d" "sp_free ?e = sp_free d"
    "slot_offset ?e ?n = 0"
    "j < ?n \<Longrightarrow> slot_offset ?e j = slot_offset d j" "j < ?n \<Longrightarrow> slot_length ?e j = slot_length d j" for j
    using len8 inn sj [of j] by (simp_all add: layout_simps in1)
  have slots: "page_slots ?e = Suc ?n" using fields(1) cnt by (simp add: page_slots_def)
  have live: "live ?e j \<longleftrightarrow> live d j" for j
    using fields(4) fields(5) [of j] by (auto simp: live_def slots less_Suc_eq)
  have old: "slot_off ?e j = slot_off d j \<and> slot_len ?e j = slot_len d j" if "live d j" for j
    using fields(5,6) live_less [OF that] by simp
  have wfe: "wf_page ?e"
    unfolding wf_page_def slots live
    using D l2 fields(3) room old by (auto simp: page_room_def disjoint_tuples_def)
  have tup: "tuple_at ?e j = tuple_at d j" for j
  proof (cases "live d j")
    case True
    have k: "12 + 4 * ?n \<le> slot_off d j" using D(2) D(4) [OF True] room by (simp add: page_room_def)
    have "slice (slot_off d j) (slot_len d j) ?e = slice (slot_off d j) (slot_len d j) d"
      using k D(1) D(5) [OF True] l1 by (simp add: slice_put)
    with True old [OF True] show ?thesis by (simp add: tuple_at_def live)
  qed (simp add: tuple_at_def live)
  have "page_tuples ?e = page_tuples d @ [None]"
    by (rule page_tuples_eqI)
       (auto simp: slots tup nth_append nth_page_tuples tuple_at_None live_def less_Suc_eq)
  moreover have "allocate_slot d = Inr (sp_count d, ?e)"
    using inn by (simp add: allocate_slot_def in1 n Let_def)
  ultimately show thesis using that wfe fields slots by blast
qed

lemma choose_slot_existing:
  assumes wf: "wf_page d" and idx: "insert_index (page_tuples d) prefered < page_slots d"
  shows "choose_slot d room prefered = Inr (Some (of_nat (insert_index (page_tuples d) prefered), d))"
proof (cases "\<exists>s. prefered = Some s \<and> unat s < page_slots d \<and> \<not> live d (unat s)")
  case True
  then obtain s where s: "prefered = Some s" "unat s < page_slots d" "\<not> live d (unat s)" by blast
  then have "insert_index (page_tuples d) prefered = unat s"
    by (simp add: insert_index_def nth_page_tuples tuple_at_None)
  with s wf show ?thesis
    by (simp add: choose_slot_def slot_is_free_wf word_less_nat_alt page_slots_def)
next
  case False
  then have ii: "insert_index (page_tuples d) prefered = free_index (page_tuples d)"
    by (auto simp: insert_index_def nth_page_tuples tuple_at_None split: option.splits)
  have skip: "(case prefered of None \<Rightarrow> Inr False
      | Some s \<Rightarrow> if s < sp_count d then slot_is_free d (unat s) else Inr False) = (Inr False :: bool res)"
    using False wf by (auto simp: slot_is_free_wf word_less_nat_alt page_slots_def split: option.splits)
  from idx ii obtain i where "List.find (\<lambda>i. \<not> live d i) [0..<page_slots d] = Some i"
    by (auto simp: free_index_page split: option.splits)
  then show ?thesis
    unfolding choose_slot_def skip ii free_index_page
    using wf by (simp add: find_empty_slot_wf)
qed

lemma choose_slot_new:
  assumes wf: "wf_page d" and idx: "insert_index (page_tuples d) prefered = page_slots d"
  shows "choose_slot d room prefered =
    (if room < 4 then Inr None else bind_res (allocate_slot d) (\<lambda>r. Inr (Some r)))"
proof -
  have no: "\<not> (\<exists>s. prefered = Some s \<and> unat s < page_slots d \<and> \<not> live d (unat s))"
    using idx by (auto simp: insert_index_def nth_page_tuples tuple_at_None split: if_splits)
  then have ii: "insert_index (page_tuples d) prefered = free_index (page_tuples d)"
    by (auto simp: insert_index_def nth_page_tuples tuple_at_None split: option.splits)
  have skip: "(case prefered of None \<Rightarrow> Inr False
      | Some s \<Rightarrow> if s < sp_count d then slot_is_free d (unat s) else Inr False) = (Inr False :: bool res)"
    using no wf by (auto simp: slot_is_free_wf word_less_nat_alt page_slots_def split: option.splits)
  have "List.find (\<lambda>i. \<not> live d i) [0..<page_slots d] = None"
  proof (cases "List.find (\<lambda>i. \<not> live d i) [0..<page_slots d]")
    case (Some i)
    with idx ii show ?thesis by (simp add: free_index_page) (simp add: find_upt_Some)
  qed
  then show ?thesis
    unfolding choose_slot_def skip using wf by (simp add: find_empty_slot_wf)
qed

lemma write_tuple_place:
  fixes t :: "byte list"
  assumes wf: "wf_page e" and i: "i < page_slots e" and t: "length t \<le> page_room e"
  shows "write_tuple e i t = Inr (place_tuple e i t)"
proof -
  let ?o = "sp_free (put_slot_length i (of_nat (length t)) e) - of_nat (length t)"
  note F = place_tuple_fields [OF wf i t]
  have si: "slot_in_page e i" using wf i by (rule wf_slot_in_page)
  have len8: "8 \<le> length e" using wf by (rule wf_length_ge)
  have l1: "length (put_slot_length i (of_nat (length t)) e) = length e" using si by simp
  have l2: "length (put_slot_offset i ?o (put_slot_length i (of_nat (length t)) e)) = length e"
    using si l1 by (simp add: slot_in_page_def)
  have l3: "length (put_free ?o (put_slot_offset i ?o (put_slot_length i (of_nat (length t)) e))) = length e"
    using l2 len8 by simp
  have fit: "length t \<le> page_free e" "length t < 65536"
    using t wf_pageD(2,3) [OF wf] by (auto simp: page_room_def kPAGE_SIZE_def)
  have us: "unat (of_nat (length t) :: 16 word) = length t" using fit by (simp add: unat_of_nat)
  have "(of_nat (length t) :: 16 word) \<le> sp_free e" using fit by (simp add: word_le_nat_alt us)
  then have uo: "unat ?o = page_free e - length t"
    using unat_sub [of "of_nat (length t)" "sp_free e"] si by (simp add: us layout_simps)
  show ?thesis
    using si l3 uo fit wf_pageD(1,3) [OF wf]
    by (simp add: slot_in_page_def write_tuple_def place_tuple_def Let_def)
qed

lemma uint_of_nat16: "n < 65536 \<Longrightarrow> uint (of_nat n :: 16 word) = int n"
  unfolding uint_nat by (simp add: unat_of_nat)

lemma sp_insert_tuple_full:
  assumes wf: "wf_page d" and t: "length t < 65536" and nofit: "\<not> insert_fits d t prefered"
  shows "sp_insert_tuple d t prefered = Inr (None, d)"
proof -
  let ?i = "insert_index (page_tuples d) prefered"
  have us: "uint (of_nat (length t) :: 16 word) = int (length t)"
    using t by (rule uint_of_nat16)
  have fs: "free_space_bytes d = int (page_room d)"
    using wf by (simp add: free_space_bytes_wf page_room_def)
  show ?thesis
  proof (cases "page_room d < length t")
    case True
    then show ?thesis by (simp add: sp_insert_tuple_def Let_def fs us)
  next
    case False
    with nofit have "?i = page_slots d" "page_room d < length t + 4"
      by (auto simp: insert_fits_def split: if_splits)
    with False wf show ?thesis
      by (simp add: sp_insert_tuple_def Let_def fs us choose_slot_new)
  qed
qed

theorem sp_insert_tuple_fits:
  assumes wf: "wf_page d" and fits: "insert_fits d t prefered"
  defines "i \<equiv> insert_index (page_tuples d) prefered"
  obtains e where
    "sp_insert_tuple d t prefered = Inr (Some \<lparr>rid_page = INVALID_PAGE_ID, rid_slot = of_nat i\<rparr>, e)"
    "wf_page e" "page_tuples e = put_tuple (page_tuples d) i t" "sp_next e = sp_next d"
    "page_free e = page_free d - length t"
proof -
  let ?size = "of_nat (length t) :: 16 word"
  have t: "length t \<le> page_room d" using fits by (auto simp: insert_fits_def split: if_splits)
  have small: "length t < 65536"
    using t wf_pageD(3) [OF wf] by (simp add: page_room_def kPAGE_SIZE_def)
  have us: "uint ?size = int (length t)"
    using small by (rule uint_of_nat16)
  have fs: "free_space_bytes d = int (page_room d)"
    using wf by (simp add: free_space_bytes_wf page_room_def)
  have ile: "i \<le> page_slots d" using insert_index_le [of "page_tuples d" prefered] by (simp add: i_def)
  have ui: "unat (of_nat i :: 16 word) = i"
    using ile wf_page_slots_less [OF wf] by (simp add: unat_of_nat)
  show thesis
  proof (cases "i < page_slots d")
    case True
    then have dead: "\<not> live d i"
      using insert_index_free [of "page_tuples d" prefered] by (simp add: i_def nth_page_tuples tuple_at_None)
    have "sp_insert_tuple d t prefered
        = Inr (Some \<lparr>rid_page = INVALID_PAGE_ID, rid_slot = of_nat i\<rparr>, place_tuple d i t)"
      using True t wf write_tuple_place [OF wf True t]
      by (simp add: sp_insert_tuple_def Let_def fs us choose_slot_existing ui flip: i_def)
    then show thesis
      using that place_tuple_wf [OF wf True dead t] place_tuple_fields(3,4) [OF wf True t] True
      by (simp add: put_tuple_def)
  next
    case False
    with ile have i: "i = page_slots d" by simp
    have room: "length t + 4 \<le> page_room d" using fits i by (simp add: insert_fits_def i_def)
    obtain e where e: "allocate_slot d = Inr (sp_count d, e)" "wf_page e"
      "page_tuples e = page_tuples d @ [None]" "sp_next e = sp_next d" "sp_free e = sp_free d"
      "page_slots e = Suc (page_slots d)"
      using allocate_slot_wf [OF wf] room by (metis add_leD2)
    have ie: "i < page_slots e" and roome: "length t \<le> page_room e"
      using i e(5,6) room by (simp_all add: page_room_def)
    have dead: "\<not> live e i"
      using e(3) ie i by (metis length_page_tuples nth_append_length nth_page_tuples tuple_at_None)
    have uc: "unat (sp_count d) = i" by (simp add: i page_slots_def)
    have "sp_insert_tuple d t prefered
        = Inr (Some \<lparr>rid_page = INVALID_PAGE_ID, rid_slot = of_nat i\<rparr>, place_tuple e i t)"
      using i room write_tuple_place [OF e(2) ie roome] choose_slot_new [OF wf]
      by (simp add: sp_insert_tuple_def Let_def fs us e(1) uc i_def)
    moreover have "(page_tuples d @ [None])[page_slots d := Some t] = page_tuples d @ [Some t]"
      by (metis length_page_tuples list_update_length)
    ultimately show thesis
      using that place_tuple_wf [OF e(2) ie dead roome] place_tuple_fields(3,4) [OF e(2) ie roome] i e
      by (simp add: put_tuple_def)
  qed
qed

section \<open>Reading, deleting and updating a slot\<close>

lemma sp_get_tuple_wf:
  assumes "wf_page d"
  shows "sp_get_tuple d s = Inr (case if unat s < page_slots d then page_tuples d ! unat s else None of
    None \<Rightarrow> [] | Some t \<Rightarrow> t)"
proof (cases "unat s < page_slots d")
  case True
  with assms show ?thesis
    using wf_pageD(1) [OF assms] wf_pageD(5) [OF assms, of "unat s"]
    by (auto simp: sp_get_tuple_def slot_is_free_wf nth_page_tuples tuple_at_def Let_def
        word_le_nat_alt page_slots_def)
next
  case False
  then show ?thesis by (simp add: sp_get_tuple_def word_le_nat_alt page_slots_def)
qed

lemma sp_has_slot_wf:
  assumes "wf_page d"
  shows "sp_has_slot d s = Inr (live d (unat s))"
  using assms by (auto simp: sp_has_slot_def slot_is_free_wf word_less_nat_alt live_def page_slots_def
      simp flip: page_slots_def)

text \<open>Changing one slot's length or clearing its offset: the common part of delete and update.\<close>

lemma drop_slot_wf:
  assumes wf: "wf_page d" and i: "i < page_slots d"
  defines "e \<equiv> put_slot_offset i 0 d"
  shows "wf_page e" "page_tuples e = (page_tuples d)[i := None]" "sp_next e = sp_next d"
    "page_free e = page_free d"
proof -
  note D = wf_pageD [OF wf]
  have si: "slot_in_page d i" using wf i by (rule wf_slot_in_page)
  have sj: "slot_in_page d j" if "j < page_slots d" for j using wf that by (rule wf_slot_in_page)
  have hdr: "length e = length d" "sp_count e = sp_count d" "sp_free e = sp_free d" "sp_next e = sp_next d"
    using si by (simp_all add: e_def layout_simps)
  have slots: "page_slots e = page_slots d" using hdr by (simp add: page_slots_def)
  have s: "slot_offset e j = (if i = j then 0 else slot_offset d j)" "slot_length e j = slot_length d j"
    if "j < page_slots d" for j
    using si sj [OF that] by (simp_all add: e_def layout_simps)
  have live: "live e j \<longleftrightarrow> live d j \<and> j \<noteq> i" for j
    using s(1) [of j] by (auto simp: live_def slots split: if_splits)
  have old: "slot_off e j = slot_off d j \<and> slot_len e j = slot_len d j" if "live d j" "j \<noteq> i" for j
    using s live_less [OF that(1)] that(2) by simp
  show "wf_page e"
    unfolding wf_page_def slots live using D hdr old by (auto simp: disjoint_tuples_def)
  have sl: "slice (slot_off d j) (slot_len d j) e = slice (slot_off d j) (slot_len d j) d" if "live d j" for j
    using D(1,2) D(4,5) [OF that] i by (simp add: e_def slice_put)
  show "page_tuples e = (page_tuples d)[i := None]"
    by (rule page_tuples_eqI)
       (use i in \<open>auto simp: slots nth_list_update nth_page_tuples tuple_at_def live old sl\<close>)
  show "sp_next e = sp_next d" "page_free e = page_free d" using hdr by simp_all
qed

lemma sp_delete_tuple_wf:
  assumes "wf_page d"
  shows "sp_delete_tuple d s =
    (if live d (unat s) then Inr (True, put_slot_offset (unat s) 0 d) else Inr (False, d))"
proof (cases "unat s < page_slots d")
  case True
  with assms show ?thesis
    by (auto simp: sp_delete_tuple_def slot_is_free_wf word_le_nat_alt page_slots_def)
next
  case False
  then show ?thesis by (auto simp: sp_delete_tuple_def word_le_nat_alt page_slots_def live_def)
qed

lemma shrink_slot_wf:
  assumes wf: "wf_page d" and lv: "live d i" and t: "length t \<le> slot_len d i"
  defines "e \<equiv> put_slot_length i (of_nat (length t)) (splice (slot_off d i) t d)"
  shows "wf_page e" "page_tuples e = (page_tuples d)[i := Some t]" "sp_next e = sp_next d"
    "page_free e = page_free d"
proof -
  note D = wf_pageD [OF wf]
  have i: "i < page_slots d" using lv by (rule live_less)
  have fit: "slot_off d i + length t \<le> length d" using t D(1) D(5) [OF lv] by simp
  have us: "unat (of_nat (length t) :: 16 word) = length t"
    using t le_less_trans [OF _ uint16_less] by (simp add: unat_of_nat)
  let ?d1 = "splice (slot_off d i) t d"
  have l1: "length ?d1 = length d" using fit by simp
  have in1: "slot_in_page ?d1 j = slot_in_page d j" for j using l1 by (simp add: slot_in_page_def)
  have above: "8 + 4 * page_slots d \<le> slot_off d i" using D(2) D(4) [OF lv] by simp
  have below: "12 + 4 * j \<le> slot_off d i" if "j < page_slots d" for j using that above by simp
  have si: "slot_in_page d j" if "j < page_slots d" for j using wf that by (rule wf_slot_in_page)
  have hdr: "length e = length d" "sp_count e = sp_count d" "sp_free e = sp_free d" "sp_next e = sp_next d"
    using si [OF i] above fit l1 in1 by (simp_all add: e_def layout_simps)
  have slots: "page_slots e = page_slots d" using hdr by (simp add: page_slots_def)
  have s: "slot_offset e j = slot_offset d j"
    "slot_length e j = (if i = j then of_nat (length t) else slot_length d j)"
    if "j < page_slots d" for j
    using si [OF i] si [OF that] below [OF that] fit in1 by (simp_all add: e_def layout_simps)
  have live: "live e j = live d j" for j using s(1) [of j] by (auto simp: live_def slots)
  have old: "slot_off e j = slot_off d j" "slot_len e j = (if i = j then length t else slot_len d j)"
    if "live d j" for j
    using s [OF live_less [OF that]] us by simp_all
  show "wf_page e"
    unfolding wf_page_def slots live
    using D hdr old t by (fastforce simp: disjoint_tuples_def)
  have sl: "slice k n e = slice k n ?d1" if "slot_off d i \<le> k \<or> page_free d \<le> k" "k + n \<le> kPAGE_SIZE" for k n
    using that above D(1,2) i l1 by (auto simp: e_def intro!: slice_put)
  have self: "slice (slot_off d i) (length t) e = t"
    using fit D(1) by (subst sl) (auto simp: slice_splice_same)
  have other: "slice (slot_off d j) (slot_len d j) e = slice (slot_off d j) (slot_len d j) d"
    if "live d j" "j \<noteq> i" for j
    using D(1) D(4,5) [OF that(1)] D(6) [OF that(1) lv that(2)] t fit
    by (subst sl) (auto simp: disjoint_tuples_def intro!: slice_splice_other)
  show "page_tuples e = (page_tuples d)[i := Some t]"
  proof (rule page_tuples_eqI)
    fix j assume "j < length ((page_tuples d)[i := Some t])"
    then have "j < page_slots d" by simp
    then show "tuple_at e j = (page_tuples d)[i := Some t] ! j"
      using old [of j] lv self other [of j]
      by (cases "j = i") (auto simp: tuple_at_def live nth_page_tuples)
  qed (simp add: slots)
  show "sp_next e = sp_next d" "page_free e = page_free d" using hdr by simp_all
qed

lemma sp_try_update_in_place_wf:
  assumes wf: "wf_page d" and t: "length t < 65536"
  shows "sp_try_update_in_place d r t =
    (let i = unat (rid_slot r) in
     if live d i \<and> length t \<le> slot_len d i
     then Inr (True, put_slot_length i (of_nat (length t)) (splice (slot_off d i) t d))
     else Inr (False, d))"
proof -
  have us: "unat (of_nat (length t) :: 16 word) = length t" using t by (simp add: unat_of_nat)
  show ?thesis
  proof (cases "unat (rid_slot r) < page_slots d")
    case True
    with wf show ?thesis
      using wf_pageD(1) [OF wf] wf_pageD(5) [OF wf, of "unat (rid_slot r)"]
      by (auto simp: sp_try_update_in_place_def slot_is_free_wf word_le_nat_alt word_less_nat_alt
          page_slots_def Let_def us)
  next
    case False
    then show ?thesis
      by (auto simp: sp_try_update_in_place_def word_le_nat_alt page_slots_def live_def Let_def)
  qed
qed

end
