(* ===== verification/Page_Compact.thy ===== *)
theory Page_Compact
  imports Page_Ops
begin

text \<open>
  \<open>SlottedPage::compact\<close>, \<open>restore_tuple\<close> and \<open>is_compacted\<close>: compaction keeps the rows and their slot
  numbers and gives back every byte that no live row uses.
\<close>

section \<open>Space used by live rows\<close>

definition used :: "page_data \<Rightarrow> nat \<Rightarrow> nat" where
  "used d k = (\<Sum>i | i < k \<and> live d i. slot_len d i)"

lemma used_0 [simp]: "used d 0 = 0"
  by (simp add: used_def)

lemma used_Suc: "used d (Suc k) = used d k + (if live d k then slot_len d k else 0)"
proof -
  have "{i. i < Suc k \<and> live d i} = (if live d k then insert k {i. i < k \<and> live d i} else {i. i < k \<and> live d i})"
    by (auto simp: less_Suc_eq)
  then show ?thesis by (simp add: used_def)
qed

lemma used_mono: "j \<le> k \<Longrightarrow> used d j \<le> used d k"
  unfolding used_def by (intro sum_mono2) auto

text \<open>The live rows are disjoint parts of the tuple area, so together they fit into it.\<close>

lemma used_bound:
  assumes wf: "wf_page d"
  shows "used d k + page_free d \<le> kPAGE_SIZE"
proof -
  let ?L = "{i. i < k \<and> live d i}" and ?R = "\<lambda>i. {slot_off d i..<slot_off d i + slot_len d i}"
  note D = wf_pageD [OF wf]
  have "used d k = (\<Sum>i\<in>?L. card (?R i))" by (simp add: used_def)
  also have "\<dots> = card (\<Union>i\<in>?L. ?R i)"
    using D(6) by (intro card_UN_disjoint [symmetric]) (auto simp: disjoint_tuples_def, fastforce+)
  also have "\<dots> \<le> card {page_free d..<kPAGE_SIZE}"
    using D(4,5) by (intro card_mono) (auto, fastforce+)
  finally show ?thesis using D(3) by simp
qed

definition dest :: "page_data \<Rightarrow> nat \<Rightarrow> nat" where
  "dest d j = kPAGE_SIZE - used d (Suc j)"

definition new_slot :: "page_data \<Rightarrow> nat \<Rightarrow> 16 word \<times> 16 word" where
  "new_slot d j = (if live d j then (of_nat (dest d j), slot_length d j) else (0, 0))"

lemma dest_bounds:
  assumes wf: "wf_page d" and lv: "live d j"
  shows "page_free d \<le> dest d j" "dest d j + slot_len d j = kPAGE_SIZE - used d j"
    "unat (of_nat (dest d j) :: 16 word) = dest d j" "dest d j + slot_len d j \<le> kPAGE_SIZE" "0 < dest d j"
proof -
  have b: "used d (Suc j) + page_free d \<le> kPAGE_SIZE" by (rule used_bound [OF wf])
  then show a: "page_free d \<le> dest d j" by (simp add: dest_def)
  show c: "dest d j + slot_len d j = kPAGE_SIZE - used d j"
    using b lv by (simp add: dest_def used_Suc)
  then show "dest d j + slot_len d j \<le> kPAGE_SIZE" by simp
  have "dest d j < 65536" by (simp add: dest_def kPAGE_SIZE_def)
  then show "unat (of_nat (dest d j) :: 16 word) = dest d j" by (simp add: unat_of_nat)
  show "0 < dest d j" using a wf_pageD(2) [OF wf] by simp
qed

lemma dest_disjoint: "i < j \<Longrightarrow> kPAGE_SIZE - used d j \<le> dest d i"
  using used_mono [of "Suc i" j d] by (simp add: dest_def)

section \<open>The copying loop\<close>

lemma compact_slots_step:
  assumes wf: "wf_page d" and k: "k \<le> page_slots d"
  shows "\<exists>c. compact_slots d [0..<k] [] zero_page (of_nat kPAGE_SIZE)
      = Inr (map (new_slot d) [0..<k], c, of_nat (kPAGE_SIZE - used d k)) \<and> length c = kPAGE_SIZE \<and>
    (\<forall>j < k. live d j \<longrightarrow> slice (dest d j) (slot_len d j) c = slice (slot_off d j) (slot_len d j) d)"
proof -
  have app: "compact_slots d (is @ js) ss c o1 =
      bind_res (compact_slots d is ss c o1) (\<lambda>(ss, c, o1). compact_slots d js ss c o1)" for "is" js ss c o1
    by (induction "is" arbitrary: ss c o1)
       (auto simp: Let_def bind_res_def split: sum.splits)
  show ?thesis
    using k
  proof (induction k)
    case 0
    then show ?case by simp
  next
    case (Suc k)
    then obtain c where c: "compact_slots d [0..<k] [] zero_page (of_nat kPAGE_SIZE)
        = Inr (map (new_slot d) [0..<k], c, of_nat (kPAGE_SIZE - used d k))" "length c = kPAGE_SIZE"
      "\<forall>j < k. live d j \<longrightarrow> slice (dest d j) (slot_len d j) c = slice (slot_off d j) (slot_len d j) d"
      by auto
    have free: "slot_is_free d k = Inr (\<not> live d k)" using wf Suc.prems by (simp add: slot_is_free_wf)
    show ?case
    proof (cases "live d k")
      case False
      with c free show ?thesis
        by (intro exI [of _ c]) (auto simp: app used_Suc new_slot_def less_Suc_eq)
    next
      case True
      note B = dest_bounds [OF wf True] and D = wf_pageD [OF wf]
      let ?t = "slice (slot_off d k) (slot_len d k) d"
      have ok: "slot_off d k + slot_len d k \<le> length d" using D(1) D(5) [OF True] by simp
      have lt: "length ?t = slot_len d k" using ok by simp
      have o1: "(of_nat (kPAGE_SIZE - used d k) :: 16 word) - slot_length d k = of_nat (dest d k)"
      proof -
        have "(of_nat (dest d k + slot_len d k) :: 16 word) = of_nat (kPAGE_SIZE - used d k)"
          by (simp only: B(2))
        then show ?thesis by (simp add: algebra_simps)
      qed
      let ?c = "splice (dest d k) ?t c"
      have fit: "dest d k + slot_len d k \<le> length c" using B(4) c(2) by simp
      have "compact_slots d [0..<Suc k] [] zero_page (of_nat kPAGE_SIZE)
          = Inr (map (new_slot d) [0..<Suc k], ?c, of_nat (dest d k))"
        using c(1) free True ok B(3,4) by (simp add: app o1 Let_def new_slot_def)
      moreover have "kPAGE_SIZE - used d (Suc k) = dest d k" by (simp add: dest_def)
      moreover have "slice (dest d j) (slot_len d j) ?c = slice (slot_off d j) (slot_len d j) d"
        if "j < Suc k" "live d j" for j
      proof (cases "j = k")
        case True
        then show ?thesis using slice_splice_same [of "dest d k" ?t c] fit lt by simp
      next
        case False
        with that have jk: "j < k" by simp
        have "slice (dest d j) (slot_len d j) ?c = slice (dest d j) (slot_len d j) c"
          using dest_disjoint [OF jk, of d] B(2) lt fit dest_bounds(4) [OF wf that(2)] c(2)
          by (intro slice_splice_other) auto
        with c(3) jk that show ?thesis by simp
      qed
      ultimately show ?thesis using fit lt c(2) by auto
    qed
  qed
qed

section \<open>The page it writes\<close>

lemma length_slot_bytes [simp]: "length (slot_bytes s) = 4"
  by (simp add: slot_bytes_def)

lemma slice_slice: "k + n \<le> m \<Longrightarrow> slice k n (slice b m xs) = slice (b + k) n xs"
  by (simp add: slice_def take_drop drop_drop min_def add.commute)

definition page_of :: "page_id \<Rightarrow> 16 word \<Rightarrow> (16 word \<times> 16 word) list \<Rightarrow> page_data \<Rightarrow> nat \<Rightarrow> page_data" where
  "page_of next count slots c o1 =
     splice o1 (drop o1 c) (splice 8 (concat (map slot_bytes slots))
       (splice 0 (bytes32 next @ bytes16 count @ bytes16 (of_nat o1)) (replicate kPAGE_SIZE 0)))"

lemma page_of_fields:
  fixes nxt :: page_id and cnt :: "16 word" and slots :: "(16 word \<times> 16 word) list"
  assumes c: "length c = kPAGE_SIZE" and room: "8 + 4 * length slots \<le> o1" and o1: "o1 \<le> kPAGE_SIZE"
  defines "e \<equiv> page_of nxt cnt slots c o1"
  shows "length e = kPAGE_SIZE" "sp_next e = nxt" "sp_count e = cnt" "page_free e = o1"
    "j < length slots \<Longrightarrow> slot_offset e j = fst (slots ! j)"
    "j < length slots \<Longrightarrow> slot_length e j = snd (slots ! j)"
    "o1 \<le> k \<Longrightarrow> k + n \<le> kPAGE_SIZE \<Longrightarrow> slice k n e = slice k n c"
proof -
  let ?h = "bytes32 nxt @ bytes16 cnt @ bytes16 (of_nat o1)"
  let ?s = "concat (map slot_bytes slots)"
  let ?z = "replicate kPAGE_SIZE (0 :: byte)"
  define d1 where "d1 = splice 0 ?h ?z"
  define d2 where "d2 = splice 8 ?s d1"
  have e: "e = splice o1 (drop o1 c) d2" by (simp add: e_def page_of_def d1_def d2_def)
  have ls: "length ?s = 4 * length slots" by (rule length_concat_uniform) simp
  have l1: "length d1 = kPAGE_SIZE" by (simp add: d1_def kPAGE_SIZE_def)
  have l2: "length d2 = kPAGE_SIZE" using room o1 by (simp add: d2_def ls l1)
  have fit: "o1 + length (drop o1 c) = length d2" using c o1 l2 by simp
  show "length e = kPAGE_SIZE" using fit l2 by (simp add: e)
  have low: "slice k n e = slice k n d2" if "k + n \<le> o1" for k n
    using that fit l2 o1 by (simp add: e slice_splice_other)
  have hdr: "slice k n e = slice k n ?h" if "k + n \<le> 8" for k n
  proof -
    have "slice k n e = slice k n d2" using that room by (intro low) simp
    also have "\<dots> = slice k n d1"
      using that room o1 by (simp add: d2_def slice_splice_other ls l1 kPAGE_SIZE_def)
    also have "\<dots> = slice k n ?h"
      unfolding d1_def using that by (subst slice_splice_inside) (simp_all add: kPAGE_SIZE_def)
    finally show ?thesis .
  qed
  have uo: "unat (of_nat o1 :: 16 word) = o1" using o1 by (simp add: unat_of_nat kPAGE_SIZE_def)
  show "sp_next e = nxt" "sp_count e = cnt" "page_free e = o1"
    unfolding sp_next_def sp_count_def sp_free_def
    by (simp_all add: hdr) (simp_all add: slice_def uo)
  show "slice k n e = slice k n c" if "o1 \<le> k" "k + n \<le> kPAGE_SIZE"
  proof -
    have "slice k n e = slice (k - o1) n (drop o1 c)"
      unfolding e using that fit l2 by (intro slice_splice_inside) simp_all
    with that show ?thesis by (simp add: slice_def)
  qed
  have slot: "slice (8 + 4 * j) 4 e = slot_bytes (slots ! j)" if "j < length slots" for j
  proof -
    have "slice (8 + 4 * j) 4 e = slice (8 + 4 * j) 4 d2" using that room by (intro low) simp
    also have "\<dots> = slice (4 * j) 4 ?s"
      unfolding d2_def using that room o1 by (subst slice_splice_inside) (simp_all add: ls l1)
    also have "\<dots> = slot_bytes (slots ! j)" using that by (intro slice_concat_uniform) simp_all
    finally show ?thesis .
  qed
  have sub: "slice (8 + 4 * j) 2 e = slice 0 2 (slice (8 + 4 * j) 4 e)"
    "slice (10 + 4 * j) 2 e = slice 2 2 (slice (8 + 4 * j) 4 e)" for j
    by (simp_all add: slice_slice add.commute)
  have "slice (8 + 4 * j) 2 e = bytes16 (fst (slots ! j))"
    "slice (10 + 4 * j) 2 e = bytes16 (snd (slots ! j))" if "j < length slots" for j
    unfolding sub slot [OF that] by (simp_all add: slot_bytes_def slice_def)
  then show "j < length slots \<Longrightarrow> slot_offset e j = fst (slots ! j)"
    "j < length slots \<Longrightarrow> slot_length e j = snd (slots ! j)"
    by (simp_all add: slot_offset_def slot_length_def)
qed

section \<open>Compaction keeps the rows\<close>

definition compacted_page :: "page_data \<Rightarrow> page_data \<Rightarrow> bool" where
  "compacted_page d e \<longleftrightarrow>
     wf_page e \<and> page_tuples e = page_tuples d \<and> sp_next e = sp_next d \<and>
     page_free e = kPAGE_SIZE - used d (page_slots d) \<and>
     (\<forall>j. live e j = live d j) \<and>
     (\<forall>j. live d j \<longrightarrow> slot_off e j = dest d j \<and> slot_len e j = slot_len d j)"

lemma sp_compact_page_of:
  assumes wf: "wf_page d"
  obtains c where
    "sp_compact d = Inr (page_of (sp_next d) (sp_count d) (map (new_slot d) [0..<page_slots d]) c
       (kPAGE_SIZE - used d (page_slots d)))"
    "length c = kPAGE_SIZE"
    "\<And>j. live d j \<Longrightarrow> slice (dest d j) (slot_len d j) c = slice (slot_off d j) (slot_len d j) d"
proof -
  let ?n = "page_slots d" and ?o = "kPAGE_SIZE - used d (page_slots d)"
  note D = wf_pageD [OF wf]
  obtain c where c: "compact_slots d [0..<?n] [] zero_page (of_nat kPAGE_SIZE)
      = Inr (map (new_slot d) [0..<?n], c, of_nat ?o)" "length c = kPAGE_SIZE"
    "\<forall>j < ?n. live d j \<longrightarrow> slice (dest d j) (slot_len d j) c = slice (slot_off d j) (slot_len d j) d"
    using compact_slots_step [OF wf order_refl] by blast
  have uo: "unat (of_nat ?o :: 16 word) = ?o" by (simp add: unat_of_nat kPAGE_SIZE_def)
  have fit: "8 + 4 * ?n \<le> length d" using D(1-3) by simp
  have "sp_compact d = Inr (page_of (sp_next d) (sp_count d) (map (new_slot d) [0..<?n]) c ?o)"
    using c(1) fit D(1)
    by (simp add: sp_compact_def page_of_def page_slots_def [symmetric] uo Let_def del: of_nat_diff)
  then show thesis using that c(2,3) live_less by blast
qed

theorem sp_compact_wf:
  assumes wf: "wf_page d"
  obtains e where "sp_compact d = Inr e" "compacted_page d e"
proof -
  let ?n = "page_slots d" and ?o = "kPAGE_SIZE - used d (page_slots d)"
  obtain c where c: "sp_compact d = Inr (page_of (sp_next d) (sp_count d) (map (new_slot d) [0..<?n]) c ?o)"
    "length c = kPAGE_SIZE"
    "\<And>j. live d j \<Longrightarrow> slice (dest d j) (slot_len d j) c = slice (slot_off d j) (slot_len d j) d"
    using sp_compact_page_of [OF wf] by blast
  define e where "e = page_of (sp_next d) (sp_count d) (map (new_slot d) [0..<?n]) c ?o"
  note D = wf_pageD [OF wf]
  have room: "8 + 4 * ?n \<le> ?o" using used_bound [OF wf, of ?n] D(2) by simp
  have "8 + 4 * length (map (new_slot d) [0..<?n]) \<le> ?o" using room by simp
  note F = page_of_fields [OF c(2) this, where nxt = "sp_next d" and cnt = "sp_count d",
      folded e_def, simplified]
  have slots: "page_slots e = ?n" using F(3) by (simp add: page_slots_def)
  have s: "slot_offset e j = fst (new_slot d j)" "slot_length e j = snd (new_slot d j)" if "j < ?n" for j
    using F(5,6) [of j] that by simp_all
  have live: "live e j = live d j" for j
  proof (cases "live d j")
    case True
    with dest_bounds(3,5) [OF wf True] live_less [OF True] show ?thesis
      by (auto simp: live_def slots s new_slot_def)
  next
    case False
    then show ?thesis by (auto simp: live_def slots s new_slot_def)
  qed
  have fields: "slot_off e j = dest d j" "slot_len e j = slot_len d j" if "live d j" for j
    using that live_less [OF that] dest_bounds(3) [OF wf that] by (simp_all add: s new_slot_def)
  have low: "?o \<le> dest d j" if "live d j" for j
    using used_mono [of "Suc j" ?n d] live_less [OF that] by (simp add: dest_def)
  have "wf_page e"
    unfolding wf_page_def slots live
  proof (intro conjI allI impI)
    show "length e = kPAGE_SIZE" "8 + 4 * ?n \<le> page_free e" "page_free e \<le> kPAGE_SIZE"
      using F(1,4) room by simp_all
  next
    fix j assume j: "live d j"
    show "page_free e \<le> slot_off e j" using low [OF j] F(4) fields [OF j] by simp
    show "slot_off e j + slot_len e j \<le> kPAGE_SIZE" using dest_bounds(4) [OF wf j] fields [OF j] by simp
  next
    fix i j assume ij: "live d i" "live d j" "i \<noteq> j"
    then show "disjoint_tuples e i j"
      using dest_disjoint [of i j d] dest_disjoint [of j i d] dest_bounds(2) [OF wf ij(1)]
        dest_bounds(2) [OF wf ij(2)] fields [OF ij(1)] fields [OF ij(2)]
      by (cases "i < j") (auto simp: disjoint_tuples_def)
  qed
  moreover have "page_tuples e = page_tuples d"
  proof (rule page_tuples_eqI)
    fix j assume "j < length (page_tuples d)"
    moreover have "slice (dest d j) (slot_len d j) e = slice (slot_off d j) (slot_len d j) d" if "live d j"
      using F(7) [of "dest d j" "slot_len d j"] low [OF that] dest_bounds(4) [OF wf that] c(3) [OF that]
      by simp
    ultimately show "tuple_at e j = page_tuples d ! j"
      using fields [of j] by (simp add: nth_page_tuples tuple_at_def live)
  qed (simp add: slots)
  ultimately have "compacted_page d e"
    using F(2,4) live fields by (simp add: compacted_page_def)
  with c(1) show thesis using that by (simp add: e_def)
qed

text \<open>The room after compaction is the page without its header, its slots and its live bytes.\<close>

lemma compacted_room:
  "compacted_page d e \<Longrightarrow> page_room e = kPAGE_SIZE - used d (page_slots d) - (8 + 4 * page_slots d)"
  by (simp add: compacted_page_def page_room_def) (metis length_page_tuples)

lemma compacted_insert_index: "compacted_page d e \<Longrightarrow> insert_index (page_tuples e) p = insert_index (page_tuples d) p"
  by (simp add: compacted_page_def)

section \<open>Restoring a row\<close>

text \<open>A free slot gets its row back whenever the live rows leave enough bytes.\<close>

definition restorable :: "page_data \<Rightarrow> 16 word \<Rightarrow> byte list \<Rightarrow> bool" where
  "restorable d s t \<longleftrightarrow> unat s < page_slots d \<and> \<not> live d (unat s) \<and>
     used d (page_slots d) + length t + (8 + 4 * page_slots d) \<le> kPAGE_SIZE"

lemma insert_index_prefered:
  "unat s < page_slots d \<Longrightarrow> \<not> live d (unat s) \<Longrightarrow> insert_index (page_tuples d) (Some s) = unat s"
  by (simp add: insert_index_def nth_page_tuples tuple_at_None)

lemma insert_prefered:
  assumes wf: "wf_page d" and s: "unat s < page_slots d" "\<not> live d (unat s)" and t: "length t \<le> page_room d"
  obtains e where
    "sp_insert_tuple d t (Some s) = Inr (Some \<lparr>rid_page = INVALID_PAGE_ID, rid_slot = s\<rparr>, e)"
    "wf_page e" "page_tuples e = (page_tuples d)[unat s := Some t]" "sp_next e = sp_next d"
proof -
  have "insert_fits d t (Some s)"
    using s t by (simp add: insert_fits_def insert_index_prefered)
  from sp_insert_tuple_fits [OF wf this] show thesis
    using that s by (auto simp: insert_index_prefered put_tuple_def)
qed

theorem sp_restore_tuple_wf:
  assumes wf: "wf_page d" and r: "restorable d s t"
  obtains e where "sp_restore_tuple d s t = Inr e" "wf_page e"
    "page_tuples e = (page_tuples d)[unat s := Some t]" "sp_next e = sp_next d"
proof -
  have s: "unat s < page_slots d" "\<not> live d (unat s)" using r by (simp_all add: restorable_def)
  have guard: "s < sp_count d" "slot_is_free d (unat s) = Inr True"
    using s wf by (simp_all add: word_less_nat_alt page_slots_def slot_is_free_wf)
  have small: "length t < 65536" using r by (simp add: restorable_def kPAGE_SIZE_def)
  note us = uint_of_nat16 [OF small]
  have fs: "free_space_bytes x = int (page_room x)" if "wf_page x" for x
    using that by (simp add: free_space_bytes_wf page_room_def)
  show thesis
  proof (cases "page_room d < length t")
    case False
    obtain e where "sp_insert_tuple d t (Some s) = Inr (Some \<lparr>rid_page = INVALID_PAGE_ID, rid_slot = s\<rparr>, e)"
      "wf_page e" "page_tuples e = (page_tuples d)[unat s := Some t]" "sp_next e = sp_next d"
      using insert_prefered [OF wf s] False by (metis not_le_imp_less)
    then show thesis
      using that False guard by (simp add: sp_restore_tuple_def Let_def fs [OF wf] us)
  next
    case True
    obtain c where c: "sp_compact d = Inr c" "compacted_page d c" using sp_compact_wf [OF wf] by blast
    then have wfc: "wf_page c" and tup: "page_tuples c = page_tuples d" and nxt: "sp_next c = sp_next d"
      by (simp_all add: compacted_page_def)
    have slots: "page_slots c = page_slots d" using tup by (metis length_page_tuples)
    have sc: "unat s < page_slots c" "\<not> live c (unat s)" using s c(2) slots by (simp_all add: compacted_page_def)
    have fit: "length t \<le> page_room c"
      using r compacted_room [OF c(2)] unfolding restorable_def by linarith
    obtain e where "sp_insert_tuple c t (Some s) = Inr (Some \<lparr>rid_page = INVALID_PAGE_ID, rid_slot = s\<rparr>, e)"
      "wf_page e" "page_tuples e = (page_tuples c)[unat s := Some t]" "sp_next e = sp_next c"
      using insert_prefered [OF wfc sc fit] by blast
    then show thesis
      using that True guard c(1) fit tup nxt
      by (simp add: sp_restore_tuple_def Let_def fs [OF wf] fs [OF wfc] us)
  qed
qed

section \<open>What \<open>is_compacted\<close> recognises\<close>

lemma is_compacted_from_sorted:
  assumes "wf_page d" and "set is \<subseteq> {..<page_slots d}" and "is_compacted_from d is o1 = Inr True"
    and "i \<in> set is" and "live d i"
  shows "unat o1 \<le> slot_off d i"
  using assms
proof (induction "is" arbitrary: o1)
  case Nil
  then show ?case by simp
next
  case (Cons k ks)
  have free: "slot_is_free d k = Inr (\<not> live d k)" using Cons.prems by (simp add: slot_is_free_wf)
  show ?case
  proof (cases "live d k")
    case False
    with Cons free show ?thesis by (auto split: if_splits)
  next
    case True
    then have eq: "o1 = slot_offset d k"
      and rest: "is_compacted_from d ks (o1 + slot_length d k) = Inr True"
      using Cons.prems(3) free by (auto split: if_splits)
    show ?thesis
    proof (cases "i = k")
      case False
      have "unat (o1 + slot_length d k) = slot_off d k + slot_len d k"
        using wf_pageD(5) [OF Cons.prems(1) True] eq
        by (simp add: unat_word_ariths kPAGE_SIZE_def)
      with Cons.IH [OF Cons.prems(1) _ rest] Cons.prems(2,4,5) False eq show ?thesis by simp
    qed (simp add: eq)
  qed
qed

lemma is_compacted_from_order:
  assumes "wf_page d" and "sorted_wrt (<) is" and "set is \<subseteq> {..<page_slots d}"
    and "is_compacted_from d is o1 = Inr True" and "i \<in> set is" and "j \<in> set is" and "i < j"
    and "live d i" and "live d j"
  shows "slot_off d i + slot_len d i \<le> slot_off d j"
  using assms
proof (induction "is" arbitrary: o1)
  case Nil
  then show ?case by simp
next
  case (Cons k ks)
  have free: "slot_is_free d k = Inr (\<not> live d k)" using Cons.prems by (simp add: slot_is_free_wf)
  have jk: "j \<in> set ks" using Cons.prems(2,5-7) by auto
  show ?case
  proof (cases "i = k")
    case True
    then have eq: "o1 = slot_offset d i" and rest: "is_compacted_from d ks (o1 + slot_length d i) = Inr True"
      using Cons.prems(4,8) free by (auto split: if_splits)
    have "unat (o1 + slot_length d i) = slot_off d i + slot_len d i"
      using wf_pageD(5) [OF Cons.prems(1,8)] eq by (simp add: unat_word_ariths kPAGE_SIZE_def)
    with is_compacted_from_sorted [OF Cons.prems(1) _ rest jk Cons.prems(9)] Cons.prems(3)
    show ?thesis by simp
  next
    case False
    then have "i \<in> set ks" using Cons.prems(5) by simp
    moreover obtain o2 where "is_compacted_from d ks o2 = Inr True"
      using Cons.prems(4) free by (auto split: if_splits)
    ultimately show ?thesis using Cons.IH Cons.prems jk by simp
  qed
qed

lemma is_compacted_from_total:
  "wf_page d \<Longrightarrow> set is \<subseteq> {..<page_slots d} \<Longrightarrow> \<exists>b. is_compacted_from d is o1 = Inr b"
proof (induction "is" arbitrary: o1)
  case Nil
  then show ?case by simp
next
  case (Cons k ks)
  then have free: "slot_is_free d k = Inr (\<not> live d k)" by (simp add: slot_is_free_wf)
  have "\<exists>b. is_compacted_from d ks o2 = Inr b" for o2 using Cons by simp
  with free show ?case by (cases "live d k"; cases "o1 = slot_offset d k"; simp) blast
qed

lemma sp_is_compacted_wf:
  assumes "wf_page d"
  shows "sp_is_compacted d =
    (if page_slots d = 0 then Inr True
     else is_compacted_from d [0..<page_slots d] (slot_offset d 0))"
proof (cases "page_slots d = 0")
  case True
  then show ?thesis by (simp add: sp_is_compacted_def page_slots_def unat_eq_0)
next
  case False
  then have "slot_in_page d 0" and "sp_count d \<noteq> 0"
    using wf_slot_in_page [OF assms, of 0] by (auto simp: page_slots_def)
  with False show ?thesis by (simp add: sp_is_compacted_def page_slots_def)
qed

text \<open>
  Compaction stacks rows downwards from the end of the page, while \<open>is_compacted\<close> expects each
  row to start where the previous one ends: two rows are enough for it to say no.
\<close>

lemma compacted_not_recognised:
  assumes wf: "wf_page d" and c: "compacted_page d e" and ij: "live d i" "live d j" "i < j"
    and t: "0 < slot_len d j"
  shows "sp_is_compacted e = Inr False"
proof -
  have wfe: "wf_page e" and slots: "page_slots e = page_slots d"
    and lv: "live e i" "live e j"
    and f: "slot_off e i = dest d i" "slot_off e j = dest d j" "slot_len e j = slot_len d j"
    using c ij by (auto simp: compacted_page_def) (metis length_page_tuples)
  have n: "page_slots e \<noteq> 0" using live_less [OF lv(1)] by simp
  obtain b where b: "is_compacted_from e [0..<page_slots e] (slot_offset e 0) = Inr b"
    using is_compacted_from_total [OF wfe, of "[0..<page_slots e]"] by fastforce
  have "\<not> b"
  proof
    assume b
    then have "slot_off e i + slot_len e i \<le> slot_off e j"
      using b ij lv live_less [OF lv(1)] live_less [OF lv(2)]
      by (intro is_compacted_from_order [OF wfe _ _ _ _ _ ij(3) lv]) (auto simp: strict_sorted_iff)
    moreover have "dest d j + slot_len d j \<le> dest d i"
      using dest_disjoint [OF ij(3), of d] dest_bounds(2) [OF wf ij(2)] by simp
    ultimately show False using f t by simp
  qed
  with b n show ?thesis by (simp add: sp_is_compacted_wf [OF wfe])
qed

section \<open>Walking the occupied slots\<close>

lemma sp_next_occupied_slot_wf:
  assumes "wf_page d"
  shows "sp_next_occupied_slot d s =
    Inr (map_option of_nat (List.find (live d) [unat (s + 1)..<page_slots d]))"
  unfolding sp_next_occupied_slot_def page_slots_def [symmetric]
  by (rule first_slot_pure) (simp add: slot_is_free_wf [OF assms])

end
