(* ===== verification/Page_Properties.thy ===== *)
theory Page_Properties
  imports Page_Compact
begin

text \<open>
  What \<open>SlottedPage\<close> promises to the table heap, as a map from slot numbers to rows: insert, get,
  delete, update, compact and restore, one theorem each, and the safety of every sequence of them.
\<close>

section \<open>The page as a map\<close>

lemma tuple_at_page_tuples: "tuple_at d i = (if i < page_slots d then page_tuples d ! i else None)"
  by (auto simp: nth_page_tuples tuple_at_def live_def)

lemma tuple_at_list_update:
  "page_tuples e = (page_tuples d)[i := x] \<Longrightarrow> i < page_slots d \<Longrightarrow> tuple_at e = (tuple_at d)(i := x)"
proof -
  assume e: "page_tuples e = (page_tuples d)[i := x]" and i: "i < page_slots d"
  have "page_slots e = page_slots d" using e by (metis length_list_update length_page_tuples)
  with e i show ?thesis by (auto simp: tuple_at_page_tuples nth_list_update)
qed

lemma tuple_at_put_tuple:
  assumes e: "page_tuples e = put_tuple (page_tuples d) i t" and i: "i \<le> page_slots d"
  shows "tuple_at e = (tuple_at d)(i \<mapsto> t)"
proof (cases "i < page_slots d")
  case True
  with e show ?thesis using tuple_at_list_update [of e d i "Some t"] by (simp add: put_tuple_def)
next
  case False
  with i have eq: "page_tuples e = page_tuples d @ [Some t]" and id: "i = page_slots d"
    using e by (simp_all add: put_tuple_def)
  have "page_slots e = Suc (page_slots d)"
    using eq by (metis length_append_singleton length_page_tuples)
  with eq id show ?thesis by (auto simp: tuple_at_page_tuples nth_append)
qed

lemma tuple_at_cong: "page_tuples e = page_tuples d \<Longrightarrow> tuple_at e = tuple_at d"
  by (metis (no_types, lifting) ext length_page_tuples tuple_at_page_tuples)

lemma tuple_at_length: "wf_page d \<Longrightarrow> tuple_at d i = Some t \<Longrightarrow> live d i \<and> length t = slot_len d i"
  using wf_pageD(1,5) [of d] by (auto simp: tuple_at_def split: if_splits)

lemma insert_index_dead: "tuple_at d (insert_index (page_tuples d) p) = None"
  using insert_index_free [of "page_tuples d" p] by (auto simp: tuple_at_page_tuples)

lemma insert_as_map:
  assumes wf: "wf_page d" and fits: "insert_fits d t p"
  defines "i \<equiv> insert_index (page_tuples d) p"
  shows "\<exists>e. sp_insert_tuple d t p = Inr (Some \<lparr>rid_page = INVALID_PAGE_ID, rid_slot = of_nat i\<rparr>, e) \<and>
    wf_page e \<and> tuple_at e = (tuple_at d)(i \<mapsto> t) \<and> sp_next e = sp_next d"
  using sp_insert_tuple_fits [OF wf fits] tuple_at_put_tuple insert_index_le [of "page_tuples d" p]
  unfolding i_def by (metis length_page_tuples)

lemma get_as_map:
  "wf_page d \<Longrightarrow> sp_get_tuple d s = Inr (case tuple_at d (unat s) of None \<Rightarrow> [] | Some t \<Rightarrow> t)"
  by (simp add: sp_get_tuple_wf tuple_at_page_tuples)

lemma delete_as_map:
  assumes wf: "wf_page d" and lv: "live d (unat s)"
  shows "\<exists>e. sp_delete_tuple d s = Inr (True, e) \<and> wf_page e \<and>
    tuple_at e = (tuple_at d)(unat s := None) \<and> sp_next e = sp_next d \<and> page_free e = page_free d \<and>
    page_slots e = page_slots d"
  using drop_slot_wf [OF wf live_less [OF lv]] lv tuple_at_list_update live_less [OF lv]
  by (auto simp: sp_delete_tuple_wf [OF wf] simp flip: length_page_tuples)

lemma update_as_map:
  assumes wf: "wf_page d" and lv: "live d (unat (rid_slot r))" and t: "length t \<le> slot_len d (unat (rid_slot r))"
  shows "\<exists>e. sp_try_update_in_place d r t = Inr (True, e) \<and> wf_page e \<and>
    tuple_at e = (tuple_at d)(unat (rid_slot r) \<mapsto> t) \<and> sp_next e = sp_next d"
proof -
  have "length t < 65536" using order_le_less_trans [OF t unsigned_less] by simp
  with shrink_slot_wf [OF wf lv t] tuple_at_list_update live_less [OF lv] lv t show ?thesis
    by (auto simp: sp_try_update_in_place_wf [OF wf] Let_def)
qed

lemma used_row_lengths:
  assumes "wf_page d"
  shows "used d k = (\<Sum>i<k. case tuple_at d i of None \<Rightarrow> 0 | Some t \<Rightarrow> length t)"
proof (induction k)
  case (Suc k)
  show ?case
    using tuple_at_length [OF assms, of k] Suc by (auto simp: used_Suc tuple_at_None split: option.splits)
qed simp

lemma used_without_row:
  assumes "wf_page d" and "wf_page e" and e: "tuple_at e = (tuple_at d)(i := None)"
    and t: "tuple_at d i = Some t" and i: "i < n"
  shows "used d n = used e n + length t"
proof -
  let ?f = "\<lambda>x i. case tuple_at x i of None \<Rightarrow> 0 | Some t \<Rightarrow> length t"
  have "sum (?f x) {..<n} = ?f x i + sum (?f x) ({..<n} - {i})" for x
    using i by (simp add: sum.remove)
  moreover have "sum (?f e) ({..<n} - {i}) = sum (?f d) ({..<n} - {i})" by (rule sum.cong) (auto simp: e)
  moreover have "?f d i = length t" "?f e i = 0" using t by (simp_all add: e)
  ultimately show ?thesis by (simp add: used_row_lengths [OF assms(1)] used_row_lengths [OF assms(2)])
qed

lemma restore_as_map:
  assumes wf: "wf_page d" and r: "restorable d s t"
  shows "\<exists>e. sp_restore_tuple d s t = Inr e \<and> wf_page e \<and> tuple_at e = (tuple_at d)(unat s \<mapsto> t) \<and>
    sp_next e = sp_next d \<and> page_slots e = page_slots d"
  using sp_restore_tuple_wf [OF wf r] tuple_at_list_update r by (metis restorable_def length_list_update length_page_tuples)

text \<open>A row fits again where it was as long as the slot directory has not grown.\<close>

lemma restorable_deleted:
  assumes wf: "wf_page d" and e: "wf_page e" "tuple_at e = (tuple_at d)(unat s := None)" "page_slots e = page_slots d"
    and t: "tuple_at d (unat s) = Some t"
  shows "restorable e s t"
proof -
  have lt: "unat s < page_slots d" using t live_less [of d "unat s"] tuple_at_None [of d "unat s"] by auto
  have "used d (page_slots d) = used e (page_slots d) + length t" using used_without_row [OF wf e(1,2) t lt] .
  then show ?thesis
    using used_bound [OF wf, of "page_slots d"] wf_pageD(2) [OF wf] lt tuple_at_None [of e "unat s"]
    by (auto simp: restorable_def e(2,3))
qed

lemma restore_refused:
  assumes wf: "wf_page d" and t: "length t < 65536" and r: "\<not> restorable d s t"
  shows "\<exists>m. sp_restore_tuple d s t = Inl (Assert_failed m)"
proof (cases "unat s < page_slots d \<and> \<not> live d (unat s)")
  case False
  then show ?thesis
    using wf by (auto simp: sp_restore_tuple_def word_less_nat_alt page_slots_def bind_res_def check_def
        slot_is_free_wf simp flip: page_slots_def split: if_splits)
next
  case True
  then have guard: "s < sp_count d" "slot_is_free d (unat s) = Inr True"
    using wf by (simp_all add: word_less_nat_alt page_slots_def slot_is_free_wf)
  have over: "kPAGE_SIZE < used d (page_slots d) + length t + (8 + 4 * page_slots d)"
    using r True by (simp add: restorable_def)
  obtain c where c: "sp_compact d = Inr c" "compacted_page d c" using sp_compact_wf [OF wf] by blast
  have wfc: "wf_page c" using c(2) by (simp add: compacted_page_def)
  have fs: "free_space_bytes x = int (page_room x)" if "wf_page x" for x
    using that by (simp add: free_space_bytes_wf page_room_def)
  have "page_room d < length t" "page_room c < length t"
    using over used_bound [OF wf, of "page_slots d"] wf_pageD(2) [OF wf] compacted_room [OF c(2)]
    by (simp_all add: page_room_def)
  then show ?thesis
    using guard c(1) by (simp add: sp_restore_tuple_def Let_def fs [OF wf] fs [OF wfc] uint_of_nat16 [OF t])
qed

section \<open>Rows of 64 KiB and more\<close>

text \<open>
  The size of a row is cast to 16 bits before anything is checked, but all its bytes are copied: a row
  of 64 KiB or more whose remainder would fit is written behind the page.
\<close>

definition low_part :: "byte list \<Rightarrow> byte list" where
  "low_part t = take (length t mod 65536) t"

lemma low_part_size: "(of_nat (length (low_part t)) :: 16 word) = of_nat (length t)" "length (low_part t) < 65536"
proof -
  have "length (low_part t) = length t mod 65536" by (simp add: low_part_def min_absorb2)
  then show "length (low_part t) < 65536" "(of_nat (length (low_part t)) :: 16 word) = of_nat (length t)"
    by (simp_all add: word_of_nat_eq_iff take_bit_eq_mod)
qed

lemma write_tuple_long:
  assumes wf: "wf_page e" and i: "i < page_slots e" and t: "65536 \<le> length t"
  shows "write_tuple e i t = Inl Undefined"
proof -
  have si: "slot_in_page e i" using wf i by (rule wf_slot_in_page)
  have len: "length e = 8192" "8 \<le> length e" using wf_pageD(1) [OF wf] wf_length_ge [OF wf] by (simp_all add: kPAGE_SIZE_def)
  have l1: "length (put_slot_length i n e) = 8192" for n using si len by simp
  have l2: "length (put_slot_offset i o' (put_slot_length i n e)) = 8192" for n o' using si l1 by (simp add: slot_in_page_def)
  have "length (put_free x (put_slot_offset i o' (put_slot_length i n e))) = 8192" for n o' x using l2 by simp
  then show ?thesis using t by (simp add: write_tuple_def Let_def check_def bind_res_def)
qed

lemma insert_long:
  assumes wf: "wf_page d" and t: "65536 \<le> length t"
  shows "sp_insert_tuple d t p = (if insert_fits d (low_part t) p then Inl Undefined else Inr (None, d))"
proof -
  let ?s = "low_part t" and ?i = "insert_index (page_tuples d) p"
  have us: "uint (of_nat (length t) :: 16 word) = int (length ?s)"
    using uint_of_nat16 [OF low_part_size(2) [of t]] unfolding low_part_size(1) .
  have fs: "free_space_bytes d = int (page_room d)" using wf by (simp add: free_space_bytes_wf page_room_def)
  have ui: "unat (of_nat ?i :: 16 word) = ?i"
    using insert_index_le [of "page_tuples d" p] wf_page_slots_less [OF wf] by (simp add: unat_of_nat)
  consider "page_room d < length ?s" | "\<not> page_room d < length ?s" "?i < page_slots d" | "\<not> page_room d < length ?s" "?i = page_slots d"
    using insert_index_le [of "page_tuples d" p] by fastforce
  then show ?thesis
  proof cases
    case 1
    then show ?thesis by (auto simp: sp_insert_tuple_def Let_def fs us insert_fits_def)
  next
    case 2
    then show ?thesis
      using write_tuple_long [OF wf 2(2) t]
      by (simp add: sp_insert_tuple_def Let_def fs us choose_slot_existing [OF wf] ui insert_fits_def bind_res_def)
  next
    case 3
    show ?thesis
    proof (cases "length ?s + 4 \<le> page_room d")
      case False
      then show ?thesis using 3 by (simp add: sp_insert_tuple_def Let_def fs us choose_slot_new [OF wf] insert_fits_def bind_res_def)
    next
      case True
      obtain e where e: "allocate_slot d = Inr (sp_count d, e)" "wf_page e" "page_slots e = Suc (page_slots d)"
        using allocate_slot_wf [OF wf] True by (metis add_leD2)
      have "write_tuple e (unat (sp_count d)) t = Inl Undefined"
        using write_tuple_long [OF e(2) _ t] e(3) by (simp add: page_slots_def)
      then show ?thesis
        using 3 True by (simp add: sp_insert_tuple_def Let_def fs us choose_slot_new [OF wf] insert_fits_def bind_res_def e(1))
    qed
  qed
qed

lemma update_long:
  assumes wf: "wf_page d" and t: "65536 \<le> length t"
  shows "sp_try_update_in_place d r t \<in> {Inl Undefined, Inr (False, d)}"
proof (cases "unat (rid_slot r) < page_slots d")
  case True
  then show ?thesis
    using slot_is_free_wf [OF wf True] wf_pageD(1) [OF wf] t
    by (auto simp: sp_try_update_in_place_def Let_def bind_res_def check_def kPAGE_SIZE_def)
next
  case False
  then show ?thesis by (simp add: sp_try_update_in_place_def word_le_nat_alt page_slots_def)
qed

lemma restore_long:
  assumes wf: "wf_page d" and t: "65536 \<le> length t"
  shows "sp_restore_tuple d s t = Inl Undefined \<or> (\<exists>m. sp_restore_tuple d s t = Inl (Assert_failed m))"
proof (cases "s < sp_count d")
  case True
  then have free: "slot_is_free d (unat s) = Inr (\<not> live d (unat s))" using slot_is_free_wf [OF wf] by (simp add: word_less_nat_alt page_slots_def)
  obtain c where c: "sp_compact d = Inr c" "wf_page c" using sp_compact_wf [OF wf] unfolding compacted_page_def by metis
  have "sp_insert_tuple x t (Some s) \<in> {Inl Undefined, Inr (None, x)}" if "wf_page x" for x using insert_long [OF that t] by simp
  from this [OF wf] this [OF c(2)] show ?thesis
    using True free c(1) by (auto simp: sp_restore_tuple_def bind_res_def check_def Let_def split: if_splits)
next
  case False
  then show ?thesis by (simp add: sp_restore_tuple_def bind_res_def check_def)
qed

section \<open>Sequences of operations\<close>

datatype page_op =
    Page_insert "byte list" "16 word option"
  | Page_update rid "byte list"
  | Page_delete "16 word"
  | Page_compact
  | Page_restore "16 word" "byte list"

fun page_step :: "page_op \<Rightarrow> page_data \<Rightarrow> page_data res" where
  "page_step (Page_insert t p) d = bind_res (sp_insert_tuple d t p) (\<lambda>r. Inr (snd r))"
| "page_step (Page_update r t) d = bind_res (sp_try_update_in_place d r t) (\<lambda>r. Inr (snd r))"
| "page_step (Page_delete s) d = bind_res (sp_delete_tuple d s) (\<lambda>r. Inr (snd r))"
| "page_step Page_compact d = sp_compact d"
| "page_step (Page_restore s t) d = sp_restore_tuple d s t"

fun page_run :: "page_op list \<Rightarrow> page_data \<Rightarrow> page_data res" where
  "page_run [] d = Inr d"
| "page_run (a # as) d = bind_res (page_step a d) (page_run as)"

text \<open>The rows an operation carries fit the 16-bit length the page stores.\<close>

fun short_row :: "page_op \<Rightarrow> bool" where
  "short_row (Page_insert t p) \<longleftrightarrow> length t < 65536"
| "short_row (Page_update r t) \<longleftrightarrow> length t < 65536"
| "short_row (Page_restore s t) \<longleftrightarrow> length t < 65536"
| "short_row _ \<longleftrightarrow> True"

text \<open>The slots whose row an operation may change while it is occupied.\<close>

fun touches :: "page_op \<Rightarrow> nat \<Rightarrow> bool" where
  "touches (Page_update r t) i \<longleftrightarrow> i = unat (rid_slot r)"
| "touches (Page_delete s) i \<longleftrightarrow> i = unat s"
| "touches _ i \<longleftrightarrow> False"

lemma page_step_cases:
  assumes wf: "wf_page d" and short: "short_row a"
  shows "(\<exists>e. page_step a d = Inr e \<and> wf_page e \<and>
      (\<forall>i t. tuple_at d i = Some t \<longrightarrow> \<not> touches a i \<longrightarrow> tuple_at e i = Some t)) \<or>
    (\<exists>m. page_step a d = Inl (Assert_failed m))"
proof (cases a)
  case (Page_insert t p)
  then show ?thesis
    using insert_as_map [OF wf, of t p] sp_insert_tuple_full [OF wf, of t p] short wf
      insert_index_dead [of d p]
    by (cases "insert_fits d t p") (auto simp: bind_res_def)
next
  case (Page_update r t)
  then show ?thesis
    using update_as_map [OF wf, of r t] sp_try_update_in_place_wf [OF wf, of t r] short wf
    by (cases "live d (unat (rid_slot r)) \<and> length t \<le> slot_len d (unat (rid_slot r))")
       (auto simp: bind_res_def Let_def)
next
  case (Page_delete s)
  then show ?thesis
    using delete_as_map [OF wf, of s] sp_delete_tuple_wf [OF wf, of s] wf
    by (cases "live d (unat s)") (auto simp: bind_res_def)
next
  case Page_compact
  then show ?thesis using sp_compact_wf [OF wf] tuple_at_cong by (metis compacted_page_def page_step.simps(4))
next
  case (Page_restore s t)
  then show ?thesis
    using restore_as_map [OF wf, of s t] restore_refused [OF wf, of t s] short
      tuple_at_None [of d "unat s"]
    by (cases "restorable d s t") (auto simp: restorable_def)
qed

lemma long_step_cases:
  assumes wf: "wf_page d" and long: "\<not> short_row a"
  shows "page_step a d = Inr d \<or> page_step a d = Inl Undefined \<or> (\<exists>m. page_step a d = Inl (Assert_failed m))"
proof (cases a)
  case (Page_insert t p)
  then show ?thesis using insert_long [OF wf, of t p] long by (simp add: bind_res_def)
next
  case (Page_update r t)
  then show ?thesis using update_long [OF wf, of t r] long by (auto simp: bind_res_def)
next
  case (Page_restore s t)
  then show ?thesis using restore_long [OF wf, of t s] long by simp
qed (use long in simp_all)

lemma page_run_outcome:
  "wf_page d \<Longrightarrow> case page_run as d of Inr e \<Rightarrow> wf_page e | Inl x \<Rightarrow> (\<exists>m. x = Assert_failed m) \<or> x = Undefined \<and> (\<exists>a\<in>set as. \<not> short_row a)"
proof (induction as arbitrary: d)
  case (Cons a as)
  consider e where "page_step a d = Inr e" "wf_page e" | m where "page_step a d = Inl (Assert_failed m)"
    | "page_step a d = Inl Undefined" "\<not> short_row a"
    using page_step_cases [OF Cons.prems, of a] long_step_cases [OF Cons.prems, of a] Cons.prems by metis
  then show ?case
  proof cases
    case (1 e)
    then show ?thesis using Cons.IH [OF 1(2)] by (auto split: sum.split)
  qed simp_all
qed simp

lemma page_run_cases:
  assumes "wf_page d" and "\<forall>a\<in>set as. short_row a"
  shows "(\<exists>e. page_run as d = Inr e \<and> wf_page e \<and>
      (\<forall>i t. tuple_at d i = Some t \<longrightarrow> (\<forall>a\<in>set as. \<not> touches a i) \<longrightarrow> tuple_at e i = Some t)) \<or>
    (\<exists>m. page_run as d = Inl (Assert_failed m))"
  using assms
proof (induction as arbitrary: d)
  case (Cons a as)
  have "short_row a" using Cons.prems(2) by simp
  from page_step_cases [OF Cons.prems(1) this] show ?case
  proof (elim disjE exE conjE)
    fix e assume "page_step a d = Inr e" "wf_page e"
      "\<forall>i t. tuple_at d i = Some t \<longrightarrow> \<not> touches a i \<longrightarrow> tuple_at e i = Some t"
    moreover have "\<forall>a\<in>set as. short_row a" using Cons.prems(2) by simp
    ultimately show ?thesis using Cons.IH [of e] by auto
  qed (use Cons.prems in auto)
qed simp

section \<open>Example pages\<close>

text \<open>A page with no row, used by the witnesses.\<close>

lemma zero_page_init: "wf_page (sp_init zero_page)" "page_tuples (sp_init zero_page) = []"
  by (rule sp_init_wf, rule length_zero_page)+

lemma init_slots: "page_slots (sp_init zero_page) = 0"
  using zero_page_init(2) by (metis length_page_tuples list.size(3))

lemma init_dead: "tuple_at (sp_init zero_page) i = None"
  by (simp add: tuple_at_page_tuples init_slots)

lemma init_room: "page_room (sp_init zero_page) = 8184"
  using sp_init_fields(3) [of zero_page]
  by (simp add: page_room_def init_slots length_zero_page) (simp add: kPAGE_SIZE_def)

lemma init_insert: "insert_index (page_tuples (sp_init zero_page)) p = 0"
  using insert_index_le [of "page_tuples (sp_init zero_page)" p] by (simp add: zero_page_init)

text \<open>A page with one row.\<close>

definition sample_page :: "byte list \<Rightarrow> page_data" where
  "sample_page t = (case sp_insert_tuple (sp_init zero_page) t None of Inr (_, e) \<Rightarrow> e | Inl _ \<Rightarrow> [])"

lemma sample_page:
  assumes "length t \<le> 8180"
  shows "wf_page (sample_page t)" "tuple_at (sample_page t) = [0 \<mapsto> t]" "page_slots (sample_page t) = 1"
    "page_free (sample_page t) = 8192 - length t"
proof -
  let ?d = "sp_init zero_page"
  have fits: "insert_fits ?d t None"
    using assms by (simp add: insert_fits_def init_insert init_slots init_room)
  obtain e where e: "sp_insert_tuple ?d t None = Inr (Some \<lparr>rid_page = INVALID_PAGE_ID, rid_slot = 0\<rparr>, e)"
    "wf_page e" "page_tuples e = put_tuple (page_tuples ?d) 0 t"
    "page_free e = page_free ?d - length t"
    using sp_insert_tuple_fits [OF zero_page_init(1) fits] by (auto simp: init_insert)
  then have s: "sample_page t = e" by (simp add: sample_page_def)
  show "wf_page (sample_page t)" using e(2) s by simp
  have "tuple_at ?d = (\<lambda>_. None)" using init_dead by auto
  then show "tuple_at (sample_page t) = [0 \<mapsto> t]" using tuple_at_put_tuple [OF e(3)] s by simp
  show "page_slots (sample_page t) = 1"
    using e(3) s zero_page_init(2) by (metis One_nat_def length_page_tuples append_Nil list.size(3) less_irrefl
        length_append_singleton put_tuple_def)
  show "page_free (sample_page t) = 8192 - length t"
    using e(4) s sp_init_fields(3) [OF length_zero_page] by (simp add: kPAGE_SIZE_def)
qed

lemma sample_live: "length t \<le> 8180 \<Longrightarrow> live (sample_page t) i \<longleftrightarrow> i = 0"
  using sample_page(2) [of t] tuple_at_None [of "sample_page t" i] by (auto split: if_splits)

lemma sample_len: "length t \<le> 8180 \<Longrightarrow> slot_len (sample_page t) 0 = length t"
  using tuple_at_length [OF sample_page(1), of t 0 t] sample_page(2) [of t] by simp

section \<open>Properties\<close>

text \<open>
  C20: inserting a row into a well-formed page. A row below 64 KiB is inserted exactly when it (and a new
  slot, if no slot is free) fits between the slot array and the tuple area; then the chosen slot was
  free, the page maps it to the row, no other row and no page link changes. Otherwise the page is
  untouched. Of a longer row only the low 16 bits of the size are looked at: when a row of that size
  would fit, the copy runs over the end of the page, and otherwise the page is untouched.
\<close>

theorem page_insert_functional:
  assumes wf: "wf_page d"
  shows "if 65536 \<le> length t then sp_insert_tuple d t p = (if insert_fits d (low_part t) p then Inl Undefined else Inr (None, d))
    else if insert_fits d t p
    then let i = insert_index (page_tuples d) p in
      \<exists>e. sp_insert_tuple d t p = Inr (Some \<lparr>rid_page = INVALID_PAGE_ID, rid_slot = of_nat i\<rparr>, e) \<and>
        wf_page e \<and> tuple_at d i = None \<and> tuple_at e = (tuple_at d)(i \<mapsto> t) \<and> sp_next e = sp_next d
    else sp_insert_tuple d t p = Inr (None, d)"
  using insert_as_map [OF wf, of t p] sp_insert_tuple_full [OF wf, of t p] insert_index_dead [of d p] insert_long [OF wf, of t p]
  by (simp add: Let_def)

theorem page_insert_functional_witness:
  "\<exists>e. sp_insert_tuple (sp_init zero_page) [1, 2, 3] None
      = Inr (Some \<lparr>rid_page = INVALID_PAGE_ID, rid_slot = 0\<rparr>, e) \<and> tuple_at e 0 = Some [1, 2, 3]"
  using page_insert_functional [OF zero_page_init(1), of "[1, 2, 3]" None]
  by (auto simp: insert_fits_def init_insert init_slots init_room Let_def)

text \<open>
  C24: deleting a row and putting it back (the undo of a delete): the delete removes exactly that row,
  the page stays well formed, and the restore of the same bytes never fails and gives back the map of
  rows there was, whatever compaction it needs.
\<close>

theorem page_delete_restore:
  assumes wf: "wf_page d" and t: "tuple_at d (unat s) = Some t"
  shows "\<exists>e f. sp_delete_tuple d s = Inr (True, e) \<and> wf_page e \<and> tuple_at e = (tuple_at d)(unat s := None) \<and>
    sp_get_tuple e s = Inr [] \<and> sp_restore_tuple e s t = Inr f \<and> wf_page f \<and> tuple_at f = tuple_at d \<and>
    sp_get_tuple f s = Inr t"
proof -
  have lv: "live d (unat s)" using t tuple_at_None [of d "unat s"] by auto
  obtain e where e: "sp_delete_tuple d s = Inr (True, e)" "wf_page e"
    "tuple_at e = (tuple_at d)(unat s := None)" "page_slots e = page_slots d"
    using delete_as_map [OF wf lv] by blast
  from restore_as_map [OF e(2) restorable_deleted [OF wf e(2-4) t]] obtain f where f: "sp_restore_tuple e s t = Inr f" "wf_page f"
    "tuple_at f = (tuple_at e)(unat s \<mapsto> t)" by blast
  moreover have "tuple_at f = tuple_at d" using f(3) e(3) t by auto
  ultimately show ?thesis using e f(2) t by (simp add: get_as_map)
qed

theorem page_delete_restore_witness:
  "\<exists>e f. sp_delete_tuple (sample_page [7, 8]) 0 = Inr (True, e) \<and> sp_restore_tuple e 0 [7, 8] = Inr f \<and>
    sp_get_tuple f 0 = Inr [7, 8]"
  using page_delete_restore [OF sample_page(1), of "[7, 8]" 0 "[7, 8]"] sample_page(2) [of "[7, 8]"] by auto

text \<open>
  An update in place succeeds exactly on an occupied slot whose stored length is at least the new
  one; it then replaces that row only. In every other case it answers false and leaves the page.
\<close>

theorem page_update_in_place:
  assumes wf: "wf_page d" and t: "length t < 65536"
  shows "case tuple_at d (unat (rid_slot r)) of
      None \<Rightarrow> sp_try_update_in_place d r t = Inr (False, d)
    | Some old \<Rightarrow>
        if length t \<le> length old
        then \<exists>e. sp_try_update_in_place d r t = Inr (True, e) \<and> wf_page e \<and>
          tuple_at e = (tuple_at d)(unat (rid_slot r) \<mapsto> t) \<and> sp_next e = sp_next d
        else sp_try_update_in_place d r t = Inr (False, d)"
  using update_as_map [OF wf, of r t] sp_try_update_in_place_wf [OF wf t, of r]
    tuple_at_None [of d "unat (rid_slot r)"] tuple_at_length [OF wf, of "unat (rid_slot r)"]
  by (auto split: option.splits simp: Let_def)

theorem page_update_in_place_witness:
  "\<exists>e. sp_try_update_in_place (sample_page [7, 8]) \<lparr>rid_page = 4, rid_slot = 0\<rparr> [9] = Inr (True, e) \<and>
    tuple_at e 0 = Some [9]"
  using page_update_in_place [OF sample_page(1), of "[7, 8]" "[9]" "\<lparr>rid_page = 4, rid_slot = 0\<rparr>"]
    sample_page(2) [of "[7, 8]"] by auto

text \<open>
  C23: compaction. It always succeeds on a well-formed page, keeps the page link and every row under
  its slot number, and the free space is then exactly what the header, the slots and the live rows
  leave over.
\<close>

theorem page_compact_preserves:
  assumes wf: "wf_page d"
  shows "\<exists>e. sp_compact d = Inr e \<and> wf_page e \<and> tuple_at e = tuple_at d \<and> sp_next e = sp_next d \<and>
    page_slots e = page_slots d \<and>
    page_room e = kPAGE_SIZE - (\<Sum>i<page_slots d. case tuple_at d i of None \<Rightarrow> 0 | Some t \<Rightarrow> length t)
      - (8 + 4 * page_slots d)"
proof -
  obtain e where e: "sp_compact d = Inr e" "compacted_page d e" using sp_compact_wf [OF wf] by blast
  then have tup: "page_tuples e = page_tuples d" by (simp add: compacted_page_def)
  moreover have "page_slots e = page_slots d" using tup by (metis length_page_tuples)
  ultimately show ?thesis
    using e tuple_at_cong [OF tup] compacted_room [OF e(2)]
    by (simp add: compacted_page_def used_row_lengths [OF wf])
qed

theorem page_compact_preserves_witness:
  "\<exists>e. sp_compact (sample_page [7, 8]) = Inr e \<and> tuple_at e 0 = Some [7, 8] \<and> page_room e = 8178"
  using page_compact_preserves [OF sample_page(1), of "[7, 8]"] sample_page(2,3) [of "[7, 8]"]
  by (auto simp: kPAGE_SIZE_def)

text \<open>
  C21: safety of every sequence of page operations, in any order, with any slot numbers and any rows,
  starting from an initialised page: the page stays well formed, or an assertion of \<open>restore_tuple\<close>
  fails, or an operation reads or writes outside the page, and that only when the sequence carries a
  row of 64 KiB or more, whose size does not fit the 16 bits it is cast to.
\<close>

theorem page_run_safe:
  assumes "length d = kPAGE_SIZE"
  shows "case page_run as (sp_init d) of
      Inr e \<Rightarrow> wf_page e
    | Inl x \<Rightarrow> (\<exists>m. x = Assert_failed m) \<or> x = Undefined \<and> (\<exists>a\<in>set as. \<not> short_row a)"
  using page_run_outcome [OF sp_init_wf(1) [OF assms]] .

theorem page_run_safe_witness:
  "case page_run [Page_insert [1] None, Page_delete 0, Page_compact, Page_insert [2] (Some 0)] (sp_init zero_page)
   of Inr e \<Rightarrow> wf_page e | Inl x \<Rightarrow> \<exists>m. x = Assert_failed m"
  using page_run_safe [OF length_zero_page,
      of "[Page_insert [1] None, Page_delete 0, Page_compact, Page_insert [2] (Some 0)]"] by (simp split: sum.splits)

text \<open>
  C22: record ids are stable. A row that no operation of a sequence deletes or updates is read back
  unchanged under the same slot number at its end, however many inserts, compactions and restores
  came between.
\<close>

theorem page_run_stable:
  assumes "wf_page d" and "\<forall>a\<in>set as. short_row a" and "page_run as d = Inr e"
    and "tuple_at d (unat s) = Some t" and "\<forall>a\<in>set as. \<not> touches a (unat s)"
  shows "sp_get_tuple e s = Inr t"
  using page_run_cases [OF assms(1,2)] assms(3-5) by (auto simp: get_as_map)

theorem page_run_stable_witness:
  "\<exists>e. page_run [Page_compact, Page_delete 3] (sample_page [7, 8]) = Inr e \<and> sp_get_tuple e 0 = Inr [7, 8]"
proof -
  let ?d = "sample_page [7, 8]"
  have wf: "wf_page ?d" by (rule sample_page) simp
  obtain c where "sp_compact ?d = Inr c" "compacted_page ?d c" using sp_compact_wf [OF wf] by blast
  then have c: "sp_compact ?d = Inr c" "wf_page c" "page_tuples c = page_tuples ?d"
    by (simp_all add: compacted_page_def)
  have "\<not> live c 3" using tuple_at_cong [OF c(3)] sample_page(2) [of "[7, 8]"] by (simp flip: tuple_at_None)
  then have "page_run [Page_compact, Page_delete 3] ?d = Inr c"
    using c by (simp add: sp_delete_tuple_wf)
  then show ?thesis
    using page_run_stable [OF wf, of "[Page_compact, Page_delete 3]" c 0 "[7, 8]"]
      sample_page(2) [of "[7, 8]"] by simp
qed

text \<open>
  C33: \<open>restore_tuple\<close> meets its assertions of a row below 64 KiB exactly when the slot exists, is free,
  and the live rows leave enough bytes on the page; then the slot holds the row again, no other row changed, and
  the slot directory has the same size.
\<close>

theorem page_restore_exact:
  assumes wf: "wf_page d" and t: "length t < 65536"
  shows "if restorable d s t
    then \<exists>e. sp_restore_tuple d s t = Inr e \<and> wf_page e \<and> tuple_at e = (tuple_at d)(unat s \<mapsto> t) \<and>
      sp_next e = sp_next d \<and> page_slots e = page_slots d
    else \<exists>m. sp_restore_tuple d s t = Inl (Assert_failed m)"
  using restore_as_map [OF wf] restore_refused [OF wf t] by simp

theorem page_restore_exact_witness:
  "\<exists>m. sp_restore_tuple (sample_page [7, 8]) 0 [1] = Inl (Assert_failed m)"
  using page_restore_exact [OF sample_page(1), of "[7, 8]" "[1]" 0] sample_live [of "[7, 8]" 0]
  by (simp add: restorable_def)

text \<open>
  \<open>is_compacted\<close> does not recognise what \<open>compact\<close> produces: \<open>compact\<close> stacks the rows from the
  end of the page downwards while the check expects them to ascend, so as soon as two rows are live
  (the later one not empty) the check answers false on the page that was just compacted.
\<close>

theorem page_compact_not_recognised:
  assumes "wf_page d" and "tuple_at d i = Some t" and "tuple_at d j = Some u" and "i < j" and "u \<noteq> []"
  shows "\<exists>e. sp_compact d = Inr e \<and> sp_is_compacted e = Inr False"
proof -
  have "live d i" "live d j" "0 < slot_len d j"
    using tuple_at_length [OF assms(1,2)] tuple_at_length [OF assms(1,3)] assms(5)
    by (simp_all flip: length_greater_0_conv)
  with sp_compact_wf [OF assms(1)] compacted_not_recognised [OF assms(1)] assms(4) show ?thesis by metis
qed

lemma two_row_page:
  "\<exists>d. sp_insert_tuple (sample_page [7, 8]) [9] None = Inr (Some \<lparr>rid_page = INVALID_PAGE_ID, rid_slot = 1\<rparr>, d) \<and>
    wf_page d \<and> tuple_at d = [0 \<mapsto> [7, 8], 1 \<mapsto> [9]]"
proof -
  let ?d = "sample_page [7, 8]"
  have wf: "wf_page ?d" and tp: "tuple_at ?d = [0 \<mapsto> [7, 8]]" and n: "page_slots ?d = 1"
    using sample_page [of "[7, 8]"] by simp_all
  have "insert_index (page_tuples ?d) None = 1"
    using insert_index_le [of "page_tuples ?d" None] insert_index_dead [of ?d None] n tp
    by (auto simp: le_Suc_eq split: if_splits)
  moreover have "4 + 1 \<le> page_room ?d" using sample_page(4) [of "[7, 8]"] by (simp add: page_room_def n)
  ultimately show ?thesis
    using insert_as_map [OF wf, of "[9]" None] by (auto simp: insert_fits_def n tp)
qed

theorem page_compact_not_recognised_witness:
  "\<exists>d e. sp_insert_tuple (sample_page [7, 8]) [9] None = Inr (Some \<lparr>rid_page = INVALID_PAGE_ID, rid_slot = 1\<rparr>, d) \<and>
    sp_compact d = Inr e \<and> sp_is_compacted e = Inr False"
  using two_row_page page_compact_not_recognised [of _ 0 "[7, 8]" 1 "[9]"] by fastforce

end
