(* ===== verification/Proc.thy ===== *)
theory Proc
  imports Prelude
begin

text \<open>
  Stateful code that may throw: a \<open>proc\<close> maps a state to a result or an exception and the state it
  leaves behind. An exception keeps the changes made before it, as in the code, which has no rollback
  of object state on a throw. \<open>proc_simps\<close> runs such code.
\<close>

named_theorems proc_simps "running stateful code"

type_synonym ('s, 'a) proc = "'s \<Rightarrow> 'a res \<times> 's"

definition ret :: "'a \<Rightarrow> ('s, 'a) proc" where
  "ret x s = (Inr x, s)"

definition throw :: "exn \<Rightarrow> ('s, 'a) proc" where
  "throw e s = (Inl e, s)"

definition and_then :: "('s, 'a) proc \<Rightarrow> ('a \<Rightarrow> ('s, 'b) proc) \<Rightarrow> ('s, 'b) proc" where
  "and_then m f s = (case m s of (Inl e, s') \<Rightarrow> (Inl e, s') | (Inr x, s') \<Rightarrow> f x s')"

definition gets :: "('s \<Rightarrow> 'a) \<Rightarrow> ('s, 'a) proc" where
  "gets f s = (Inr (f s), s)"

definition modify :: "('s \<Rightarrow> 's) \<Rightarrow> ('s, unit) proc" where
  "modify f s = (Inr (), f s)"

text \<open>\<open>require b e\<close> is \<open>if (!b) throw e\<close>; \<open>lift r\<close> runs code that does not touch the state.\<close>

definition require :: "bool \<Rightarrow> exn \<Rightarrow> ('s, unit) proc" where
  "require b e s = (if b then Inr () else Inl e, s)"

definition lift :: "'a res \<Rightarrow> ('s, 'a) proc" where
  "lift r s = (r, s)"

text \<open>Code on a component of the state: a member object or a reference to another object.\<close>

definition zoom :: "('s \<Rightarrow> 't) \<Rightarrow> ('t \<Rightarrow> 's \<Rightarrow> 's) \<Rightarrow> ('t, 'a) proc \<Rightarrow> ('s, 'a) proc" where
  "zoom get put m s = (case m (get s) of (r, t) \<Rightarrow> (r, put t s))"

lemma proc_run [simp, proc_simps]:
  "ret x s = (Inr x, s)" "throw e s = (Inl e, s)" "gets f s = (Inr (f s), s)"
  "modify g s = (Inr (), g s)" "lift r s = (r, s)"
  by (simp_all add: ret_def throw_def gets_def modify_def lift_def)

lemma require_run [simp, proc_simps]: "require True e s = (Inr (), s)" "require False e s = (Inl e, s)"
  by (simp_all add: require_def)

lemma and_then_Inr [proc_simps]: "m s = (Inr x, s') \<Longrightarrow> and_then m f s = f x s'"
  by (simp add: and_then_def)

lemma and_then_Inl [proc_simps]: "m s = (Inl e, s') \<Longrightarrow> and_then m f s = (Inl e, s')"
  by (simp add: and_then_def)

lemma and_then_run [simp, proc_simps]:
  "and_then (ret x) f s = f x s" "and_then (throw e) f s = (Inl e, s)" "and_then (gets h) f s = f (h s) s"
  "and_then (modify g) k s = k () (g s)" "and_then (require b e) k s = (if b then k () s else (Inl e, s))"
  "and_then (lift (Inr x)) f s = f x s" "and_then (lift (Inl e)) f s = (Inl e, s)"
  by (simp_all add: and_then_def require_def)

lemma and_then_eq_Inr:
  "and_then m f s = (Inr y, t) \<longleftrightarrow> (\<exists>x u. m s = (Inr x, u) \<and> f x u = (Inr y, t))"
  by (auto simp: and_then_def split: prod.splits sum.splits)

lemma and_then_assoc: "and_then (and_then m f) g = and_then m (\<lambda>x. and_then (f x) g)"
  by (rule ext) (simp add: and_then_def split: prod.splits sum.splits)

lemma zoom_Inr [proc_simps]: "m (get s) = (r, t) \<Longrightarrow> zoom get put m s = (r, put t s)"
  by (simp add: zoom_def)

section \<open>Invariants\<close>

text \<open>\<open>keeps I m\<close>: \<open>m\<close> preserves \<open>I\<close> whether it returns or throws.\<close>

definition keeps :: "('s \<Rightarrow> bool) \<Rightarrow> ('s, 'a) proc \<Rightarrow> bool" where
  "keeps I m \<longleftrightarrow> (\<forall>s. I s \<longrightarrow> I (snd (m s)))"

lemma keepsI: "(\<And>s. I s \<Longrightarrow> I (snd (m s))) \<Longrightarrow> keeps I m"
  by (simp add: keeps_def)

lemma keepsD: "keeps I m \<Longrightarrow> I s \<Longrightarrow> m s = (r, t) \<Longrightarrow> I t"
  by (metis keeps_def snd_conv)

lemma keeps_basic [intro, simp]:
  "keeps I (ret x)" "keeps I (throw e)" "keeps I (gets f)" "keeps I (require b e)" "keeps I (lift r)"
  by (simp_all add: keeps_def require_def)

lemma keeps_modify: "(\<And>s. I s \<Longrightarrow> I (g s)) \<Longrightarrow> keeps I (modify g)"
  by (simp add: keeps_def)

lemma keeps_and_then [intro]: "keeps I m \<Longrightarrow> (\<And>x. keeps I (f x)) \<Longrightarrow> keeps I (and_then m f)"
  by (auto simp: keeps_def and_then_def split: prod.splits sum.splits)

end
