(* ===== verification/Disk.thy ===== *)
theory Disk
  imports Proc Common_Types
begin

text \<open>
  \<open>DiskManager\<close> (\<open>include/duck/storage/disk_manager.hpp\<close>, \<open>src/storage/disk_manager.cpp\<close>): one file of
  8 KiB pages whose first page holds the header and the list of free pages. The file is modelled with
  the POSIX behaviour the code relies on: \<open>pread\<close> is short at the end of the file, \<open>pwrite\<close> extends
  the file with zeros, and writes less than asked (or fails) at a size limit; a file may be unreadable
  and \<open>fstat\<close> may fail. One operation runs at a time: the mutex only orders them.
\<close>

section \<open>Files\<close>

record os_file =
  fcontent :: "byte list"
  flimit :: nat
  freadable :: bool
  fstat_ok :: bool

text \<open>Writing \<open>bs\<close> at \<open>off\<close>; a gap behind the end of the file reads as zeros.\<close>

definition overwrite :: "nat \<Rightarrow> byte list \<Rightarrow> byte list \<Rightarrow> byte list" where
  "overwrite off bs xs =
     (if bs = [] then xs
      else take off (xs @ replicate (off - length xs) 0) @ bs @ drop (off + length bs) xs)"

definition pwrite :: "byte list \<Rightarrow> nat \<Rightarrow> os_file \<Rightarrow> int \<times> os_file" where
  "pwrite bs off f =
     (let n = min (length bs) (flimit f - off) in
      if n = 0 \<and> bs \<noteq> [] then (-1, f)
      else (int n, f\<lparr>fcontent := overwrite off (take n bs) (fcontent f)\<rparr>))"

definition pread :: "nat \<Rightarrow> nat \<Rightarrow> os_file \<Rightarrow> int \<times> byte list" where
  "pread n off f =
     (if freadable f then let bs = slice off n (fcontent f) in (int (length bs), bs) else (-1, []))"

definition get_size :: "os_file \<Rightarrow> 64 word" where
  "get_size f = (if fstat_ok f then of_nat (length (fcontent f)) else -1)"

section \<open>State\<close>

record disk_header =
  hmagic :: "64 word"
  hversion :: "64 word"
  hcapacity :: "64 word"
  hfree_list_size :: "64 word"

record disk =
  dfile :: os_file
  dheader :: disk_header
  dcapacity :: "32 word"
  free_list :: "page_id list"

definition header_bytes :: "disk_header \<Rightarrow> byte list" where
  "header_bytes h = bytes64 (hmagic h) @ bytes64 (hversion h) @ bytes64 (hcapacity h) @ bytes64 (hfree_list_size h)"

definition header_of_bytes :: "byte list \<Rightarrow> disk_header" where
  "header_of_bytes raw =
     \<lparr>hmagic = of_bytes64 (slice 0 8 raw), hversion = of_bytes64 (slice 8 8 raw),
      hcapacity = of_bytes64 (slice 16 8 raw), hfree_list_size = of_bytes64 (slice 24 8 raw)\<rparr>"

section \<open>Operations\<close>

text \<open>\<open>capacity_.fetch_add(1)\<close> returns the old value and wraps at 32 bits.\<close>

definition allocate_page :: "(disk, page_id) proc" where
  "allocate_page = and_then (gets free_list) (\<lambda>fl.
     if fl \<noteq> [] then and_then (modify (free_list_update (\<lambda>_. butlast fl))) (\<lambda>_. ret (last fl))
     else and_then (gets dcapacity) (\<lambda>c.
       and_then (modify (dcapacity_update (\<lambda>_. c + 1))) (\<lambda>_. ret c)))"

definition deallocate_page :: "page_id \<Rightarrow> (disk, unit) proc" where
  "deallocate_page p = and_then (require (p \<noteq> kDISK_METADATA_PAGE_ID)
       (Runtime_error ''DiskManager::deallocate_page: deallocating disk meta page is not allowed'')) (\<lambda>_.
     and_then (gets free_list) (\<lambda>fl.
     if length fl > 1024 then ret () else modify (free_list_update (\<lambda>_. fl @ [p]))))"

text \<open>The results of the two \<open>pwrite\<close> calls are ignored by the code.\<close>

definition disk_flush_all :: "(disk, unit) proc" where
  "disk_flush_all = modify (\<lambda>d.
     let h = (dheader d)\<lparr>hcapacity := ucast (dcapacity d), hfree_list_size := of_nat (length (free_list d))\<rparr>;
         f = snd (pwrite (header_bytes h) 0 (dfile d));
         f = snd (pwrite (concat (map bytes32 (free_list d))) 32 f)
     in d\<lparr>dheader := h, dfile := f\<rparr>)"

definition write_page :: "page_id \<Rightarrow> byte list \<Rightarrow> (disk, unit) proc" where
  "write_page p buffer = and_then (gets dcapacity) (\<lambda>c.
     and_then (require (p < c) (Runtime_error ''DiskManager: trying to write into not allocated page'')) (\<lambda>_.
     and_then (require (\<not> length buffer < kPAGE_SIZE) (Runtime_error ''DiskManager: write buffer is smaller than page'')) (\<lambda>_.
     and_then (gets (\<lambda>d. pwrite (take kPAGE_SIZE buffer) (unat p * kPAGE_SIZE) (dfile d))) (\<lambda>(written, f).
     and_then (modify (dfile_update (\<lambda>_. f))) (\<lambda>_.
     require (written = int kPAGE_SIZE) (Runtime_error ''DiskManager: incomplete write for page''))))))"

text \<open>The buffer after the call: the bytes read, zeros up to a page, and what lies behind it.\<close>

definition read_page :: "page_id \<Rightarrow> byte list \<Rightarrow> (disk, byte list) proc" where
  "read_page p buffer = and_then (gets dcapacity) (\<lambda>c.
     and_then (require (p < c) (Runtime_error ''DiskManager: trying to read not allocated page'')) (\<lambda>_.
     and_then (require (\<not> length buffer < kPAGE_SIZE) (Runtime_error ''DiskManager: read buffer is smaller than page'')) (\<lambda>_.
     and_then (gets (\<lambda>d. pread kPAGE_SIZE (unat p * kPAGE_SIZE) (dfile d))) (\<lambda>(bytes_read, bs).
     and_then (require (\<not> bytes_read < 0) (Runtime_error ''DiskManager: incomplete read for page'')) (\<lambda>_.
     ret (bs @ replicate (kPAGE_SIZE - nat bytes_read) 0 @ drop kPAGE_SIZE buffer))))))"

text \<open>
  \<open>resize\<close> throws for a size no vector can have; \<open>memcpy\<close> then reads that many entries behind the
  header of one page.
\<close>

definition init_header :: "(disk, unit) proc" where
  "init_header = and_then (read_page kDISK_METADATA_PAGE_ID zero_page) (\<lambda>buffer.
     let h = header_of_bytes buffer; n = uint (hfree_list_size h) in
     and_then (modify (\<lambda>d. d\<lparr>dheader := h, dcapacity := ucast (hcapacity h)\<rparr>)) (\<lambda>_.
     and_then (require (n < 2 ^ 61) Length_error) (\<lambda>_.
     and_then (require (32 + n * 4 \<le> int kPAGE_SIZE) Undefined) (\<lambda>_.
     modify (free_list_update (\<lambda>_. map (\<lambda>i. of_bytes32 (slice (32 + 4 * i) 4 buffer)) [0..<nat n]))))))"

text \<open>The constructor on the result of \<open>open\<close> (\<open>None\<close>: it failed), and the destructor.\<close>

definition disk_init :: "(disk, unit) proc" where
  "disk_init = and_then (gets (\<lambda>d. get_size (dfile d))) (\<lambda>size.
     and_then (if size div 8192 < 1
               then and_then (modify (dcapacity_update (\<lambda>_. 0))) (\<lambda>_.
                    and_then allocate_page (\<lambda>_. disk_flush_all))
               else and_then (modify (dcapacity_update (\<lambda>_. 1))) (\<lambda>_. init_header)) (\<lambda>_.
     and_then (gets dheader) (\<lambda>h.
     and_then (require (hmagic h = kDB_MAGIC)
       (Runtime_error ''DiskManager::DiskManager: Database file is not recognized by DUCKDB.'')) (\<lambda>_.
     require (hversion h = kDB_FORMAT_VERSION)
       (Runtime_error ''DiskManager::DiskManager: Database file version not supported.'')))))"

definition disk_object :: "os_file \<Rightarrow> disk" where
  "disk_object f =
     \<lparr>dfile = f, dheader = \<lparr>hmagic = kDB_MAGIC, hversion = kDB_FORMAT_VERSION, hcapacity = 0, hfree_list_size = 0\<rparr>,
      dcapacity = 0, free_list = []\<rparr>"

definition disk_open :: "os_file option \<Rightarrow> disk res" where
  "disk_open opened =
     (case opened of
        None \<Rightarrow> Inl (Invalid_argument ''Disk file failed to open'')
      | Some f \<Rightarrow> (case disk_init (disk_object f) of (Inl e, _) \<Rightarrow> Inl e | (Inr _, d) \<Rightarrow> Inr d))"

definition disk_close :: "disk \<Rightarrow> os_file" where
  "disk_close d = dfile (snd (disk_flush_all d))"

end
