(* ===== verification/Page_Store.thy ===== *)
theory Page_Store
  imports Disk
begin

text \<open>
  The contract between a store of pages and its clients: \<open>page_store\<close> says what a read returns after
  writes, in terms of a view that maps page numbers to their bytes. The disk provides it here. Also
  the contents of a file after writes, as a function from positions to bytes.
\<close>

section \<open>The contents of a file\<close>

definition byte_at :: "byte list \<Rightarrow> nat \<Rightarrow> byte" where
  "byte_at xs i = (if i < length xs then xs ! i else 0)"

definition page_at :: "byte list \<Rightarrow> nat \<Rightarrow> page_data" where
  "page_at xs p = map (\<lambda>i. byte_at xs (p * kPAGE_SIZE + i)) [0..<kPAGE_SIZE]"

lemma length_page_at [simp]: "length (page_at xs p) = kPAGE_SIZE"
  by (simp add: page_at_def)

lemma length_overwrite:
  "length (overwrite off bs xs) = (if bs = [] then length xs else max (length xs) (off + length bs))"
  by (auto simp: overwrite_def)

lemma byte_at_overwrite:
  "byte_at (overwrite off bs xs) i = (if off \<le> i \<and> i < off + length bs then bs ! (i - off) else byte_at xs i)"
proof (cases "bs = []")
  case False
  have tk: "min (length xs) off + (off - length xs) = off" by simp
  show ?thesis
    using False by (auto simp: byte_at_def overwrite_def nth_append tk)
qed (auto simp: overwrite_def byte_at_def)

lemma page_at_overwrite_page:
  assumes "length bs = kPAGE_SIZE"
  shows "page_at (overwrite (p * kPAGE_SIZE) bs xs) q = (if q = p then bs else page_at xs q)"
proof (rule nth_equalityI)
  fix i assume "i < length (page_at (overwrite (p * kPAGE_SIZE) bs xs) q)"
  then have i: "i < kPAGE_SIZE" by simp
  have "q < p \<or> q = p \<or> p < q" by arith
  moreover have "q * kPAGE_SIZE + kPAGE_SIZE \<le> p * kPAGE_SIZE" if "q < p"
    using mult_le_mono1 [OF Suc_leI [OF that], of kPAGE_SIZE] by simp
  moreover have "p * kPAGE_SIZE + kPAGE_SIZE \<le> q * kPAGE_SIZE" if "p < q"
    using mult_le_mono1 [OF Suc_leI [OF that], of kPAGE_SIZE] by simp
  ultimately show "page_at (overwrite (p * kPAGE_SIZE) bs xs) q ! i = (if q = p then bs else page_at xs q) ! i"
    using i assms by (auto simp: page_at_def byte_at_overwrite)
qed (simp add: assms)

lemma read_padded: "slice (p * kPAGE_SIZE) kPAGE_SIZE xs
    @ replicate (kPAGE_SIZE - length (slice (p * kPAGE_SIZE) kPAGE_SIZE xs)) 0 = page_at xs p"
  by (rule nth_equalityI) (auto simp: page_at_def slice_def byte_at_def nth_append min_def)

section \<open>Reading and writing pages of the disk\<close>

definition disk_view :: "disk \<Rightarrow> page_id \<Rightarrow> page_data" where
  "disk_view d p = page_at (fcontent (dfile d)) (unat p)"

text \<open>The disk is in order when the file can be read and all its pages lie below the size limit.\<close>

definition disk_ok :: "disk \<Rightarrow> bool" where
  "disk_ok d \<longleftrightarrow> freadable (dfile d) \<and> unat (dcapacity d) * kPAGE_SIZE \<le> flimit (dfile d)"

lemma read_page_ok:
  assumes "freadable (dfile d)" and "p < dcapacity d" and "length buffer = kPAGE_SIZE"
  shows "read_page p buffer d = (Inr (disk_view d p), d)"
  using assms read_padded [of "unat p" "fcontent (dfile d)"]
  by (simp add: read_page_def pread_def Let_def disk_view_def)

lemma write_page_ok:
  assumes ok: "disk_ok d" and p: "p < dcapacity d" and b: "length buffer = kPAGE_SIZE"
  shows "write_page p buffer d =
    (Inr (), d\<lparr>dfile := (dfile d)\<lparr>fcontent := overwrite (unat p * kPAGE_SIZE) buffer (fcontent (dfile d))\<rparr>\<rparr>)"
proof -
  have "Suc (unat p) \<le> unat (dcapacity d)" using p by (simp add: word_less_nat_alt)
  then have "Suc (unat p) * kPAGE_SIZE \<le> flimit (dfile d)"
    using ok mult_le_mono1 [of "Suc (unat p)" "unat (dcapacity d)" kPAGE_SIZE] by (simp add: disk_ok_def)
  then show ?thesis
    using p b by (simp add: write_page_def pwrite_def Let_def min_absorb1 kPAGE_SIZE_def)
qed

lemma disk_view_write:
  assumes "length buffer = kPAGE_SIZE"
  shows "disk_view (d\<lparr>dfile := (dfile d)\<lparr>fcontent := overwrite (unat p * kPAGE_SIZE) buffer (fcontent (dfile d))\<rparr>\<rparr>)
    = (disk_view d)(p := buffer)"
  by (rule ext) (auto simp: disk_view_def page_at_overwrite_page [OF assms] dest: unsigned_word_eqI)

section \<open>The contract\<close>

text \<open>A sequence of writes, and what every page holds after it.\<close>

fun put_all :: "(page_id \<Rightarrow> page_data \<Rightarrow> ('s, unit) proc) \<Rightarrow> (page_id \<times> page_data) list \<Rightarrow> ('s, unit) proc" where
  "put_all put [] = ret ()"
| "put_all put ((p, b) # ws) = and_then (put p b) (\<lambda>_. put_all put ws)"

fun written :: "(page_id \<times> page_data) list \<Rightarrow> (page_id \<Rightarrow> page_data) \<Rightarrow> page_id \<Rightarrow> page_data" where
  "written [] v = v"
| "written ((p, b) # ws) v = written ws (v(p := b))"

locale page_store =
  fixes put :: "page_id \<Rightarrow> page_data \<Rightarrow> ('s, unit) proc"
    and get :: "page_id \<Rightarrow> ('s, page_data) proc"
    and inv :: "'s \<Rightarrow> bool"
    and valid :: "'s \<Rightarrow> page_id \<Rightarrow> bool"
    and view :: "'s \<Rightarrow> page_id \<Rightarrow> page_data"
  assumes put_ok: "inv s \<Longrightarrow> valid s p \<Longrightarrow> length b = kPAGE_SIZE \<Longrightarrow>
      \<exists>t. put p b s = (Inr (), t) \<and> inv t \<and> valid t = valid s \<and> view t = (view s)(p := b)"
    and get_ok: "inv s \<Longrightarrow> valid s p \<Longrightarrow>
      \<exists>t. get p s = (Inr (view s p), t) \<and> inv t \<and> valid t = valid s \<and> view t = view s"
begin

lemma put_all_ok:
  "inv s \<Longrightarrow> (\<And>p b. (p, b) \<in> set ws \<Longrightarrow> valid s p \<and> length b = kPAGE_SIZE) \<Longrightarrow>
   \<exists>t. put_all put ws s = (Inr (), t) \<and> inv t \<and> valid t = valid s \<and> view t = written ws (view s)"
proof (induction ws arbitrary: s)
  case (Cons w ws)
  obtain p b where w: "w = (p, b)" by (cases w)
  obtain t where t: "put p b s = (Inr (), t)" "inv t" "valid t = valid s" "view t = (view s)(p := b)"
    using put_ok [OF Cons.prems(1), of p b] Cons.prems(2) w by auto
  have "\<And>q c. (q, c) \<in> set ws \<Longrightarrow> valid t q \<and> length c = kPAGE_SIZE"
    using Cons.prems(2) t(3) by auto
  from Cons.IH [OF t(2) this] show ?case by (simp add: w and_then_Inr [of "put p b" s, OF t(1)] t(3,4) del: fun_upd_apply)
qed simp

lemma get_after_put_all:
  "inv s \<Longrightarrow> (\<And>p b. (p, b) \<in> set ws \<Longrightarrow> valid s p \<and> length b = kPAGE_SIZE) \<Longrightarrow> valid s q \<Longrightarrow>
   fst (and_then (put_all put ws) (\<lambda>_. get q) s) = Inr (written ws (view s) q)"
proof -
  assume "inv s" "\<And>p b. (p, b) \<in> set ws \<Longrightarrow> valid s p \<and> length b = kPAGE_SIZE" "valid s q"
  with put_all_ok [of s ws] obtain t where
    t: "put_all put ws s = (Inr (), t)" "inv t" "valid t q" "view t = written ws (view s)"
    by auto
  with get_ok [OF t(2,3)] show ?thesis by (auto simp: and_then_Inr [of "put_all put ws" s, OF t(1)])
qed

end

interpretation disk_store: page_store write_page "\<lambda>p. read_page p zero_page" disk_ok "\<lambda>d p. p < dcapacity d" disk_view
proof
  fix d p and b :: page_data
  assume "disk_ok d" "p < dcapacity d" "length b = kPAGE_SIZE"
  then show "\<exists>t. write_page p b d = (Inr (), t) \<and> disk_ok t \<and> (\<lambda>q. q < dcapacity t) = (\<lambda>q. q < dcapacity d) \<and>
      disk_view t = (disk_view d)(p := b)"
    by (simp add: write_page_ok disk_view_write) (simp add: disk_ok_def)
next
  fix d p
  assume "disk_ok d" "p < dcapacity d"
  then show "\<exists>t. read_page p zero_page d = (Inr (disk_view d p), t) \<and> disk_ok t \<and>
      (\<lambda>q. q < dcapacity t) = (\<lambda>q. q < dcapacity d) \<and> disk_view t = disk_view d"
    by (simp add: read_page_ok disk_ok_def)
qed

end
