(* ===== verification/Disk_Properties.thy ===== *)
theory Disk_Properties
  imports Page_Store
begin

text \<open>
  What \<open>DiskManager\<close> promises: pages read back, allocation never hands out a page that is in use, and
  the metadata page carries capacity and free list from one session to the next.
\<close>

section \<open>Free pages\<close>

text \<open>
  The pages in use are those below the capacity, apart from the metadata page and the free ones; in a
  sound state the free list holds each of its pages once.
\<close>

definition free_ok :: "disk \<Rightarrow> bool" where
  "free_ok d \<longleftrightarrow> distinct (free_list d) \<and> 0 \<notin> set (free_list d) \<and> (\<forall>p\<in>set (free_list d). p < dcapacity d) \<and>
     0 < dcapacity d \<and> length (free_list d) \<le> 1025"

definition in_use :: "disk \<Rightarrow> page_id set" where
  "in_use d = {p. 0 < p \<and> p < dcapacity d} - set (free_list d)"

lemma split_last: "xs \<noteq> [] \<Longrightarrow> distinct xs \<Longrightarrow> set xs = insert (last xs) (set (butlast xs)) \<and> last xs \<notin> set (butlast xs)"
  by (cases xs rule: rev_cases) auto

lemma allocate_page_free:
  assumes ok: "free_ok d" and ne: "free_list d \<noteq> []"
  shows "allocate_page d = (Inr (last (free_list d)), d\<lparr>free_list := butlast (free_list d)\<rparr>)"
    and "free_ok (d\<lparr>free_list := butlast (free_list d)\<rparr>)"
    and "last (free_list d) \<notin> in_use d"
    and "in_use (d\<lparr>free_list := butlast (free_list d)\<rparr>) = insert (last (free_list d)) (in_use d)"
proof -
  let ?l = "free_list d"
  have s: "set ?l = insert (last ?l) (set (butlast ?l))" "last ?l \<notin> set (butlast ?l)"
    using split_last [OF ne] ok by (auto simp: free_ok_def)
  show "allocate_page d = (Inr (last ?l), d\<lparr>free_list := butlast ?l\<rparr>)"
    using ne by (simp add: allocate_page_def)
  show "free_ok (d\<lparr>free_list := butlast ?l\<rparr>)"
    using ok by (auto simp: free_ok_def distinct_butlast dest: in_set_butlastD)
  show "last ?l \<notin> in_use d" using ne by (simp add: in_use_def)
  show "in_use (d\<lparr>free_list := butlast ?l\<rparr>) = insert (last ?l) (in_use d)"
    using s ok by (auto simp: in_use_def free_ok_def word_gt_0)
qed

lemma allocate_page_new:
  assumes ok: "free_ok d" and e: "free_list d = []" and c: "dcapacity d \<noteq> -1"
  shows "allocate_page d = (Inr (dcapacity d), d\<lparr>dcapacity := dcapacity d + 1\<rparr>)"
    and "free_ok (d\<lparr>dcapacity := dcapacity d + 1\<rparr>)"
    and "dcapacity d \<notin> in_use d"
    and "in_use (d\<lparr>dcapacity := dcapacity d + 1\<rparr>) = insert (dcapacity d) (in_use d)"
proof -
  have "1 + dcapacity d \<noteq> 0" using c by (simp add: add_eq_0_iff)
  then have "unat (dcapacity d + 1) = Suc (unat (dcapacity d))" using unatSuc [of "dcapacity d"] by (simp add: add.commute)
  then have less: "p < dcapacity d + 1 \<longleftrightarrow> p \<le> dcapacity d" for p
    by (simp add: word_less_nat_alt word_le_nat_alt less_Suc_eq_le)
  show "allocate_page d = (Inr (dcapacity d), d\<lparr>dcapacity := dcapacity d + 1\<rparr>)"
    using e by (simp add: allocate_page_def)
  show "free_ok (d\<lparr>dcapacity := dcapacity d + 1\<rparr>)"
    using ok e by (simp add: free_ok_def less)
  show "dcapacity d \<notin> in_use d" by (simp add: in_use_def)
  show "in_use (d\<lparr>dcapacity := dcapacity d + 1\<rparr>) = insert (dcapacity d) (in_use d)"
    using ok e by (auto simp: in_use_def less free_ok_def order_le_less)
qed

lemma deallocate_page_cases:
  assumes ok: "free_ok d" and p: "p \<in> in_use d"
  shows "if length (free_list d) \<le> 1024
    then deallocate_page p d = (Inr (), d\<lparr>free_list := free_list d @ [p]\<rparr>) \<and>
      free_ok (d\<lparr>free_list := free_list d @ [p]\<rparr>) \<and> in_use (d\<lparr>free_list := free_list d @ [p]\<rparr>) = in_use d - {p}
    else deallocate_page p d = (Inr (), d)"
  using assms by (auto simp: deallocate_page_def in_use_def free_ok_def kDISK_METADATA_PAGE_ID_def)

section \<open>The metadata page across sessions\<close>

lemma slice_page_at_0: "k + n \<le> kPAGE_SIZE \<Longrightarrow> slice k n (page_at xs 0) = map (byte_at xs) [k..<k + n]"
  by (rule nth_equalityI) (auto simp: nth_slice page_at_def)

lemma slice_metadata_inside:
  assumes "off \<le> k" and "k + n \<le> off + length bs" and "k + n \<le> kPAGE_SIZE"
  shows "slice k n (page_at (overwrite off bs xs) 0) = slice (k - off) n bs"
  using assms by (intro nth_equalityI) (auto simp: slice_page_at_0 byte_at_overwrite nth_slice)

lemma slice_metadata_other:
  assumes "k + n \<le> off \<or> off + length bs \<le> k" and "k + n \<le> kPAGE_SIZE"
  shows "slice k n (page_at (overwrite off bs xs) 0) = slice k n (page_at xs 0)"
  using assms by (intro nth_equalityI) (auto simp: slice_page_at_0 byte_at_overwrite nth_slice)

lemma length_header_bytes [simp]: "length (header_bytes h) = 32"
  by (simp add: header_bytes_def)

lemma slice_header_bytes:
  "slice 0 8 (header_bytes h) = bytes64 (hmagic h)" "slice 8 8 (header_bytes h) = bytes64 (hversion h)"
  "slice 16 8 (header_bytes h) = bytes64 (hcapacity h)" "slice 24 8 (header_bytes h) = bytes64 (hfree_list_size h)"
  by (simp_all add: header_bytes_def slice_def)

text \<open>The metadata page after a flush that the file has room for.\<close>

definition metadata :: "disk_header \<Rightarrow> page_id list \<Rightarrow> byte list \<Rightarrow> byte list" where
  "metadata h l xs = overwrite 32 (concat (map bytes32 l)) (overwrite 0 (header_bytes h) xs)"

lemma length_free_bytes [simp]: "length (concat (map bytes32 l)) = 4 * length l"
  by (rule length_concat_uniform) simp

lemma header_of_metadata:
  "header_of_bytes (page_at (metadata h l xs) 0) = h"
  by (simp add: header_of_bytes_def metadata_def slice_metadata_other slice_metadata_inside kPAGE_SIZE_def
      slice_header_bytes u64.dec_enc)

lemma free_list_of_metadata:
  assumes "length l \<le> 1025"
  shows "map (\<lambda>i. of_bytes32 (slice (32 + 4 * i) 4 (page_at (metadata h l xs) 0))) [0..<length l] = l"
proof (rule nth_equalityI)
  fix i assume "i < length (map (\<lambda>i. of_bytes32 (slice (32 + 4 * i) 4 (page_at (metadata h l xs) 0))) [0..<length l])"
  then have i: "i < length l" by simp
  have "slice (32 + 4 * i) 4 (page_at (metadata h l xs) 0) = slice (4 * i) 4 (concat (map bytes32 l))"
    using assms i by (subst metadata_def, subst slice_metadata_inside) (auto simp: kPAGE_SIZE_def)
  also have "\<dots> = bytes32 (l ! i)" using i by (intro slice_concat_uniform) simp_all
  finally show "map (\<lambda>i. of_bytes32 (slice (32 + 4 * i) 4 (page_at (metadata h l xs) 0))) [0..<length l] ! i = l ! i"
    using i by (simp add: u32.dec_enc)
qed simp

text \<open>A file that opens, reads and writes as it should.\<close>

definition sound_file :: "os_file \<Rightarrow> bool" where
  "sound_file f \<longleftrightarrow> freadable f \<and> fstat_ok f \<and> kPAGE_SIZE \<le> flimit f \<and> length (fcontent f) < 2 ^ 63"

definition sound_header :: "disk \<Rightarrow> bool" where
  "sound_header d \<longleftrightarrow> hmagic (dheader d) = kDB_MAGIC \<and> hversion (dheader d) = kDB_FORMAT_VERSION"

definition flushed_header :: "disk \<Rightarrow> disk_header" where
  "flushed_header d = (dheader d)\<lparr>hcapacity := ucast (dcapacity d), hfree_list_size := of_nat (length (free_list d))\<rparr>"

lemma pwrite_fits:
  "off + length bs \<le> flimit f \<Longrightarrow> snd (pwrite bs off f) = f\<lparr>fcontent := overwrite off bs (fcontent f)\<rparr>"
  by (auto simp: pwrite_def Let_def min_absorb1 overwrite_def)

lemma header_bytes_nonempty [simp]: "header_bytes h \<noteq> []"
  using length_header_bytes [of h] by (metis list.size(3) zero_neq_numeral)

lemma disk_flush_all_eq:
  assumes "sound_file (dfile d)" and "length (free_list d) \<le> 1025"
  shows "disk_flush_all d = (Inr (), d\<lparr>dheader := flushed_header d,
    dfile := (dfile d)\<lparr>fcontent := metadata (flushed_header d) (free_list d) (fcontent (dfile d))\<rparr>\<rparr>)"
  using assms by (simp add: disk_flush_all_def flushed_header_def Let_def pwrite_fits metadata_def
      sound_file_def kPAGE_SIZE_def)

lemma ucast_ucast_32: "ucast (ucast (c :: 32 word) :: 64 word) = c"
  by (rule bit_word_eqI) (simp add: bit_ucast_iff)

lemma length_metadata: "length (metadata h l xs) = max (length xs) (32 + 4 * length l)"
  by (auto simp: metadata_def length_overwrite max_def)

lemma get_size_sound:
  assumes "sound_file f"
  shows "get_size f div 8192 < 1 \<longleftrightarrow> length (fcontent f) < kPAGE_SIZE"
proof -
  have "unat (of_nat (length (fcontent f)) :: 64 word) = length (fcontent f)"
    using assms by (simp add: sound_file_def unat_of_nat)
  then show ?thesis
    using assms by (simp add: get_size_def sound_file_def word_less_nat_alt unat_div kPAGE_SIZE_def) linarith
qed

lemma page_at_metadata:
  assumes "length l \<le> 1025" and "0 < q"
  shows "page_at (metadata h l xs) q = page_at xs q"
proof -
  have "kPAGE_SIZE \<le> q * kPAGE_SIZE" using assms(2) by simp
  then show ?thesis
    using assms by (auto simp: page_at_def metadata_def byte_at_overwrite kPAGE_SIZE_def)
qed

lemma read_metadata:
  assumes "sound_file f"
  shows "read_page kDISK_METADATA_PAGE_ID zero_page ((disk_object f)\<lparr>dcapacity := 1\<rparr>)
    = (Inr (page_at (fcontent f) 0), (disk_object f)\<lparr>dcapacity := 1\<rparr>)"
  using assms read_page_ok [of "(disk_object f)\<lparr>dcapacity := 1\<rparr>" 0 zero_page]
  by (simp add: kDISK_METADATA_PAGE_ID_def disk_view_def disk_object_def sound_file_def)

lemma open_metadata:
  assumes f: "sound_file f" and c: "fcontent f = metadata h l xs" and big: "kPAGE_SIZE \<le> length (fcontent f)"
    and l: "length l \<le> 1025" "hfree_list_size h = of_nat (length l)"
    and h: "hmagic h = kDB_MAGIC" "hversion h = kDB_FORMAT_VERSION"
  shows "disk_open (Some f) = Inr \<lparr>dfile = f, dheader = h, dcapacity = ucast (hcapacity h), free_list = l\<rparr>"
proof -
  let ?d = "(disk_object f)\<lparr>dcapacity := 1\<rparr>"
  let ?r = "\<lparr>dfile = f, dheader = h, dcapacity = ucast (hcapacity h), free_list = l\<rparr>"
  have n: "unat (hfree_list_size h) = length l" using l by (simp add: unat_of_nat)
  then have un: "uint (hfree_list_size h) = int (length l)" by (metis uint_nat)
  have "init_header ?d = (Inr (), ?r)"
    unfolding init_header_def and_then_Inr [of "read_page kDISK_METADATA_PAGE_ID zero_page" ?d, OF read_metadata [OF f]]
    using l(1) free_list_of_metadata [OF l(1), of h xs]
    by (simp add: Let_def c header_of_metadata n un kPAGE_SIZE_def) (simp add: disk_object_def)
  moreover have "\<not> get_size f div 8192 < 1" using get_size_sound [OF f] big by simp
  ultimately have "disk_init (disk_object f) = (Inr (), ?r)"
    using h by (simp add: disk_init_def disk_object_def and_then_assoc and_then_Inr [of init_header])
  then show ?thesis by (simp add: disk_open_def)
qed

lemma open_new:
  assumes f: "sound_file f" and small: "length (fcontent f) < kPAGE_SIZE"
  shows "\<exists>d. disk_open (Some f) = Inr d \<and> dcapacity d = 1 \<and> free_list d = [] \<and> sound_header d \<and>
    disk_close d = f\<lparr>fcontent := metadata (dheader d) [] (fcontent f)\<rparr>"
proof -
  let ?d = "(disk_object f)\<lparr>dcapacity := 1\<rparr>"
  have sound: "sound_file (dfile ?d)" "length (free_list ?d) \<le> 1025" using f by (simp_all add: disk_object_def)
  let ?r = "?d\<lparr>dheader := flushed_header ?d,
    dfile := (dfile ?d)\<lparr>fcontent := metadata (flushed_header ?d) (free_list ?d) (fcontent (dfile ?d))\<rparr>\<rparr>"
  have fl: "disk_flush_all ?d = (Inr (), ?r)" by (rule disk_flush_all_eq [OF sound])
  have "allocate_page ((disk_object f)\<lparr>dcapacity := 0\<rparr>) = (Inr 0, ?d)"
    by (simp add: allocate_page_def disk_object_def)
  then have "disk_init (disk_object f) = (Inr (), ?r)"
    using get_size_sound [OF f] small fl
    by (simp add: disk_init_def and_then_assoc and_then_Inr [of allocate_page] and_then_Inr [of disk_flush_all])
      (simp add: disk_object_def flushed_header_def)
  moreover have "sound_file (dfile ?r)"
    using f by (simp add: sound_file_def disk_object_def length_metadata)
  moreover have "metadata h [] (metadata h [] xs) = metadata h [] xs" for h xs
    by (simp add: metadata_def overwrite_def)
  ultimately show ?thesis
    using disk_flush_all_eq [of ?r]
    by (simp add: disk_open_def sound_header_def disk_close_def disk_object_def flushed_header_def)
qed

lemma disk_reopen_lemma:
  assumes ok: "free_ok d" and f: "sound_file (dfile d)" and h: "sound_header d"
  shows "\<exists>e. disk_open (Some (disk_close d)) = Inr e \<and>
    (if kPAGE_SIZE \<le> length (fcontent (dfile d))
     then dcapacity e = dcapacity d \<and> free_list e = free_list d \<and> (\<forall>p. p \<noteq> 0 \<longrightarrow> disk_view e p = disk_view d p) \<and>
       freadable (dfile e) = freadable (dfile d) \<and> flimit (dfile e) = flimit (dfile d)
     else dcapacity e = 1 \<and> free_list e = [])"
proof -
  have l: "length (free_list d) \<le> 1025" using ok by (simp add: free_ok_def)
  let ?xs = "metadata (flushed_header d) (free_list d) (fcontent (dfile d))"
  have c: "disk_close d = (dfile d)\<lparr>fcontent := ?xs\<rparr>"
    using disk_flush_all_eq [OF f l] by (simp add: disk_close_def)
  have sound: "sound_file (disk_close d)" using f l by (simp add: c sound_file_def length_metadata)
  show ?thesis
  proof (cases "kPAGE_SIZE \<le> length (fcontent (dfile d))")
    case True
    then have big: "kPAGE_SIZE \<le> length (fcontent (disk_close d))" by (simp add: c length_metadata)
    have "disk_open (Some (disk_close d)) = Inr \<lparr>dfile = disk_close d, dheader = flushed_header d,
        dcapacity = ucast (hcapacity (flushed_header d)), free_list = free_list d\<rparr>"
      using h by (intro open_metadata [OF sound _ big l]) (simp_all add: c flushed_header_def sound_header_def)
    moreover have "0 < unat p" if "p \<noteq> 0" for p :: page_id using that by (simp add: unat_gt_0)
    ultimately show ?thesis
      using True l by (auto simp: flushed_header_def ucast_ucast_32 disk_view_def c page_at_metadata)
  next
    case False
    then have "length (fcontent (disk_close d)) < kPAGE_SIZE"
      using l by (simp add: c length_metadata kPAGE_SIZE_def)
    with False open_new [OF sound] show ?thesis by auto
  qed
qed

section \<open>Properties\<close>

text \<open>
  After any sequence of page writes to allocated pages, each allocated page reads as the last
  bytes written to it, and as before if none were; the page store contract on the disk.
\<close>

theorem disk_reads_last_write:
  assumes "disk_ok d" and "\<forall>(p, b)\<in>set ws. p < dcapacity d \<and> length b = kPAGE_SIZE" and "q < dcapacity d"
  shows "fst (and_then (put_all write_page ws) (\<lambda>_. read_page q zero_page) d) = Inr (written ws (disk_view d) q)"
  using assms by (intro disk_store.get_after_put_all) auto

definition sample_disk :: disk where
  "sample_disk = \<lparr>dfile = \<lparr>fcontent = [], flimit = 10 ^ 9, freadable = True, fstat_ok = True\<rparr>,
     dheader = \<lparr>hmagic = kDB_MAGIC, hversion = kDB_FORMAT_VERSION, hcapacity = 0, hfree_list_size = 0\<rparr>,
     dcapacity = 4, free_list = [2]\<rparr>"

theorem disk_reads_last_write_witness:
  "fst (and_then (put_all write_page [(1, zero_page), (3, replicate kPAGE_SIZE 7), (1, replicate kPAGE_SIZE 9)])
     (\<lambda>_. read_page 1 zero_page) sample_disk) = Inr (replicate kPAGE_SIZE 9)"
  using disk_reads_last_write [of sample_disk
      "[(1, zero_page), (3, replicate kPAGE_SIZE 7), (1, replicate kPAGE_SIZE 9)]" 1]
  by (simp add: sample_disk_def disk_ok_def kPAGE_SIZE_def)

text \<open>
  C25: allocation. Unless the page numbers are exhausted, \<open>allocate_page\<close> returns a page that is neither the
  metadata page nor in use, lies below the new capacity, and is the only page that becomes used; giving
  it back makes it free again. Giving back any page in use frees that page and no other while the free
  list holds at most 1024 pages; with 1025 pages on it nothing changes and the page stays in use.
\<close>

theorem disk_allocation:
  assumes ok: "free_ok d"
  shows "(free_list d \<noteq> [] \<or> dcapacity d \<noteq> -1 \<longrightarrow>
      (\<exists>p e. allocate_page d = (Inr p, e) \<and> free_ok e \<and> p \<noteq> 0 \<and> p \<notin> in_use d \<and> p < dcapacity e \<and>
         in_use e = insert p (in_use d) \<and> (\<exists>f. deallocate_page p e = (Inr (), f) \<and> free_ok f \<and> in_use f = in_use d))) \<and>
    (\<forall>q\<in>in_use d. \<exists>f. deallocate_page q d = (Inr (), f) \<and> free_ok f \<and>
       (if length (free_list d) \<le> 1024 then in_use f = in_use d - {q} else f = d))"
proof (intro conjI impI ballI)
  assume room: "free_list d \<noteq> [] \<or> dcapacity d \<noteq> -1"
  obtain p e where a: "allocate_page d = (Inr p, e)" "free_ok e" "p \<notin> in_use d" "in_use e = insert p (in_use d)"
    and l: "length (free_list e) \<le> 1024"
  proof (cases "free_list d = []")
    case True
    then show thesis using that allocate_page_new [OF ok True] room by auto
  next
    case False
    have "length (butlast (free_list d)) \<le> 1024" using ok unfolding free_ok_def length_butlast by linarith
    then show thesis using that [of "last (free_list d)" "d\<lparr>free_list := butlast (free_list d)\<rparr>"] allocate_page_free [OF ok False] by simp
  qed
  then have p: "p \<in> in_use e" by simp
  then have "p \<noteq> 0" "p < dcapacity e" by (auto simp: in_use_def word_gt_0)
  moreover have "in_use e - {p} = in_use d" using a(3,4) by auto
  ultimately show "\<exists>p e. allocate_page d = (Inr p, e) \<and> free_ok e \<and> p \<noteq> 0 \<and> p \<notin> in_use d \<and> p < dcapacity e \<and>
         in_use e = insert p (in_use d) \<and> (\<exists>f. deallocate_page p e = (Inr (), f) \<and> free_ok f \<and> in_use f = in_use d)"
    using a l deallocate_page_cases [OF a(2) p] by auto
next
  fix q assume "q \<in> in_use d"
  from deallocate_page_cases [OF ok this] show "\<exists>f. deallocate_page q d = (Inr (), f) \<and> free_ok f \<and>
       (if length (free_list d) \<le> 1024 then in_use f = in_use d - {q} else f = d)"
    using ok by (auto split: if_splits)
qed

text \<open>A disk with a full free list.\<close>

definition full_list_disk :: disk where
  "full_list_disk = sample_disk\<lparr>dcapacity := 2000, free_list := map of_nat [1..<1026]\<rparr>"

lemma full_list_disk_ok: "free_ok full_list_disk" "1500 \<in> in_use full_list_disk" "length (free_list full_list_disk) = 1025"
proof -
  let ?l = "map of_nat [1..<1026] :: page_id list"
  have u: "unat (of_nat i :: page_id) = i" if "i < 1026" for i using that by (simp add: unat_of_nat)
  have "inj_on (of_nat :: nat \<Rightarrow> page_id) (set [1..<1026])" by (rule inj_on_inverseI [of _ unat]) (simp add: u)
  then have "distinct ?l" by (simp add: distinct_map)
  moreover have r: "0 < unat x \<and> unat x < 1026" if "x \<in> set ?l" for x using that u by auto
  then have "0 \<notin> set ?l" "1500 \<notin> set ?l" "\<forall>x\<in>set ?l. x < 2000" by (fastforce simp: word_less_nat_alt)+
  ultimately show "free_ok full_list_disk" "1500 \<in> in_use full_list_disk" "length (free_list full_list_disk) = 1025"
    by (simp_all add: full_list_disk_def free_ok_def in_use_def)
qed

theorem disk_allocation_witness:
  "(\<exists>p e f. allocate_page sample_disk = (Inr p, e) \<and> p \<noteq> 0 \<and> p \<notin> in_use sample_disk \<and>
     deallocate_page p e = (Inr (), f) \<and> in_use f = in_use sample_disk) \<and>
   deallocate_page 1500 full_list_disk = (Inr (), full_list_disk)"
proof -
  have "free_ok sample_disk" "free_list sample_disk \<noteq> []" by (auto simp: sample_disk_def free_ok_def)
  then show ?thesis
    using disk_allocation [of sample_disk] disk_allocation [OF full_list_disk_ok(1)] full_list_disk_ok(2,3) by fastforce
qed

text \<open>
  C26: closing and reopening. If the file has grown to a page, the new session has the same capacity
  and free list and every page but the metadata page has the same bytes. If not (pages were allocated
  but none was written), the file is taken for a new one: all allocations are forgotten.
\<close>

theorem disk_reopen:
  assumes ok: "free_ok d" and f: "sound_file (dfile d)" and h: "sound_header d"
  shows "\<exists>e. disk_open (Some (disk_close d)) = Inr e \<and>
    (if kPAGE_SIZE \<le> length (fcontent (dfile d))
     then dcapacity e = dcapacity d \<and> free_list e = free_list d \<and> (\<forall>p. p \<noteq> 0 \<longrightarrow> disk_view e p = disk_view d p)
     else dcapacity e = 1 \<and> free_list e = [])"
  using disk_reopen_lemma [OF assms] by (auto split: if_splits)

theorem disk_reopen_witness:
  "\<exists>e. disk_open (Some (disk_close (sample_disk\<lparr>dfile := (dfile sample_disk)\<lparr>fcontent := replicate 16384 5\<rparr>\<rparr>))) = Inr e \<and>
    dcapacity e = 4 \<and> free_list e = [2] \<and> disk_view e 1 = replicate kPAGE_SIZE 5"
proof -
  let ?d = "sample_disk\<lparr>dfile := (dfile sample_disk)\<lparr>fcontent := replicate 16384 5\<rparr>\<rparr>"
  have "disk_view ?d 1 = replicate kPAGE_SIZE 5"
    by (rule nth_equalityI) (auto simp: disk_view_def page_at_def byte_at_def kPAGE_SIZE_def)
  then show ?thesis
    using disk_reopen [of ?d]
    by (auto simp: sample_disk_def free_ok_def sound_file_def sound_header_def kPAGE_SIZE_def)
qed

text \<open>
  Opening a file that is not a database. The free list is copied before the magic number is
  checked: a file of at least a page whose bytes 24 to 31 encode a count above 2040 makes the
  constructor copy from behind its buffer, instead of the error for an unrecognised file.
\<close>

theorem foreign_file_undefined:
  assumes f: "sound_file f" and big: "kPAGE_SIZE \<le> length (fcontent f)"
    and n: "2040 < uint (hfree_list_size (header_of_bytes (page_at (fcontent f) 0)))"
      "uint (hfree_list_size (header_of_bytes (page_at (fcontent f) 0))) < 2 ^ 61"
  shows "disk_open (Some f) = Inl Undefined"
proof -
  let ?d = "(disk_object f)\<lparr>dcapacity := 1\<rparr>"
  have "\<exists>e. init_header ?d = (Inl Undefined, e)"
    unfolding init_header_def and_then_Inr [of "read_page kDISK_METADATA_PAGE_ID zero_page" ?d, OF read_metadata [OF f]]
    using n by (simp add: Let_def kPAGE_SIZE_def)
  moreover have "\<not> get_size f div 8192 < 1" using get_size_sound [OF f] big by simp
  ultimately show ?thesis
    by (auto simp: disk_open_def disk_init_def disk_object_def and_then_assoc and_then_Inl [of init_header])
qed

theorem foreign_file_undefined_witness:
  "disk_open (Some \<lparr>fcontent = replicate 24 0 @ replicate 7 1 @ replicate 9000 0, flimit = 10 ^ 9, freadable = True,
     fstat_ok = True\<rparr>) = Inl Undefined"
proof -
  let ?f = "\<lparr>fcontent = replicate 24 0 @ replicate 7 1 @ replicate 9000 0, flimit = 10 ^ 9, freadable = True,
     fstat_ok = True\<rparr>"
  have "slice 24 8 (page_at (fcontent ?f) 0) = [1, 1, 1, 1, 1, 1, 1, 0]"
    by (simp add: slice_page_at_0 kPAGE_SIZE_def upt_rec byte_at_def nth_append)
  then have "hfree_list_size (header_of_bytes (page_at (fcontent ?f) 0)) = of_bytes64 [1, 1, 1, 1, 1, 1, 1, 0]"
    by (simp add: header_of_bytes_def)
  also have "\<dots> = 0x1010101010101" by (simp add: of_bytes64_def)
  finally show ?thesis
    using foreign_file_undefined [of ?f] by (simp add: sound_file_def kPAGE_SIZE_def)
qed

end
