(* ===== verification/Replacer.thy ===== *)
theory Replacer
  imports Proc Common_Types
begin

text \<open>
  \<open>BufferReplacer\<close> (\<open>include/duck/buffer/replacer.hpp\<close>, \<open>src/buffer/replacer.cpp\<close>): a linked list of
  page numbers, least recently used first, and a map from page numbers to list iterators. A list node
  is a number that is never used twice; an iterator is the number of its node, and erasing a node that
  is not in the list is \<open>Undefined\<close>. The lemmas show that the pair behaves as a list without duplicates.
\<close>

record replacer =
  mru_pages :: "(nat \<times> page_id) list"
  positions :: "page_id \<rightharpoonup> nat"
  next_node :: nat

definition empty_replacer :: replacer where
  "empty_replacer = \<lparr>mru_pages = [], positions = Map.empty, next_node = 0\<rparr>"

definition erase_node :: "nat \<Rightarrow> (nat \<times> page_id) list \<Rightarrow> (nat \<times> page_id) list res" where
  "erase_node n xs = (if n \<in> fst ` set xs then Inr (filter (\<lambda>(m, p). m \<noteq> n) xs) else Inl Undefined)"

definition replacer_remove :: "page_id \<Rightarrow> (replacer, unit) proc" where
  "replacer_remove p = and_then (gets positions) (\<lambda>pos.
     case pos p of
       None \<Rightarrow> ret ()
     | Some it \<Rightarrow>
         and_then (gets mru_pages) (\<lambda>xs.
         and_then (lift (erase_node it xs)) (\<lambda>ys.
         modify (\<lambda>r. r\<lparr>mru_pages := ys, positions := pos(p := None)\<rparr>))))"

definition replacer_record :: "page_id \<Rightarrow> (replacer, unit) proc" where
  "replacer_record p = and_then (replacer_remove p) (\<lambda>_.
     modify (\<lambda>r. r\<lparr>mru_pages := mru_pages r @ [(next_node r, p)], positions := (positions r)(p \<mapsto> next_node r),
                   next_node := Suc (next_node r)\<rparr>))"

text \<open>The loop of \<open>find_lru\<close>; \<open>pin p\<close> is the pin count of the frame the page table has for \<open>p\<close>.\<close>

fun find_lru :: "(page_id \<Rightarrow> 32 word option res) \<Rightarrow> page_id list \<Rightarrow> page_id res" where
  "find_lru pin [] = Inr INVALID_PAGE_ID"
| "find_lru pin (p # ps) =
     bind_res (pin p) (\<lambda>c. case c of
         Some n \<Rightarrow> if n = 0 then Inr p else find_lru pin ps
       | None \<Rightarrow> find_lru pin ps)"

section \<open>Refinement\<close>

definition lru_order :: "replacer \<Rightarrow> page_id list" where
  "lru_order r = map snd (mru_pages r)"

definition replacer_ok :: "replacer \<Rightarrow> bool" where
  "replacer_ok r \<longleftrightarrow> distinct (map fst (mru_pages r)) \<and> distinct (lru_order r) \<and>
     (\<forall>n p. positions r p = Some n \<longleftrightarrow> (n, p) \<in> set (mru_pages r)) \<and>
     (\<forall>n\<in>fst ` set (mru_pages r). n < next_node r)"

lemma replacer_ok_empty: "replacer_ok empty_replacer" "lru_order empty_replacer = []"
  by (simp_all add: replacer_ok_def empty_replacer_def lru_order_def)

lemma filter_node:
  assumes "distinct (map fst xs)" and "distinct (map snd xs)" and "(n, p) \<in> set xs"
  shows "filter (\<lambda>(m, q). m \<noteq> n) xs = filter (\<lambda>(m, q). q \<noteq> p) xs"
  using assms by (intro filter_cong) (force simp: distinct_map inj_on_def)+

lemma replacer_remove_ok:
  assumes ok: "replacer_ok r"
  shows "\<exists>r'. replacer_remove p r = (Inr (), r') \<and> replacer_ok r' \<and> lru_order r' = removeAll p (lru_order r)"
proof (cases "positions r p")
  case None
  then have "p \<notin> set (lru_order r)" using ok by (force simp: replacer_ok_def lru_order_def)
  with None ok show ?thesis by (simp add: replacer_remove_def)
next
  case (Some n)
  note D = ok [unfolded replacer_ok_def lru_order_def]
  have np: "(n, p) \<in> set (mru_pages r)" using D Some by blast
  let ?ys = "filter (\<lambda>(m, q). m \<noteq> n) (mru_pages r)"
  let ?r = "r\<lparr>mru_pages := ?ys, positions := (positions r)(p := None)\<rparr>"
  have eq: "?ys = filter (\<lambda>(m, q). q \<noteq> p) (mru_pages r)" using D np by (intro filter_node) auto
  have "replacer_remove p r = (Inr (), ?r)"
    using Some np by (force simp: replacer_remove_def erase_node_def)
  moreover have "lru_order ?r = removeAll p (lru_order r)"
    unfolding lru_order_def removeAll_filter_not_eq
    using eq by (simp add: filter_map o_def case_prod_unfold eq_commute)
  moreover have "replacer_ok ?r"
    unfolding replacer_ok_def lru_order_def using D np
    by (auto simp: eq distinct_map_filter)
  ultimately show ?thesis by blast
qed

lemma replacer_record_ok:
  assumes ok: "replacer_ok r"
  shows "\<exists>r'. replacer_record p r = (Inr (), r') \<and> replacer_ok r' \<and>
    lru_order r' = removeAll p (lru_order r) @ [p]"
proof -
  obtain s where s: "replacer_remove p r = (Inr (), s)" "replacer_ok s" "lru_order s = removeAll p (lru_order r)"
    using replacer_remove_ok [OF ok] by blast
  let ?t = "s\<lparr>mru_pages := mru_pages s @ [(next_node s, p)], positions := (positions s)(p \<mapsto> next_node s),
    next_node := Suc (next_node s)\<rparr>"
  have "p \<notin> set (lru_order s)" using s(3) by simp
  then have p: "p \<notin> snd ` set (mru_pages s)" by (simp add: lru_order_def)
  have "replacer_ok ?t"
    using s(2) p unfolding replacer_ok_def lru_order_def by (force simp: less_Suc_eq image_iff)
  then show ?thesis
    using s by (simp add: replacer_record_def and_then_Inr [of "replacer_remove p"]) (simp add: lru_order_def)
qed

lemma find_lru_ok:
  assumes "\<And>p. p \<in> set ps \<Longrightarrow> \<exists>n. pin p = Inr (Some n)"
  shows "find_lru pin ps = Inr (case List.find (\<lambda>p. pin p = Inr (Some 0)) ps of Some p \<Rightarrow> p | None \<Rightarrow> INVALID_PAGE_ID)"
  using assms by (induction ps) (fastforce split: option.splits)+

end
