(* ===== verification/Buffer_Pool.thy ===== *)
theory Buffer_Pool
  imports Replacer Page_Store
begin

text \<open>
  \<open>Page\<close>, \<open>BufferPoolManager\<close> and \<open>PinnedPage\<close> (\<open>include/duck/buffer\<close>, \<open>src/buffer\<close>). Frames are a
  list indexed by frame number; a \<open>Page*\<close> is the number of its frame, \<open>nullptr\<close> is \<open>None\<close>. The
  operations run one at a time: the latches only order them. A frame number outside the array is
  \<open>Undefined\<close>.
\<close>

section \<open>State\<close>

record frame =
  pg_id :: page_id
  pg_data :: page_data
  pg_pin :: "32 word"
  pg_dirty :: bool

definition fresh_frame :: frame where
  "fresh_frame = \<lparr>pg_id = INVALID_PAGE_ID, pg_data = zero_page, pg_pin = 0, pg_dirty = False\<rparr>"

definition reset_memory :: "page_id \<Rightarrow> frame \<Rightarrow> frame" where
  "reset_memory p fr = \<lparr>pg_id = p, pg_data = zero_page, pg_pin = 0, pg_dirty = False\<rparr>"

definition inc_pin :: "frame \<Rightarrow> frame" where
  "inc_pin fr = fr\<lparr>pg_pin := pg_pin fr + 1\<rparr>"

definition dec_pin :: "frame \<Rightarrow> frame" where
  "dec_pin fr = fr\<lparr>pg_pin := pg_pin fr - 1\<rparr>"

record bpm =
  bdisk :: disk
  pool_capacity :: nat
  pool_size :: nat
  frames :: "frame list"
  page_table :: "page_id \<rightharpoonup> frame_id"
  free_frames :: "frame_id list"
  replacer :: replacer

definition bpm_object :: "disk \<Rightarrow> nat \<Rightarrow> bpm" where
  "bpm_object d n =
     \<lparr>bdisk = d, pool_capacity = n, pool_size = 0, frames = replicate n fresh_frame,
      page_table = Map.empty, free_frames = [], replacer = empty_replacer\<rparr>"

section \<open>Access to members\<close>

definition on_disk :: "(disk, 'a) proc \<Rightarrow> (bpm, 'a) proc" where
  "on_disk = zoom bdisk (\<lambda>d. bdisk_update (\<lambda>_. d))"

definition on_replacer :: "(replacer, 'a) proc \<Rightarrow> (bpm, 'a) proc" where
  "on_replacer = zoom replacer (\<lambda>r. replacer_update (\<lambda>_. r))"

definition frame_at :: "frame_id \<Rightarrow> (bpm, frame) proc" where
  "frame_at f = and_then (gets frames) (\<lambda>fs.
     and_then (require (unat f < length fs) Undefined) (\<lambda>_. ret (fs ! unat f)))"

definition set_frame :: "frame_id \<Rightarrow> frame \<Rightarrow> (bpm, unit) proc" where
  "set_frame f fr = modify (\<lambda>b. b\<lparr>frames := (frames b)[unat f := fr]\<rparr>)"

definition change_frame :: "frame_id \<Rightarrow> (frame \<Rightarrow> frame) \<Rightarrow> (bpm, unit) proc" where
  "change_frame f g = and_then (frame_at f) (\<lambda>fr. set_frame f (g fr))"

text \<open>The pin count \<open>find_lru\<close> sees for a page: that of its frame, none for an unmapped page.\<close>

definition pin_of :: "bpm \<Rightarrow> page_id \<Rightarrow> 32 word option res" where
  "pin_of b p =
     (case page_table b p of
        None \<Rightarrow> Inr None
      | Some f \<Rightarrow> if unat f < length (frames b) then Inr (Some (pg_pin (frames b ! unat f))) else Inl Undefined)"

section \<open>Operations\<close>

definition find_next_frame :: "(bpm, frame_id) proc" where
  "find_next_frame = and_then (gets free_frames) (\<lambda>ff.
     if ff \<noteq> [] then and_then (modify (free_frames_update (\<lambda>_. butlast ff))) (\<lambda>_. ret (last ff))
     else and_then (gets (\<lambda>b. (pool_size b, pool_capacity b))) (\<lambda>(n, cap).
       if n < cap then and_then (modify (pool_size_update (\<lambda>_. n + 1))) (\<lambda>_. ret (of_nat n))
       else and_then (gets (\<lambda>b. find_lru (pin_of b) (lru_order (replacer b)))) (\<lambda>r.
         and_then (lift r) (\<lambda>p.
         if p \<noteq> INVALID_PAGE_ID
         then and_then (gets (\<lambda>b. page_table b p)) (\<lambda>m. case m of
             Some f \<Rightarrow> ret f
           | None \<Rightarrow> and_then (modify (\<lambda>b. b\<lparr>page_table := (page_table b)(p \<mapsto> 0)\<rparr>)) (\<lambda>_. ret 0))
         else ret INVALID_FRAME_ID))))"

definition flush_page :: "frame \<Rightarrow> (bpm, unit) proc" where
  "flush_page fr = on_disk (write_page (pg_id fr) (pg_data fr))"

text \<open>
  The parts of \<open>swap_page\<close>: what was in the frame leaves the table and goes to disk if it is dirty; the
  new page takes the frame, pinned; its bytes are read. A throw leaves the parts before it done.
\<close>

definition evict_frame :: "frame_id \<Rightarrow> (bpm, unit) proc" where
  "evict_frame f = and_then (frame_at f) (\<lambda>fr.
     and_then (if pg_id fr \<noteq> INVALID_PAGE_ID
               then and_then (modify (\<lambda>b. b\<lparr>page_table := (page_table b)(pg_id fr := None)\<rparr>)) (\<lambda>_.
                    on_replacer (replacer_remove (pg_id fr)))
               else ret ()) (\<lambda>_.
     if pg_dirty fr then flush_page fr else ret ()))"

definition install_page :: "page_id \<Rightarrow> frame_id \<Rightarrow> (bpm, unit) proc" where
  "install_page p f = and_then (modify (\<lambda>b. b\<lparr>page_table := (page_table b)(p \<mapsto> f)\<rparr>)) (\<lambda>_.
     and_then (change_frame f (\<lambda>fr. inc_pin (reset_memory p fr))) (\<lambda>_.
     on_replacer (replacer_record p)))"

definition load_page :: "page_id \<Rightarrow> frame_id \<Rightarrow> (bpm, unit) proc" where
  "load_page p f = and_then (frame_at f) (\<lambda>fr.
     and_then (on_disk (read_page p (pg_data fr))) (\<lambda>data.
     change_frame f (\<lambda>fr. fr\<lparr>pg_data := data\<rparr>)))"

definition swap_page :: "page_id \<Rightarrow> bool \<Rightarrow> (bpm, frame_id option) proc" where
  "swap_page p read_from_disk = and_then find_next_frame (\<lambda>f.
     if f = INVALID_FRAME_ID then ret None
     else
       and_then (evict_frame f) (\<lambda>_.
       and_then (install_page p f) (\<lambda>_.
       and_then (if read_from_disk then load_page p f else ret ()) (\<lambda>_.
       ret (Some f)))))"

definition find_cached_page :: "page_id \<Rightarrow> (bpm, frame_id option) proc" where
  "find_cached_page p = and_then (gets (\<lambda>b. page_table b p)) (\<lambda>m. case m of
       Some f \<Rightarrow>
         and_then (change_frame f inc_pin) (\<lambda>_.
         and_then (on_replacer (replacer_record p)) (\<lambda>_. ret (Some f)))
     | None \<Rightarrow> ret None)"

definition new_page :: "(bpm, frame_id option) proc" where
  "new_page = and_then (on_disk allocate_page) (\<lambda>p. swap_page p False)"

definition fetch_page :: "page_id \<Rightarrow> (bpm, frame_id option) proc" where
  "fetch_page p = and_then (find_cached_page p) (\<lambda>m. if m \<noteq> None then ret m else swap_page p True)"

definition delete_page :: "page_id \<Rightarrow> (bpm, bool) proc" where
  "delete_page p = and_then (gets (\<lambda>b. page_table b p)) (\<lambda>m.
     and_then (case m of
         None \<Rightarrow> ret True
       | Some f \<Rightarrow> and_then (frame_at f) (\<lambda>fr.
           if pg_pin fr > 0 then ret False
           else
             and_then (modify (\<lambda>b. b\<lparr>page_table := (page_table b)(p := None)\<rparr>)) (\<lambda>_.
             and_then (on_replacer (replacer_remove p)) (\<lambda>_.
             and_then (change_frame f (reset_memory INVALID_PAGE_ID)) (\<lambda>_.
             and_then (modify (\<lambda>b. b\<lparr>free_frames := free_frames b @ [f]\<rparr>)) (\<lambda>_. ret True))))))
       (\<lambda>ok. if ok then and_then (on_disk (deallocate_page p)) (\<lambda>_. ret True) else ret False))"

definition unpin_page :: "page_id \<Rightarrow> bool \<Rightarrow> (bpm, unit) proc" where
  "unpin_page p dirty = and_then (gets (\<lambda>b. page_table b p)) (\<lambda>m. case m of
       Some f \<Rightarrow> change_frame f (\<lambda>fr. dec_pin (if dirty then fr\<lparr>pg_dirty := True\<rparr> else fr))
     | None \<Rightarrow> ret ())"

fun flush_frames :: "frame list \<Rightarrow> (bpm, unit) proc" where
  "flush_frames [] = ret ()"
| "flush_frames (fr # fs) = and_then (if pg_dirty fr then flush_page fr else ret ()) (\<lambda>_. flush_frames fs)"

definition bpm_flush_all :: "(bpm, unit) proc" where
  "bpm_flush_all = and_then (gets (\<lambda>b. take (pool_size b) (frames b))) flush_frames"

section \<open>Clients\<close>

text \<open>
  \<open>PinnedPage\<close>: the frame, and whether it was marked dirty; the destructor unpins the page the frame
  holds. The client changes the bytes through the pointer.
\<close>

record pinned =
  pin_frame :: "frame_id option"
  pin_dirty :: bool

definition make_pinned :: "frame_id option \<Rightarrow> pinned" where
  "make_pinned f = \<lparr>pin_frame = f, pin_dirty = False\<rparr>"

definition pin_valid :: "pinned \<Rightarrow> bool" where
  "pin_valid h \<longleftrightarrow> pin_frame h \<noteq> None"

definition mark_dirty :: "pinned \<Rightarrow> pinned" where
  "mark_dirty h = h\<lparr>pin_dirty := True\<rparr>"

definition pinned_page_id :: "pinned \<Rightarrow> (bpm, page_id) proc" where
  "pinned_page_id h = (case pin_frame h of
       None \<Rightarrow> ret INVALID_PAGE_ID
     | Some f \<Rightarrow> and_then (frame_at f) (\<lambda>fr. ret (pg_id fr)))"

definition pinned_data :: "pinned \<Rightarrow> (bpm, page_data) proc" where
  "pinned_data h = (case pin_frame h of
       None \<Rightarrow> ret []
     | Some f \<Rightarrow> and_then (frame_at f) (\<lambda>fr. ret (pg_data fr)))"

definition set_data :: "pinned \<Rightarrow> page_data \<Rightarrow> (bpm, unit) proc" where
  "set_data h d = (case pin_frame h of
       None \<Rightarrow> throw Undefined
     | Some f \<Rightarrow> change_frame f (\<lambda>fr. fr\<lparr>pg_data := d\<rparr>))"

definition unpin :: "pinned \<Rightarrow> (bpm, unit) proc" where
  "unpin h = (case pin_frame h of
       None \<Rightarrow> ret ()
     | Some f \<Rightarrow> and_then (frame_at f) (\<lambda>fr. unpin_page (pg_id fr) (pin_dirty h)))"

text \<open>
  The move constructor copies the pointer but not the dirty flag; move assignment copies both. The two
  handles of an assignment are different objects: assigning a handle to itself does nothing in the code.
\<close>

definition move_construct :: "pinned \<Rightarrow> pinned \<times> pinned" where
  "move_construct other = (\<lparr>pin_frame = pin_frame other, pin_dirty = False\<rparr>, other\<lparr>pin_frame := None\<rparr>)"

definition move_assign :: "pinned \<Rightarrow> pinned \<Rightarrow> (bpm, pinned \<times> pinned) proc" where
  "move_assign this other = and_then (unpin this) (\<lambda>_.
     ret (\<lparr>pin_frame = pin_frame other, pin_dirty = pin_dirty other\<rparr>, other\<lparr>pin_frame := None\<rparr>))"

end
