(* ===== verification/Table_Heap.thy ===== *)
theory Table_Heap
  imports Buffer_Pool Slotted_Page
begin

text \<open>
  \<open>TableHeap\<close> (\<open>include/duck/table/table_heap.hpp\<close>, \<open>src/table/table_heap.cpp\<close>): a linked list of slotted
  pages behind the buffer pool. A heap is the number of its first page. A loop over the pages gets as
  fuel more steps than the disk has pages; the latches of the pages only order the operations.
\<close>

section \<open>Pages held through a handle\<close>

text \<open>
  A \<open>PinnedPage\<close> lives as long as its block: \<open>scope h body\<close> runs the block and then its destructor.
  The block returns the handle with its dirty flag; where a block of this file throws (undefined
  behaviour apart), the handle is not dirty yet.
\<close>

definition scope :: "pinned \<Rightarrow> (bpm, 'a \<times> pinned) proc \<Rightarrow> (bpm, 'a) proc" where
  "scope h body b =
     (case body b of
        (Inl e, c) \<Rightarrow> (Inl e, snd (unpin h c))
      | (Inr (x, h'), c) \<Rightarrow> and_then (unpin h') (\<lambda>_. ret x) c)"

definition read_page_of :: "pinned \<Rightarrow> (page_data \<Rightarrow> 'a res) \<Rightarrow> (bpm, 'a) proc" where
  "read_page_of h f = and_then (pinned_data h) (\<lambda>d. lift (f d))"

definition on_page :: "pinned \<Rightarrow> (page_data \<Rightarrow> ('a \<times> page_data) res) \<Rightarrow> (bpm, 'a) proc" where
  "on_page h f = and_then (pinned_data h) (\<lambda>d.
     and_then (lift (f d)) (\<lambda>(x, d). and_then (set_data h d) (\<lambda>_. ret x)))"

definition frame_page_id :: "frame_id \<Rightarrow> (bpm, page_id) proc" where
  "frame_page_id f = and_then (frame_at f) (\<lambda>fr. ret (pg_id fr))"

text \<open>More steps than a list of distinct pages can have.\<close>

definition page_fuel :: "bpm \<Rightarrow> nat" where
  "page_fuel b = unat (dcapacity (bdisk b)) + 2"

section \<open>Create, insert\<close>

definition heap_create :: "(bpm, page_id) proc" where
  "heap_create = and_then new_page (\<lambda>m.
     let h = make_pinned m in
     if \<not> pin_valid h then throw (Runtime_error ''TableHeap: failed to create next page'')
     else scope h (
       and_then (on_page h (\<lambda>d. Inr ((), sp_init d))) (\<lambda>_.
       let h = mark_dirty h in
       and_then (pinned_page_id h) (\<lambda>p. ret (p, h)))))"

text \<open>How the loop of \<open>insert_tuple\<close> leaves a page: with a row, or for another page.\<close>

datatype insert_step = Inserted rid | Go_on bool page_id

definition inserted_here :: "pinned \<Rightarrow> rid \<Rightarrow> (bpm, insert_step \<times> pinned) proc" where
  "inserted_here h r = and_then (pinned_page_id h) (\<lambda>p. ret (Inserted (r\<lparr>rid_page := p\<rparr>), mark_dirty h))"

definition link_new_page :: "pinned \<Rightarrow> (bpm, insert_step \<times> pinned) proc" where
  "link_new_page h = and_then new_page (\<lambda>m. case m of
       None \<Rightarrow> throw (Runtime_error ''TableHeap: failed to create next page'')
     | Some g \<Rightarrow>
         let n = make_pinned (Some g) in
         and_then (scope n (and_then (on_page n (\<lambda>d. Inr ((), sp_init d))) (\<lambda>_. ret ((), mark_dirty n)))) (\<lambda>_.
         and_then (read_page_of h (\<lambda>d. Inr (sp_next d))) (\<lambda>next_id.
         if next_id = INVALID_PAGE_ID then
           and_then (frame_page_id g) (\<lambda>new_id.
           and_then (on_page h (\<lambda>d. Inr ((), put_next new_id d))) (\<lambda>_.
           and_then (read_page_of h (\<lambda>d. Inr (sp_next d))) (\<lambda>p.
           ret (Go_on True p, mark_dirty h))))
         else
           and_then (frame_page_id g) (\<lambda>new_id.
           and_then (delete_page new_id) (\<lambda>_.
           ret (Go_on True next_id, h))))))"

definition insert_on_page :: "bool \<Rightarrow> byte list \<Rightarrow> pinned \<Rightarrow> (bpm, insert_step \<times> pinned) proc" where
  "insert_on_page created t h =
     and_then (on_page h (\<lambda>d. sp_insert_tuple d t None)) (\<lambda>m. case m of
       Some r \<Rightarrow> inserted_here h r
     | None \<Rightarrow>
         and_then (read_page_of h sp_is_compacted) (\<lambda>compacted.
         and_then (if \<not> compacted
                   then and_then (on_page h (\<lambda>d. bind_res (sp_compact d) (\<lambda>d. Inr ((), d)))) (\<lambda>_.
                        on_page h (\<lambda>d. sp_insert_tuple d t None))
                   else ret None) (\<lambda>m. case m of
           Some r \<Rightarrow> inserted_here h r
         | None \<Rightarrow>
             and_then (read_page_of h (\<lambda>d. Inr (sp_next d))) (\<lambda>next_id.
             if next_id = INVALID_PAGE_ID then
               if created
               then throw (Runtime_error ''TableHeap::insert_tuple: tuple failed to fit even on a freshly created page'')
               else link_new_page h
             else ret (Go_on created next_id, h)))))"

fun insert_from :: "nat \<Rightarrow> bool \<Rightarrow> page_id \<Rightarrow> byte list \<Rightarrow> (bpm, rid option) proc" where
  "insert_from 0 created p t = throw Out_of_fuel"
| "insert_from (Suc n) created p t = and_then (fetch_page p) (\<lambda>m. case m of
       None \<Rightarrow> ret None
     | Some f \<Rightarrow>
         let h = make_pinned (Some f) in
         and_then (scope h (insert_on_page created t h)) (\<lambda>step. case step of
           Inserted r \<Rightarrow> ret (Some r)
         | Go_on created p \<Rightarrow> insert_from n created p t))"

definition heap_insert :: "page_id \<Rightarrow> byte list \<Rightarrow> (bpm, rid option) proc" where
  "heap_insert first_page t =
     (if length t > kPAGE_SIZE - 8 - 4
      then throw (Runtime_error ''TableHeap::insert_tuple: tuple exceeds maximum page capacity'')
      else and_then (gets page_fuel) (\<lambda>n. insert_from n False first_page t))"

section \<open>Get, update, delete, restore\<close>

definition heap_get :: "rid \<Rightarrow> (bpm, byte list option) proc" where
  "heap_get r = and_then (fetch_page (rid_page r)) (\<lambda>m. case m of
       None \<Rightarrow> ret None
     | Some f \<Rightarrow>
         let h = make_pinned (Some f) in
         scope h (and_then (read_page_of h (\<lambda>d. sp_get_tuple d (rid_slot r))) (\<lambda>view.
           ret (if view = [] then None else Some view, h))))"

text \<open>\<open>None\<close>: the row was deleted from its page and is to be inserted anywhere.\<close>

definition update_on_page :: "rid \<Rightarrow> byte list \<Rightarrow> pinned \<Rightarrow> (bpm, rid option option \<times> pinned) proc" where
  "update_on_page r t h =
     and_then (read_page_of h (\<lambda>d. sp_has_slot d (rid_slot r))) (\<lambda>has_slot.
     if \<not> has_slot then ret (Some None, h)
     else and_then (on_page h (\<lambda>d. sp_try_update_in_place d r t)) (\<lambda>in_place.
       if in_place then ret (Some (Some r), mark_dirty h)
       else and_then (on_page h (\<lambda>d. sp_delete_tuple d (rid_slot r))) (\<lambda>deleted.
         if \<not> deleted then ret (Some None, h)
         else
           let h = mark_dirty h in
           and_then (read_page_of h sp_is_compacted) (\<lambda>compacted.
           and_then (if \<not> compacted then on_page h (\<lambda>d. bind_res (sp_compact d) (\<lambda>d. Inr ((), d))) else ret ()) (\<lambda>_.
           and_then (on_page h (\<lambda>d. sp_insert_tuple d t (Some (rid_slot r)))) (\<lambda>m. case m of
             Some q \<Rightarrow> and_then (pinned_page_id h) (\<lambda>p. ret (Some (Some (q\<lparr>rid_page := p\<rparr>)), mark_dirty h))
           | None \<Rightarrow> ret (None, h)))))))"

definition heap_update :: "page_id \<Rightarrow> rid \<Rightarrow> byte list \<Rightarrow> (bpm, rid option) proc" where
  "heap_update first_page r t = and_then (fetch_page (rid_page r)) (\<lambda>m. case m of
       None \<Rightarrow> ret None
     | Some f \<Rightarrow>
         let h = make_pinned (Some f) in
         and_then (scope h (update_on_page r t h)) (\<lambda>done. case done of
           Some answer \<Rightarrow> ret answer
         | None \<Rightarrow> heap_insert first_page t))"

definition heap_delete :: "rid \<Rightarrow> (bpm, bool) proc" where
  "heap_delete r = and_then (fetch_page (rid_page r)) (\<lambda>m. case m of
       None \<Rightarrow> ret False
     | Some f \<Rightarrow>
         let h = make_pinned (Some f) in
         scope h (and_then (on_page h (\<lambda>d. sp_delete_tuple d (rid_slot r))) (\<lambda>deleted.
           ret (deleted, if deleted then mark_dirty h else h))))"

text \<open>\<open>restore_tuple\<close> does not mark the page dirty.\<close>

definition heap_restore :: "rid \<Rightarrow> byte list \<Rightarrow> (bpm, unit) proc" where
  "heap_restore r t = and_then (fetch_page (rid_page r)) (\<lambda>m. case m of
       None \<Rightarrow> ret ()
     | Some f \<Rightarrow>
         let h = make_pinned (Some f) in
         scope h (and_then (on_page h (\<lambda>d. bind_res (sp_restore_tuple d (rid_slot r) t) (\<lambda>d. Inr ((), d)))) (\<lambda>_.
           ret ((), h))))"

section \<open>All pages\<close>

datatype fetch_status = FAILED | SUCCESS

fun all_pages_from :: "nat \<Rightarrow> page_id list \<Rightarrow> page_id \<Rightarrow> (bpm, page_id list \<times> fetch_status) proc" where
  "all_pages_from 0 result p = throw Out_of_fuel"
| "all_pages_from (Suc n) result p = and_then (fetch_page p) (\<lambda>m. case m of
       None \<Rightarrow> ret (result, FAILED)
     | Some f \<Rightarrow>
         let h = make_pinned (Some f) in
         and_then (scope h (and_then (read_page_of h (\<lambda>d. Inr (sp_next d))) (\<lambda>q. ret (q, h)))) (\<lambda>q.
         if q = INVALID_PAGE_ID then ret (result @ [p], SUCCESS)
         else all_pages_from n (result @ [p]) q))"

definition heap_all_pages :: "page_id \<Rightarrow> (bpm, page_id list \<times> fetch_status) proc" where
  "heap_all_pages first_page = and_then (gets page_fuel) (\<lambda>n. all_pages_from n [] first_page)"

definition heap_drop_page :: "page_id \<Rightarrow> (bpm, bool) proc" where
  "heap_drop_page p = delete_page p"

section \<open>Scanning\<close>

text \<open>\<open>TableHeap::Scan\<close>: the page it has pinned, and the next row to look at.\<close>

record heap_scan =
  scan_page :: "frame_id option"
  scan_rid :: rid

definition heap_scan_open :: "page_id \<Rightarrow> (bpm, heap_scan) proc" where
  "heap_scan_open first_page = and_then (fetch_page first_page) (\<lambda>m.
     ret \<lparr>scan_page = m, scan_rid = \<lparr>rid_page = first_page, rid_slot = 0\<rparr>\<rparr>)"

definition heap_scan_close :: "heap_scan \<Rightarrow> (bpm, unit) proc" where
  "heap_scan_close sc = (case scan_page sc of
       None \<Rightarrow> ret ()
     | Some f \<Rightarrow> and_then (frame_page_id f) (\<lambda>p. unpin_page p False))"

definition scan_next_page :: "heap_scan \<Rightarrow> (bpm, bool \<times> heap_scan) proc" where
  "scan_next_page sc = (case scan_page sc of
       None \<Rightarrow> ret (False, sc)
     | Some f \<Rightarrow>
         and_then (frame_at f) (\<lambda>fr.
         if \<not> sp_has_next_page (pg_data fr) then ret (False, sc)
         else
           let next_page_id = sp_next (pg_data fr) in
           and_then (unpin_page (pg_id fr) False) (\<lambda>_.
           and_then (fetch_page next_page_id) (\<lambda>m. case m of
             Some g \<Rightarrow> and_then (frame_page_id g) (\<lambda>p.
               ret (True, \<lparr>scan_page = Some g, scan_rid = \<lparr>rid_page = p, rid_slot = 0\<rparr>\<rparr>))
           | None \<Rightarrow> ret (False, sc)))))"

definition scan_skip :: "page_data \<Rightarrow> 16 word \<Rightarrow> 16 word res" where
  "scan_skip d s =
     bind_res (sp_has_slot d s) (\<lambda>here.
     if here then Inr s
     else bind_res (sp_next_occupied_slot d s) (\<lambda>m. Inr (case m of None \<Rightarrow> s | Some s' \<Rightarrow> s')))"

fun scan_next_from :: "nat \<Rightarrow> heap_scan \<Rightarrow> (bpm, (rid \<times> byte list) option \<times> heap_scan) proc" where
  "scan_next_from 0 sc = throw Out_of_fuel"
| "scan_next_from (Suc n) sc = (case scan_page sc of
       None \<Rightarrow> ret (None, sc)
     | Some f \<Rightarrow>
         and_then (frame_at f) (\<lambda>fr.
         and_then (lift (scan_skip (pg_data fr) (rid_slot (scan_rid sc)))) (\<lambda>s.
         let r = (scan_rid sc)\<lparr>rid_slot := s\<rparr> in
         and_then (lift (sp_has_slot (pg_data fr) s)) (\<lambda>here.
         if here then
           and_then (lift (sp_get_tuple (pg_data fr) s)) (\<lambda>t.
           ret (Some (r, t), sc\<lparr>scan_rid := r\<lparr>rid_slot := s + 1\<rparr>\<rparr>))
         else
           and_then (scan_next_page (sc\<lparr>scan_rid := r\<rparr>)) (\<lambda>(moved, sc).
           if moved then scan_next_from n sc else ret (None, sc))))))"

definition heap_scan_next :: "heap_scan \<Rightarrow> (bpm, (rid \<times> byte list) option \<times> heap_scan) proc" where
  "heap_scan_next sc = and_then (gets page_fuel) (\<lambda>n. scan_next_from n sc)"

end
