(* ===== verification/Buffer_Inv.thy ===== *)
theory Buffer_Inv
  imports Buffer_Pool Disk_Properties
begin

text \<open>
  The invariant of the buffer pool and its abstract state: \<open>bpm_view\<close>, the bytes of every page as
  clients see them, and \<open>pins\<close>, how often each page is pinned. The lemmas give each step of a page
  replacement over that state; \<open>bpm_inv H\<close> is the invariant while the frames in \<open>H\<close> hold no page.
\<close>

section \<open>Abstract state and invariant\<close>

definition bpm_view :: "bpm \<Rightarrow> page_id \<Rightarrow> page_data" where
  "bpm_view b p = (case page_table b p of Some f \<Rightarrow> pg_data (frames b ! unat f) | None \<Rightarrow> disk_view (bdisk b) p)"

definition pins :: "bpm \<Rightarrow> page_id \<Rightarrow> 32 word" where
  "pins b p = (case page_table b p of Some f \<Rightarrow> pg_pin (frames b ! unat f) | None \<Rightarrow> 0)"

abbreviation bpm_pages :: "bpm \<Rightarrow> page_id set" where
  "bpm_pages b \<equiv> in_use (bdisk b)"

definition mapped_ok :: "frame_id set \<Rightarrow> bpm \<Rightarrow> bool" where
  "mapped_ok H b \<longleftrightarrow>
     (\<forall>p f. page_table b p = Some f \<longrightarrow>
        unat f < pool_size b \<and> f \<notin> set (free_frames b) \<and> f \<notin> H \<and> pg_id (frames b ! unat f) = p \<and>
        p \<in> bpm_pages b \<and>
        (\<not> pg_dirty (frames b ! unat f) \<longrightarrow> pg_pin (frames b ! unat f) = 0 \<longrightarrow>
           pg_data (frames b ! unat f) = disk_view (bdisk b) p)) \<and>
     (\<forall>f. unat f < pool_size b \<longrightarrow> f \<notin> set (free_frames b) \<longrightarrow> f \<notin> H \<longrightarrow>
        page_table b (pg_id (frames b ! unat f)) = Some f)"

definition frames_ok :: "frame_id set \<Rightarrow> bpm \<Rightarrow> bool" where
  "frames_ok H b \<longleftrightarrow>
     length (frames b) = pool_capacity b \<and> pool_size b \<le> pool_capacity b \<and> pool_capacity b \<le> 2 ^ 32 - 1 \<and>
     distinct (free_frames b) \<and>
     (\<forall>f\<in>set (free_frames b). unat f < pool_size b \<and> f \<notin> H \<and> frames b ! unat f = fresh_frame) \<and>
     (\<forall>f\<in>H. unat f < pool_size b) \<and>
     (\<forall>i. pool_size b \<le> i \<longrightarrow> i < pool_capacity b \<longrightarrow> frames b ! i = fresh_frame) \<and>
     (\<forall>i < pool_capacity b. length (pg_data (frames b ! i)) = kPAGE_SIZE)"

definition bpm_inv :: "frame_id set \<Rightarrow> bpm \<Rightarrow> bool" where
  "bpm_inv H b \<longleftrightarrow> disk_ok (bdisk b) \<and> free_ok (bdisk b) \<and> frames_ok H b \<and> mapped_ok H b \<and>
     replacer_ok (replacer b) \<and> set (lru_order (replacer b)) = dom (page_table b)"

abbreviation bpm_ok :: "bpm \<Rightarrow> bool" where
  "bpm_ok \<equiv> bpm_inv {}"

text \<open>A replacement finds a frame unless every frame is in use and pinned.\<close>

definition frame_available :: "bpm \<Rightarrow> bool" where
  "frame_available b \<longleftrightarrow> free_frames b \<noteq> [] \<or> pool_size b < pool_capacity b \<or>
     (\<exists>p\<in>dom (page_table b). pins b p = 0)"

lemma mappedD:
  assumes "bpm_inv H b" and "page_table b p = Some f"
  shows "unat f < pool_size b" "unat f < length (frames b)" "f \<notin> set (free_frames b)" "f \<notin> H"
    "pg_id (frames b ! unat f) = p" "p \<in> bpm_pages b" "length (pg_data (frames b ! unat f)) = kPAGE_SIZE"
    "\<not> pg_dirty (frames b ! unat f) \<Longrightarrow> pg_pin (frames b ! unat f) = 0 \<Longrightarrow>
       pg_data (frames b ! unat f) = disk_view (bdisk b) p"
proof -
  have F: "frames_ok H b" and M: "mapped_ok H b" using assms(1) by (simp_all add: bpm_inv_def)
  show f: "unat f < pool_size b" and "f \<notin> set (free_frames b)" "f \<notin> H"
    "pg_id (frames b ! unat f) = p" "p \<in> bpm_pages b"
    using M assms(2) by (auto simp: mapped_ok_def)
  show "unat f < length (frames b)" "length (pg_data (frames b ! unat f)) = kPAGE_SIZE"
    using F f by (simp_all add: frames_ok_def)
  show "\<not> pg_dirty (frames b ! unat f) \<Longrightarrow> pg_pin (frames b ! unat f) = 0 \<Longrightarrow>
       pg_data (frames b ! unat f) = disk_view (bdisk b) p"
    using M assms(2) by (simp add: mapped_ok_def)
qed

lemma frameD:
  "bpm_inv H b \<Longrightarrow> unat f < pool_size b \<Longrightarrow> f \<notin> set (free_frames b) \<Longrightarrow> f \<notin> H \<Longrightarrow>
   page_table b (pg_id (frames b ! unat f)) = Some f"
  by (simp add: bpm_inv_def mapped_ok_def)

lemma mapped_okI:
  assumes "\<And>p f. page_table b p = Some f \<Longrightarrow>
      unat f < pool_size b \<and> f \<notin> set (free_frames b) \<and> f \<notin> H \<and> pg_id (frames b ! unat f) = p \<and>
      p \<in> bpm_pages b \<and>
      (\<not> pg_dirty (frames b ! unat f) \<longrightarrow> pg_pin (frames b ! unat f) = 0 \<longrightarrow>
         pg_data (frames b ! unat f) = disk_view (bdisk b) p)"
    and "\<And>f. unat f < pool_size b \<Longrightarrow> f \<notin> set (free_frames b) \<Longrightarrow> f \<notin> H \<Longrightarrow>
      page_table b (pg_id (frames b ! unat f)) = Some f"
  shows "mapped_ok H b"
  using assms by (simp add: mapped_ok_def)

lemma mapped_inj: "bpm_inv H b \<Longrightarrow> page_table b p = Some f \<Longrightarrow> page_table b q = Some f \<Longrightarrow> p = q"
  using mappedD(5) by blast

lemma in_use_valid: "p \<in> in_use d \<Longrightarrow> p < dcapacity d \<and> p \<noteq> INVALID_PAGE_ID"
  using word_order.extremum [of "dcapacity d"] by (auto simp: in_use_def INVALID_PAGE_ID_def)

lemma pin_of_mapped: "bpm_inv H b \<Longrightarrow> p \<in> dom (page_table b) \<Longrightarrow> pin_of b p = Inr (Some (pins b p))"
  using mappedD(2) by (fastforce simp: pin_of_def pins_def)

lemma frame_at_ok [simp]: "unat f < length (frames b) \<Longrightarrow> frame_at f b = (Inr (frames b ! unat f), b)"
  by (simp add: frame_at_def)

lemma change_frame_ok:
  "unat f < length (frames b) \<Longrightarrow>
   change_frame f g b = (Inr (), b\<lparr>frames := (frames b)[unat f := g (frames b ! unat f)]\<rparr>)"
  by (simp add: change_frame_def set_frame_def and_then_def frame_at_def)

lemma on_replacer_ok: "m (replacer b) = (x, r) \<Longrightarrow> on_replacer m b = (x, b\<lparr>replacer := r\<rparr>)"
  by (simp add: on_replacer_def zoom_def)

lemma on_disk_ok: "m (bdisk b) = (x, d) \<Longrightarrow> on_disk m b = (x, b\<lparr>bdisk := d\<rparr>)"
  by (simp add: on_disk_def zoom_def)

section \<open>Choosing a frame\<close>

text \<open>The least recently used page that is not pinned, if there is one.\<close>

definition lru_victim :: "bpm \<Rightarrow> page_id option" where
  "lru_victim b = List.find (\<lambda>p. pins b p = 0) (lru_order (replacer b))"

lemma find_lru_victim:
  assumes "bpm_inv H b"
  shows "find_lru (pin_of b) (lru_order (replacer b))
    = Inr (case lru_victim b of Some p \<Rightarrow> p | None \<Rightarrow> INVALID_PAGE_ID)"
proof -
  have d: "set (lru_order (replacer b)) = dom (page_table b)" using assms by (simp add: bpm_inv_def)
  have "List.find (\<lambda>p. pin_of b p = Inr (Some 0)) (lru_order (replacer b)) = lru_victim b"
    unfolding lru_victim_def using d pin_of_mapped [OF assms] by (intro find_cong) auto
  then show ?thesis using find_lru_ok [of "lru_order (replacer b)" "pin_of b"] pin_of_mapped [OF assms] d by simp
qed

lemma lru_victimD:
  assumes "bpm_inv H b" and "lru_victim b = Some p"
  shows "p \<in> dom (page_table b)" "pins b p = 0"
  using assms by (auto simp: lru_victim_def find_Some_iff bpm_inv_def)

text \<open>What \<open>find_next_frame\<close> answers: nothing, a frame without a page, or the victim's frame.\<close>

definition empty_frame :: "bpm \<Rightarrow> frame_id \<Rightarrow> bpm \<Rightarrow> bool" where
  "empty_frame b f c \<longleftrightarrow> bpm_inv {f} c \<and> frames c = frames b \<and> page_table c = page_table b \<and> bdisk c = bdisk b \<and>
     frames c ! unat f = fresh_frame"

lemma find_next_frame_free:
  assumes ok: "bpm_ok b" and ne: "free_frames b \<noteq> []"
  shows "\<exists>f c. find_next_frame b = (Inr f, c) \<and> empty_frame b f c"
proof -
  let ?f = "last (free_frames b)" and ?c = "b\<lparr>free_frames := butlast (free_frames b)\<rparr>"
  have s: "set (free_frames b) = insert ?f (set (butlast (free_frames b)))" "?f \<notin> set (butlast (free_frames b))"
    using split_last [OF ne] ok by (auto simp: bpm_inv_def frames_ok_def)
  have "frames_ok {?f} ?c" using ok s by (auto simp: bpm_inv_def frames_ok_def distinct_butlast)
  moreover have "mapped_ok {?f} ?c" using ok s by (auto simp: bpm_inv_def mapped_ok_def)
  moreover have "frames b ! unat ?f = fresh_frame" using ok s(1) by (auto simp: bpm_inv_def frames_ok_def)
  ultimately have "empty_frame b ?f ?c" using ok by (simp add: empty_frame_def bpm_inv_def)
  then show ?thesis using ne by (intro exI [of _ ?f] exI [of _ ?c]) (simp add: find_next_frame_def)
qed

lemma find_next_frame_new:
  assumes ok: "bpm_ok b" and e: "free_frames b = []" and n: "pool_size b < pool_capacity b"
  shows "\<exists>f c. find_next_frame b = (Inr f, c) \<and> empty_frame b f c"
proof -
  let ?f = "of_nat (pool_size b) :: frame_id" and ?c = "b\<lparr>pool_size := pool_size b + 1\<rparr>"
  have uf: "unat ?f = pool_size b" using ok n by (simp add: bpm_inv_def frames_ok_def unat_of_nat)
  have lt: "unat f < Suc (pool_size b) \<longleftrightarrow> unat f < pool_size b \<or> f = ?f" for f
    using uf by (metis less_Suc_eq unsigned_word_eqI)
  have nomap: "page_table b p \<noteq> Some ?f" for p using mappedD(1) [OF ok, of p ?f] uf by auto
  have "frames_ok {?f} ?c" using ok e n uf by (auto simp: bpm_inv_def frames_ok_def)
  moreover have "mapped_ok {?f} ?c" using ok e nomap by (auto simp: bpm_inv_def mapped_ok_def lt)
  moreover have "frames b ! unat ?f = fresh_frame" using ok n uf by (auto simp: bpm_inv_def frames_ok_def)
  ultimately have "empty_frame b ?f ?c" using ok by (simp add: empty_frame_def bpm_inv_def)
  then show ?thesis using e n by (intro exI [of _ ?f] exI [of _ ?c]) (simp add: find_next_frame_def)
qed

lemma find_next_frame_full:
  assumes ok: "bpm_ok b" and e: "free_frames b = []" and n: "\<not> pool_size b < pool_capacity b"
  shows "find_next_frame b =
    (Inr (case lru_victim b of None \<Rightarrow> INVALID_FRAME_ID | Some p \<Rightarrow> the (page_table b p)), b)"
proof (cases "lru_victim b")
  case None
  then show ?thesis using e n find_lru_victim [OF ok] by (simp add: find_next_frame_def)
next
  case (Some p)
  then obtain f where f: "page_table b p = Some f" using lru_victimD(1) [OF ok] by blast
  then have "p \<noteq> INVALID_PAGE_ID" using in_use_valid mappedD(6) [OF ok] by blast
  with Some f show ?thesis using e n find_lru_victim [OF ok] by (simp add: find_next_frame_def)
qed

section \<open>Evicting the old page\<close>

lemma flush_ok:
  assumes d: "disk_ok d" and p: "p \<in> in_use d" and b: "length bs = kPAGE_SIZE"
  shows "\<exists>e. write_page p bs d = (Inr (), e) \<and> disk_ok e \<and> free_ok e = free_ok d \<and> in_use e = in_use d \<and>
    dcapacity e = dcapacity d \<and> free_list e = free_list d \<and> disk_view e = (disk_view d)(p := bs)"
proof -
  have "p < dcapacity d" using in_use_valid [OF p] by simp
  from write_page_ok [OF d this b] show ?thesis
    using d by (simp add: disk_view_write [OF b] free_ok_def in_use_def) (simp add: disk_ok_def)
qed

lemma evict_empty:
  assumes "unat f < length (frames b)" and "frames b ! unat f = fresh_frame"
  shows "evict_frame f b = (Inr (), b)"
  using assms by (simp add: evict_frame_def and_then_Inr [of "frame_at f"] fresh_frame_def)

text \<open>The old page of frame \<open>f\<close> leaves the table; its bytes are those the disk has then.\<close>

definition evicted :: "bpm \<Rightarrow> page_id \<Rightarrow> frame_id \<Rightarrow> bpm \<Rightarrow> bool" where
  "evicted b p f c \<longleftrightarrow> bpm_inv {f} c \<and> frames c = frames b \<and> page_table c = (page_table b)(p := None) \<and>
     bpm_pages c = bpm_pages b \<and> bpm_view c = bpm_view b \<and>
     dcapacity (bdisk c) = dcapacity (bdisk b) \<and> free_list (bdisk c) = free_list (bdisk b) \<and>
     (\<forall>q. q \<noteq> p \<longrightarrow> disk_view (bdisk c) q = disk_view (bdisk b) q)"

lemma evicted_inv:
  assumes ok: "bpm_ok b" and m: "page_table b p = Some f"
    and d: "disk_ok d" "free_ok d" "in_use d = bpm_pages b"
      "disk_view d = (disk_view (bdisk b))(p := pg_data (frames b ! unat f))"
      "dcapacity d = dcapacity (bdisk b)" "free_list d = free_list (bdisk b)"
    and r: "replacer_ok r" "lru_order r = removeAll p (lru_order (replacer b))"
  shows "evicted b p f (b\<lparr>page_table := (page_table b)(p := None), replacer := r, bdisk := d\<rparr>)"
proof -
  let ?c = "b\<lparr>page_table := (page_table b)(p := None), replacer := r, bdisk := d\<rparr>"
  have F: "frames_ok {} b" and M: "mapped_ok {} b" and L: "set (lru_order (replacer b)) = dom (page_table b)"
    using ok by (simp_all add: bpm_inv_def)
  have nof: "page_table b q \<noteq> Some f" if "q \<noteq> p" for q using mapped_inj [OF ok _ m] that by blast
  have "frames_ok {f} ?c" using F mappedD(1,3) [OF ok m] by (auto simp: frames_ok_def)
  moreover have "mapped_ok {f} ?c"
  proof (rule mapped_okI)
    fix q g assume "page_table ?c q = Some g"
    then have q: "page_table b q = Some g" "q \<noteq> p" by (auto split: if_splits)
    then have "g \<noteq> f" using nof by auto
    then show "unat g < pool_size ?c \<and> g \<notin> set (free_frames ?c) \<and> g \<notin> {f} \<and> pg_id (frames ?c ! unat g) = q \<and>
        q \<in> bpm_pages ?c \<and> (\<not> pg_dirty (frames ?c ! unat g) \<longrightarrow> pg_pin (frames ?c ! unat g) = 0 \<longrightarrow>
          pg_data (frames ?c ! unat g) = disk_view (bdisk ?c) q)"
      using mappedD [OF ok q(1)] q(2) d(3,4) by simp
  next
    fix g assume g: "unat g < pool_size ?c" "g \<notin> set (free_frames ?c)" "g \<notin> {f}"
    then have "page_table b (pg_id (frames b ! unat g)) = Some g" using frameD [OF ok, of g] by simp
    then show "page_table ?c (pg_id (frames ?c ! unat g)) = Some g" using m g(3) by auto
  qed
  moreover have "set (lru_order r) = dom ((page_table b)(p := None))" using L r(2) by auto
  ultimately have "bpm_inv {f} ?c" using d r by (simp add: bpm_inv_def)
  moreover have "bpm_view ?c = bpm_view b" using m d(4) by (auto simp: bpm_view_def split: option.splits)
  ultimately show ?thesis using d by (simp add: evicted_def)
qed

lemma evict_victim:
  assumes ok: "bpm_ok b" and m: "page_table b p = Some f" and pin: "pins b p = 0"
  shows "\<exists>c. evict_frame f b = (Inr (), c) \<and> evicted b p f c"
proof -
  let ?fr = "frames b ! unat f"
  note D = mappedD [OF ok m]
  have inv: "pg_id ?fr \<noteq> INVALID_PAGE_ID" using in_use_valid [OF D(6)] D(5) by simp
  obtain r where r: "replacer_remove p (replacer b) = (Inr (), r)" "replacer_ok r"
    "lru_order r = removeAll p (lru_order (replacer b))"
    using replacer_remove_ok ok by (metis bpm_inv_def)
  let ?b = "b\<lparr>page_table := (page_table b)(p := None), replacer := r\<rparr>"
  have rem: "on_replacer (replacer_remove p) (b\<lparr>page_table := (page_table b)(p := None)\<rparr>) = (Inr (), ?b)"
    using r(1) by (simp add: on_replacer_def zoom_def)
  have dk: "disk_ok (bdisk b)" "free_ok (bdisk b)" using ok by (simp_all add: bpm_inv_def)
  show ?thesis
  proof (cases "pg_dirty ?fr")
    case True
    obtain d where d: "write_page p (pg_data ?fr) (bdisk b) = (Inr (), d)" "disk_ok d" "free_ok d"
      "in_use d = bpm_pages b" "disk_view d = (disk_view (bdisk b))(p := pg_data ?fr)"
      "dcapacity d = dcapacity (bdisk b)" "free_list d = free_list (bdisk b)"
      using flush_ok [OF dk(1) D(6,7)] dk(2) by auto
    have "evict_frame f b = (Inr (), ?b\<lparr>bdisk := d\<rparr>)"
      using D(2,5) inv True rem d(1)
      by (simp add: evict_frame_def and_then_Inr [of "frame_at f"] and_then_assoc and_then_Inr [of "on_replacer (replacer_remove p)"]
          flush_page_def on_disk_def zoom_def)
    then show ?thesis using evicted_inv [OF ok m d(2-7) r(2,3)] by auto
  next
    case False
    have "evict_frame f b = (Inr (), ?b)"
      using D(2,5) inv False rem
      by (simp add: evict_frame_def and_then_Inr [of "frame_at f"] and_then_assoc and_then_Inr [of "on_replacer (replacer_remove p)"])
    moreover have "disk_view (bdisk b) = (disk_view (bdisk b))(p := pg_data ?fr)"
      using D(8) [OF False] pin m by (simp add: pins_def)
    moreover have "?b\<lparr>bdisk := bdisk b\<rparr> = ?b" by simp
    ultimately show ?thesis
      using evicted_inv [OF ok m dk _ _ _ _ r(2,3)] by (metis (no_types, lifting))
  qed
qed

section \<open>Installing the new page\<close>

lemma install_page_ok:
  assumes inv: "bpm_inv {f} b" and new: "page_table b p = None" and p: "p \<in> bpm_pages b"
  shows "\<exists>c. install_page p f b = (Inr (), c) \<and> bpm_ok c \<and> bdisk c = bdisk b \<and>
    page_table c = (page_table b)(p \<mapsto> f) \<and> bpm_view c = (bpm_view b)(p := zero_page) \<and> pins c = (pins b)(p := 1) \<and>
    (\<forall>g. g \<noteq> f \<longrightarrow> frames c ! unat g = frames b ! unat g) \<and> \<not> pg_dirty (frames c ! unat f)"
proof -
  have F: "frames_ok {f} b" and M: "mapped_ok {f} b" and L: "set (lru_order (replacer b)) = dom (page_table b)"
    using inv by (simp_all add: bpm_inv_def)
  let ?fr = "inc_pin (reset_memory p (frames b ! unat f))"
  have fr: "?fr = \<lparr>pg_id = p, pg_data = zero_page, pg_pin = 1, pg_dirty = False\<rparr>"
    by (simp add: inc_pin_def reset_memory_def)
  obtain r where r: "replacer_record p (replacer b) = (Inr (), r)" "replacer_ok r"
    "lru_order r = removeAll p (lru_order (replacer b)) @ [p]"
    using replacer_record_ok inv by (metis bpm_inv_def)
  let ?c = "b\<lparr>page_table := (page_table b)(p \<mapsto> f), frames := (frames b)[unat f := ?fr], replacer := r\<rparr>"
  have f: "unat f < pool_size b" "unat f < length (frames b)" using F by (auto simp: frames_ok_def)
  have "install_page p f b = (Inr (), ?c)"
    using f r(1) by (simp add: install_page_def and_then_Inr [of "change_frame f _"] change_frame_ok on_replacer_ok)
  moreover have other: "unat g = unat h \<longleftrightarrow> g = h" for g h :: frame_id by (auto dest: unsigned_word_eqI)
  moreover have nof: "page_table b q \<noteq> Some f" for q using mappedD(4) [OF inv] by auto
  moreover have "bpm_ok ?c"
  proof -
    have "frames_ok {} ?c"
      using F f by (auto simp: frames_ok_def nth_list_update fr other)
    moreover have "mapped_ok {} ?c"
    proof (rule mapped_okI)
      fix q g assume q: "page_table ?c q = Some g"
      show "unat g < pool_size ?c \<and> g \<notin> set (free_frames ?c) \<and> g \<notin> {} \<and> pg_id (frames ?c ! unat g) = q \<and>
          q \<in> bpm_pages ?c \<and> (\<not> pg_dirty (frames ?c ! unat g) \<longrightarrow> pg_pin (frames ?c ! unat g) = 0 \<longrightarrow>
            pg_data (frames ?c ! unat g) = disk_view (bdisk ?c) q)"
      proof (cases "q = p")
        case True
        then have "g = f" using q by simp
        moreover have "f \<notin> set (free_frames b)" using F by (auto simp: frames_ok_def)
        ultimately show ?thesis using True f p by (simp add: fr)
      next
        case False
        then have "page_table b q = Some g" using q by simp
        then show ?thesis using mappedD [OF inv, of q g] by (simp add: other)
      qed
    next
      fix g assume g: "unat g < pool_size ?c" "g \<notin> set (free_frames ?c)"
      show "page_table ?c (pg_id (frames ?c ! unat g)) = Some g"
      proof (cases "g = f")
        case True
        then show ?thesis using f by (simp add: fr)
      next
        case False
        then have "page_table b (pg_id (frames b ! unat g)) = Some g" using frameD [OF inv, of g] g by simp
        then show ?thesis using False new by (auto simp: other)
      qed
    qed
    moreover have "set (lru_order r) = dom (page_table ?c)" using L r(3) by auto
    ultimately show ?thesis using inv r(2) by (simp add: bpm_inv_def)
  qed
  moreover have "bpm_view ?c = (bpm_view b)(p := zero_page)"
    using f nof by (auto simp: bpm_view_def fr other nth_list_update split: option.splits)
  moreover have "pins ?c = (pins b)(p := 1)"
    using f nof by (auto simp: pins_def fr other nth_list_update split: option.splits)
  moreover have "\<forall>g. g \<noteq> f \<longrightarrow> frames ?c ! unat g = frames b ! unat g" "\<not> pg_dirty (frames ?c ! unat f)"
    using f by (simp_all add: other fr)
  ultimately show ?thesis by auto
qed

end
