(* ===== verification/Buffer_Steps.thy ===== *)
theory Buffer_Steps
  imports Buffer_Inv
begin

text \<open>
  The operations of the buffer pool over its abstract state: fetching, creating, changing, unpinning,
  deleting and flushing pages. \<open>same_pool b c\<close> collects what most of them leave alone.
\<close>

section \<open>Changing the frame of a mapped page\<close>

definition same_pool :: "bpm \<Rightarrow> bpm \<Rightarrow> bool" where
  "same_pool b c \<longleftrightarrow> pool_capacity c = pool_capacity b \<and> pool_size c = pool_size b \<and> free_frames c = free_frames b \<and>
     page_table c = page_table b \<and> bdisk c = bdisk b"

lemma change_mapped:
  assumes ok: "bpm_ok b" and m: "page_table b p = Some f"
    and g: "pg_id (g (frames b ! unat f)) = p" "length (pg_data (g (frames b ! unat f))) = kPAGE_SIZE"
      "\<not> pg_dirty (g (frames b ! unat f)) \<Longrightarrow> pg_pin (g (frames b ! unat f)) = 0 \<Longrightarrow>
         pg_data (g (frames b ! unat f)) = disk_view (bdisk b) p"
  shows "\<exists>c. change_frame f g b = (Inr (), c) \<and> bpm_ok c \<and> same_pool b c \<and>
    bpm_view c = (bpm_view b)(p := pg_data (g (frames b ! unat f))) \<and>
    pins c = (pins b)(p := pg_pin (g (frames b ! unat f))) \<and>
    frames c = (frames b)[unat f := g (frames b ! unat f)]"
proof -
  let ?fr = "g (frames b ! unat f)"
  let ?c = "b\<lparr>frames := (frames b)[unat f := ?fr]\<rparr>"
  note D = mappedD [OF ok m]
  have F: "frames_ok {} b" using ok by (simp add: bpm_inv_def)
  have other: "unat g = unat h \<longleftrightarrow> g = h" for g h :: frame_id by (auto dest: unsigned_word_eqI)
  have nof: "page_table b q \<noteq> Some f" if "q \<noteq> p" for q using mapped_inj [OF ok _ m] that by blast
  have uniq: "q = p" if "page_table b q = Some f" for q using mapped_inj [OF ok that m] .
  have "frames_ok {} ?c"
    using F D(1-3) g(2) by (auto simp: frames_ok_def nth_list_update other)
  moreover have "mapped_ok {} ?c"
  proof (rule mapped_okI)
    fix q h assume "page_table ?c q = Some h"
    then have q: "page_table b q = Some h" by simp
    show "unat h < pool_size ?c \<and> h \<notin> set (free_frames ?c) \<and> h \<notin> {} \<and> pg_id (frames ?c ! unat h) = q \<and>
        q \<in> bpm_pages ?c \<and> (\<not> pg_dirty (frames ?c ! unat h) \<longrightarrow> pg_pin (frames ?c ! unat h) = 0 \<longrightarrow>
          pg_data (frames ?c ! unat h) = disk_view (bdisk ?c) q)"
    proof (cases "h = f")
      case True
      then have "q = p" using uniq q by simp
      then show ?thesis using True g D by simp
    next
      case False
      then show ?thesis using mappedD [OF ok q] by (simp add: other)
    qed
  next
    fix h assume "unat h < pool_size ?c" "h \<notin> set (free_frames ?c)"
    then show "page_table ?c (pg_id (frames ?c ! unat h)) = Some h"
      using frameD [OF ok, of h] m g(1) D(2) by (cases "h = f") (simp_all add: other)
  qed
  ultimately have "bpm_ok ?c" using ok by (simp add: bpm_inv_def)
  moreover have "bpm_view ?c = (bpm_view b)(p := pg_data ?fr)"
  proof (rule ext)
    fix q show "bpm_view ?c q = ((bpm_view b)(p := pg_data ?fr)) q"
      using m D(2) nof [of q] by (cases "page_table b q") (auto simp: bpm_view_def other)
  qed
  moreover have "pins ?c = (pins b)(p := pg_pin ?fr)"
  proof (rule ext)
    fix q show "pins ?c q = ((pins b)(p := pg_pin ?fr)) q"
      using m D(2) nof [of q] by (cases "page_table b q") (auto simp: pins_def other)
  qed
  ultimately show ?thesis using change_frame_ok [OF D(2), of g] by (simp add: same_pool_def)
qed

lemma record_mapped:
  assumes ok: "bpm_ok b" and p: "p \<in> dom (page_table b)"
  shows "\<exists>c. on_replacer (replacer_record p) b = (Inr (), c) \<and> bpm_ok c \<and> same_pool b c \<and>
    bpm_view c = bpm_view b \<and> pins c = pins b \<and> frames c = frames b \<and>
    lru_order (replacer c) = removeAll p (lru_order (replacer b)) @ [p]"
proof -
  obtain r where r: "replacer_record p (replacer b) = (Inr (), r)" "replacer_ok r"
    "lru_order r = removeAll p (lru_order (replacer b)) @ [p]"
    using replacer_record_ok ok by (metis bpm_inv_def)
  let ?c = "b\<lparr>replacer := r\<rparr>"
  have "set (lru_order r) = dom (page_table b)" using r(3) p ok by (auto simp: bpm_inv_def)
  then have "bpm_ok ?c" using ok r(2) by (simp add: bpm_inv_def frames_ok_def mapped_ok_def)
  then show ?thesis
    using on_replacer_ok [of "replacer_record p" b, OF r(1)] r(3)
    by (simp add: same_pool_def bpm_view_def [abs_def] pins_def [abs_def] cong: option.case_cong)
qed

section \<open>Fetching a page\<close>

text \<open>
  What a successful fetch gives: the page in frame \<open>f\<close>, pinned once more; every page has the bytes it
  had, and every page that was pinned is still in its frame.
\<close>

definition kept :: "bpm \<Rightarrow> bpm \<Rightarrow> page_id \<Rightarrow> bool" where
  "kept b c p \<longleftrightarrow> (\<forall>q g. q \<noteq> p \<longrightarrow> page_table b q = Some g \<longrightarrow> pins b q \<noteq> 0 \<longrightarrow>
     page_table c q = Some g \<and> frames c ! unat g = frames b ! unat g \<and> disk_view (bdisk c) q = disk_view (bdisk b) q)"

lemma kept_pinned:
  "kept b c p \<Longrightarrow> page_table b p = None \<Longrightarrow>
   \<forall>q g. page_table b q = Some g \<longrightarrow> pins b q \<noteq> 0 \<longrightarrow> page_table c q = Some g"
  unfolding kept_def by (metis option.distinct(1))

definition fetched :: "bpm \<Rightarrow> page_id \<Rightarrow> frame_id \<Rightarrow> bpm \<Rightarrow> bool" where
  "fetched b p f c \<longleftrightarrow> bpm_ok c \<and> page_table c p = Some f \<and> bpm_pages c = bpm_pages b \<and>
     bpm_view c = bpm_view b \<and> pins c = (pins b)(p := pins b p + 1) \<and>
     (page_table b p \<noteq> None \<longrightarrow> same_pool b c) \<and>
     (pins b p = 0 \<longrightarrow> pg_dirty (frames c ! unat f) \<or> bpm_view c p = disk_view (bdisk c) p) \<and>
     (\<forall>q g. page_table b q = Some g \<longrightarrow> pins b q \<noteq> 0 \<longrightarrow> page_table c q = Some g) \<and> kept b c p \<and>
     (pg_dirty (frames c ! unat f) \<longleftrightarrow> page_table b p = Some f \<and> pg_dirty (frames b ! unat f)) \<and>
     disk_view (bdisk c) p = disk_view (bdisk b) p"

lemma find_cached_ok:
  assumes ok: "bpm_ok b" and m: "page_table b p = Some f" and pin: "pins b p \<noteq> -1"
  shows "\<exists>c. find_cached_page p b = (Inr (Some f), c) \<and> fetched b p f c"
proof -
  let ?fr = "frames b ! unat f"
  note D = mappedD [OF ok m]
  have pp: "pins b p = pg_pin ?fr" and v: "bpm_view b p = pg_data ?fr" using m by (simp_all add: pins_def bpm_view_def)
  have nz: "pg_pin ?fr + 1 \<noteq> 0" using pin pp by (metis add.commute add_eq_0_iff)
  obtain c where c: "change_frame f inc_pin b = (Inr (), c)" "bpm_ok c" "same_pool b c"
    "bpm_view c = (bpm_view b)(p := pg_data ?fr)" "pins c = (pins b)(p := pg_pin ?fr + 1)"
    "frames c = (frames b)[unat f := inc_pin ?fr]"
    using change_mapped [OF ok m, of inc_pin] D(5,7) nz by (auto simp: inc_pin_def)
  have "p \<in> dom (page_table c)" using c(3) m by (auto simp: same_pool_def)
  from record_mapped [OF c(2) this] obtain e where e: "on_replacer (replacer_record p) c = (Inr (), e)"
    "bpm_ok e" "same_pool c e" "bpm_view e = bpm_view c" "pins e = pins c" "frames e = frames c" by blast
  have "find_cached_page p b = (Inr (Some f), e)"
    using m c(1) e(1) by (simp add: find_cached_page_def and_then_Inr [of "change_frame f inc_pin"]
        and_then_Inr [of "on_replacer (replacer_record p)"])
  moreover have "bpm_view c = bpm_view b" using c(4) v by (metis fun_upd_triv)
  moreover have "pg_dirty (frames e ! unat f) \<or> pg_data ?fr = disk_view (bdisk e) p" if "pins b p = 0"
    using that pp D(2,8) c(3,6) e(3,6) by (auto simp: inc_pin_def same_pool_def)
  moreover have "kept b e p"
    using c(3,6) e(3,6) mapped_inj [OF ok m] D(2) by (auto simp: kept_def same_pool_def nth_list_update dest: unsigned_word_eqI)
  moreover have "pg_dirty (frames e ! unat f) = pg_dirty ?fr" using c(6) e(6) D(2) by (simp add: inc_pin_def)
  ultimately show ?thesis
    using c(3,5) e(2-5) m pp v by (auto simp: fetched_def same_pool_def)
qed

lemma load_page_ok:
  assumes ok: "bpm_ok b" and m: "page_table b p = Some f" and pin: "pins b p \<noteq> 0"
  shows "\<exists>c. load_page p f b = (Inr (), c) \<and> bpm_ok c \<and> same_pool b c \<and>
    bpm_view c = (bpm_view b)(p := disk_view (bdisk b) p) \<and> pins c = pins b \<and>
    frames c = (frames b)[unat f := frames c ! unat f] \<and> pg_dirty (frames c ! unat f) = pg_dirty (frames b ! unat f)"
proof -
  let ?fr = "frames b ! unat f"
  note D = mappedD [OF ok m]
  have dk: "freadable (dfile (bdisk b))" using ok by (simp add: bpm_inv_def disk_ok_def)
  have rd: "on_disk (read_page p (pg_data ?fr)) b = (Inr (disk_view (bdisk b) p), b)"
    using read_page_ok [OF dk _ D(7)] in_use_valid [OF D(6)] by (simp add: on_disk_def zoom_def)
  have len: "length (disk_view (bdisk b) p) = kPAGE_SIZE" by (simp add: disk_view_def)
  obtain c where c: "change_frame f (\<lambda>fr. fr\<lparr>pg_data := disk_view (bdisk b) p\<rparr>) b = (Inr (), c)" "bpm_ok c"
    "same_pool b c" "bpm_view c = (bpm_view b)(p := disk_view (bdisk b) p)" "pins c = (pins b)(p := pg_pin ?fr)"
    and fr: "frames c = (frames b)[unat f := ?fr\<lparr>pg_data := disk_view (bdisk b) p\<rparr>]"
    using change_mapped [OF ok m, of "\<lambda>fr. fr\<lparr>pg_data := disk_view (bdisk b) p\<rparr>"] D(5) len by auto
  have "frames c = (frames b)[unat f := frames c ! unat f] \<and> pg_dirty (frames c ! unat f) = pg_dirty ?fr"
    using fr D(2) by simp
  moreover have "load_page p f b = (Inr (), c)"
    using D(2) rd c(1) by (simp add: load_page_def and_then_Inr [of "frame_at f"] and_then_Inr [of "on_disk _"])
  moreover have "pins c = pins b" using c(5) m by (simp add: pins_def [of b p]) (metis fun_upd_triv option.simps(5) pins_def)
  ultimately show ?thesis using c by blast
qed

text \<open>The common part of fetch and new: a frame is found and the page is installed in it.\<close>

definition claimed :: "bpm \<Rightarrow> page_id \<Rightarrow> frame_id \<Rightarrow> bpm \<Rightarrow> bool" where
  "claimed b p f c \<longleftrightarrow> bpm_ok c \<and> page_table c p = Some f \<and> bpm_pages c = bpm_pages b \<and>
     bpm_view c = (bpm_view b)(p := zero_page) \<and> pins c = (pins b)(p := 1) \<and>
     disk_view (bdisk c) p = disk_view (bdisk b) p \<and> kept b c p \<and> \<not> pg_dirty (frames c ! unat f)"

lemma no_frame:
  assumes "bpm_ok b" and "\<not> frame_available b"
  shows "find_next_frame b = (Inr INVALID_FRAME_ID, b)"
proof -
  have "lru_victim b = None"
    using assms lru_victimD [OF assms(1)] by (metis frame_available_def not_Some_eq)
  with assms show ?thesis by (simp add: find_next_frame_full frame_available_def)
qed

lemma victim_exists:
  assumes ok: "bpm_ok b" and av: "frame_available b" and f: "free_frames b = []" "\<not> pool_size b < pool_capacity b"
  shows "\<exists>p f. lru_victim b = Some p \<and> page_table b p = Some f \<and> pins b p = 0 \<and> find_next_frame b = (Inr f, b)"
proof -
  obtain q where "q \<in> dom (page_table b)" "pins b q = 0" using av f by (auto simp: frame_available_def)
  moreover have "dom (page_table b) = set (lru_order (replacer b))" using ok by (simp add: bpm_inv_def)
  ultimately have "lru_victim b \<noteq> None" by (auto simp: lru_victim_def find_None_iff)
  then obtain p where p: "lru_victim b = Some p" by blast
  then show ?thesis using lru_victimD [OF ok p] find_next_frame_full [OF ok f] by force
qed

lemma claim_empty:
  assumes e: "empty_frame b f c" and ok: "bpm_ok b" and new: "page_table b p = None" and p: "p \<in> bpm_pages b"
  shows "\<exists>e. and_then (evict_frame f) (\<lambda>_. install_page p f) c = (Inr (), e) \<and> claimed b p f e"
proof -
  have c: "bpm_inv {f} c" "page_table c = page_table b" "bdisk c = bdisk b" "frames c = frames b"
    and fr: "frames c ! unat f = fresh_frame" using e by (auto simp: empty_frame_def)
  have "unat f < length (frames c)" using c(1) by (auto simp: bpm_inv_def frames_ok_def)
  from evict_empty [OF this fr] have ev: "evict_frame f c = (Inr (), c)" .
  have vw: "bpm_view c = bpm_view b" "pins c = pins b"
    using c(2-4) by (simp_all add: bpm_view_def [abs_def] pins_def [abs_def] cong: option.case_cong)
  obtain d where "install_page p f c = (Inr (), d)" "bpm_ok d" "bdisk d = bdisk c"
    "page_table d = (page_table c)(p \<mapsto> f)" "bpm_view d = (bpm_view c)(p := zero_page)" "pins d = (pins c)(p := 1)"
    "\<not> pg_dirty (frames d ! unat f)" and fr: "\<forall>g. g \<noteq> f \<longrightarrow> frames d ! unat g = frames c ! unat g"
    using install_page_ok [OF c(1), of p] new p c(2,3) by auto
  moreover have "kept b d p"
    using fr c(2-4) calculation(3,4) mappedD(4) [OF c(1)] by (auto simp: kept_def)
  ultimately show ?thesis
    using new vw c by (auto simp: and_then_Inr [of "evict_frame f" c, OF ev] claimed_def)
qed

lemma claim_victim:
  assumes ok: "bpm_ok b" and v: "page_table b v = Some f" "pins b v = 0"
    and new: "page_table b p = None" and p: "p \<in> bpm_pages b"
  shows "\<exists>e. and_then (evict_frame f) (\<lambda>_. install_page p f) b = (Inr (), e) \<and> claimed b p f e \<and>
    page_table e = (page_table b)(v := None, p \<mapsto> f) \<and> bdisk e = bdisk (snd (evict_frame f b))"
proof -
  obtain c where c: "evict_frame f b = (Inr (), c)" "bpm_inv {f} c" "frames c = frames b"
    "page_table c = (page_table b)(v := None)" "bpm_pages c = bpm_pages b" "bpm_view c = bpm_view b"
    "\<forall>q. q \<noteq> v \<longrightarrow> disk_view (bdisk c) q = disk_view (bdisk b) q"
    using evict_victim [OF ok v] by (auto simp: evicted_def)
  have pins: "pins c = pins b" using c(3,4) v(2) by (auto simp: pins_def split: option.splits)
  have np: "page_table c p = None" using new c(4) by simp
  then have dv: "disk_view (bdisk c) p = disk_view (bdisk b) p"
    using c(6) new by (metis bpm_view_def option.simps(4))
  obtain d where "install_page p f c = (Inr (), d)" "bpm_ok d" "bdisk d = bdisk c"
    "page_table d = (page_table c)(p \<mapsto> f)" "bpm_view d = (bpm_view c)(p := zero_page)" "pins d = (pins c)(p := 1)"
    "\<not> pg_dirty (frames d ! unat f)" and fr: "\<forall>g. g \<noteq> f \<longrightarrow> frames d ! unat g = frames c ! unat g"
    using install_page_ok [OF c(2) np] p c(5) by auto
  moreover have "kept b d p" unfolding kept_def
  proof (intro allI impI)
    fix q g assume q: "q \<noteq> p" "page_table b q = Some g" "pins b q \<noteq> 0"
    then have "q \<noteq> v" using v(2) by auto
    moreover have "g \<noteq> f" using mapped_inj [OF ok q(2)] v(1) \<open>q \<noteq> v\<close> by auto
    ultimately show "page_table d q = Some g \<and> frames d ! unat g = frames b ! unat g \<and>
        disk_view (bdisk d) q = disk_view (bdisk b) q"
      using q fr c(3,4,7) \<open>bdisk d = bdisk c\<close> \<open>page_table d = (page_table c)(p \<mapsto> f)\<close> by simp
  qed
  ultimately show ?thesis
    using c pins v(2) new dv by (auto simp: and_then_Inr [of "evict_frame f" b, OF c(1)] claimed_def c(1))
qed

lemma valid_frame: "bpm_ok b \<Longrightarrow> page_table b p = Some f \<Longrightarrow> f \<noteq> INVALID_FRAME_ID"
proof
  assume ok: "bpm_ok b" and m: "page_table b p = Some f" and f: "f = INVALID_FRAME_ID"
  have "unat f < 2 ^ 32 - 1" using mappedD(1) [OF ok m] ok by (simp add: bpm_inv_def frames_ok_def)
  moreover have "unat f = 2 ^ 32 - 1" using f by (simp add: INVALID_FRAME_ID_def unsigned_minus_1_eq_mask mask_eq_exp_minus_1)
  ultimately show False by simp
qed

text \<open>\<open>swap_page\<close> with a frame available: the page is claimed, then loaded if it is to be read.\<close>

lemma swap_page_claims:
  assumes ok: "bpm_ok b" and new: "page_table b p = None" and p: "p \<in> bpm_pages b" and av: "frame_available b"
  shows "\<exists>f c. claimed b p f c \<and>
    swap_page p rd b = (if rd then and_then (load_page p f) (\<lambda>_. ret (Some f)) c else (Inr (Some f), c))"
proof -
  have "\<exists>f d c. find_next_frame b = (Inr f, d) \<and>
      and_then (evict_frame f) (\<lambda>_. install_page p f) d = (Inr (), c) \<and> claimed b p f c"
  proof (cases "free_frames b = [] \<and> \<not> pool_size b < pool_capacity b")
    case True
    then obtain v f where "page_table b v = Some f" "pins b v = 0" "find_next_frame b = (Inr f, b)"
      using victim_exists [OF ok av] by blast
    then show ?thesis using claim_victim [OF ok _ _ new p] by blast
  next
    case False
    then obtain f d where d: "find_next_frame b = (Inr f, d)" "empty_frame b f d"
      using find_next_frame_free [OF ok] find_next_frame_new [OF ok] by blast
    then show ?thesis using claim_empty [OF d(2) ok new p] by blast
  qed
  then obtain f d c where nf: "find_next_frame b = (Inr f, d)"
    and ei: "and_then (evict_frame f) (\<lambda>_. install_page p f) d = (Inr (), c)" and cl: "claimed b p f c" by blast
  have "f \<noteq> INVALID_FRAME_ID" using valid_frame cl by (auto simp: claimed_def)
  moreover obtain e where "evict_frame f d = (Inr (), e)" "install_page p f e = (Inr (), c)"
    using ei by (auto simp: and_then_eq_Inr)
  ultimately show ?thesis
    using cl by (intro exI [of _ f] exI [of _ c])
      (simp add: swap_page_def and_then_Inr [of find_next_frame b, OF nf] and_then_Inr [of "evict_frame f"]
        and_then_Inr [of "install_page p f"])
qed

lemma fetch_page_ok:
  assumes ok: "bpm_ok b" and p: "p \<in> bpm_pages b" and pin: "pins b p \<noteq> -1"
    and av: "page_table b p \<noteq> None \<or> frame_available b"
  shows "\<exists>f c. fetch_page p b = (Inr (Some f), c) \<and> fetched b p f c"
proof (cases "page_table b p")
  case (Some f)
  then obtain c where "find_cached_page p b = (Inr (Some f), c)" "fetched b p f c"
    using find_cached_ok [OF ok Some pin] by blast
  then show ?thesis by (auto simp: fetch_page_def and_then_Inr [of "find_cached_page p"])
next
  case None
  then have "find_cached_page p b = (Inr None, b)" by (simp add: find_cached_page_def)
  then have fp: "fetch_page p b = swap_page p True b" by (simp add: fetch_page_def and_then_Inr [of "find_cached_page p"])
  obtain f c where c: "claimed b p f c" "swap_page p True b = and_then (load_page p f) (\<lambda>_. ret (Some f)) c"
    using swap_page_claims [OF ok None p, of True] av None by auto
  have "pins c p \<noteq> 0" using c(1) by (simp add: claimed_def)
  then obtain d where d: "load_page p f c = (Inr (), d)" "bpm_ok d" "same_pool c d"
    "bpm_view d = (bpm_view c)(p := disk_view (bdisk c) p)" "pins d = pins c"
    "frames d = (frames c)[unat f := frames d ! unat f]" "pg_dirty (frames d ! unat f) = pg_dirty (frames c ! unat f)"
    using load_page_ok [of c p f] c(1) by (auto simp: claimed_def)
  have K: "kept b d p" unfolding kept_def
  proof (intro allI impI)
    fix q g assume q: "q \<noteq> p" "page_table b q = Some g" "pins b q \<noteq> 0"
    then have k: "page_table c q = Some g" "frames c ! unat g = frames b ! unat g"
      "disk_view (bdisk c) q = disk_view (bdisk b) q" using c(1) by (auto simp: claimed_def kept_def)
    have "f \<noteq> g" using mapped_inj [of "{}" c q g p] c(1) k(1) q(1) by (auto simp: claimed_def)
    then have "unat f \<noteq> unat g" by (auto dest: unsigned_word_eqI)
    then have "frames d ! unat g = frames c ! unat g" by (subst d(6)) simp
    then show "page_table d q = Some g \<and> frames d ! unat g = frames b ! unat g \<and>
        disk_view (bdisk d) q = disk_view (bdisk b) q"
      using k d(3) by (simp add: same_pool_def)
  qed
  have vp: "bpm_view b p = disk_view (bdisk b) p" using None by (simp add: bpm_view_def)
  then have "(bpm_view b)(p := disk_view (bdisk b) p) = bpm_view b" by (metis fun_upd_triv)
  moreover have "pins b p = 0" using None by (simp add: pins_def)
  ultimately have "fetched b p f d"
    using c(1) d(2-7) None vp K kept_pinned [OF K] by (simp add: fetched_def claimed_def same_pool_def)
  then show ?thesis using fp c(2) by (auto simp: and_then_Inr [of "load_page p f" c, OF d(1)])
qed

lemma fetch_page_full:
  assumes ok: "bpm_ok b" and "page_table b p = None" and "\<not> frame_available b"
  shows "fetch_page p b = (Inr None, b)"
proof -
  have "find_cached_page p b = (Inr None, b)" using assms(2) by (simp add: find_cached_page_def)
  then show ?thesis
    using no_frame [OF ok assms(3)] by (simp add: fetch_page_def swap_page_def and_then_Inr [of "find_cached_page p"]
        and_then_Inr [of find_next_frame])
qed

section \<open>Changing and unpinning\<close>

lemma set_data_ok:
  assumes ok: "bpm_ok b" and m: "page_table b p = Some f" and pin: "pins b p \<noteq> 0" and d: "length d = kPAGE_SIZE"
    and h: "pin_frame h = Some f"
  shows "\<exists>c. set_data h d b = (Inr (), c) \<and> bpm_ok c \<and> same_pool b c \<and> bpm_view c = (bpm_view b)(p := d) \<and> pins c = pins b"
proof -
  have pp: "pins b p = pg_pin (frames b ! unat f)" using m by (simp add: pins_def)
  obtain c where "change_frame f (\<lambda>fr. fr\<lparr>pg_data := d\<rparr>) b = (Inr (), c)" "bpm_ok c" "same_pool b c"
    "bpm_view c = (bpm_view b)(p := d)" "pins c = (pins b)(p := pins b p)"
    using change_mapped [OF ok m, of "\<lambda>fr. fr\<lparr>pg_data := d\<rparr>"] mappedD(5) [OF ok m] d pin pp by auto
  then show ?thesis using h by (simp add: set_data_def)
qed

lemma pinned_data_ok:
  assumes "bpm_ok b" and "page_table b p = Some f" and "pin_frame h = Some f"
  shows "pinned_data h b = (Inr (bpm_view b p), b)"
  using assms mappedD(2) [OF assms(1,2)] by (simp add: pinned_data_def and_then_Inr [of "frame_at f"] bpm_view_def)

lemma unpin_ok:
  assumes ok: "bpm_ok b" and m: "page_table b p = Some f" and h: "pin_frame h = Some f"
    and clean: "pins b p = 1 \<Longrightarrow> pin_dirty h \<or> pg_dirty (frames b ! unat f) \<or> bpm_view b p = disk_view (bdisk b) p"
  shows "\<exists>c. unpin h b = (Inr (), c) \<and> bpm_ok c \<and> same_pool b c \<and> bpm_view c = bpm_view b \<and>
    pins c = (pins b)(p := pins b p - 1)"
proof -
  let ?fr = "frames b ! unat f"
  let ?g = "\<lambda>fr. dec_pin (if pin_dirty h then fr\<lparr>pg_dirty := True\<rparr> else fr)"
  note D = mappedD [OF ok m]
  have pp: "pins b p = pg_pin ?fr" and v: "bpm_view b p = pg_data ?fr" using m by (simp_all add: pins_def bpm_view_def)
  obtain c where c: "change_frame f ?g b = (Inr (), c)" "bpm_ok c" "same_pool b c"
    "bpm_view c = (bpm_view b)(p := pg_data ?fr)" "pins c = (pins b)(p := pg_pin ?fr - 1)"
  proof -
    have g: "pg_id (?g ?fr) = p" "pg_data (?g ?fr) = pg_data ?fr" "pg_pin (?g ?fr) = pg_pin ?fr - 1"
      "pg_dirty (?g ?fr) \<longleftrightarrow> pin_dirty h \<or> pg_dirty ?fr"
      using D(5) by (simp_all add: dec_pin_def)
    have "pg_data (?g ?fr) = disk_view (bdisk b) p" if "\<not> pg_dirty (?g ?fr)" "pg_pin (?g ?fr) = 0"
      using that clean pp v g by auto
    then show thesis using change_mapped [OF ok m, of ?g] that D(7) g(1-3) by auto
  qed
  have "unpin h b = (Inr (), c)"
    using h m D(2,5) c(1) by (simp add: unpin_def and_then_Inr [of "frame_at f"] unpin_page_def)
  then show ?thesis using c pp v by (metis fun_upd_triv)
qed

section \<open>New pages, deletion\<close>

lemma bpm_ok_disk:
  assumes ok: "bpm_ok b" and d: "disk_ok d" "free_ok d" and use: "bpm_pages b \<subseteq> in_use d"
    and same: "dfile d = dfile (bdisk b)"
  shows "bpm_ok (b\<lparr>bdisk := d\<rparr>)" "bpm_view (b\<lparr>bdisk := d\<rparr>) = bpm_view b" "pins (b\<lparr>bdisk := d\<rparr>) = pins b"
proof -
  have v: "disk_view d = disk_view (bdisk b)" using same by (simp add: disk_view_def [abs_def])
  show "bpm_ok (b\<lparr>bdisk := d\<rparr>)"
    using ok d use by (auto simp: bpm_inv_def frames_ok_def mapped_ok_def v)
  show "bpm_view (b\<lparr>bdisk := d\<rparr>) = bpm_view b" "pins (b\<lparr>bdisk := d\<rparr>) = pins b"
    by (simp_all add: bpm_view_def [abs_def] pins_def [abs_def] v cong: option.case_cong)
qed

lemma same_disk_view: "dfile d = dfile e \<Longrightarrow> disk_view d = disk_view e"
  by (simp add: disk_view_def [abs_def])

text \<open>Room for one more page on disk.\<close>

definition disk_room :: "disk \<Rightarrow> bool" where
  "disk_room d \<longleftrightarrow> free_list d \<noteq> [] \<or>
     (dcapacity d \<noteq> -1 \<and> (unat (dcapacity d) + 1) * kPAGE_SIZE \<le> flimit (dfile d))"

lemma allocate_on_disk:
  assumes ok: "disk_ok d" "free_ok d" and room: "disk_room d"
  shows "\<exists>p e. allocate_page d = (Inr p, e) \<and> disk_ok e \<and> free_ok e \<and> p \<notin> in_use d \<and> in_use e = insert p (in_use d) \<and>
    dfile e = dfile d"
proof (cases "free_list d = []")
  case False
  then show ?thesis using allocate_page_free [OF ok(2) False] ok(1) by (auto simp: disk_ok_def)
next
  case True
  then have c: "dcapacity d \<noteq> -1" and lim: "(unat (dcapacity d) + 1) * kPAGE_SIZE \<le> flimit (dfile d)"
    using room by (simp_all add: disk_room_def)
  have "1 + dcapacity d \<noteq> 0" using c by (simp add: add_eq_0_iff)
  then have "unat (dcapacity d + 1) = unat (dcapacity d) + 1" using unatSuc [of "dcapacity d"] by (simp add: add.commute)
  then show ?thesis using allocate_page_new [OF ok(2) True c] ok(1) lim by (simp add: disk_ok_def)
qed

lemma new_page_ok:
  assumes ok: "bpm_ok b" and room: "disk_room (bdisk b)" and av: "frame_available b"
  shows "\<exists>p f c. new_page b = (Inr (Some f), c) \<and> bpm_ok c \<and> p \<notin> bpm_pages b \<and> bpm_pages c = insert p (bpm_pages b) \<and>
    page_table c p = Some f \<and> bpm_view c = (bpm_view b)(p := zero_page) \<and> pins c = (pins b)(p := 1) \<and>
    (\<forall>q g. page_table b q = Some g \<longrightarrow> pins b q \<noteq> 0 \<longrightarrow> page_table c q = Some g) \<and> kept b c p"
proof -
  have dk: "disk_ok (bdisk b)" "free_ok (bdisk b)" using ok by (simp_all add: bpm_inv_def)
  obtain p d where d: "allocate_page (bdisk b) = (Inr p, d)" "disk_ok d" "free_ok d" "p \<notin> bpm_pages b"
    "in_use d = insert p (bpm_pages b)" "dfile d = dfile (bdisk b)"
    using allocate_on_disk [OF dk room] by blast
  let ?b = "b\<lparr>bdisk := d\<rparr>"
  have al: "on_disk allocate_page b = (Inr p, ?b)" using on_disk_ok [of allocate_page b, OF d(1)] .
  have use: "bpm_pages b \<subseteq> in_use d" using d(5) by auto
  note B = bpm_ok_disk [OF ok d(2,3) use d(6)]
  have new: "page_table ?b p = None" using mappedD(6) [OF ok, of p] d(4) by (cases "page_table b p") auto
  have av': "frame_available ?b" using av B(3) by (simp add: frame_available_def)
  have pb: "p \<in> bpm_pages ?b" using d(5) by simp
  obtain f c where "claimed ?b p f c" "swap_page p False ?b = (Inr (Some f), c)"
    using swap_page_claims [OF B(1) new pb av', of False] by auto
  moreover from this(1) have k: "kept ?b c p" by (simp add: claimed_def)
  have "\<forall>q g. page_table b q = Some g \<longrightarrow> pins b q \<noteq> 0 \<longrightarrow> page_table c q = Some g"
    using kept_pinned [OF k new] B(3) by simp
  moreover have "kept b c p" using k B(3) same_disk_view [OF d(6)] by (simp add: kept_def)
  ultimately show ?thesis
    using B(2,3) d(4,5) by (auto simp: new_page_def and_then_Inr [of "on_disk allocate_page" b, OF al] claimed_def)
qed

end
