(* ===== verification/Buffer_Properties.thy ===== *)
theory Buffer_Properties
  imports Buffer_Steps
begin

text \<open>
  What the buffer pool promises: it is a page store like the disk below it (the cache is transparent),
  pinned pages stay, replacement is least recently used, and flushing makes everything durable. Also
  the two failures it does not survive.
\<close>

section \<open>The pool as a page store\<close>

text \<open>
  How clients use it: fetch, read or overwrite the bytes through the pointer, unpin (through the
  destructor of \<open>PinnedPage\<close>), marked dirty after a change.
\<close>

definition pool_put :: "page_id \<Rightarrow> page_data \<Rightarrow> (bpm, unit) proc" where
  "pool_put p d = and_then (fetch_page p) (\<lambda>m.
     let h = make_pinned m in
     if \<not> pin_valid h then throw (Runtime_error ''no frame'')
     else and_then (set_data h d) (\<lambda>_. unpin (mark_dirty h)))"

definition pool_get :: "page_id \<Rightarrow> (bpm, page_data) proc" where
  "pool_get p = and_then (fetch_page p) (\<lambda>m.
     let h = make_pinned m in
     if \<not> pin_valid h then throw (Runtime_error ''no frame'')
     else and_then (pinned_data h) (\<lambda>d. and_then (unpin h) (\<lambda>_. ret d)))"

definition pool_inv :: "bpm \<Rightarrow> bool" where
  "pool_inv b \<longleftrightarrow> bpm_ok b \<and> frame_available b \<and> (\<forall>p. pins b p \<noteq> -1)"

lemma available_again:
  assumes "frame_available b" and f: "fetched b p f c" and s: "same_pool c d" and pins: "pins d = pins b"
  shows "frame_available d"
proof (cases "pins b p = 0")
  case True
  then have "p \<in> dom (page_table d)" "pins d p = 0" using f s pins by (auto simp: fetched_def same_pool_def)
  then show ?thesis by (auto simp: frame_available_def)
next
  case False
  then have "page_table b p \<noteq> None" by (cases "page_table b p") (simp_all add: pins_def)
  then have "same_pool b d" using f s by (simp add: fetched_def same_pool_def)
  then show ?thesis using assms(1) pins by (simp add: frame_available_def same_pool_def)
qed

lemma same_pool_trans: "same_pool a b \<Longrightarrow> same_pool b c \<Longrightarrow> same_pool a c"
  by (simp add: same_pool_def)

lemma pool_put_ok:
  assumes inv: "pool_inv b" and p: "p \<in> bpm_pages b" and d: "length d = kPAGE_SIZE"
  shows "\<exists>e. pool_put p d b = (Inr (), e) \<and> pool_inv e \<and> bpm_pages e = bpm_pages b \<and> bpm_view e = (bpm_view b)(p := d)"
proof -
  have ok: "bpm_ok b" and av: "frame_available b" and pin: "\<And>q. pins b q \<noteq> -1" using inv by (auto simp: pool_inv_def)
  obtain f c where fp: "fetch_page p b = (Inr (Some f), c)" and fc: "fetched b p f c"
    using fetch_page_ok [OF ok p pin] av by blast
  have nz: "pins b p + 1 \<noteq> 0" using pin [of p] by (metis add.commute add_eq_0_iff)
  from fc have c: "bpm_ok c" "page_table c p = Some f" "pins c p \<noteq> 0" "bpm_view c = bpm_view b"
      "bpm_pages c = bpm_pages b" "pins c = (pins b)(p := pins b p + 1)"
    using nz by (simp_all add: fetched_def)
  let ?h = "make_pinned (Some f)"
  have h: "pin_frame ?h = Some f" "pin_frame (mark_dirty ?h) = Some f" "pin_dirty (mark_dirty ?h)"
    by (simp_all add: make_pinned_def mark_dirty_def)
  obtain e where e: "set_data ?h d c = (Inr (), e)" "bpm_ok e" "same_pool c e" "bpm_view e = (bpm_view c)(p := d)" "pins e = pins c"
    using set_data_ok [OF c(1-3) d h(1)] by blast
  have "page_table e p = Some f" using c(2) e(3) by (simp add: same_pool_def)
  from unpin_ok [OF e(2) this h(2)] h(3) obtain g where g: "unpin (mark_dirty ?h) e = (Inr (), g)" "bpm_ok g"
    "same_pool e g" "bpm_view g = bpm_view e" "pins g = (pins e)(p := pins e p - 1)" by auto
  have pg: "pins g = pins b" using g(5) e(5) c(6) by auto
  have "pool_put p d b = (Inr (), g)"
    using g(1) by (simp add: pool_put_def and_then_Inr [of "fetch_page p" b, OF fp] Let_def pin_valid_def h
        and_then_Inr [of "set_data ?h d" c, OF e(1)])
  moreover have "pool_inv g"
    using g(2) pg pin available_again [OF av fc same_pool_trans [OF e(3) g(3)] pg] by (simp add: pool_inv_def)
  moreover have "bpm_pages g = bpm_pages b" using c(5) e(3) g(3) by (simp add: same_pool_def)
  ultimately show ?thesis using g(4) e(4) c(4) by auto
qed

lemma pool_get_ok:
  assumes inv: "pool_inv b" and p: "p \<in> bpm_pages b"
  shows "\<exists>e. pool_get p b = (Inr (bpm_view b p), e) \<and> pool_inv e \<and> bpm_pages e = bpm_pages b \<and> bpm_view e = bpm_view b"
proof -
  have ok: "bpm_ok b" and av: "frame_available b" and pin: "\<And>q. pins b q \<noteq> -1" using inv by (auto simp: pool_inv_def)
  obtain f c where fp: "fetch_page p b = (Inr (Some f), c)" and fc: "fetched b p f c"
    using fetch_page_ok [OF ok p pin] av by blast
  then have c: "bpm_ok c" "page_table c p = Some f" "bpm_view c = bpm_view b"
      "bpm_pages c = bpm_pages b" "pins c = (pins b)(p := pins b p + 1)"
    by (auto simp: fetched_def)
  let ?h = "make_pinned (Some f)"
  have h: "pin_frame ?h = Some f" by (simp add: make_pinned_def)
  have "pg_dirty (frames c ! unat f) \<or> bpm_view c p = disk_view (bdisk c) p" if "pins c p = 1"
    using that fc c(5) by (auto simp: fetched_def)
  with unpin_ok [OF c(1,2) h] obtain g where g: "unpin ?h c = (Inr (), g)" "bpm_ok g"
    "same_pool c g" "bpm_view g = bpm_view c" "pins g = (pins c)(p := pins c p - 1)" by auto
  have pg: "pins g = pins b" using g(5) c(5) by auto
  have "pool_get p b = (Inr (bpm_view b p), g)"
    using pinned_data_ok [OF c(1,2) h] g(1) c(3)
    by (simp add: pool_get_def and_then_Inr [of "fetch_page p" b, OF fp] Let_def pin_valid_def h
        and_then_Inr [of "pinned_data ?h" c] and_then_Inr [of "unpin ?h" c, OF g(1)])
  moreover have "pool_inv g"
    using g(2) pg pin available_again [OF av fc g(3) pg] by (simp add: pool_inv_def)
  ultimately show ?thesis using g(3,4) c(3,4) by (auto simp: same_pool_def)
qed

interpretation buffer_store: page_store pool_put pool_get pool_inv "\<lambda>b p. p \<in> bpm_pages b" bpm_view
  proof
  fix b p and d :: page_data
  assume "pool_inv b" "p \<in> bpm_pages b" "length d = kPAGE_SIZE"
  from pool_put_ok [OF this] show "\<exists>e. pool_put p d b = (Inr (), e) \<and> pool_inv e \<and>
      (\<lambda>q. q \<in> bpm_pages e) = (\<lambda>q. q \<in> bpm_pages b) \<and> bpm_view e = (bpm_view b)(p := d)" by auto
next
  fix b p
  assume "pool_inv b" "p \<in> bpm_pages b"
  from pool_get_ok [OF this] show "\<exists>e. pool_get p b = (Inr (bpm_view b p), e) \<and> pool_inv e \<and>
      (\<lambda>q. q \<in> bpm_pages e) = (\<lambda>q. q \<in> bpm_pages b) \<and> bpm_view e = bpm_view b" by auto
qed

section \<open>Flushing\<close>

text \<open>The disk after the dirty frames of \<open>fs\<close> were written; \<open>v\<close> gives the bytes of each page.\<close>

definition flushed :: "frame list \<Rightarrow> (page_id \<Rightarrow> page_data) \<Rightarrow> disk \<Rightarrow> disk \<Rightarrow> bool" where
  "flushed fs v d e \<longleftrightarrow> disk_ok e \<and> free_ok e = free_ok d \<and> in_use e = in_use d \<and>
     dcapacity e = dcapacity d \<and> free_list e = free_list d \<and>
     (\<forall>p. disk_view e p = (if \<exists>fr\<in>set fs. pg_dirty fr \<and> pg_id fr = p then v p else disk_view d p))"

definition writable :: "disk \<Rightarrow> (page_id \<Rightarrow> page_data) \<Rightarrow> frame \<Rightarrow> bool" where
  "writable d v fr \<longleftrightarrow> pg_id fr \<in> in_use d \<and> length (pg_data fr) = kPAGE_SIZE \<and> pg_data fr = v (pg_id fr)"

lemma flushed_skip: "\<not> pg_dirty fr \<Longrightarrow> flushed fs v d e \<Longrightarrow> flushed (fr # fs) v d e"
  by (simp add: flushed_def)

lemma flushed_step:
  assumes "flushed [fr] v d e" and "flushed fs v e f"
  shows "flushed (fr # fs) v d f"
  using assms by (auto simp: flushed_def)

lemma flush_frames_ok:
  assumes "\<forall>fr\<in>set fs. pg_dirty fr \<longrightarrow> writable (bdisk b) v fr" and "disk_ok (bdisk b)"
  shows "\<exists>d. flush_frames fs b = (Inr (), b\<lparr>bdisk := d\<rparr>) \<and> flushed fs v (bdisk b) d"
  using assms
proof (induction fs arbitrary: b)
  case Nil
  then show ?case by (auto simp: flushed_def intro!: exI [of _ "bdisk b"])
next
  case (Cons fr fs)
  show ?case
  proof (cases "pg_dirty fr")
    case False
    then show ?thesis using Cons.IH [of b] Cons.prems flushed_skip by auto
  next
    case True
    then have w: "writable (bdisk b) v fr" using Cons.prems(1) by simp
    obtain e where e: "write_page (pg_id fr) (pg_data fr) (bdisk b) = (Inr (), e)" "flushed [fr] v (bdisk b) e"
      using flush_ok [OF Cons.prems(2), of "pg_id fr" "pg_data fr"] w True by (auto simp: flushed_def writable_def)
    have fl: "flush_page fr b = (Inr (), b\<lparr>bdisk := e\<rparr>)"
      using e(1) by (simp add: flush_page_def on_disk_def zoom_def)
    have "\<forall>fr\<in>set fs. pg_dirty fr \<longrightarrow> writable e v fr" "disk_ok e"
      using Cons.prems(1) e(2) by (auto simp: flushed_def writable_def)
    with Cons.IH [of "b\<lparr>bdisk := e\<rparr>"] obtain d where
      "flush_frames fs (b\<lparr>bdisk := e\<rparr>) = (Inr (), b\<lparr>bdisk := d\<rparr>)" "flushed fs v e d" by auto
    then show ?thesis
      using True flushed_step [OF e(2)] by (auto simp: and_then_Inr [of "flush_page fr" b, OF fl])
  qed
qed

lemma flush_all_ok:
  assumes ok: "bpm_ok b"
  shows "\<exists>d. bpm_flush_all b = (Inr (), b\<lparr>bdisk := d\<rparr>) \<and> disk_ok d \<and> free_ok d \<and> in_use d = bpm_pages b \<and>
    dcapacity d = dcapacity (bdisk b) \<and> free_list d = free_list (bdisk b) \<and>
    (\<forall>p. pins b p = 0 \<longrightarrow> disk_view d p = bpm_view b p)"
proof -
  let ?fs = "take (pool_size b) (frames b)"
  have F: "frames_ok {} b" using ok by (simp add: bpm_inv_def)
  have fr: "page_table b (pg_id (frames b ! i)) = Some (of_nat i)"
    if i: "i < pool_size b" "pg_dirty (frames b ! i)" for i
  proof -
    have ui: "unat (of_nat i :: frame_id) = i" using i F by (simp add: frames_ok_def unat_of_nat)
    then have "of_nat i \<notin> set (free_frames b)" using F i(2) by (auto simp: frames_ok_def fresh_frame_def)
    then show ?thesis using frameD [OF ok, of "of_nat i"] ui i by simp
  qed
  have mem: "\<exists>i < pool_size b. fr = frames b ! i" if "fr \<in> set ?fs" for fr
    using that by (auto simp: in_set_conv_nth)
  have dirty: "\<forall>fr\<in>set ?fs. pg_dirty fr \<longrightarrow> writable (bdisk b) (bpm_view b) fr"
  proof (intro ballI impI)
    fix x assume x: "x \<in> set ?fs" "pg_dirty x"
    obtain i where i: "i < pool_size b" "x = frames b ! i" using mem [OF x(1)] by blast
    have ui: "unat (of_nat i :: frame_id) = i" using i F by (simp add: frames_ok_def unat_of_nat)
    from fr [OF i(1)] x(2) i(2) have m: "page_table b (pg_id x) = Some (of_nat i)" by simp
    show "writable (bdisk b) (bpm_view b) x"
      using mappedD(6,7) [OF ok m] m i(2) ui by (simp add: writable_def bpm_view_def)
  qed
  have "disk_ok (bdisk b)" "free_ok (bdisk b)" using ok by (simp_all add: bpm_inv_def)
  with flush_frames_ok [OF dirty] obtain d where
    d0: "flush_frames ?fs b = (Inr (), b\<lparr>bdisk := d\<rparr>)" "flushed ?fs (bpm_view b) (bdisk b) d" "free_ok d"
    by (auto simp: flushed_def)
  then have d: "\<forall>p. disk_view d p = (if \<exists>fr\<in>set ?fs. pg_dirty fr \<and> pg_id fr = p then bpm_view b p else disk_view (bdisk b) p)"
    by (simp add: flushed_def)
  have "disk_view d p = bpm_view b p" if p: "pins b p = 0" for p
  proof (cases "page_table b p")
    case None
    then show ?thesis using d by (simp add: bpm_view_def)
  next
    case (Some f)
    note D = mappedD [OF ok Some]
    have "frames b ! unat f \<in> set ?fs" using D(1,2) by (auto simp: in_set_conv_nth)
    with D(5,8) p Some d show ?thesis by (auto simp: pins_def bpm_view_def)
  qed
  then show ?thesis using d0 by (auto simp: bpm_flush_all_def flushed_def)
qed

section \<open>Properties\<close>

lemma bpm_object_ok:
  assumes "disk_ok d" and "free_ok d" and "n < 2 ^ 32 - 1"
  shows "bpm_ok (bpm_object d n)" "pins (bpm_object d n) = (\<lambda>_. 0)" "bpm_view (bpm_object d n) = disk_view d"
    "0 < n \<Longrightarrow> pool_inv (bpm_object d n)"
proof -
  show ok: "bpm_ok (bpm_object d n)"
    using assms by (simp add: bpm_inv_def frames_ok_def mapped_ok_def bpm_object_def replacer_ok_empty fresh_frame_def)
  show p: "pins (bpm_object d n) = (\<lambda>_. 0)" by (simp add: pins_def [abs_def] bpm_object_def)
  show "bpm_view (bpm_object d n) = disk_view d" by (simp add: bpm_view_def [abs_def] bpm_object_def)
  show "0 < n \<Longrightarrow> pool_inv (bpm_object d n)"
    using ok p by (simp add: pool_inv_def frame_available_def bpm_object_def)
qed

lemma sample_disk_ok: "disk_ok sample_disk" "free_ok sample_disk" "1 \<in> in_use sample_disk" "3 \<in> in_use sample_disk"
  by (simp_all add: sample_disk_def disk_ok_def free_ok_def kPAGE_SIZE_def in_use_def)

text \<open>
  C8: the cache is transparent. From any state of the pool with a free or unpinned frame, after any
  sequence of page changes through fetch and unpin, a fetched page has the last bytes given to it,
  however often pages were evicted and read back in between.
\<close>

theorem pool_reads_last_write:
  assumes "pool_inv b" and "\<forall>(p, d)\<in>set ws. p \<in> bpm_pages b \<and> length d = kPAGE_SIZE" and "q \<in> bpm_pages b"
  shows "fst (and_then (put_all pool_put ws) (\<lambda>_. pool_get q) b) = Inr (written ws (bpm_view b) q)"
  using assms by (intro buffer_store.get_after_put_all) auto

theorem pool_reads_last_write_witness:
  "fst (and_then (put_all pool_put [(1, replicate kPAGE_SIZE 5), (3, replicate kPAGE_SIZE 7), (1, replicate kPAGE_SIZE 9)])
     (\<lambda>_. pool_get 3) (bpm_object sample_disk 1)) = Inr (replicate kPAGE_SIZE 7)"
proof -
  have "pool_inv (bpm_object sample_disk 1)" using bpm_object_ok(4) [OF sample_disk_ok(1,2), of 1] by simp
  moreover have "bpm_pages (bpm_object sample_disk 1) = in_use sample_disk" by (simp add: bpm_object_def)
  ultimately show ?thesis
    using pool_reads_last_write [of "bpm_object sample_disk 1"
        "[(1, replicate kPAGE_SIZE 5), (3, replicate kPAGE_SIZE 7), (1, replicate kPAGE_SIZE 9)]" 3] sample_disk_ok(3,4)
    by simp
qed

text \<open>
  C27: pins. Fetching a page that is in use succeeds unless it is not cached and all frames are pinned
  (then nothing changes and there is no page); a successful fetch changes no page's bytes, pins only
  the page itself, and every pinned page stays in the frame its holders point to.
\<close>

theorem pinned_pages_stay:
  assumes ok: "bpm_ok b" and p: "p \<in> bpm_pages b" and pin: "pins b p \<noteq> -1"
  shows "if page_table b p \<noteq> None \<or> frame_available b
    then \<exists>f c. fetch_page p b = (Inr (Some f), c) \<and> bpm_ok c \<and> page_table c p = Some f \<and>
      bpm_view c = bpm_view b \<and> pins c = (pins b)(p := pins b p + 1) \<and>
      (\<forall>q g. page_table b q = Some g \<longrightarrow> pins b q \<noteq> 0 \<longrightarrow> page_table c q = Some g)
    else fetch_page p b = (Inr None, b)"
  using fetch_page_ok [OF ok p pin] fetch_page_full [OF ok, of p] by (auto simp: fetched_def)

theorem pinned_pages_stay_witness:
  "\<exists>f c. fetch_page 1 (bpm_object sample_disk 1) = (Inr (Some f), c) \<and> pins c 1 = 1"
proof -
  let ?b = "bpm_object sample_disk 1"
  have "bpm_ok ?b" "pins ?b = (\<lambda>_. 0)" using bpm_object_ok [OF sample_disk_ok(1,2), of 1] by simp_all
  moreover have "1 \<in> bpm_pages ?b" "frame_available ?b"
    using sample_disk_ok by (simp_all add: bpm_object_def frame_available_def)
  ultimately show ?thesis using pinned_pages_stay [of ?b 1] by auto
qed

text \<open>A pool of one frame that holds page 1, pinned \<open>k\<close> times; used by the witnesses.\<close>

definition one_frame_pool :: "32 word \<Rightarrow> bpm" where
  "one_frame_pool k = \<lparr>bdisk = sample_disk, pool_capacity = 1, pool_size = 1,
     frames = [\<lparr>pg_id = 1, pg_data = disk_view sample_disk 1, pg_pin = k, pg_dirty = False\<rparr>],
     page_table = [1 \<mapsto> 0], free_frames = [],
     replacer = \<lparr>mru_pages = [(0, 1)], positions = [1 \<mapsto> 0], next_node = 1\<rparr>\<rparr>"

lemma one_frame_pool_ok:
  "bpm_ok (one_frame_pool k)" "pins (one_frame_pool k) 1 = k" "bpm_pages (one_frame_pool k) = in_use sample_disk"
  "frame_available (one_frame_pool k) \<longleftrightarrow> k = 0" "page_table (one_frame_pool k) = [1 \<mapsto> 0]"
  "bpm_view (one_frame_pool k) = disk_view sample_disk" "bdisk (one_frame_pool k) = sample_disk"
proof -
  have z: "unat f = 0 \<longleftrightarrow> f = 0" for f :: frame_id by (simp add: unat_eq_zero)
  have len: "length (disk_view sample_disk 1) = kPAGE_SIZE" by (simp add: disk_view_def)
  show "bpm_ok (one_frame_pool k)"
    using sample_disk_ok len
    by (auto simp: bpm_inv_def frames_ok_def mapped_ok_def one_frame_pool_def replacer_ok_def lru_order_def z
        split: if_splits)
  show p: "pins (one_frame_pool k) 1 = k" by (simp add: pins_def one_frame_pool_def)
  show "frame_available (one_frame_pool k) \<longleftrightarrow> k = 0"
    using p by (simp add: frame_available_def one_frame_pool_def)
  show "bpm_view (one_frame_pool k) = disk_view sample_disk"
    by (rule ext) (simp add: bpm_view_def one_frame_pool_def)
qed (simp_all add: one_frame_pool_def)

text \<open>With no frame free, a fetch takes the frame of the victim and leaves its bytes on the disk.\<close>

lemma fetch_evicts:
  assumes ok: "bpm_ok b" and full: "free_frames b = []" "pool_size b = pool_capacity b"
    and new: "page_table b p = None" and p: "p \<in> bpm_pages b" and v: "lru_victim b = Some v"
  shows "\<exists>f c. page_table b v = Some f \<and> pins b v = 0 \<and> fetch_page p b = (Inr (Some f), c) \<and>
    page_table c = (page_table b)(v := None, p \<mapsto> f) \<and> disk_view (bdisk c) v = bpm_view b v"
proof -
  obtain f where f: "page_table b v = Some f" and pin: "pins b v = 0" using lru_victimD [OF ok v] by blast
  have nf: "find_next_frame b = (Inr f, b)" using find_next_frame_full [OF ok full(1)] full(2) v f by simp
  obtain a where a: "evict_frame f b = (Inr (), a)" "evicted b v f a" using evict_victim [OF ok f pin] by blast
  obtain e where e: "and_then (evict_frame f) (\<lambda>_. install_page p f) b = (Inr (), e)" "claimed b p f e"
    "page_table e = (page_table b)(v := None, p \<mapsto> f)" "bdisk e = bdisk a"
    using claim_victim [OF ok f pin new p] a(1) by auto
  then have ie: "install_page p f a = (Inr (), e)" using a(1) by (simp add: and_then_Inr [of "evict_frame f" b])
  obtain c where c: "load_page p f e = (Inr (), c)" "same_pool e c"
    using load_page_ok [of e p f] e(2) by (auto simp: claimed_def)
  have "find_cached_page p b = (Inr None, b)" using new by (simp add: find_cached_page_def)
  then have "fetch_page p b = (Inr (Some f), c)"
    using valid_frame [OF ok f] by (simp add: fetch_page_def and_then_Inr [of "find_cached_page p"] swap_page_def
        and_then_Inr [of find_next_frame b, OF nf] and_then_Inr [of "evict_frame f" b, OF a(1)]
        and_then_Inr [of "install_page p f" a, OF ie] and_then_Inr [of "load_page p f" e, OF c(1)])
  moreover have "disk_view (bdisk a) v = bpm_view b v"
    using a(2) by (metis (mono_tags, lifting) bpm_view_def evicted_def fun_upd_same option.simps(4))
  ultimately show ?thesis using f pin c(2) e(3,4) by (simp add: same_pool_def)
qed

text \<open>
  C17: durability. With no page pinned, flushing the pool and closing the disk writes a file that a
  new session opens with the same pages in use and the bytes every page had in the pool (once the file
  has grown to a page).
\<close>

theorem flush_close_reopen:
  assumes ok: "bpm_ok b" and quiet: "\<forall>p. pins b p = 0" and b: "bpm_flush_all b = (r, c)"
    and f: "sound_file (dfile (bdisk c))" and h: "sound_header (bdisk c)"
    and big: "kPAGE_SIZE \<le> length (fcontent (dfile (bdisk c)))"
  shows "r = Inr () \<and> (\<exists>e. disk_open (Some (disk_close (bdisk c))) = Inr e \<and> in_use e = bpm_pages b \<and>
    (\<forall>p\<in>bpm_pages b. disk_view e p = bpm_view b p))"
proof -
  have "r = Inr () \<and> free_ok (bdisk c) \<and> in_use (bdisk c) = bpm_pages b \<and> (\<forall>p. disk_view (bdisk c) p = bpm_view b p)"
    using flush_all_ok [OF ok] quiet b by fastforce
  moreover from this obtain e where "disk_open (Some (disk_close (bdisk c))) = Inr e" "dcapacity e = dcapacity (bdisk c)"
    "free_list e = free_list (bdisk c)" "\<forall>p. p \<noteq> 0 \<longrightarrow> disk_view e p = disk_view (bdisk c) p"
    using disk_reopen_lemma [OF _ f h] big by auto
  ultimately show ?thesis by (auto simp: in_use_def)
qed

theorem flush_close_reopen_witness:
  "\<exists>e. disk_open (Some (disk_close (bdisk (snd (bpm_flush_all
      (bpm_object (sample_disk\<lparr>dfile := (dfile sample_disk)\<lparr>fcontent := replicate 16384 5\<rparr>\<rparr>) 1)))))) = Inr e \<and>
    1 \<in> in_use e"
proof -
  let ?d = "sample_disk\<lparr>dfile := (dfile sample_disk)\<lparr>fcontent := replicate 16384 5\<rparr>\<rparr>"
  let ?b = "bpm_object ?d 1"
  have d: "disk_ok ?d" "free_ok ?d" "1 \<in> in_use ?d"
    using sample_disk_ok by (simp_all add: disk_ok_def free_ok_def in_use_def sample_disk_def)
  have "bpm_ok ?b" "\<forall>p. pins ?b p = 0" using bpm_object_ok(1,2) [OF d(1,2), of 1] by simp_all
  moreover have "bpm_flush_all ?b = (Inr (), ?b)" by (simp add: bpm_flush_all_def bpm_object_def)
  ultimately show ?thesis
    using flush_close_reopen [of ?b "Inr ()" ?b] d(3)
    by (auto simp: bpm_object_def sample_disk_def sound_file_def sound_header_def kPAGE_SIZE_def)
qed

text \<open>
  Fetching a page that was never allocated throws, but leaves it registered in its frame: fetching
  it again succeeds, with a page of zeros.
\<close>

theorem fetch_unallocated_twice:
  assumes ok: "bpm_ok b" and e: "free_frames b = []" "pool_size b < pool_capacity b"
    and new: "page_table b p = None" and p: "dcapacity (bdisk b) \<le> p"
  shows "\<exists>x f c d. fetch_page p b = (Inl x, c) \<and> fetch_page p c = (Inr (Some f), d) \<and>
    pg_data (frames d ! unat f) = zero_page"
proof -
  let ?n = "pool_size b" and ?f = "of_nat (pool_size b) :: frame_id"
  have F: "frames_ok {} b" using ok by (simp add: bpm_inv_def)
  have uf: "unat ?f = ?n" and len: "?n < length (frames b)" and fr: "frames b ! ?n = fresh_frame"
    and small: "?n < 2 ^ 32 - 1"
    using F e by (auto simp: frames_ok_def unat_of_nat)
  have fv: "?f \<noteq> INVALID_FRAME_ID"
  proof
    assume "?f = INVALID_FRAME_ID"
    then have "unat ?f = 2 ^ 32 - 1" by (simp add: INVALID_FRAME_ID_def unsigned_minus_1_eq_mask mask_eq_exp_minus_1)
    with uf small show False by simp
  qed
  let ?b1 = "b\<lparr>pool_size := Suc ?n\<rparr>"
  obtain r where r: "replacer_record p (replacer b) = (Inr (), r)" "replacer_ok r"
    using replacer_record_ok ok by (metis bpm_inv_def)
  let ?fr = "\<lparr>pg_id = p, pg_data = zero_page, pg_pin = 1, pg_dirty = False\<rparr>"
  let ?b2 = "?b1\<lparr>page_table := (page_table b)(p \<mapsto> ?f), frames := (frames b)[?n := ?fr], replacer := r\<rparr>"
  have nf: "find_next_frame b = (Inr ?f, ?b1)" using e by (simp add: find_next_frame_def)
  have ev: "evict_frame ?f ?b1 = (Inr (), ?b1)" using uf len fr by (intro evict_empty) simp_all
  have ins: "install_page p ?f ?b1 = (Inr (), ?b2)"
    using uf len r(1) by (simp add: install_page_def and_then_Inr [of "change_frame ?f _"] change_frame_ok on_replacer_ok
        inc_pin_def reset_memory_def)
  have rd: "on_disk (read_page p zero_page) ?b2 = (Inl (Runtime_error ''DiskManager: trying to read not allocated page''), ?b2)"
  proof -
    have "\<not> p < dcapacity (bdisk b)" using p by simp
    then show ?thesis by (simp add: on_disk_def zoom_def read_page_def del: not_less)
  qed
  have ld: "load_page p ?f ?b2 = (Inl (Runtime_error ''DiskManager: trying to read not allocated page''), ?b2)"
    using uf len p by (simp add: load_page_def and_then_Inr [of "frame_at ?f"]
        and_then_Inl [of "on_disk (read_page p zero_page)" ?b2, OF rd])
  have "find_cached_page p b = (Inr None, b)" using new by (simp add: find_cached_page_def)
  then have f1: "fetch_page p b = (Inl (Runtime_error ''DiskManager: trying to read not allocated page''), ?b2)"
    using fv by (simp add: fetch_page_def and_then_Inr [of "find_cached_page p"] swap_page_def
        and_then_Inr [of find_next_frame b, OF nf] and_then_Inr [of "evict_frame ?f" ?b1, OF ev]
        and_then_Inr [of "install_page p ?f" ?b1, OF ins] and_then_Inl [of "load_page p ?f" ?b2, OF ld])
  obtain r2 where r2: "replacer_record p r = (Inr (), r2)" using replacer_record_ok [OF r(2)] by blast
  let ?b3 = "?b2\<lparr>frames := (frames b)[?n := inc_pin ?fr], replacer := r2\<rparr>"
  have "find_cached_page p ?b2 = (Inr (Some ?f), ?b3)"
    using uf len r2 by (simp add: find_cached_page_def and_then_Inr [of "change_frame ?f _"] change_frame_ok
        on_replacer_ok and_then_Inr [of "on_replacer (replacer_record p)"])
  then have "fetch_page p ?b2 = (Inr (Some ?f), ?b3)"
    by (simp add: fetch_page_def and_then_Inr [of "find_cached_page p"])
  moreover have "pg_data (frames ?b3 ! unat ?f) = zero_page" using uf len by (simp add: inc_pin_def)
  ultimately show ?thesis using f1 by blast
qed

theorem fetch_unallocated_twice_witness:
  "\<exists>x f c d. fetch_page 9 (bpm_object sample_disk 1) = (Inl x, c) \<and> fetch_page 9 c = (Inr (Some f), d)"
proof -
  have "bpm_ok (bpm_object sample_disk 1)" using bpm_object_ok(1) [OF sample_disk_ok(1,2), of 1] by simp
  moreover have "dcapacity (bdisk (bpm_object sample_disk 1)) \<le> 9" by (simp add: bpm_object_def sample_disk_def)
  ultimately show ?thesis
    using fetch_unallocated_twice [of "bpm_object sample_disk 1" 9] by (auto simp: bpm_object_def)
qed

text \<open>
  Creating a page while every frame is pinned gives no page, but leaves one more page in use on
  disk that nobody holds.
\<close>

theorem new_page_leaks:
  assumes ok: "bpm_ok b" and full: "\<not> frame_available b" and room: "disk_room (bdisk b)"
  shows "\<exists>p c. new_page b = (Inr None, c) \<and> p \<notin> bpm_pages b \<and> bpm_pages c = insert p (bpm_pages b)"
proof -
  obtain p d where d: "allocate_page (bdisk b) = (Inr p, d)" "disk_ok d" "free_ok d" "p \<notin> bpm_pages b"
    "in_use d = insert p (bpm_pages b)" "dfile d = dfile (bdisk b)"
    using allocate_on_disk [OF _ _ room] ok by (auto simp: bpm_inv_def)
  let ?b = "b\<lparr>bdisk := d\<rparr>"
  have "bpm_pages b \<subseteq> in_use d" using d(5) by auto
  note B = bpm_ok_disk [OF ok d(2,3) this d(6)]
  have "on_disk allocate_page b = (Inr p, ?b)" using on_disk_ok [of allocate_page b, OF d(1)] .
  moreover have "find_next_frame ?b = (Inr INVALID_FRAME_ID, ?b)"
    using no_frame [OF B(1)] full B(3) by (simp add: frame_available_def)
  ultimately have "new_page b = (Inr None, ?b)"
    by (simp add: new_page_def and_then_Inr [of "on_disk allocate_page"] swap_page_def and_then_Inr [of find_next_frame])
  then show ?thesis
    using d(4,5) by auto
qed

theorem new_page_leaks_witness:
  "\<exists>p c. new_page (one_frame_pool 1) = (Inr None, c) \<and> p \<notin> in_use sample_disk \<and> p \<in> bpm_pages c"
proof -
  have "disk_room sample_disk" by (simp add: disk_room_def sample_disk_def)
  then show ?thesis using new_page_leaks [OF one_frame_pool_ok(1) [of 1]] one_frame_pool_ok [of 1] by auto
qed

end
