(* ===== verification/Heap_Pins.thy ===== *)
theory Heap_Pins
  imports Table_Heap Buffer_Properties Page_Properties "HOL-Library.Multiset"
begin

text \<open>
  The buffer pool as its clients hold it: \<open>held X P b\<close> says that the multiset \<open>P\<close> of pages is pinned
  by the clients together, and that every page outside \<open>X\<close> that differs from the disk is marked dirty.
  One lemma per primitive the table heap uses, over that state.
\<close>

section \<open>Held pages\<close>

definition tidy :: "page_id set \<Rightarrow> bpm \<Rightarrow> bool" where
  "tidy X b \<longleftrightarrow> (\<forall>p f. page_table b p = Some f \<longrightarrow> p \<notin> X \<longrightarrow>
     pg_dirty (frames b ! unat f) \<or> pg_data (frames b ! unat f) = disk_view (bdisk b) p)"

definition held :: "page_id set \<Rightarrow> page_id multiset \<Rightarrow> bpm \<Rightarrow> bool" where
  "held X P b \<longleftrightarrow> bpm_ok b \<and> tidy X b \<and> size P \<le> pool_capacity b \<and> (\<forall>p. pins b p = of_nat (count P p))"

lemma heldD:
  assumes "held X P b"
  shows "bpm_ok b" "tidy X b" "pins b p = of_nat (count P p)" "size P \<le> pool_capacity b"
  using assms by (simp_all add: held_def)

lemma capacity_bound: "bpm_ok b \<Longrightarrow> pool_capacity b \<le> 2 ^ 32 - 1"
  by (simp add: bpm_inv_def frames_ok_def)

lemma held_count:
  assumes "held X P b"
  shows "unat (pins b p) = count P p"
proof -
  have "count P p \<le> size P" by (rule count_le_size)
  also have "\<dots> \<le> 2 ^ 32 - 1" using heldD(4) [OF assms] capacity_bound [OF heldD(1) [OF assms]] by linarith
  finally have "count P p < 2 ^ 32" by simp
  then show ?thesis by (simp add: heldD(3) [OF assms] unat_of_nat)
qed

lemma held_unpinned: "held X P b \<Longrightarrow> pins b p = 0 \<longleftrightarrow> p \<notin># P"
  using held_count [of X P b p] by (metis count_eq_zero_iff unat_eq_zero)

lemma held_pinned: "held X P b \<Longrightarrow> p \<in># P \<Longrightarrow> pins b p \<noteq> 0"
  by (simp add: held_unpinned)

lemma held_mapped: "held X P b \<Longrightarrow> p \<in># P \<Longrightarrow> \<exists>f. page_table b p = Some f"
  using held_pinned [of X P b p] by (auto simp: pins_def split: option.splits)

lemma few_pins_available:
  assumes h: "held X P b" and P: "size P < pool_capacity b"
  shows "frame_available b"
proof (rule ccontr)
  assume n: "\<not> frame_available b"
  have ok: "bpm_ok b" using h by (simp add: held_def)
  have e: "free_frames b = []" "\<not> pool_size b < pool_capacity b" and pin: "\<forall>p\<in>dom (page_table b). pins b p \<noteq> 0"
    using n by (auto simp: frame_available_def)
  have F: "pool_size b = pool_capacity b" "pool_capacity b \<le> 2 ^ 32 - 1"
    using ok e(2) by (auto simp: bpm_inv_def frames_ok_def)
  let ?g = "\<lambda>i. pg_id (frames b ! i)"
  have m: "page_table b (?g i) = Some (of_nat i)" if "i < pool_capacity b" for i
  proof -
    have "unat (of_nat i :: frame_id) = i" using that F(2) by (simp add: unat_of_nat)
    then show ?thesis using frameD [OF ok, of "of_nat i"] that F(1) e(1) by simp
  qed
  have "inj_on ?g {..<pool_capacity b}"
  proof (rule inj_onI)
    fix i j assume ij: "i \<in> {..<pool_capacity b}" "j \<in> {..<pool_capacity b}" "?g i = ?g j"
    then have "(of_nat i :: frame_id) = of_nat j" using m [of i] m [of j] by simp
    moreover have "unat (of_nat k :: frame_id) = k" if "k \<in> {..<pool_capacity b}" for k
      using that F(2) by (simp add: unat_of_nat)
    ultimately show "i = j" using ij(1,2) by metis
  qed
  moreover have "?g ` {..<pool_capacity b} \<subseteq> set_mset P"
  proof
    fix p assume "p \<in> ?g ` {..<pool_capacity b}"
    then have "p \<in> dom (page_table b)" using m by auto
    then show "p \<in># P" using pin held_unpinned [OF h, of p] by blast
  qed
  ultimately have "pool_capacity b \<le> card (set_mset P)"
    using card_inj_on_le [of ?g "{..<pool_capacity b}" "set_mset P"] by simp
  moreover have "card (set_mset P) \<le> size P"
    by (induction P) (auto simp: card_insert_if)
  ultimately show False using P by simp
qed


section \<open>What no page operation changes\<close>

text \<open>The number of frames, and the disk apart from the bytes in its file.\<close>

definition pool_shape :: "bpm \<Rightarrow> nat \<times> 32 word \<times> page_id list \<times> nat" where
  "pool_shape b = (pool_capacity b, dcapacity (bdisk b), free_list (bdisk b), flimit (dfile (bdisk b)))"

definition disk_shape :: "disk \<Rightarrow> 32 word \<times> page_id list \<times> nat" where
  "disk_shape d = (dcapacity d, free_list d, flimit (dfile d))"

lemma keeps_write: "keeps (\<lambda>d. disk_shape d = s) (write_page p bs)"
  by (auto simp: keeps_def write_page_def disk_shape_def pwrite_def and_then_def require_def Let_def)

lemma keeps_read: "keeps (\<lambda>d. disk_shape d = s) (read_page p bs)"
  by (auto simp: keeps_def read_page_def and_then_def require_def Let_def split: prod.splits)

lemma keeps_on_disk: "(\<And>s. keeps (\<lambda>d. disk_shape d = s) m) \<Longrightarrow> keeps (\<lambda>b. pool_shape b = t) (on_disk m)"
  unfolding keeps_def on_disk_def zoom_def pool_shape_def disk_shape_def
  by (simp split: prod.split) (metis prod.inject snd_conv)

lemma pool_shape_update [simp]:
  "pool_shape (b\<lparr>frames := x\<rparr>) = pool_shape b" "pool_shape (b\<lparr>page_table := y\<rparr>) = pool_shape b"
  "pool_shape (b\<lparr>free_frames := z\<rparr>) = pool_shape b" "pool_shape (b\<lparr>pool_size := n\<rparr>) = pool_shape b"
  "pool_shape (b\<lparr>replacer := r\<rparr>) = pool_shape b"
  by (simp_all add: pool_shape_def)

lemma keeps_shape_frame: "keeps (\<lambda>b. pool_shape b = t) (frame_at f)"
  by (auto simp: keeps_def frame_at_def and_then_def require_def)

lemma keeps_shape_replacer: "keeps (\<lambda>b. pool_shape b = t) (on_replacer m)"
  by (auto simp: keeps_def on_replacer_def zoom_def split: prod.splits)

lemma keeps_shape_change: "keeps (\<lambda>b. pool_shape b = t) (change_frame f g)"
  unfolding change_frame_def set_frame_def by (intro keeps_and_then keeps_shape_frame keeps_modify) simp

lemma keeps_find_next_frame: "keeps (\<lambda>b. pool_shape b = t) find_next_frame"
  unfolding find_next_frame_def
  by (auto intro!: keeps_and_then keeps_modify split: prod.split option.split)

lemmas keeps_shape_steps = keeps_and_then keeps_modify keeps_find_next_frame keeps_shape_frame
  keeps_shape_replacer keeps_shape_change keeps_on_disk [OF keeps_write] keeps_on_disk [OF keeps_read]

lemma keeps_swap: "keeps (\<lambda>b. pool_shape b = t) (swap_page p rd)"
  unfolding swap_page_def evict_frame_def install_page_def load_page_def flush_page_def
  by (auto intro!: keeps_shape_steps)

lemma keeps_fetch: "keeps (\<lambda>b. pool_shape b = t) (fetch_page p)"
  unfolding fetch_page_def find_cached_page_def
  by (auto intro!: keeps_shape_steps keeps_swap split: option.split)

lemma keeps_new_capacity: "keeps (\<lambda>b. pool_capacity b = n) new_page"
proof -
  have "keeps (\<lambda>b. pool_capacity b = n) (on_disk allocate_page)"
    by (auto simp: keeps_def on_disk_def zoom_def split: prod.splits)
  moreover have "keeps (\<lambda>b. pool_capacity b = n) (swap_page p False)" for p
    using keeps_swap [of _ p False] by (auto simp: keeps_def pool_shape_def)
  ultimately show ?thesis unfolding new_page_def by (rule keeps_and_then)
qed

lemma fetch_shape: "fetch_page p b = (r, c) \<Longrightarrow> pool_shape c = pool_shape b"
  using keepsD [OF keeps_fetch refl] by metis

section \<open>Fetching and releasing\<close>

lemma held_clean:
  assumes h: "held X P b" and m: "page_table b p = Some f" and p: "p \<notin> X"
  shows "pg_dirty (frames b ! unat f) \<or> bpm_view b p = disk_view (bdisk b) p"
  using heldD(2) [OF h] m p by (auto simp: tidy_def bpm_view_def)

lemma held_fetch:
  assumes h: "held X P b" and p: "p \<in> bpm_pages b" and P: "size P < pool_capacity b"
  shows "\<exists>f c. fetch_page p b = (Inr (Some f), c) \<and> held X (add_mset p P) c \<and> page_table c p = Some f \<and>
    bpm_view c = bpm_view b \<and> bpm_pages c = bpm_pages b \<and> pool_shape c = pool_shape b \<and>
    (\<forall>q\<in>#P. page_table c q = page_table b q)"
proof -
  note ok = heldD(1) [OF h]
  have "count P p < 2 ^ 32 - 1" using count_le_size [of P p] P capacity_bound [OF ok] by linarith
  then have pin: "pins b p \<noteq> - 1" using held_count [OF h, of p] by (auto simp: unsigned_minus_1_eq_mask mask_eq_exp_minus_1)
  obtain f c where fp: "fetch_page p b = (Inr (Some f), c)" and fc: "fetched b p f c"
    using fetch_page_ok [OF ok p pin] few_pins_available [OF h P] by blast
  have c: "bpm_ok c" "page_table c p = Some f" "bpm_pages c = bpm_pages b" "bpm_view c = bpm_view b"
    "pins c = (pins b)(p := pins b p + 1)" "kept b c p" "disk_view (bdisk c) p = disk_view (bdisk b) p"
    "pg_dirty (frames c ! unat f) \<longleftrightarrow> page_table b p = Some f \<and> pg_dirty (frames b ! unat f)"
    "\<forall>q g. page_table b q = Some g \<longrightarrow> pins b q \<noteq> 0 \<longrightarrow> page_table c q = Some g"
    "pins b p = 0 \<longrightarrow> pg_dirty (frames c ! unat f) \<or> bpm_view c p = disk_view (bdisk c) p"
    using fc by (auto simp: fetched_def)
  note shape = fetch_shape [OF fp]
  have stay: "page_table c q = page_table b q" if "q \<in># P" for q
    using held_mapped [OF h that] held_pinned [OF h that] c(9) by auto
  have "tidy X c"
    unfolding tidy_def
  proof (intro allI impI)
    fix q g assume q: "page_table c q = Some g" "q \<notin> X"
    have v: "bpm_view c q = pg_data (frames c ! unat g)" using q by (simp add: bpm_view_def)
    consider "pins c q = 0" | "q = p" "pins b p = 0" | "q = p" "p \<in># P" | "q \<noteq> p" "q \<in># P"
      using held_unpinned [OF h, of q] c(5) by (cases "q = p") auto
    then show "pg_dirty (frames c ! unat g) \<or> pg_data (frames c ! unat g) = disk_view (bdisk c) q"
    proof cases
      case 1
      then show ?thesis using mappedD(8) [OF c(1) q(1)] q(1) by (auto simp: pins_def)
    next
      case 2
      then show ?thesis using c(2,10) q(1) v by simp
    next
      case 3
      then have "page_table b p = Some f" using stay [of p] c(2) by simp
      then show ?thesis using held_clean [OF h _ q(2), of f] 3(1) c(2,4,7,8) q(1) v by simp
    next
      case 4
      then have m: "page_table b q = Some g" using stay q(1) by simp
      then have "frames c ! unat g = frames b ! unat g" "disk_view (bdisk c) q = disk_view (bdisk b) q"
        using c(6) 4(1) held_pinned [OF h 4(2)] by (auto simp: kept_def)
      then show ?thesis using held_clean [OF h m q(2)] m by (auto simp: bpm_view_def)
    qed
  qed
  moreover have "pins c q = of_nat (count (add_mset p P) q)" for q
    using c(5) heldD(3) [OF h] by simp
  ultimately have "held X (add_mset p P) c" using c(1) P shape by (simp add: held_def pool_shape_def)
  then show ?thesis using fp c(2-4) stay shape by blast
qed

lemma held_unpin:
  assumes h: "held X (add_mset p P) b" and m: "page_table b p = Some f" and u: "pin_frame u = Some f"
    and d: "pin_dirty u \<or> p \<notin> X"
  shows "\<exists>c. unpin u b = (Inr (), c) \<and> held (X - {p}) P c \<and> bpm_view c = bpm_view b \<and> same_pool b c"
proof -
  note ok = heldD(1) [OF h]
  note D = mappedD [OF ok m]
  let ?fr = "frames b ! unat f" and ?g = "\<lambda>fr. dec_pin (if pin_dirty u then fr\<lparr>pg_dirty := True\<rparr> else fr)"
  have pp: "pins b p = pg_pin ?fr" and v: "bpm_view b p = pg_data ?fr" using m by (simp_all add: pins_def bpm_view_def)
  have clean: "pin_dirty u \<or> pg_dirty ?fr \<or> pg_data ?fr = disk_view (bdisk b) p"
    using held_clean [OF h m] d v by auto
  have g: "pg_id (?g ?fr) = p" "pg_data (?g ?fr) = pg_data ?fr" "pg_pin (?g ?fr) = pg_pin ?fr - 1"
    "pg_dirty (?g ?fr) \<longleftrightarrow> pin_dirty u \<or> pg_dirty ?fr"
    using D(5) by (simp_all add: dec_pin_def)
  obtain c where c: "change_frame f ?g b = (Inr (), c)" "bpm_ok c" "same_pool b c"
    "bpm_view c = (bpm_view b)(p := pg_data ?fr)" "pins c = (pins b)(p := pg_pin ?fr - 1)"
    "frames c = (frames b)[unat f := ?g ?fr]"
  proof -
    have "pg_data (?g ?fr) = disk_view (bdisk b) p" if "\<not> pg_dirty (?g ?fr)"
      using that clean g(2,4) by simp
    with change_mapped [OF ok m, of ?g, OF g(1)] D(7) show thesis unfolding g(2,3) by (blast intro: that)
  qed
  have "unpin u b = (Inr (), c)"
    using u m D(2,5) c(1) by (simp add: unpin_def and_then_Inr [of "frame_at f"] unpin_page_def)
  moreover have vw: "bpm_view c = bpm_view b" using c(4) v by (metis fun_upd_triv)
  moreover have "tidy (X - {p}) c"
    unfolding tidy_def
  proof (intro allI impI)
    fix q k assume q: "page_table c q = Some k" "q \<notin> X - {p}"
    then have mq: "page_table b q = Some k" "bdisk c = bdisk b" using c(3) by (simp_all add: same_pool_def)
    show "pg_dirty (frames c ! unat k) \<or> pg_data (frames c ! unat k) = disk_view (bdisk c) q"
    proof (cases "q = p")
      case True
      then show ?thesis using mq m c(6) D(2) g clean by auto
    next
      case False
      then have "unat k \<noteq> unat f" using mapped_inj [OF ok mq(1)] m by (auto dest: unsigned_word_eqI)
      then show ?thesis using held_clean [OF h mq(1)] False q(2) mq c(6) by (simp add: bpm_view_def)
    qed
  qed
  moreover have "pins c q = of_nat (count P q)" for q
    using c(5) heldD(3) [OF h, of q] heldD(3) [OF h, of p] pp by simp
  ultimately show ?thesis using c(2,3) heldD(4) [OF h] by (auto simp: held_def same_pool_def)
qed

section \<open>Reading and changing a held page\<close>

lemma make_pinned_simps [simp]: "pin_frame (make_pinned m) = m" "pin_frame (mark_dirty u) = pin_frame u" "pin_dirty (mark_dirty u)"
  by (simp_all add: make_pinned_def mark_dirty_def)

lemma held_frame:
  assumes "held X P b" and "page_table b p = Some f"
  shows "frame_at f b = (Inr (frames b ! unat f), b)" "pg_data (frames b ! unat f) = bpm_view b p"
    "pg_id (frames b ! unat f) = p" "frame_page_id f b = (Inr p, b)"
  using mappedD(2,5) [OF heldD(1) [OF assms(1)] assms(2)] assms(2)
  by (simp_all add: bpm_view_def frame_page_id_def and_then_Inr [of "frame_at f"])

lemma held_data:
  "held X P b \<Longrightarrow> page_table b p = Some f \<Longrightarrow> pin_frame u = Some f \<Longrightarrow> pinned_data u b = (Inr (bpm_view b p), b)"
  using pinned_data_ok heldD(1) by blast

lemma held_read:
  "held X P b \<Longrightarrow> page_table b p = Some f \<Longrightarrow> pin_frame u = Some f \<Longrightarrow>
   read_page_of u g b = (g (bpm_view b p), b)"
  by (simp add: read_page_of_def and_then_Inr [of "pinned_data u" b, OF held_data])

lemma held_page_id:
  "held X P b \<Longrightarrow> page_table b p = Some f \<Longrightarrow> pin_frame u = Some f \<Longrightarrow> pinned_page_id u b = (Inr p, b)"
  using held_frame [of X P b p f] by (simp add: pinned_page_id_def and_then_Inr [of "frame_at f"])

text \<open>Writing the bytes that are there already changes nothing.\<close>

lemma held_rewrite:
  assumes h: "held X P b" and m: "page_table b p = Some f" and u: "pin_frame u = Some f"
    and g: "g (bpm_view b p) = Inr (x, bpm_view b p)"
  shows "on_page u g b = (Inr x, b)"
proof -
  have same: "(frames b ! unat f)\<lparr>pg_data := bpm_view b p\<rparr> = frames b ! unat f"
    using held_frame(2) [OF h m] by (cases "frames b ! unat f") simp
  have "change_frame f (\<lambda>fr. fr\<lparr>pg_data := bpm_view b p\<rparr>) b = (Inr (), b)"
    using change_frame_ok [OF mappedD(2) [OF heldD(1) [OF h] m], of "\<lambda>fr. fr\<lparr>pg_data := bpm_view b p\<rparr>"]
    unfolding same by simp
  then have sd: "set_data u (bpm_view b p) b = (Inr (), b)" using u by (simp add: set_data_def)
  show ?thesis
    unfolding on_page_def and_then_Inr [of "pinned_data u" b, OF held_data [OF h m u]] g
    by (simp add: and_then_Inr [of "set_data u (bpm_view b p)" b, OF sd])
qed

text \<open>A change makes the page untidy until its handle is marked and released.\<close>

lemma held_change:
  assumes h: "held X P b" and m: "page_table b p = Some f" and p: "p \<in># P" and u: "pin_frame u = Some f"
    and g: "g (bpm_view b p) = Inr (x, d)" and d: "length d = kPAGE_SIZE"
  shows "\<exists>c. on_page u g b = (Inr x, c) \<and> held (insert p X) P c \<and> bpm_view c = (bpm_view b)(p := d) \<and> same_pool b c"
proof -
  note ok = heldD(1) [OF h]
  note D = mappedD [OF ok m]
  let ?fr = "frames b ! unat f" and ?s = "\<lambda>fr. fr\<lparr>pg_data := d\<rparr>"
  have pp: "pins b p = pg_pin ?fr" using m by (simp add: pins_def)
  obtain c where c: "change_frame f ?s b = (Inr (), c)" "bpm_ok c" "same_pool b c"
    "bpm_view c = (bpm_view b)(p := d)" "pins c = (pins b)(p := pins b p)" "frames c = (frames b)[unat f := ?s ?fr]"
    using change_mapped [OF ok m, of ?s] D(5) d pp held_pinned [OF h p] by auto
  have "tidy (insert p X) c"
    unfolding tidy_def
  proof (intro allI impI)
    fix q k assume q: "page_table c q = Some k" "q \<notin> insert p X"
    then have mq: "page_table b q = Some k" "bdisk c = bdisk b" using c(3) by (simp_all add: same_pool_def)
    have "k \<noteq> f" using mapped_inj [OF ok mq(1), of p] m q(2) by blast
    then have "unat k \<noteq> unat f" by (auto dest: unsigned_word_eqI)
    then show "pg_dirty (frames c ! unat k) \<or> pg_data (frames c ! unat k) = disk_view (bdisk c) q"
      using held_clean [OF h mq(1)] q(2) mq c(6) by (simp add: bpm_view_def)
  qed
  then have "held (insert p X) P c" using c(2,3,5) h by (simp add: held_def same_pool_def)
  moreover have sd: "set_data u d b = (Inr (), c)" using c(1) u by (simp add: set_data_def)
  have "on_page u g b = (Inr x, c)"
    unfolding on_page_def and_then_Inr [of "pinned_data u" b, OF held_data [OF h m u]] g
    by (simp add: and_then_Inr [of "set_data u d" b, OF sd])
  ultimately show ?thesis using c(3,4) by (intro exI [of _ c] conjI)
qed

text \<open>A new page: it is untidy too, since its zeros are only in the frame.\<close>

lemma held_new:
  assumes h: "held X P b" and room: "disk_room (bdisk b)" and P: "size P < pool_capacity b"
  shows "\<exists>p f c. new_page b = (Inr (Some f), c) \<and> held (insert p X) (add_mset p P) c \<and> p \<notin> bpm_pages b \<and>
    bpm_pages c = insert p (bpm_pages b) \<and> page_table c p = Some f \<and> bpm_view c = (bpm_view b)(p := zero_page) \<and>
    pool_capacity c = pool_capacity b \<and> (\<forall>q\<in>#P. page_table c q = page_table b q)"
proof -
  note ok = heldD(1) [OF h]
  from new_page_ok [OF ok room few_pins_available [OF h P]]
  obtain p f c where np: "new_page b = (Inr (Some f), c)" and c: "bpm_ok c" "p \<notin> bpm_pages b"
    "bpm_pages c = insert p (bpm_pages b)" "page_table c p = Some f" "bpm_view c = (bpm_view b)(p := zero_page)"
    "pins c = (pins b)(p := 1)" "kept b c p"
    "\<forall>q g. page_table b q = Some g \<longrightarrow> pins b q \<noteq> 0 \<longrightarrow> page_table c q = Some g"
    by (elim exE conjE) (rule that; assumption)
  have fresh: "p \<notin># P" using held_mapped [OF h] mappedD(6) [OF ok] c(2) by blast
  have stay: "page_table c q = page_table b q" if "q \<in># P" for q
    using held_mapped [OF h that] held_pinned [OF h that] c(8) by auto
  have cap: "pool_capacity c = pool_capacity b"
    using keepsD [OF keeps_new_capacity [of "pool_capacity b"] _ np] by simp
  have "tidy (insert p X) c"
    unfolding tidy_def
  proof (intro allI impI)
    fix q g assume q: "page_table c q = Some g" "q \<notin> insert p X"
    show "pg_dirty (frames c ! unat g) \<or> pg_data (frames c ! unat g) = disk_view (bdisk c) q"
    proof (cases "q \<in># P")
      case False
      then have "pins c q = 0" using c(6) held_unpinned [OF h, of q] q(2) by simp
      then show ?thesis using mappedD(8) [OF c(1) q(1)] q(1) by (auto simp: pins_def)
    next
      case True
      then have m: "page_table b q = Some g" using stay q(1) by simp
      then have "frames c ! unat g = frames b ! unat g" "disk_view (bdisk c) q = disk_view (bdisk b) q"
        using c(7) q(2) held_pinned [OF h True] by (auto simp: kept_def)
      then show ?thesis using held_clean [OF h m] q(2) m by (auto simp: bpm_view_def)
    qed
  qed
  moreover have "pins c q = of_nat (count (add_mset p P) q)" for q
    using c(6) heldD(3) [OF h] fresh by (simp add: not_in_iff)
  ultimately have "held (insert p X) (add_mset p P) c" using c(1) P cap by (simp add: held_def)
  then show ?thesis using np c(2-5) stay cap by blast
qed

end
