(* ===== verification/Recency.thy ===== *)
theory Recency
  imports Heap_Pins
begin

text \<open>
  What the replacer remembers: the list of a \<open>BufferReplacer\<close> against the history of the pool. \<open>pool_trace\<close>
  runs a pool from its construction and records every page a client has fetched or created; the list
  of the replacer is the cached pages in the order of their last use.
\<close>

section \<open>Histories\<close>

text \<open>\<open>pool_trace us b\<close>: a pool has reached state \<open>b\<close> and its clients have used the pages \<open>us\<close>, in this order.\<close>

inductive pool_trace :: "page_id list \<Rightarrow> bpm \<Rightarrow> bool" where
  Trace_open: "pool_trace [] (bpm_object d n)"
| Trace_fetch: "pool_trace us b \<Longrightarrow> fetch_page p b = (Inr (Some f), c) \<Longrightarrow> pool_trace (us @ [p]) c"
| Trace_no_frame: "pool_trace us b \<Longrightarrow> fetch_page p b = (Inr None, c) \<Longrightarrow> pool_trace us c"
| Trace_new: "pool_trace us b \<Longrightarrow> new_page b = (Inr (Some f), c) \<Longrightarrow> pool_trace (us @ [pg_id (frames c ! unat f)]) c"
| Trace_unpin: "pool_trace us b \<Longrightarrow> unpin u b = (Inr (), c) \<Longrightarrow> pool_trace us c"
| Trace_write: "pool_trace us b \<Longrightarrow> set_data u d b = (Inr (), c) \<Longrightarrow> pool_trace us c"
| Trace_delete: "pool_trace us b \<Longrightarrow> delete_page p b = (Inr x, c) \<Longrightarrow> pool_trace us c"
| Trace_flush: "pool_trace us b \<Longrightarrow> bpm_flush_all b = (Inr (), c) \<Longrightarrow> pool_trace us c"

section \<open>The list of the replacer\<close>

text \<open>\<open>remdups\<close> keeps the last occurrence of a page: the pages in the order of their last use.\<close>

lemma remdups_snoc: "remdups (us @ [p]) = removeAll p (remdups us) @ [p]"
  by (induction us) auto

definition recency :: "page_id list \<Rightarrow> bpm \<Rightarrow> bool" where
  "recency us b \<longleftrightarrow> replacer_ok (replacer b) \<and> dom (page_table b) \<subseteq> set us \<and>
     lru_order (replacer b) = filter (\<lambda>q. q \<in> dom (page_table b)) (remdups us)"

lemma recency_cong: "recency us b \<Longrightarrow> replacer c = replacer b \<Longrightarrow> page_table c = page_table b \<Longrightarrow> recency us c"
  by (simp add: recency_def)

lemma recency_used:
  assumes "recency us b" and "replacer_ok r" and "lru_order r = removeAll p (lru_order (replacer b)) @ [p]"
    and "dom (page_table c) = insert p (dom (page_table b))" and "replacer c = r"
  shows "recency (us @ [p]) c"
proof -
  have "filter (\<lambda>q. q \<in> insert p D) (removeAll p xs) = removeAll p (filter (\<lambda>q. q \<in> D) xs)" for D and xs :: "page_id list"
    by (induction xs) auto
  then show ?thesis using assms by (auto simp: recency_def remdups_snoc)
qed

text \<open>Steps that touch neither the list nor the page table.\<close>

definition untouched :: "(bpm, 'a) proc \<Rightarrow> bool" where
  "untouched m \<longleftrightarrow> (\<forall>r t. keeps (\<lambda>b. replacer b = r \<and> page_table b = t) m)"

lemma untouched_and_then: "untouched m \<Longrightarrow> (\<And>x. untouched (f x)) \<Longrightarrow> untouched (and_then m f)"
  by (simp add: untouched_def keeps_and_then)

lemma untouched_basic [simp]: "untouched (ret x)" "untouched (throw e)" "untouched (gets g)" "untouched (require c e)" "untouched (lift r)"
  "untouched (set_frame f fr)" "untouched (on_disk m)"
  by (auto simp: untouched_def keeps_def require_def set_frame_def on_disk_def zoom_def split: prod.split)

lemma untouched_frame: "untouched (frame_at f)" "untouched (change_frame f g)" "untouched (flush_page fr)"
  unfolding frame_at_def change_frame_def flush_page_def by (auto intro!: untouched_and_then)

lemma untouched_recency:
  assumes u: "untouched m" and r: "recency us b" and m: "m b = (r, c)"
  shows "recency us c"
proof -
  have "keeps (\<lambda>x. replacer x = replacer b \<and> page_table x = page_table b) m" using u by (simp add: untouched_def)
  from keepsD [OF this _ m] have "replacer c = replacer b" "page_table c = page_table b" by simp_all
  with r show ?thesis by (rule recency_cong)
qed

lemma untouched_unpin: "untouched (unpin u)" "untouched (set_data u d)" "untouched (load_page p f)" "untouched bpm_flush_all"
proof -
  show "untouched (unpin u)" "untouched (set_data u d)" "untouched (load_page p f)"
    unfolding unpin_def unpin_page_def set_data_def load_page_def
    by (auto intro!: untouched_and_then untouched_frame split: option.split)
  have "untouched (flush_frames fs)" for fs
  proof (induction fs)
    case Nil
    then show ?case unfolding flush_frames.simps by (rule untouched_basic)
  next
    case (Cons fr fs)
    then show ?case by (auto intro!: untouched_and_then untouched_frame)
  qed
  then show "untouched bpm_flush_all" unfolding bpm_flush_all_def by (auto intro!: untouched_and_then)
qed

text \<open>A page that leaves the page table leaves the list.\<close>

lemma recency_removed:
  assumes r: "recency us b" and m: "on_replacer (replacer_remove p) (b\<lparr>page_table := (page_table b)(p := None)\<rparr>) = (x, c)"
  shows "x = Inr () \<and> recency us c \<and> frames c = frames b"
proof -
  obtain s where s: "replacer_remove p (replacer b) = (Inr (), s)" "replacer_ok s" "lru_order s = removeAll p (lru_order (replacer b))"
    using replacer_remove_ok r by (metis recency_def)
  then have c: "x = Inr ()" "c = b\<lparr>page_table := (page_table b)(p := None), replacer := s\<rparr>"
    using m by (simp_all add: on_replacer_def zoom_def)
  have "removeAll p (filter (\<lambda>q. q \<in> D) xs) = filter (\<lambda>q. q \<in> D - {p}) xs" for D and xs :: "page_id list" by (induction xs) auto
  then show ?thesis using r s c by (auto simp: recency_def)
qed

lemma evict_recency:
  assumes r: "recency us b" and e: "evict_frame f b = (Inr (), c)"
  shows "recency us c"
proof -
  obtain fr where fr: "frame_at f b = (Inr fr, b)" using e by (auto simp: evict_frame_def and_then_eq_Inr frame_at_def require_def split: if_splits)
  let ?m = "and_then (modify (\<lambda>b. b\<lparr>page_table := (page_table b)(pg_id fr := None)\<rparr>)) (\<lambda>_. on_replacer (replacer_remove (pg_id fr)))"
  obtain d where d: "(if pg_id fr \<noteq> INVALID_PAGE_ID then ?m else ret ()) b = (Inr (), d)" "(if pg_dirty fr then flush_page fr else ret ()) d = (Inr (), c)"
    using e unfolding evict_frame_def and_then_Inr [of "frame_at f" b, OF fr] by (auto simp: and_then_eq_Inr split: if_splits)
  have "recency us d"
  proof (cases "pg_id fr = INVALID_PAGE_ID")
    case False
    then have "on_replacer (replacer_remove (pg_id fr)) (b\<lparr>page_table := (page_table b)(pg_id fr := None)\<rparr>) = (Inr (), d)" using d(1) by simp
    from recency_removed [OF r this] show ?thesis by blast
  qed (use d(1) r in simp)
  moreover have "untouched (if pg_dirty fr then flush_page fr else ret ())" by (simp add: untouched_frame)
  ultimately show ?thesis using untouched_recency d(2) by blast
qed

lemma record_recency:
  assumes r: "recency us b" and m: "on_replacer (replacer_record p) (b\<lparr>page_table := t, frames := fs\<rparr>) = (x, c)"
    and t: "dom t = insert p (dom (page_table b))"
  shows "x = Inr () \<and> recency (us @ [p]) c \<and> frames c = fs"
proof -
  obtain s where s: "replacer_record p (replacer b) = (Inr (), s)" "replacer_ok s" "lru_order s = removeAll p (lru_order (replacer b)) @ [p]"
    using replacer_record_ok r by (metis recency_def)
  then have c: "x = Inr ()" "c = b\<lparr>page_table := t, frames := fs, replacer := s\<rparr>" using m by (simp_all add: on_replacer_def zoom_def)
  then show ?thesis using recency_used [OF r s(2,3), of c] t by simp
qed

lemma install_recency:
  assumes r: "recency us b" and m: "install_page p f b = (Inr (), c)"
  shows "recency (us @ [p]) c \<and> pg_id (frames c ! unat f) = p"
proof -
  let ?b = "b\<lparr>page_table := (page_table b)(p \<mapsto> f)\<rparr>"
  have f: "unat f < length (frames b)"
    using m by (auto simp: install_page_def and_then_eq_Inr change_frame_def frame_at_def require_def split: if_splits)
  let ?fs = "(frames b)[unat f := inc_pin (reset_memory p (frames b ! unat f))]"
  have "on_replacer (replacer_record p) (?b\<lparr>frames := ?fs\<rparr>) = (Inr (), c)"
    using m f by (simp add: install_page_def and_then_Inr [of "change_frame f _" ?b, OF change_frame_ok])
  then have "on_replacer (replacer_record p) (b\<lparr>page_table := (page_table b)(p \<mapsto> f), frames := ?fs\<rparr>) = (Inr (), c)" by simp
  from record_recency [OF r this] f show ?thesis by (simp add: inc_pin_def reset_memory_def)
qed

lemma find_lru_in: "find_lru pin ps = Inr p \<Longrightarrow> p = INVALID_PAGE_ID \<or> p \<in> set ps"
  by (induction ps) (auto simp: bind_res_eq_Inr split: option.splits if_splits)

lemma next_frame_recency:
  assumes r: "recency us b" and m: "find_next_frame b = (Inr f, c)"
  shows "recency us c"
proof -
  consider "free_frames b \<noteq> []" | "free_frames b = []" "pool_size b < pool_capacity b" | "free_frames b = []" "\<not> pool_size b < pool_capacity b" by blast
  then show ?thesis
  proof cases
    case 3
    then obtain p where p: "find_lru (pin_of b) (lru_order (replacer b)) = Inr p"
      using m by (cases "find_lru (pin_of b) (lru_order (replacer b))") (auto simp: find_next_frame_def)
    show ?thesis
    proof (cases "p = INVALID_PAGE_ID")
      case True
      then show ?thesis using 3 m p r by (simp add: find_next_frame_def)
    next
      case False
      then have "p \<in> dom (page_table b)" using find_lru_in [OF p] r by (simp add: recency_def)
      then show ?thesis using 3 m p r False by (auto simp: find_next_frame_def)
    qed
  qed (use m r in \<open>auto simp: find_next_frame_def intro: recency_cong\<close>)
qed

lemma load_page_id: "load_page p f b = (Inr (), c) \<Longrightarrow> pg_id (frames c ! unat f) = pg_id (frames b ! unat f)"
  by (auto simp: load_page_def change_frame_def set_frame_def frame_at_def and_then_eq_Inr require_def on_disk_def zoom_def
      split: if_splits prod.splits)

lemma swap_recency:
  assumes r: "recency us b" and m: "swap_page p rd b = (Inr x, c)"
  shows "case x of None \<Rightarrow> recency us c | Some f \<Rightarrow> recency (us @ [p]) c \<and> pg_id (frames c ! unat f) = p"
proof -
  obtain f b1 where f: "find_next_frame b = (Inr f, b1)" using m by (auto simp: swap_page_def and_then_eq_Inr)
  have r1: "recency us b1" using next_frame_recency [OF r f] .
  show ?thesis
  proof (cases "f = INVALID_FRAME_ID")
    case True
    then show ?thesis using m r1 by (simp add: swap_page_def and_then_Inr [of find_next_frame b, OF f])
  next
    case False
    then obtain b2 b3 where e: "evict_frame f b1 = (Inr (), b2)" and i: "install_page p f b2 = (Inr (), b3)"
      and l: "(if rd then load_page p f else ret ()) b3 = (Inr (), c)" and x: "x = Some f"
      using m by (auto simp: swap_page_def and_then_Inr [of find_next_frame b, OF f] and_then_eq_Inr)
    note I = install_recency [OF evict_recency [OF r1 e] i]
    have "untouched (if rd then load_page p f else ret ())" by (simp add: untouched_unpin)
    then have "recency (us @ [p]) c" using untouched_recency I l by blast
    moreover have "pg_id (frames c ! unat f) = p" using I l load_page_id [of p f b3 c] by (cases rd) auto
    ultimately show ?thesis using x by simp
  qed
qed

lemma fetch_recency:
  assumes r: "recency us b" and m: "fetch_page p b = (Inr x, c)"
  shows "case x of None \<Rightarrow> recency us c | Some f \<Rightarrow> recency (us @ [p]) c"
proof (cases "page_table b p")
  case None
  then have "find_cached_page p b = (Inr None, b)" by (simp add: find_cached_page_def)
  then have "swap_page p True b = (Inr x, c)" using m by (simp add: fetch_page_def and_then_Inr [of "find_cached_page p"])
  from swap_recency [OF r this] show ?thesis by (auto split: option.splits)
next
  case (Some f)
  obtain y d where y: "find_cached_page p b = (Inr y, d)" using m by (auto simp: fetch_page_def and_then_eq_Inr)
  then have f: "unat f < length (frames b)"
    using Some by (auto simp: find_cached_page_def and_then_eq_Inr change_frame_def frame_at_def require_def split: if_splits)
  let ?b = "b\<lparr>frames := (frames b)[unat f := inc_pin (frames b ! unat f)]\<rparr>"
  have "and_then (on_replacer (replacer_record p)) (\<lambda>_. ret (Some f)) ?b = (Inr y, d)"
    using y Some f by (simp add: find_cached_page_def and_then_Inr [of "change_frame f _" b, OF change_frame_ok])
  then obtain z where z: "on_replacer (replacer_record p) ?b = (Inr z, d)" "y = Some f" by (auto simp: and_then_eq_Inr)
  have eq: "b\<lparr>page_table := page_table b, frames := fs\<rparr> = b\<lparr>frames := fs\<rparr>" for fs by (cases b) simp
  have "dom (page_table b) = insert p (dom (page_table b))" using Some by auto
  with record_recency [OF r, where t = "page_table b", unfolded eq, OF z(1)]
  have "recency (us @ [p]) d" by simp
  moreover have "x = Some f" "c = d" using m y z(2) by (simp_all add: fetch_page_def and_then_Inr [of "find_cached_page p" b, OF y])
  ultimately show ?thesis by simp
qed

lemma delete_recency:
  assumes r: "recency us b" and m: "delete_page p b = (Inr x, c)"
  shows "recency us c"
proof (cases "page_table b p")
  case None
  then show ?thesis using m untouched_recency [OF untouched_basic(7) r] by (auto simp: delete_page_def and_then_eq_Inr)
next
  case (Some f)
  then have f: "unat f < length (frames b)"
    using m by (auto simp: delete_page_def and_then_eq_Inr frame_at_def require_def split: if_splits)
  show ?thesis
  proof (cases "pg_pin (frames b ! unat f) > 0")
    case True
    then show ?thesis using m Some f r by (simp add: delete_page_def and_then_assoc and_then_Inr [of "frame_at f" b])
  next
    case False
    then obtain d e where d: "on_replacer (replacer_remove p) (b\<lparr>page_table := (page_table b)(p := None)\<rparr>) = (Inr (), d)"
      and e: "and_then (change_frame f (reset_memory INVALID_PAGE_ID)) (\<lambda>_.
          and_then (modify (\<lambda>b. b\<lparr>free_frames := free_frames b @ [f]\<rparr>)) (\<lambda>_. ret True)) d = (Inr True, e)"
        "on_disk (deallocate_page p) e = (Inr (), c)"
      using m Some f by (auto simp: delete_page_def and_then_Inr [of "frame_at f" b] and_then_assoc and_then_eq_Inr)
    have "untouched (modify (\<lambda>b. b\<lparr>free_frames := free_frames b @ [f]\<rparr>))" by (simp add: untouched_def keeps_modify)
    then have "untouched (and_then (change_frame f (reset_memory INVALID_PAGE_ID)) (\<lambda>_.
        and_then (modify (\<lambda>b. b\<lparr>free_frames := free_frames b @ [f]\<rparr>)) (\<lambda>_. ret True)))"
      by (auto intro!: untouched_and_then untouched_frame)
    from untouched_recency [OF this _ e(1)] recency_removed [OF r d] have "recency us e" by blast
    from untouched_recency [OF untouched_basic(7) this e(2)] show ?thesis .
  qed
qed

lemma trace_recency: "pool_trace us b \<Longrightarrow> recency us b"
proof (induction rule: pool_trace.induct)
  case (Trace_open d n)
  then show ?case by (simp add: recency_def bpm_object_def replacer_ok_empty)
next
  case (Trace_fetch us b p f c)
  then show ?case using fetch_recency by fastforce
next
  case (Trace_no_frame us b p c)
  then show ?case using fetch_recency by fastforce
next
  case (Trace_new us b f c)
  obtain p d where a: "on_disk allocate_page b = (Inr p, d)" "swap_page p False d = (Inr (Some f), c)"
    using Trace_new.hyps(2) by (auto simp: new_page_def and_then_eq_Inr)
  have "recency us d" using untouched_recency [OF untouched_basic(7) Trace_new.IH a(1)] .
  from swap_recency [OF this a(2)] show ?case by simp
qed (auto intro: untouched_recency untouched_unpin delete_recency)

section \<open>The replaced page\<close>

lemma find_last_use:
  "List.find P (remdups us) = Some v \<Longrightarrow> \<exists>xs ys. us = xs @ v # ys \<and> v \<notin> set ys \<and> (\<forall>q\<in>set us. P q \<longrightarrow> q \<noteq> v \<longrightarrow> q \<in> set ys)"
proof (induction us)
  case (Cons x us)
  show ?case
  proof (cases "x \<in> set us \<or> \<not> P x")
    case True
    then have "List.find P (remdups us) = Some v" using Cons.prems by (auto split: if_splits)
    from Cons.IH [OF this] obtain xs ys where "us = xs @ v # ys" "v \<notin> set ys" "\<forall>q\<in>set us. P q \<longrightarrow> q \<noteq> v \<longrightarrow> q \<in> set ys" by blast
    then show ?thesis using True by (intro exI [of _ "x # xs"] exI [of _ ys]) auto
  next
    case False
    then have "v = x" using Cons.prems by simp
    then show ?thesis using False by (intro exI [of _ "[]"] exI [of _ us]) auto
  qed
qed simp

lemma find_filter: "List.find P (filter Q xs) = List.find (\<lambda>x. Q x \<and> P x) xs"
  by (induction xs) auto

lemma victim_last_use:
  assumes ok: "bpm_ok b" and r: "recency us b" and q: "q \<in> dom (page_table b)" "pins b q = 0"
  obtains v xs ys where "lru_victim b = Some v" "us = xs @ v # ys" "v \<notin> set ys"
    "\<forall>q\<in>dom (page_table b). pins b q = 0 \<longrightarrow> q \<noteq> v \<longrightarrow> q \<in> set ys"
proof -
  let ?P = "\<lambda>q. q \<in> dom (page_table b) \<and> pins b q = 0"
  have l: "lru_victim b = List.find ?P (remdups us)" using r by (simp add: lru_victim_def recency_def find_filter)
  have U: "dom (page_table b) \<subseteq> set us" using r by (simp add: recency_def)
  then have "List.find ?P (remdups us) \<noteq> None" using q by (auto simp: find_None_iff)
  then obtain v where v: "List.find ?P (remdups us) = Some v" by blast
  from find_last_use [OF v] obtain xs ys where "us = xs @ v # ys" "v \<notin> set ys" "\<forall>q\<in>set us. ?P q \<longrightarrow> q \<noteq> v \<longrightarrow> q \<in> set ys" by blast
  then show thesis using that l v U by (metis (no_types, lifting) subsetD)
qed

text \<open>
  C28: Replacement is least recently used. In a pool whose clients have used (fetched or created) the
  pages \<open>us\<close> since it was opened, fetching a page that is not cached when no frame is free takes the frame
  of the cached, unpinned page \<open>v\<close> whose last use is the oldest: every other such page was used after
  it. Only \<open>v\<close> leaves the cache, and its bytes are the ones the disk then has. When all cached pages are
  pinned, the fetch fails and changes nothing.
\<close>

theorem lru_replacement:
  assumes ok: "bpm_ok b" and us: "pool_trace us b" and full: "free_frames b = []" "pool_size b = pool_capacity b"
    and new: "page_table b p = None" and p: "p \<in> bpm_pages b"
  shows "if \<exists>q\<in>dom (page_table b). pins b q = 0
    then \<exists>v xs ys f c. us = xs @ v # ys \<and> v \<notin> set ys \<and> pins b v = 0 \<and> page_table b v = Some f \<and>
      (\<forall>q\<in>dom (page_table b). pins b q = 0 \<longrightarrow> q \<noteq> v \<longrightarrow> q \<in> set ys) \<and>
      fetch_page p b = (Inr (Some f), c) \<and> page_table c = (page_table b)(v := None, p \<mapsto> f) \<and> disk_view (bdisk c) v = bpm_view b v
    else fetch_page p b = (Inr None, b)"
proof (cases "\<exists>q\<in>dom (page_table b). pins b q = 0")
  case True
  then obtain q where "q \<in> dom (page_table b)" "pins b q = 0" by blast
  from victim_last_use [OF ok trace_recency [OF us] this] obtain v xs ys where v: "lru_victim b = Some v"
    "us = xs @ v # ys" "v \<notin> set ys" "\<forall>q\<in>dom (page_table b). pins b q = 0 \<longrightarrow> q \<noteq> v \<longrightarrow> q \<in> set ys" by blast
  from fetch_evicts [OF ok full new p v(1)] v(2-4) True show ?thesis by (simp only: if_True) blast
next
  case False
  then have "\<not> frame_available b" using full by (simp add: frame_available_def)
  from fetch_page_full [OF ok new this] False show ?thesis by simp
qed

text \<open>A pool of two frames over three pages: page 1 is used, then 3, then 1 again.\<close>

definition three_pages :: disk where
  "three_pages = sample_disk\<lparr>dcapacity := 5\<rparr>"

lemma three_pages_ok: "disk_ok three_pages" "free_ok three_pages" "in_use three_pages = {1, 3, 4}"
proof -
  show "disk_ok three_pages" "free_ok three_pages" by (simp_all add: three_pages_def sample_disk_def disk_ok_def free_ok_def kPAGE_SIZE_def)
  have "p \<in> {0, 1, 2, 3, 4}" if "p < 5" for p :: page_id
  proof -
    have "unat p < 5" using that by (simp add: word_less_nat_alt)
    then have "unat p \<in> {0, 1, 2, 3, 4}" by auto
    moreover have "p = word_of_nat (unat p)" by simp
    ultimately have "p = word_of_nat 0 \<or> p = word_of_nat 1 \<or> p = word_of_nat 2 \<or> p = word_of_nat 3 \<or> p = word_of_nat 4"
      unfolding insert_iff by (metis empty_iff)
    then show ?thesis by simp
  qed
  then show "in_use three_pages = {1, 3, 4}" by (fastforce simp: in_use_def three_pages_def sample_disk_def)
qed

lemma unpin_trace:
  assumes "pool_trace us b" and "held {} (add_mset p P) b" and "page_table b p = Some f"
  obtains c where "pool_trace us c" "held {} P c" "page_table c = page_table b" "bpm_pages c = bpm_pages b" "pool_capacity c = pool_capacity b"
proof -
  obtain c where c: "unpin (make_pinned (Some f)) b = (Inr (), c)" "held ({} - {p}) P c" "same_pool b c"
    using held_unpin [OF assms(2,3), of "make_pinned (Some f)"] by auto
  from Trace_unpin [OF assms(1) c(1)] that [of c] c(2,3) show thesis by (simp add: same_pool_def)
qed

lemma three_pages_pool:
  obtains b f g where "pool_trace [1, 3, 1] b" "held {} {#} b" "page_table b 1 = Some f" "page_table b 3 = Some g"
    "bpm_pages b = {1, 3, 4}" "pool_capacity b = 2"
proof -
  let ?b = "bpm_object three_pages 2"
  have h: "held {} {#} ?b" using bpm_object_ok [OF three_pages_ok(1,2), of 2] by (simp add: held_def tidy_def bpm_object_def)
  have pg: "bpm_pages ?b = {1, 3, 4}" "pool_capacity ?b = 2" using three_pages_ok(3) by (simp_all add: bpm_object_def)
  obtain f b1 where b1: "fetch_page 1 ?b = (Inr (Some f), b1)" "held {} {#1#} b1" "page_table b1 1 = Some f" "bpm_pages b1 = {1, 3, 4}" "pool_capacity b1 = 2"
    using held_fetch [OF h, of 1] pg by (auto simp: pool_shape_def)
  obtain g b2 where b2: "fetch_page 3 b1 = (Inr (Some g), b2)" "held {} {#3, 1#} b2" "page_table b2 3 = Some g" "page_table b2 1 = Some f"
    "bpm_pages b2 = {1, 3, 4}" "pool_capacity b2 = 2"
    using held_fetch [OF b1(2), of 3] b1(3-5) by (auto simp: pool_shape_def)
  have t2: "pool_trace [1, 3] b2" using Trace_fetch [OF Trace_fetch [OF Trace_open b1(1)] b2(1)] by simp
  have "held {} (add_mset 1 {#3#}) b2" using b2(2) by (simp add: add_mset_commute)
  from unpin_trace [OF t2 this b2(4)] obtain b3 where b3: "pool_trace [1, 3] b3" "held {} {#3#} b3" "page_table b3 = page_table b2"
    "bpm_pages b3 = bpm_pages b2" "pool_capacity b3 = pool_capacity b2" by blast
  obtain h b4 where b4: "fetch_page 1 b3 = (Inr (Some h), b4)" "held {} {#1, 3#} b4" "page_table b4 1 = Some h" "page_table b4 3 = Some g"
    "bpm_pages b4 = {1, 3, 4}" "pool_capacity b4 = 2"
    using held_fetch [OF b3(2), of 1] b3(3-5) b2(3,5,6) by (auto simp: pool_shape_def)
  have t4: "pool_trace [1, 3, 1] b4" using Trace_fetch [OF b3(1) b4(1)] by simp
  from unpin_trace [OF t4 b4(2,3)] obtain b5 where b5: "pool_trace [1, 3, 1] b5" "held {} {#3#} b5" "page_table b5 = page_table b4"
    "bpm_pages b5 = bpm_pages b4" "pool_capacity b5 = pool_capacity b4" by blast
  have "page_table b5 3 = Some g" using b5(3) b4(4) by simp
  from unpin_trace [OF b5(1,2) this] obtain b6 where "pool_trace [1, 3, 1] b6" "held {} {#} b6" "page_table b6 = page_table b5"
    "bpm_pages b6 = bpm_pages b5" "pool_capacity b6 = pool_capacity b5" by blast
  then show thesis using that b4 b5(3-5) by simp
qed

theorem lru_replacement_witness:
  "\<exists>b f c. pool_trace [1, 3, 1] b \<and> fetch_page 4 b = (Inr (Some f), c) \<and> page_table b 3 = Some f \<and>
     page_table c 3 = None \<and> page_table c 1 \<noteq> None"
proof -
  obtain b f g where b: "pool_trace [1, 3, 1] b" "held {} {#} b" "page_table b 1 = Some f" "page_table b 3 = Some g"
    "bpm_pages b = {1, 3, 4}" "pool_capacity b = 2" by (rule three_pages_pool)
  have ok: "bpm_ok b" using heldD(1) [OF b(2)] .
  have "f \<noteq> g" using mapped_inj [OF ok b(3), of 3] b(4) by auto
  then have fg: "unat f \<noteq> unat g" by (auto dest: unsigned_word_eqI)
  have size: "pool_size b \<le> 2" using ok b(6) by (simp add: bpm_inv_def frames_ok_def)
  then have lt: "unat f < 2" "unat g < 2" "pool_size b = 2" using mappedD(1) [OF ok b(3)] mappedD(1) [OF ok b(4)] fg by linarith+
  then have one: "h \<in> {f, g}" if "unat h < 2" for h using that fg by (metis insertCI less_2_cases unsigned_word_eqI)
  have "set (free_frames b) = {}"
  proof -
    have "unat h < 2" if "h \<in> set (free_frames b)" for h using that ok lt(3) by (auto simp: bpm_inv_def frames_ok_def)
    then have "h \<notin> set (free_frames b)" for h using one [of h] mappedD(3) [OF ok b(3)] mappedD(3) [OF ok b(4)] by auto
    then show ?thesis by (metis ex_in_conv)
  qed
  then have full: "free_frames b = []" "pool_size b = pool_capacity b" using lt(3) b(6) by simp_all
  have d: "dom (page_table b) = {1, 3}"
  proof -
    have "q \<in> {1, 3}" if "page_table b q = Some h" for q h
      using one [of h] mappedD(1) [OF ok that] lt(3) mapped_inj [OF ok that] b(3,4) by auto
    then show ?thesis using b(3,4) by auto
  qed
  have "(4 :: page_id) \<notin> dom (page_table b)" unfolding d by simp
  then have new: "page_table b 4 = None" by (simp add: domIff)
  have pin: "pins b q = 0" for q using heldD(3) [OF b(2)] by simp
  have "(4 :: page_id) \<in> bpm_pages b" using b(5) by simp
  note L = lru_replacement [OF ok b(1) full new this]
  have "\<exists>q\<in>dom (page_table b). pins b q = 0" using b(3) pin by blast
  with L obtain v xs ys h c where
    v: "[1, 3, 1] = xs @ v # ys" "v \<notin> set ys" "\<forall>q\<in>dom (page_table b). pins b q = 0 \<longrightarrow> q \<noteq> v \<longrightarrow> q \<in> set ys"
      "page_table b v = Some h" "fetch_page 4 b = (Inr (Some h), c)" "page_table c = (page_table b)(v := None, 4 \<mapsto> h)"
    by (simp only: if_True) blast
  have "v \<in> {1, 3}" "\<forall>q\<in>{1, 3}. q \<noteq> v \<longrightarrow> q \<in> set ys" using v(3,4) d pin by auto
  then have "v = 3" using v(1,2) by (auto simp: Cons_eq_append_conv)
  then show ?thesis using v(4-6) b(1,3) by auto
qed

end
