(* ===== verification/Lock_Manager.thy ===== *)
theory Lock_Manager
  imports Proc Common_Types
begin

text \<open>
  \<open>Transaction\<close> and \<open>LockManager\<close> (\<open>include/duck/transaction\<close>, \<open>src/transaction/lock_manager.cpp\<close>).
  A lock call runs under one latch, except while it waits on the condition variable. It is modelled by
  its parts: the request (which may answer at once), the grant of a waiting request, and the timeout.
  \<open>wait_for\<close> tests its predicate before it waits and once more at the timeout. \<open>lock_step\<close> interleaves
  the parts of all transactions; \<open>lock_shared\<close> and \<open>lock_exclusive\<close> are the calls run alone.
\<close>

section \<open>State\<close>

datatype tx_state = GROWING | SHRINKING | COMMITTED | ABORTED

datatype lock_mode = SHARED | EXCLUSIVE

record 'u transaction =
  tx_state :: tx_state
  shared_locks :: "rid set"
  exclusive_locks :: "rid set"
  undo_log :: "'u list"

definition tx_object :: "'u transaction" where
  "tx_object = \<lparr>tx_state = GROWING, shared_locks = {}, exclusive_locks = {}, undo_log = []\<rparr>"

record lock_request =
  req_tx :: transaction_id
  req_mode :: lock_mode
  req_granted :: bool

text \<open>
  The lock table and the transactions by number, and, for a transaction inside a lock call, the
  row and mode it waits for.
\<close>

record 'u lock_state =
  lock_table :: "rid \<Rightarrow> lock_request list"
  txs :: "transaction_id \<rightharpoonup> 'u transaction"
  waiting :: "transaction_id \<rightharpoonup> rid \<times> lock_mode"

section \<open>Granting\<close>

fun can_grant :: "lock_request list \<Rightarrow> transaction_id \<Rightarrow> lock_mode \<Rightarrow> bool" where
  "can_grant [] t m = True"
| "can_grant (q # qs) t m =
     (if \<not> req_granted q \<or> req_tx q = t then can_grant qs t m
      else if m = EXCLUSIVE then False
      else if req_mode q = EXCLUSIVE then False
      else can_grant qs t m)"

definition set_tx :: "transaction_id \<Rightarrow> ('u transaction \<Rightarrow> 'u transaction) \<Rightarrow> 'u lock_state \<Rightarrow> 'u lock_state" where
  "set_tx t g s = s\<lparr>txs := (case txs s t of None \<Rightarrow> txs s | Some x \<Rightarrow> (txs s)(t \<mapsto> g x))\<rparr>"

definition set_queue :: "rid \<Rightarrow> lock_request list \<Rightarrow> 'u lock_state \<Rightarrow> 'u lock_state" where
  "set_queue r qs s = s\<lparr>lock_table := (lock_table s)(r := qs)\<rparr>"

text \<open>\<open>it->granted = true\<close>: the request of the call is the last one of its transaction in the queue.\<close>

definition mark_granted :: "transaction_id \<Rightarrow> lock_request list \<Rightarrow> lock_request list" where
  "mark_granted t qs = map (\<lambda>q. if req_tx q = t then q\<lparr>req_granted := True\<rparr> else q) qs"

definition erase_requests :: "transaction_id \<Rightarrow> lock_request list \<Rightarrow> lock_request list" where
  "erase_requests t qs = filter (\<lambda>q. req_tx q \<noteq> t) qs"

definition add_lock :: "rid \<Rightarrow> lock_mode \<Rightarrow> 'u transaction \<Rightarrow> 'u transaction" where
  "add_lock r m x = (case m of
       SHARED \<Rightarrow> x\<lparr>shared_locks := insert r (shared_locks x)\<rparr>
     | EXCLUSIVE \<Rightarrow> x\<lparr>exclusive_locks := insert r (exclusive_locks x)\<rparr>)"

text \<open>Enqueueing a request; the call waits from here on.\<close>

definition enqueue :: "transaction_id \<Rightarrow> rid \<Rightarrow> lock_mode \<Rightarrow> 'u lock_state \<Rightarrow> 'u lock_state" where
  "enqueue t r m s =
     (set_queue r (lock_table s r @ [\<lparr>req_tx = t, req_mode = m, req_granted = False\<rparr>]) s)
       \<lparr>waiting := (waiting s)(t \<mapsto> (r, m))\<rparr>"

definition grant :: "transaction_id \<Rightarrow> rid \<Rightarrow> lock_mode \<Rightarrow> 'u lock_state \<Rightarrow> 'u lock_state" where
  "grant t r m s =
     (set_tx t (add_lock r m) (set_queue r (mark_granted t (lock_table s r)) s))\<lparr>waiting := (waiting s)(t := None)\<rparr>"

definition time_out :: "transaction_id \<Rightarrow> rid \<Rightarrow> 'u lock_state \<Rightarrow> 'u lock_state" where
  "time_out t r s =
     (set_tx t (\<lambda>x. x\<lparr>tx_state := ABORTED\<rparr>) (set_queue r (erase_requests t (lock_table s r)) s))
       \<lparr>waiting := (waiting s)(t := None)\<rparr>"

section \<open>Lock calls\<close>

text \<open>The part of a call before it waits: an answer, or the request is in the queue.\<close>

definition request_shared :: "transaction_id \<Rightarrow> rid \<Rightarrow> 'u lock_state \<Rightarrow> bool option \<times> 'u lock_state" where
  "request_shared t r s =
     (case txs s t of
        None \<Rightarrow> (Some False, s)
      | Some x \<Rightarrow>
          if tx_state x \<noteq> GROWING then (Some False, s)
          else if r \<in> shared_locks x \<or> r \<in> exclusive_locks x then (Some True, s)
          else (None, enqueue t r SHARED s))"

definition request_exclusive :: "transaction_id \<Rightarrow> rid \<Rightarrow> 'u lock_state \<Rightarrow> bool option \<times> 'u lock_state" where
  "request_exclusive t r s =
     (case txs s t of
        None \<Rightarrow> (Some False, s)
      | Some x \<Rightarrow>
          if tx_state x \<noteq> GROWING then (Some False, s)
          else if r \<in> exclusive_locks x then (Some True, s)
          else
            let s = (if r \<in> shared_locks x
                     then set_tx t (\<lambda>x. x\<lparr>shared_locks := shared_locks x - {r}\<rparr>)
                            (set_queue r (erase_requests t (lock_table s r)) s)
                     else s)
            in (None, enqueue t r EXCLUSIVE s))"

text \<open>The call with nothing running beside it: what cannot be granted at once times out.\<close>

definition await :: "transaction_id \<Rightarrow> rid \<Rightarrow> lock_mode \<Rightarrow> bool option \<times> 'u lock_state \<Rightarrow> bool \<times> 'u lock_state" where
  "await t r m a =
     (case a of
        (Some b, s) \<Rightarrow> (b, s)
      | (None, s) \<Rightarrow> if can_grant (lock_table s r) t m then (True, grant t r m s) else (False, time_out t r s))"

definition lock_shared :: "transaction_id \<Rightarrow> rid \<Rightarrow> 'u lock_state \<Rightarrow> bool \<times> 'u lock_state" where
  "lock_shared t r s = await t r SHARED (request_shared t r s)"

definition lock_exclusive :: "transaction_id \<Rightarrow> rid \<Rightarrow> 'u lock_state \<Rightarrow> bool \<times> 'u lock_state" where
  "lock_exclusive t r s = await t r EXCLUSIVE (request_exclusive t r s)"

text \<open>\<open>unlock_all\<close> removes the requests of the transaction from the queues of the rows it holds.\<close>

definition unlock_all :: "transaction_id \<Rightarrow> 'u lock_state \<Rightarrow> 'u lock_state" where
  "unlock_all t s =
     (case txs s t of
        None \<Rightarrow> s
      | Some x \<Rightarrow>
          set_tx t (\<lambda>x. x\<lparr>shared_locks := {}, exclusive_locks := {}\<rparr>)
            (s\<lparr>lock_table := (\<lambda>r. if r \<in> exclusive_locks x \<union> shared_locks x
                               then erase_requests t (lock_table s r) else lock_table s r)\<rparr>))"

section \<open>Interleaving\<close>

text \<open>
  A transaction inside a lock call does nothing else. A waiting request is granted once the predicate
  holds (every change notifies the waiters), or times out while it does not.
\<close>

datatype lock_event =
    Ev_begin transaction_id
  | Ev_request transaction_id rid lock_mode
  | Ev_grant transaction_id
  | Ev_timeout transaction_id
  | Ev_end transaction_id tx_state

inductive lock_step :: "'u lock_state \<Rightarrow> lock_event \<Rightarrow> 'u lock_state \<Rightarrow> bool" where
  Begin: "txs s t = None \<Longrightarrow> lock_step s (Ev_begin t) (s\<lparr>txs := (txs s)(t \<mapsto> tx_object)\<rparr>)"
| Request_shared: "txs s t = Some x \<Longrightarrow> waiting s t = None \<Longrightarrow>
    lock_step s (Ev_request t r SHARED) (snd (request_shared t r s))"
| Request_exclusive: "txs s t = Some x \<Longrightarrow> waiting s t = None \<Longrightarrow>
    lock_step s (Ev_request t r EXCLUSIVE) (snd (request_exclusive t r s))"
| Grant: "waiting s t = Some (r, m) \<Longrightarrow> can_grant (lock_table s r) t m \<Longrightarrow>
    lock_step s (Ev_grant t) (grant t r m s)"
| Timeout: "waiting s t = Some (r, m) \<Longrightarrow> \<not> can_grant (lock_table s r) t m \<Longrightarrow>
    lock_step s (Ev_timeout t) (time_out t r s)"
| End: "txs s t = Some x \<Longrightarrow> waiting s t = None \<Longrightarrow> st \<in> {COMMITTED, ABORTED} \<Longrightarrow>
    lock_step s (Ev_end t st)
      (set_tx t (\<lambda>x. x\<lparr>tx_state := st\<rparr>) (unlock_all t (set_tx t (\<lambda>x. x\<lparr>tx_state := SHRINKING\<rparr>) s)))"

inductive_cases lock_stepE: "lock_step s e s'"

definition lock_init :: "'u lock_state" where
  "lock_init = \<lparr>lock_table = (\<lambda>_. []), txs = Map.empty, waiting = Map.empty\<rparr>"

inductive lock_run :: "'u lock_state \<Rightarrow> lock_event list \<Rightarrow> 'u lock_state \<Rightarrow> bool" where
  Run_Nil: "lock_run s [] s"
| Run_Cons: "lock_step s e s' \<Longrightarrow> lock_run s' es s'' \<Longrightarrow> lock_run s (e # es) s''"

definition lock_reachable :: "'u lock_state \<Rightarrow> bool" where
  "lock_reachable s \<longleftrightarrow> (\<exists>es. lock_run lock_init es s)"

end
