(* ===== verification/Lock_Safety.thy ===== *)
theory Lock_Safety
  imports Lock_Manager
begin

text \<open>
  Safety of the lock manager under every interleaving: the invariant \<open>lock_inv\<close> ties the queues to the
  lock sets of the transactions and keeps exclusive locks exclusive. One lemma per part of a call;
  \<open>lock_reachable_inv\<close> follows by induction over runs.
\<close>

section \<open>The invariant\<close>

lemma can_grant_iff:
  "can_grant qs t m \<longleftrightarrow>
     (\<forall>q\<in>set qs. req_granted q \<longrightarrow> req_tx q \<noteq> t \<longrightarrow> m = SHARED \<and> req_mode q = SHARED)"
  by (induction qs) (auto split: if_splits, (metis lock_mode.exhaust)+)

definition holds :: "'u lock_state \<Rightarrow> transaction_id \<Rightarrow> lock_mode \<Rightarrow> rid \<Rightarrow> bool" where
  "holds s t m r \<longleftrightarrow>
     (\<exists>x. txs s t = Some x \<and> r \<in> (case m of SHARED \<Rightarrow> shared_locks x | EXCLUSIVE \<Rightarrow> exclusive_locks x))"

definition lock_inv :: "'u lock_state \<Rightarrow> bool" where
  "lock_inv s \<longleftrightarrow>
     (\<forall>r. distinct (map req_tx (lock_table s r))) \<and>
     (\<forall>r t m. \<lparr>req_tx = t, req_mode = m, req_granted = True\<rparr> \<in> set (lock_table s r) \<longleftrightarrow> holds s t m r) \<and>
     (\<forall>r t m. \<lparr>req_tx = t, req_mode = m, req_granted = False\<rparr> \<in> set (lock_table s r) \<longleftrightarrow> waiting s t = Some (r, m)) \<and>
     (\<forall>r t t' m'. holds s t EXCLUSIVE r \<longrightarrow> holds s t' m' r \<longrightarrow> t = t')"

lemma lock_invD:
  assumes "lock_inv s"
  shows "distinct (map req_tx (lock_table s r))"
    "\<lparr>req_tx = t, req_mode = m, req_granted = True\<rparr> \<in> set (lock_table s r) \<longleftrightarrow> holds s t m r"
    "\<lparr>req_tx = t, req_mode = m, req_granted = False\<rparr> \<in> set (lock_table s r) \<longleftrightarrow> waiting s t = Some (r, m)"
    "holds s t EXCLUSIVE r \<Longrightarrow> holds s t' m' r \<Longrightarrow> t = t'"
  using assms unfolding lock_inv_def by blast+

lemma req_cases:
  obtains "q = \<lparr>req_tx = req_tx q, req_mode = req_mode q, req_granted = True\<rparr>"
  | "q = \<lparr>req_tx = req_tx q, req_mode = req_mode q, req_granted = False\<rparr>"
  by (cases "req_granted q") (cases q; auto)+

lemma not_queued:
  assumes "lock_inv s" and "waiting s t = None" and "\<And>m. \<not> holds s t m r"
  shows "t \<notin> req_tx ` set (lock_table s r)"
proof
  assume "t \<in> req_tx ` set (lock_table s r)"
  then obtain q where q: "q \<in> set (lock_table s r)" "req_tx q = t" by auto
  show False
    by (rule req_cases [of q]) (use q assms lock_invD(2,3) [OF assms(1)] in \<open>metis option.distinct(1)\<close>)+
qed

text \<open>A transaction has at most one request per row.\<close>

lemma same_request:
  assumes "lock_inv s" and "q \<in> set (lock_table s r)" and "q' \<in> set (lock_table s r)" and "req_tx q = req_tx q'"
  shows "q = q'"
  using lock_invD(1) [OF assms(1), of r] assms(2-4) by (auto simp: distinct_map inj_on_def)

section \<open>Preservation\<close>

lemma holds_set_queue [simp]: "holds (set_queue r qs s) t m r' = holds s t m r'"
  by (simp add: holds_def set_queue_def)

lemma holds_waiting [simp]: "holds (s\<lparr>waiting := w\<rparr>) t m r' = holds s t m r'"
  by (simp add: holds_def)

lemma holds_set_state [simp]: "holds (set_tx t (\<lambda>x. x\<lparr>tx_state := st\<rparr>) s) t' m r = holds s t' m r"
  by (cases m) (auto simp: holds_def set_tx_def split: option.splits)

lemma set_tx_other [simp]:
  "lock_table (set_tx t g s) = lock_table s" "waiting (set_tx t g s) = waiting s"
  "lock_table (set_queue r qs s) = (lock_table s)(r := qs)" "waiting (set_queue r qs s) = waiting s"
  "txs (set_queue r qs s) = txs s"
  by (simp_all add: set_tx_def set_queue_def)

lemma set_state_inv: "lock_inv s \<Longrightarrow> lock_inv (set_tx t (\<lambda>x. x\<lparr>tx_state := st\<rparr>) s)"
  by (simp add: lock_inv_def)

lemma enqueue_inv:
  assumes inv: "lock_inv s" and w: "waiting s t = None" and new: "t \<notin> req_tx ` set (lock_table s r)"
  shows "lock_inv (enqueue t r m s)"
  using inv w new unfolding lock_inv_def enqueue_def
  by (auto simp: image_iff)

lemma holds_grant:
  assumes "txs s t = Some x"
  shows "holds (grant t r m s) t' m' r' \<longleftrightarrow> holds s t' m' r' \<or> (t' = t \<and> m' = m \<and> r' = r)"
  using assms by (cases m; cases m') (auto simp: grant_def holds_def set_tx_def set_queue_def add_lock_def)

lemma mark_granted_set:
  assumes inv: "lock_inv s" and w: "waiting s t = Some (r, m)"
  shows "q \<in> set (mark_granted t (lock_table s r)) \<longleftrightarrow>
    q = \<lparr>req_tx = t, req_mode = m, req_granted = True\<rparr> \<or> (q \<in> set (lock_table s r) \<and> req_tx q \<noteq> t)"
proof -
  let ?q = "\<lparr>req_tx = t, req_mode = m, req_granted = False\<rparr>"
  have mem: "?q \<in> set (lock_table s r)" using lock_invD(3) [OF inv] w by blast
  have uniq: "x = ?q" if "x \<in> set (lock_table s r)" "req_tx x = t" for x
    using same_request [OF inv that(1) mem] that(2) by simp
  show ?thesis
  proof
    assume "q \<in> set (mark_granted t (lock_table s r))"
    then obtain x where x: "x \<in> set (lock_table s r)" "q = (if req_tx x = t then x\<lparr>req_granted := True\<rparr> else x)"
      by (auto simp: mark_granted_def)
    then show "q = \<lparr>req_tx = t, req_mode = m, req_granted = True\<rparr> \<or> (q \<in> set (lock_table s r) \<and> req_tx q \<noteq> t)"
      using uniq [OF x(1)] by (auto split: if_splits)
  next
    assume "q = \<lparr>req_tx = t, req_mode = m, req_granted = True\<rparr> \<or> (q \<in> set (lock_table s r) \<and> req_tx q \<noteq> t)"
    then show "q \<in> set (mark_granted t (lock_table s r))"
      using mem by (auto simp: mark_granted_def image_iff intro!: bexI [of _ ?q])
  qed
qed

lemma waiting_holds_nothing:
  assumes "lock_inv s" and "waiting s t = Some (r, m)"
  shows "\<not> holds s t m' r"
proof
  assume "holds s t m' r"
  with lock_invD(2,3) [OF assms(1)] assms(2)
  have "\<lparr>req_tx = t, req_mode = m', req_granted = True\<rparr> \<in> set (lock_table s r)"
    "\<lparr>req_tx = t, req_mode = m, req_granted = False\<rparr> \<in> set (lock_table s r)" by blast+
  from same_request [OF assms(1) this] show False by simp
qed

lemma grant_inv:
  assumes inv: "lock_inv s" and w: "waiting s t = Some (r, m)" and g: "can_grant (lock_table s r) t m"
    and x: "txs s t = Some x"
  shows "lock_inv (grant t r m s)"
proof -
  note h = holds_grant [OF x, of r m]
  have q: "lock_table (grant t r m s) = (lock_table s)(r := mark_granted t (lock_table s r))"
    "waiting (grant t r m s) = (waiting s)(t := None)" by (simp_all add: grant_def)
  have none: "\<not> holds s t m' r" for m' using waiting_holds_nothing [OF inv w] .
  have "map req_tx (mark_granted t qs) = map req_tx qs" for qs by (simp add: mark_granted_def)
  then have 1: "distinct (map req_tx (lock_table (grant t r m s) r'))" for r'
    using lock_invD(1) [OF inv] by (simp add: q)
  have 2: "\<lparr>req_tx = t', req_mode = m', req_granted = True\<rparr> \<in> set (lock_table (grant t r m s) r') \<longleftrightarrow>
      holds (grant t r m s) t' m' r'" for t' m' r'
    using lock_invD(2) [OF inv] none by (auto simp: q h mark_granted_set [OF inv w])
  have 3: "\<lparr>req_tx = t', req_mode = m', req_granted = False\<rparr> \<in> set (lock_table (grant t r m s) r') \<longleftrightarrow>
      waiting (grant t r m s) t' = Some (r', m')" for t' m' r'
    using lock_invD(3) [OF inv] w by (auto simp: q mark_granted_set [OF inv w])
  have free: "t' = t" if "holds s t' m' r" "m = EXCLUSIVE \<or> m' = EXCLUSIVE" for t' m'
    using lock_invD(2) [OF inv] that g [unfolded can_grant_iff] by force
  have 4: "t1 = t2" if "holds (grant t r m s) t1 EXCLUSIVE r'" "holds (grant t r m s) t2 m2 r'" for t1 t2 m2 r'
    using that free lock_invD(4) [OF inv] unfolding h by metis
  show ?thesis unfolding lock_inv_def using 1 2 3 4 by blast
qed

text \<open>Removing the requests of a transaction from the queues of the rows in \<open>R\<close>, with its locks there.\<close>

lemma erase_inv:
  assumes inv: "lock_inv s"
    and q: "\<And>r. lock_table s' r = (if r \<in> R then erase_requests t (lock_table s r) else lock_table s r)"
    and h: "\<And>t' m r. holds s' t' m r \<longleftrightarrow> holds s t' m r \<and> \<not> (t' = t \<and> r \<in> R)"
    and w: "\<And>t' r m. waiting s' t' = Some (r, m) \<longleftrightarrow> waiting s t' = Some (r, m) \<and> \<not> (t' = t \<and> r \<in> R)"
  shows "lock_inv s'"
proof -
  have "distinct (map req_tx (lock_table s' r))" for r
    using lock_invD(1) [OF inv, of r] by (auto simp: q erase_requests_def distinct_map_filter)
  moreover have "\<lparr>req_tx = t', req_mode = m, req_granted = True\<rparr> \<in> set (lock_table s' r) \<longleftrightarrow> holds s' t' m r" for t' m r
    using lock_invD(2) [OF inv] by (auto simp: q h erase_requests_def)
  moreover have "\<lparr>req_tx = t', req_mode = m, req_granted = False\<rparr> \<in> set (lock_table s' r) \<longleftrightarrow>
      waiting s' t' = Some (r, m)" for t' m r
    using lock_invD(3) [OF inv] by (auto simp: q w erase_requests_def)
  moreover have "t1 = t2" if "holds s' t1 EXCLUSIVE r" "holds s' t2 m r" for t1 t2 m r
    using that lock_invD(4) [OF inv] unfolding h by blast
  ultimately show ?thesis unfolding lock_inv_def by blast
qed

lemma time_out_inv:
  assumes inv: "lock_inv s" and w: "waiting s t = Some (r, m)"
  shows "lock_inv (time_out t r s)"
proof (rule erase_inv [OF inv])
  show "lock_table (time_out t r s) r' = (if r' \<in> {r} then erase_requests t (lock_table s r') else lock_table s r')" for r'
    by (simp add: time_out_def)
  show "holds (time_out t r s) t' m' r' \<longleftrightarrow> holds s t' m' r' \<and> \<not> (t' = t \<and> r' \<in> {r})" for t' m' r'
    using waiting_holds_nothing [OF inv w] by (auto simp: time_out_def)
  show "waiting (time_out t r s) t' = Some (r', m') \<longleftrightarrow> waiting s t' = Some (r', m') \<and> \<not> (t' = t \<and> r' \<in> {r})" for t' m' r'
    using w by (auto simp: time_out_def)
qed

definition drop_shared :: "transaction_id \<Rightarrow> rid \<Rightarrow> 'u lock_state \<Rightarrow> 'u lock_state" where
  "drop_shared t r s = set_tx t (\<lambda>x. x\<lparr>shared_locks := shared_locks x - {r}\<rparr>)
     (set_queue r (erase_requests t (lock_table s r)) s)"

lemma drop_shared_inv:
  assumes inv: "lock_inv s" and w: "waiting s t = None" and x: "\<not> holds s t EXCLUSIVE r"
  shows "lock_inv (drop_shared t r s)" "waiting (drop_shared t r s) = waiting s"
    "\<not> holds (drop_shared t r s) t m r"
    "holds (drop_shared t r s) t' m r' \<longleftrightarrow> holds s t' m r' \<and> \<not> (t' = t \<and> m = SHARED \<and> r' = r)"
proof -
  show h: "holds (drop_shared t r s) t' m r' \<longleftrightarrow> holds s t' m r' \<and> \<not> (t' = t \<and> m = SHARED \<and> r' = r)" for t' m r'
    by (cases m) (auto simp: drop_shared_def holds_def set_tx_def split: option.splits)
  show "waiting (drop_shared t r s) = waiting s" by (simp add: drop_shared_def)
  show "\<not> holds (drop_shared t r s) t m r" using x by (cases m) (simp_all add: h)
  show "lock_inv (drop_shared t r s)"
  proof (rule erase_inv [OF inv])
    show "lock_table (drop_shared t r s) r' = (if r' \<in> {r} then erase_requests t (lock_table s r') else lock_table s r')" for r'
      by (simp add: drop_shared_def)
    show "holds (drop_shared t r s) t' m' r' \<longleftrightarrow> holds s t' m' r' \<and> \<not> (t' = t \<and> r' \<in> {r})" for t' m' r'
      using x by (cases m') (auto simp: h)
    show "waiting (drop_shared t r s) t' = Some (r', m') \<longleftrightarrow> waiting s t' = Some (r', m') \<and> \<not> (t' = t \<and> r' \<in> {r})" for t' m' r'
      using w by (auto simp: drop_shared_def)
  qed
qed

lemma holds_unlock: "holds (unlock_all t s) t' m r \<longleftrightarrow> holds s t' m r \<and> t' \<noteq> t"
  by (cases m) (auto simp: unlock_all_def holds_def set_tx_def split: option.splits)

lemma unlock_inv:
  assumes inv: "lock_inv s" and w: "waiting s t = None"
  shows "lock_inv (unlock_all t s)"
proof (rule erase_inv [OF inv])
  let ?R = "{r. \<exists>m. holds s t m r}"
  show "lock_table (unlock_all t s) r = (if r \<in> ?R then erase_requests t (lock_table s r) else lock_table s r)" for r
  proof -
    have "r \<in> ?R \<longleftrightarrow> (case txs s t of None \<Rightarrow> False | Some x \<Rightarrow> r \<in> exclusive_locks x \<union> shared_locks x)"
    proof
      assume "r \<in> ?R"
      then obtain m where "holds s t m r" by blast
      then show "case txs s t of None \<Rightarrow> False | Some x \<Rightarrow> r \<in> exclusive_locks x \<union> shared_locks x"
        by (cases m) (auto simp: holds_def)
    next
      assume "case txs s t of None \<Rightarrow> False | Some x \<Rightarrow> r \<in> exclusive_locks x \<union> shared_locks x"
      then have "holds s t SHARED r \<or> holds s t EXCLUSIVE r" by (auto simp: holds_def split: option.splits)
      then show "r \<in> ?R" by blast
    qed
    then show ?thesis by (auto simp: unlock_all_def split: option.splits)
  qed
  show "holds (unlock_all t s) t' m r \<longleftrightarrow> holds s t' m r \<and> \<not> (t' = t \<and> r \<in> ?R)" for t' m r
    by (auto simp: holds_unlock)
  show "waiting (unlock_all t s) t' = Some (r, m) \<longleftrightarrow> waiting s t' = Some (r, m) \<and> \<not> (t' = t \<and> r \<in> ?R)" for t' m r
    using w by (auto simp: unlock_all_def split: option.splits)
qed

section \<open>Requests\<close>

lemma request_shared_cases:
  assumes "txs s t = Some x"
  shows "request_shared t r s =
    (if tx_state x \<noteq> GROWING then (Some False, s)
     else if holds s t SHARED r \<or> holds s t EXCLUSIVE r then (Some True, s)
     else (None, enqueue t r SHARED s))"
  using assms by (auto simp: request_shared_def holds_def)

lemma request_exclusive_cases:
  assumes "txs s t = Some x"
  shows "request_exclusive t r s =
    (if tx_state x \<noteq> GROWING then (Some False, s)
     else if holds s t EXCLUSIVE r then (Some True, s)
     else if holds s t SHARED r then (None, enqueue t r EXCLUSIVE (drop_shared t r s))
     else (None, enqueue t r EXCLUSIVE s))"
  using assms by (auto simp: request_exclusive_def holds_def drop_shared_def Let_def)

lemma request_shared_inv:
  assumes inv: "lock_inv s" and w: "waiting s t = None" and x: "txs s t = Some x"
  shows "lock_inv (snd (request_shared t r s))"
proof -
  have "lock_inv (enqueue t r SHARED s)" if "\<not> holds s t SHARED r" "\<not> holds s t EXCLUSIVE r"
    using enqueue_inv [OF inv w] not_queued [OF inv w] that by (metis lock_mode.exhaust)
  then show ?thesis using inv by (simp add: request_shared_cases [OF x])
qed

lemma request_exclusive_inv:
  assumes inv: "lock_inv s" and w: "waiting s t = None" and x: "txs s t = Some x"
  shows "lock_inv (snd (request_exclusive t r s))"
proof -
  have "lock_inv (enqueue t r EXCLUSIVE s)" if "\<not> holds s t SHARED r" "\<not> holds s t EXCLUSIVE r"
    using enqueue_inv [OF inv w] not_queued [OF inv w] that by (metis lock_mode.exhaust)
  moreover have "lock_inv (enqueue t r EXCLUSIVE (drop_shared t r s))" if "\<not> holds s t EXCLUSIVE r"
    using drop_shared_inv [OF inv w that] w by (intro enqueue_inv not_queued) simp_all
  ultimately show ?thesis using inv by (simp add: request_exclusive_cases [OF x])
qed

section \<open>Runs\<close>

definition lock_good :: "'u lock_state \<Rightarrow> bool" where
  "lock_good s \<longleftrightarrow> lock_inv s \<and> dom (waiting s) \<subseteq> dom (txs s)"

lemma dom_set_tx [simp]: "dom (txs (set_tx t g s)) = dom (txs s)"
  by (auto simp: set_tx_def split: option.splits)

lemma request_dom:
  assumes "txs s t = Some x" and "dom (waiting s) \<subseteq> dom (txs s)"
  shows "dom (waiting (snd (request_shared t r s))) \<subseteq> dom (txs (snd (request_shared t r s)))"
    "dom (waiting (snd (request_exclusive t r s))) \<subseteq> dom (txs (snd (request_exclusive t r s)))"
proof -
  have "dom (txs (drop_shared t r s)) = dom (txs s)" "waiting (drop_shared t r s) = waiting s"
    by (simp_all add: drop_shared_def)
  moreover have e: "txs (enqueue t r m u) = txs u" "waiting (enqueue t r m u) = (waiting u)(t \<mapsto> (r, m))" for m and u :: "'a lock_state"
    by (simp_all add: enqueue_def)
  ultimately show "dom (waiting (snd (request_shared t r s))) \<subseteq> dom (txs (snd (request_shared t r s)))"
    "dom (waiting (snd (request_exclusive t r s))) \<subseteq> dom (txs (snd (request_exclusive t r s)))"
    using assms by (auto simp: request_shared_cases request_exclusive_cases)
qed

lemma lock_step_good: "lock_step s e s' \<Longrightarrow> lock_good s \<Longrightarrow> lock_good s'"
proof (induction rule: lock_step.induct)
  case (Begin s t)
  then have "waiting s t = None" by (auto simp: lock_good_def)
  moreover have "holds (s\<lparr>txs := (txs s)(t \<mapsto> tx_object)\<rparr>) t' m r = holds s t' m r" for t' m r
    using Begin.hyps by (cases m) (auto simp: holds_def tx_object_def)
  ultimately show ?case using Begin.prems by (auto simp: lock_good_def lock_inv_def)
next
  case (Request_shared s t x r)
  then show ?case using request_shared_inv request_dom(1) unfolding lock_good_def by blast
next
  case (Request_exclusive s t x r)
  then show ?case using request_exclusive_inv request_dom(2) unfolding lock_good_def by blast
next
  case (Grant s t r m)
  then obtain x where x: "txs s t = Some x" by (auto simp: lock_good_def dom_def)
  from Grant grant_inv [OF _ Grant.hyps x] show ?case by (auto simp: lock_good_def grant_def)
next
  case (Timeout s t r m)
  then show ?case using time_out_inv [of s t r m] by (auto simp: lock_good_def time_out_def)
next
  case (End s t x st)
  let ?u = "set_tx t (\<lambda>x. x\<lparr>tx_state := SHRINKING\<rparr>) s"
  have "lock_inv (unlock_all t ?u)" using End by (intro unlock_inv set_state_inv) (simp_all add: lock_good_def)
  moreover have "dom (txs (unlock_all t ?u)) = dom (txs s)" "waiting (unlock_all t ?u) = waiting s"
    by (auto simp: unlock_all_def set_tx_def split: option.splits if_splits)
  ultimately show ?case using End.prems by (simp add: lock_good_def set_state_inv)
qed

lemma lock_run_good: "lock_run s es s' \<Longrightarrow> lock_good s \<Longrightarrow> lock_good s'"
  by (induction rule: lock_run.induct) (auto intro: lock_step_good)

lemma lock_init_good: "lock_good lock_init"
  by (simp add: lock_good_def lock_inv_def lock_init_def holds_def)

lemma lock_reachable_good: "lock_reachable s \<Longrightarrow> lock_good s"
  using lock_run_good lock_init_good by (auto simp: lock_reachable_def)

end
