(* ===== verification/Transactions.thy ===== *)
theory Transactions
  imports Lock_Safety
begin

text \<open>
  \<open>TransactionManager\<close> (\<open>include/duck/transaction/manager.hpp\<close>, \<open>src/transaction/manager.cpp\<close>) and
  \<open>Transaction::undo\<close>. The data the undo records act on and the records themselves are type
  parameters: \<open>run u\<close> is \<open>UndoRecord::undo\<close>, a virtual call. The locale \<open>undo_records\<close> is what an
  implementation of undo records must promise for \<open>abort\<close> to restore the data.
\<close>

section \<open>State and operations\<close>

record ('u, 's) tx_manager =
  locks :: "'u lock_state"
  next_tx_id :: transaction_id
  active_txs :: "transaction_id set"
  tx_data :: 's

definition tx_set_state :: "transaction_id \<Rightarrow> tx_state \<Rightarrow> ('u, 's) tx_manager \<Rightarrow> ('u, 's) tx_manager" where
  "tx_set_state t st m = m\<lparr>locks := set_tx t (\<lambda>x. x\<lparr>tx_state := st\<rparr>) (locks m)\<rparr>"

definition push_undo :: "transaction_id \<Rightarrow> 'u \<Rightarrow> ('u, 's) tx_manager \<Rightarrow> ('u, 's) tx_manager" where
  "push_undo t u m = m\<lparr>locks := set_tx t (\<lambda>x. x\<lparr>undo_log := undo_log x @ [u]\<rparr>) (locks m)\<rparr>"

definition tm_begin :: "('u, 's) tx_manager \<Rightarrow> transaction_id \<times> ('u, 's) tx_manager" where
  "tm_begin m =
     (let t = next_tx_id m in
      (t, m\<lparr>next_tx_id := t + 1, active_txs := insert t (active_txs m),
            locks := (locks m)\<lparr>txs := (txs (locks m))(t \<mapsto> tx_object)\<rparr>\<rparr>))"

definition tm_commit :: "transaction_id \<Rightarrow> ('u, 's) tx_manager \<Rightarrow> ('u, 's) tx_manager" where
  "tm_commit t m =
     (let m = tx_set_state t SHRINKING m;
          m = m\<lparr>locks := unlock_all t (locks m)\<rparr>;
          m = tx_set_state t COMMITTED m
      in m\<lparr>active_txs := active_txs m - {t}\<rparr>)"

text \<open>\<open>Transaction::undo\<close>: the records from the last to the first.\<close>

fun run_undo :: "('u \<Rightarrow> ('s, unit) proc) \<Rightarrow> 'u list \<Rightarrow> ('s, unit) proc" where
  "run_undo run [] = ret ()"
| "run_undo run (u # us) = and_then (run u) (\<lambda>_. run_undo run us)"

definition tx_undo :: "('u \<Rightarrow> ('s, unit) proc) \<Rightarrow> transaction_id \<Rightarrow> (('u, 's) tx_manager, unit) proc" where
  "tx_undo run t = and_then (gets (\<lambda>m. case txs (locks m) t of None \<Rightarrow> [] | Some x \<Rightarrow> undo_log x)) (\<lambda>log.
     zoom tx_data (\<lambda>d. tx_data_update (\<lambda>_. d)) (run_undo run (rev log)))"

definition tm_abort :: "('u \<Rightarrow> ('s, unit) proc) \<Rightarrow> transaction_id \<Rightarrow> (('u, 's) tx_manager, unit) proc" where
  "tm_abort run t = and_then (modify (tx_set_state t SHRINKING)) (\<lambda>_.
     and_then (tx_undo run t) (\<lambda>_.
     and_then (modify (\<lambda>m. m\<lparr>locks := unlock_all t (locks m)\<rparr>)) (\<lambda>_.
     and_then (modify (tx_set_state t ABORTED)) (\<lambda>_.
     modify (\<lambda>m. m\<lparr>active_txs := active_txs m - {t}\<rparr>)))))"

section \<open>What undo records promise\<close>

text \<open>
  \<open>change s u s'\<close>: the data went from \<open>s\<close> to \<open>s'\<close> and record \<open>u\<close> was pushed for it. Undoing \<open>u\<close> must
  lead back to what \<open>s\<close> meant from any data that is ready for it and means the same as \<open>s'\<close>.
\<close>

inductive changes :: "('s \<Rightarrow> 'u \<Rightarrow> 's \<Rightarrow> bool) \<Rightarrow> 's \<Rightarrow> 'u list \<Rightarrow> 's \<Rightarrow> bool" for change where
  No_change: "changes change s [] s"
| One_more: "changes change s us t \<Longrightarrow> change t u t' \<Longrightarrow> changes change s (us @ [u]) t'"

locale undo_when_ready =
  fixes run :: "'u \<Rightarrow> ('s, unit) proc"
    and change :: "'s \<Rightarrow> 'u \<Rightarrow> 's \<Rightarrow> bool"
    and inv :: "'s \<Rightarrow> bool"
    and ready :: "'s \<Rightarrow> bool"
    and meaning :: "'s \<Rightarrow> 'm"
  assumes change_inv: "inv s \<Longrightarrow> change s u s' \<Longrightarrow> inv s'"
    and undo_change: "inv s \<Longrightarrow> change s u s' \<Longrightarrow> ready t \<Longrightarrow> meaning t = meaning s' \<Longrightarrow>
      \<exists>t'. run u t = (Inr (), t') \<and> ready t' \<and> meaning t' = meaning s"
begin

lemma changes_inv: "changes change s us t \<Longrightarrow> inv s \<Longrightarrow> inv t"
  by (induction rule: changes.induct) (auto intro: change_inv)

lemma undo_restores:
  "changes change s us s' \<Longrightarrow> inv s \<Longrightarrow> ready t \<Longrightarrow> meaning t = meaning s' \<Longrightarrow>
   \<exists>t'. run_undo run (rev us) t = (Inr (), t') \<and> ready t' \<and> meaning t' = meaning s"
proof (induction arbitrary: t rule: changes.induct)
  case (No_change s)
  then show ?case by simp
next
  case (One_more s us t1 u t2)
  have "inv t1" using changes_inv [OF One_more.hyps(1) One_more.prems(1)] .
  from undo_change [OF this One_more.hyps(2) One_more.prems(2,3)]
  obtain v where v: "run u t = (Inr (), v)" "ready v" "meaning v = meaning t1" by blast
  from One_more.IH [OF One_more.prems(1) v(2,3)] show ?case
    by (simp add: and_then_Inr [of "run u" t, OF v(1)])
qed

lemma abort_restores:
  assumes "changes change s us (tx_data m)" and "inv s" and "ready (tx_data m)"
    and x: "txs (locks m) t = Some x" and "undo_log x = us"
  shows "\<exists>m'. tm_abort run t m = (Inr (), m') \<and> ready (tx_data m') \<and> meaning (tx_data m') = meaning s"
proof -
  let ?m = "tx_set_state t SHRINKING m"
  have log: "(case txs (locks ?m) t of None \<Rightarrow> [] | Some x \<Rightarrow> undo_log x) = us" "tx_data ?m = tx_data m"
    using assms(5) x by (simp_all add: tx_set_state_def set_tx_def)
  obtain d where d: "run_undo run (rev us) (tx_data m) = (Inr (), d)" "ready d" "meaning d = meaning s"
    using undo_restores [OF assms(1-3)] by blast
  have "tx_undo run t ?m = (Inr (), ?m\<lparr>tx_data := d\<rparr>)"
    using d(1) log by (simp add: tx_undo_def zoom_def)
  then show ?thesis
    using d by (simp add: tm_abort_def and_then_Inr [of "tx_undo run t"] tx_set_state_def)
qed

end

text \<open>The invariant alone makes the data ready.\<close>

locale undo_records = undo_when_ready run change inv inv meaning
  for run :: "'u \<Rightarrow> ('s, unit) proc" and change :: "'s \<Rightarrow> 'u \<Rightarrow> 's \<Rightarrow> bool" and inv :: "'s \<Rightarrow> bool" and meaning :: "'s \<Rightarrow> 'm"
begin

lemma abort_restores_inv:
  assumes "changes change s us (tx_data m)" and "inv s" and "txs (locks m) t = Some x" and "undo_log x = us"
  shows "\<exists>m'. tm_abort run t m = (Inr (), m') \<and> inv (tx_data m') \<and> meaning (tx_data m') = meaning s"
  using abort_restores [OF assms(1,2) changes_inv [OF assms(1,2)] assms(3,4)] .

end

section \<open>Locks of a finished transaction\<close>

lemma commit_locks:
  assumes "txs (locks m) t = Some x"
  shows "txs (locks (tm_commit t m)) t = Some (x\<lparr>tx_state := COMMITTED, shared_locks := {}, exclusive_locks := {}\<rparr>)"
  using assms by (simp add: tm_commit_def tx_set_state_def unlock_all_def set_tx_def Let_def)

end
