(* ===== verification/Transaction_Properties.thy ===== *)
theory Transaction_Properties
  imports Transactions Page_Properties
begin

text \<open>
  What locking and transactions promise: exclusive locks exclude, locks are kept to the end of the
  transaction except by an upgrade, and abort restores the rows of a page; and where the code falls
  short of strict two-phase locking and of a safe abort.
\<close>

section \<open>Undo on the rows of a page\<close>

text \<open>
  The two undo records of tables, on the page of their row: \<open>DeleteUndoRecord\<close> deletes the row,
  \<open>RestoreUndoRecord\<close> puts it back. \<open>page_change\<close> is what an insert into a free slot, a delete or an
  update in place does to the rows, with the record the table pushes for it.
\<close>

datatype row_undo = Delete_row "16 word" | Restore_row "16 word" "byte list"

fun page_undo :: "row_undo \<Rightarrow> (page_data, unit) proc" where
  "page_undo (Delete_row s) d = (case sp_delete_tuple d s of Inl e \<Rightarrow> (Inl e, d) | Inr (_, e) \<Rightarrow> (Inr (), e))"
| "page_undo (Restore_row s t) d = (case sp_restore_tuple d s t of Inl e \<Rightarrow> (Inl e, d) | Inr e \<Rightarrow> (Inr (), e))"

inductive page_change :: "page_data \<Rightarrow> row_undo \<Rightarrow> page_data \<Rightarrow> bool" where
  Insert_row: "unat s < page_slots d \<Longrightarrow> page_tuples d ! unat s = None \<Longrightarrow> wf_page e \<Longrightarrow>
    page_tuples e = (page_tuples d)[unat s := Some t] \<Longrightarrow> page_change d (Delete_row s) e"
| Delete_row: "unat s < page_slots d \<Longrightarrow> page_tuples d ! unat s = Some t \<Longrightarrow> wf_page e \<Longrightarrow>
    page_tuples e = (page_tuples d)[unat s := None] \<Longrightarrow> page_change d (Restore_row s t) e"

lemma slots_eq: "page_tuples d = page_tuples e \<Longrightarrow> page_slots d = page_slots e"
  by (metis length_page_tuples)

lemma restorable_after_delete:
  assumes wf: "wf_page d" "wf_page e" and s: "unat s < page_slots d" "page_tuples d ! unat s = Some t"
    and e: "page_tuples e = (page_tuples d)[unat s := None]"
  shows "restorable e s t"
proof -
  have slots: "page_slots e = page_slots d" using e by (metis length_list_update length_page_tuples)
  have "tuple_at e = (tuple_at d)(unat s := None)" using tuple_at_list_update [OF e s(1)] .
  moreover have "tuple_at d (unat s) = Some t" using s by (simp add: tuple_at_page_tuples)
  ultimately have u: "used d (page_slots d) = used e (page_slots d) + length t" and dead: "\<not> live e (unat s)"
    using used_without_row [OF wf, of "unat s" t "page_slots d"] s(1) tuple_at_None [of e "unat s"] by auto
  have "used d (page_slots d) + page_free d \<le> kPAGE_SIZE" "8 + 4 * page_slots d \<le> page_free d"
    using used_bound [OF wf(1)] wf_pageD(2) [OF wf(1)] by simp_all
  then show ?thesis using dead u s(1) slots by (simp add: restorable_def)
qed

interpretation page_undo: undo_records page_undo page_change wf_page page_tuples
proof
  fix d u e
  show "wf_page d \<Longrightarrow> page_change d u e \<Longrightarrow> wf_page e" by (auto elim: page_change.cases)
next
  fix d u e c
  assume wf: "wf_page d" and ch: "page_change d u e" and c: "wf_page c" "page_tuples c = page_tuples e"
  from ch show "\<exists>c'. page_undo u c = (Inr (), c') \<and> wf_page c' \<and> page_tuples c' = page_tuples d"
  proof cases
    case (Insert_row s t)
    have i: "unat s < page_slots c" using Insert_row slots_eq [OF c(2)] by (metis length_list_update length_page_tuples)
    have "page_tuples c ! unat s = Some t" using Insert_row c(2) by simp
    then have lv: "live c (unat s)" using i tuple_at_None [of c "unat s"] by (simp add: tuple_at_page_tuples)
    have "(page_tuples c)[unat s := None] = page_tuples d"
      using Insert_row c(2) by (simp add: list_update_same_conv)
    then show ?thesis
      using Insert_row(1) lv drop_slot_wf(1,2) [OF c(1) i] by (simp add: sp_delete_tuple_wf [OF c(1)])
  next
    case (Delete_row s t)
    have "restorable c s t"
      using restorable_after_delete [OF wf c(1)] Delete_row c(2) by simp
    then obtain f where f: "sp_restore_tuple c s t = Inr f" "wf_page f" "page_tuples f = (page_tuples c)[unat s := Some t]"
      using sp_restore_tuple_wf [OF c(1)] by metis
    have "page_tuples f = page_tuples d" using f(3) Delete_row c(2) by (simp add: list_update_same_conv)
    then show ?thesis using f(1,2) Delete_row(1) by simp
  qed
qed

section \<open>An exclusive lock call alone\<close>

lemma holds_enqueue [simp]: "holds (enqueue t1 r1 m1 u) t m r = holds u t m r"
  by (simp add: enqueue_def)

lemma lock_exclusive_case:
  assumes good: "lock_good s" and w: "waiting s t = None" and x: "txs s t = Some x" "tx_state x = GROWING"
  shows "case lock_exclusive t r s of (b, s') \<Rightarrow>
    (b \<longleftrightarrow> (\<forall>u m. holds s u m r \<longrightarrow> u = t)) \<and>
    (if b then holds s' t EXCLUSIVE r
     else (\<forall>m. \<not> holds s' t m r) \<and> (\<exists>y. txs s' t = Some y \<and> tx_state y = ABORTED))"
proof (cases "holds s t EXCLUSIVE r")
  case True
  have "\<forall>u m. holds s u m r \<longrightarrow> u = t" using lock_invD(4) [OF _ True] good unfolding lock_good_def by blast
  moreover have "lock_exclusive t r s = (True, s)"
    using True x by (simp add: lock_exclusive_def request_exclusive_cases await_def)
  ultimately show ?thesis using True by simp
next
  case False
  have inv: "lock_inv s" using good by (simp add: lock_good_def)
  define a where "a = (if holds s t SHARED r then drop_shared t r s else s)"
  have a: "lock_inv a" "waiting a = waiting s" "\<not> holds a t m r" "u \<noteq> t \<Longrightarrow> holds a u m r = holds s u m r" for m u
  proof -
    note D = drop_shared_inv [OF inv w False]
    show "lock_inv a" "waiting a = waiting s" using D(1,2) inv by (simp_all add: a_def)
    show "\<not> holds a t m r" using D(3) False by (cases m) (simp_all add: a_def)
    show "holds a u m r = holds s u m r" if "u \<noteq> t" using D(4) that by (simp add: a_def)
  qed
  obtain y where y: "txs a t = Some y" using x that by (cases "holds s t SHARED r") (simp_all add: a_def drop_shared_def set_tx_def)
  let ?d = "enqueue t r EXCLUSIVE a"
  have req: "request_exclusive t r s = (None, ?d)" using False x by (simp add: request_exclusive_cases a_def)
  have inva: "lock_inv ?d" using enqueue_inv [OF a(1)] not_queued [OF a(1)] a(2,3) w by simp
  have hd: "holds ?d u m r' = holds a u m r'" for u m r' by simp
  have yd: "txs ?d t = Some y" "waiting ?d t = Some (r, EXCLUSIVE)" using y by (simp_all add: enqueue_def)
  have cg: "can_grant (lock_table ?d r) t EXCLUSIVE \<longleftrightarrow> (\<forall>u m. holds s u m r \<longrightarrow> u = t)"
  proof
    assume c: "can_grant (lock_table ?d r) t EXCLUSIVE"
    show "\<forall>u m. holds s u m r \<longrightarrow> u = t"
    proof (intro allI impI)
      fix u m assume "holds s u m r"
      show "u = t"
      proof (rule ccontr)
        assume "u \<noteq> t"
        then have "\<lparr>req_tx = u, req_mode = m, req_granted = True\<rparr> \<in> set (lock_table ?d r)"
          using lock_invD(2) [OF inva] \<open>holds s u m r\<close> hd a(4) by blast
        with c \<open>u \<noteq> t\<close> show False unfolding can_grant_iff by force
      qed
    qed
  next
    assume o1: "\<forall>u m. holds s u m r \<longrightarrow> u = t"
    show "can_grant (lock_table ?d r) t EXCLUSIVE"
      unfolding can_grant_iff
    proof (intro ballI impI)
      fix q assume q: "q \<in> set (lock_table ?d r)" "req_granted q" "req_tx q \<noteq> t"
      then have "holds ?d (req_tx q) (req_mode q) r"
        using lock_invD(2) [OF inva] by (metis (full_types) req_cases lock_request.select_convs(3))
      with o1 hd a(4) q(3) show "EXCLUSIVE = SHARED \<and> req_mode q = SHARED" by blast
    qed
  qed
  have "holds (grant t r EXCLUSIVE ?d) t EXCLUSIVE r" using holds_grant [OF yd(1)] by simp
  moreover have "\<not> holds (time_out t r ?d) t m r" for m using a(3) hd by (simp add: time_out_def)
  moreover have "txs (time_out t r ?d) t = Some (y\<lparr>tx_state := ABORTED\<rparr>)"
    using yd by (simp add: time_out_def set_tx_def)
  ultimately show ?thesis using cg by (auto simp: lock_exclusive_def await_def req)
qed

section \<open>Properties\<close>

text \<open>
  C15: mutual exclusion. In every state the lock manager can reach, under any interleaving of
  requests, grants, timeouts, commits and aborts, a row locked exclusively by one transaction is not
  locked in any mode by another.
\<close>

theorem locks_exclusive:
  assumes "lock_reachable s" and "holds s t EXCLUSIVE r" and "holds s t' m r"
  shows "t = t'"
  using lock_invD(4) [OF _ assms(2,3)] lock_reachable_good [OF assms(1)] by (simp add: lock_good_def)

definition sample_rid :: rid where
  "sample_rid = \<lparr>rid_page = 3, rid_slot = 1\<rparr>"

lemma run_single: "lock_step s e t \<Longrightarrow> lock_run s [e] t"
  by (rule Run_Cons [OF _ Run_Nil])

lemma run_append: "lock_run s es t \<Longrightarrow> lock_run t fs u \<Longrightarrow> lock_run s (es @ fs) u"
  by (induction rule: lock_run.induct) (auto intro: lock_run.intros)

text \<open>The steps of a call that is granted at once.\<close>

lemma run_request_grant:
  assumes x: "txs s t = Some x" "waiting s t = None"
    and req: "(case m of SHARED \<Rightarrow> request_shared t r s | EXCLUSIVE \<Rightarrow> request_exclusive t r s) = (None, enqueue t r m u)"
    and g: "can_grant (lock_table (enqueue t r m u) r) t m"
  shows "lock_run s [Ev_request t r m, Ev_grant t] (grant t r m (enqueue t r m u))"
proof -
  have "lock_step s (Ev_request t r m) (enqueue t r m u)"
    using Request_shared [where r = r, OF x] Request_exclusive [where r = r, OF x] req by (cases m) simp_all
  moreover have "lock_step (enqueue t r m u) (Ev_grant t) (grant t r m (enqueue t r m u))"
    using g by (intro Grant) (simp_all add: enqueue_def)
  ultimately show ?thesis by (rule Run_Cons [OF _ run_single])
qed

text \<open>Two transactions that both hold \<open>sample_rid\<close> shared.\<close>

definition two_readers :: "row_undo lock_state" where
  "two_readers =
     \<lparr>lock_table = (\<lambda>r. if r = sample_rid
        then [\<lparr>req_tx = 0, req_mode = SHARED, req_granted = True\<rparr>, \<lparr>req_tx = 1, req_mode = SHARED, req_granted = True\<rparr>]
        else []),
      txs = [0 \<mapsto> tx_object\<lparr>shared_locks := {sample_rid}\<rparr>, 1 \<mapsto> tx_object\<lparr>shared_locks := {sample_rid}\<rparr>],
      waiting = Map.empty\<rparr>"

lemma two_readers_facts:
  "txs two_readers 0 = Some (tx_object\<lparr>shared_locks := {sample_rid}\<rparr>)"
  "txs two_readers 1 = Some (tx_object\<lparr>shared_locks := {sample_rid}\<rparr>)"
  "waiting two_readers t = None" "holds two_readers 0 SHARED sample_rid" "holds two_readers 1 SHARED sample_rid"
  by (simp_all add: two_readers_def holds_def)

lemma two_readers_reachable: "lock_reachable two_readers"
proof -
  let ?s0 = "lock_init :: row_undo lock_state"
  let ?s1 = "?s0\<lparr>txs := [0 \<mapsto> tx_object]\<rparr>" and ?s2 = "?s0\<lparr>txs := [0 \<mapsto> tx_object, 1 \<mapsto> tx_object]\<rparr>"
  let ?s3 = "grant 0 sample_rid SHARED (enqueue 0 sample_rid SHARED ?s2)"
  let ?s4 = "grant 1 sample_rid SHARED (enqueue 1 sample_rid SHARED ?s3)"
  have 1: "lock_step ?s0 (Ev_begin 0) ?s1" using Begin [of ?s0 0] by (simp add: lock_init_def)
  have 2: "lock_step ?s1 (Ev_begin 1) ?s2" using Begin [of ?s1 1] by (simp add: lock_init_def)
  have 3: "lock_run ?s2 [Ev_request 0 sample_rid SHARED, Ev_grant 0] ?s3"
    by (rule run_request_grant [of _ _ tx_object]) (simp_all add: lock_init_def request_shared_def tx_object_def enqueue_def)
  have 4: "lock_run ?s3 [Ev_request 1 sample_rid SHARED, Ev_grant 1] ?s4"
    by (rule run_request_grant [of _ _ tx_object])
      (simp_all add: lock_init_def request_shared_def tx_object_def enqueue_def grant_def mark_granted_def set_tx_def set_queue_def)
  have "?s4 = two_readers"
    by (simp add: two_readers_def lock_init_def tx_object_def enqueue_def grant_def mark_granted_def set_tx_def
        set_queue_def add_lock_def fun_eq_iff)
  moreover have "lock_reachable ?s4"
    unfolding lock_reachable_def using Run_Cons [OF 1 Run_Cons [OF 2 run_append [OF 3 4]]] by blast
  ultimately show ?thesis by simp
qed

theorem locks_exclusive_witness:
  "holds two_readers 0 SHARED sample_rid \<and> \<not> holds two_readers 0 EXCLUSIVE sample_rid"
proof -
  have "holds two_readers 0 SHARED sample_rid" "holds two_readers 1 SHARED sample_rid"
    by (simp_all add: holds_def two_readers_def)
  then show ?thesis using locks_exclusive [OF two_readers_reachable, of 0 sample_rid 1 SHARED] by auto
qed

text \<open>
  C29: locks are kept to the end. A step of the lock manager takes a lock from its holder only when
  the holder ends, or when it asks to upgrade that very lock.
\<close>

theorem locks_kept:
  assumes "lock_reachable s" and step: "lock_step s e s'" and h: "holds s t m r"
    and not_end: "\<forall>st. e \<noteq> Ev_end t st" and not_upgrade: "e \<noteq> Ev_request t r EXCLUSIVE"
  shows "holds s' t m r"
proof -
  have good: "lock_good s" by (rule lock_reachable_good [OF assms(1)])
  from step show ?thesis
  proof cases
    case (Begin t1)
    then show ?thesis using h by (cases "t1 = t") (auto simp: holds_def)
  next
    case (Request_shared t1 x r1)
    then show ?thesis using h by (simp add: request_shared_cases)
  next
    case (Request_exclusive t1 x r1)
    then have "\<not> (t = t1 \<and> m = SHARED \<and> r = r1)" using not_upgrade by auto
    then show ?thesis
      using h Request_exclusive good drop_shared_inv(4) [of s t1 r1 t m r]
      by (auto simp: request_exclusive_cases lock_good_def)
  next
    case (Grant t1 r1 m1)
    then obtain x where "txs s t1 = Some x" using good by (auto simp: lock_good_def dom_def)
    then show ?thesis using h Grant by (simp add: holds_grant)
  next
    case (Timeout t1 r1 m1)
    then show ?thesis using h by (simp add: time_out_def)
  next
    case (End t1 x st)
    then show ?thesis using h not_end by (auto simp: holds_unlock)
  qed
qed

theorem locks_kept_witness:
  "holds (snd (request_exclusive 1 sample_rid two_readers)) 0 SHARED sample_rid"
proof -
  have "lock_step two_readers (Ev_request 1 sample_rid EXCLUSIVE) (snd (request_exclusive 1 sample_rid two_readers))"
    by (rule Request_exclusive) (simp_all add: two_readers_def)
  moreover have "holds two_readers 0 SHARED sample_rid" by (simp add: holds_def two_readers_def)
  ultimately show ?thesis using locks_kept [OF two_readers_reachable] by simp
qed

text \<open>
  C36: an upgrade is not two-phase. Whenever two transactions share a row alone and both are growing,
  the first one asking for the exclusive lock gives the other the chance to get it: the other's
  upgrade is granted, although the first has neither ended nor kept its shared lock.
\<close>

theorem upgrade_lets_others_write:
  assumes good: "lock_good s" and t: "t \<noteq> u" and w: "waiting s t = None" "waiting s u = None"
    and h: "holds s t SHARED r" "holds s u SHARED r" and only: "\<forall>v m. holds s v m r \<longrightarrow> v \<in> {t, u} \<and> m = SHARED"
    and g: "\<forall>x. txs s t = Some x \<longrightarrow> tx_state x = GROWING" "\<forall>x. txs s u = Some x \<longrightarrow> tx_state x = GROWING"
  shows "\<exists>s'. lock_run s [Ev_request t r EXCLUSIVE, Ev_request u r EXCLUSIVE, Ev_grant u] s' \<and>
    holds s' u EXCLUSIVE r \<and> \<not> holds s' t SHARED r \<and> (\<exists>x. txs s' t = Some x \<and> tx_state x = GROWING)"
proof -
  have inv: "lock_inv s" using good by (simp add: lock_good_def)
  obtain x where x: "txs s t = Some x" "tx_state x = GROWING" using h(1) g(1) by (auto simp: holds_def)
  obtain y where y: "txs s u = Some y" "tx_state y = GROWING" using h(2) g(2) by (auto simp: holds_def)
  have nx: "\<not> holds s v EXCLUSIVE r" for v using only by blast
  let ?a = "drop_shared t r s" let ?b = "enqueue t r EXCLUSIVE ?a"
  note A = drop_shared_inv [OF inv w(1) nx]
  have reqt: "request_exclusive t r s = (None, ?b)" using x h(1) nx by (simp add: request_exclusive_cases)
  have invb: "lock_inv ?b" using enqueue_inv [OF A(1)] not_queued [OF A(1)] A(2,3) w(1) by simp
  have hb: "holds ?b v m q \<longleftrightarrow> holds s v m q \<and> \<not> (v = t \<and> m = SHARED \<and> q = r)" for v m q
    by (simp add: A(4))
  have wb: "waiting ?b u = None" using A(2) w(2) t by (simp add: enqueue_def)
  have txb: "txs ?b t = Some (x\<lparr>shared_locks := shared_locks x - {r}\<rparr>)" "txs ?b u = Some y"
    using x y t by (simp_all add: enqueue_def drop_shared_def set_tx_def)
  let ?c = "drop_shared u r ?b" let ?d = "enqueue u r EXCLUSIVE ?c"
  have nxb: "\<not> holds ?b u EXCLUSIVE r" using nx by (simp add: A(4))
  note C = drop_shared_inv [OF invb wb nxb]
  have requ: "request_exclusive u r ?b = (None, ?d)"
    using txb(2) y(2) h(2) nxb t by (simp add: request_exclusive_cases A(4))
  have invd: "lock_inv ?d" using enqueue_inv [OF C(1)] not_queued [OF C(1)] C(2,3) wb by simp
  have hd: "\<not> holds ?d v m r" if "v \<noteq> u" for v m
    using only that by (simp add: C(4) A(4)) blast
  have cg: "can_grant (lock_table ?d r) u EXCLUSIVE"
    unfolding can_grant_iff
  proof (intro ballI impI)
    fix q assume q: "q \<in> set (lock_table ?d r)" "req_granted q" "req_tx q \<noteq> u"
    then have "holds ?d (req_tx q) (req_mode q) r" using lock_invD(2) [OF invd] by (metis (full_types) req_cases lock_request.select_convs(3))
    with hd q(3) show "EXCLUSIVE = SHARED \<and> req_mode q = SHARED" by blast
  qed
  let ?e = "grant u r EXCLUSIVE ?d"
  have txd: "txs ?d u = Some (y\<lparr>shared_locks := shared_locks y - {r}\<rparr>)" "txs ?d t = txs ?b t"
    using txb t by (simp_all add: enqueue_def drop_shared_def set_tx_def)
  have s1: "lock_step s (Ev_request t r EXCLUSIVE) ?b" using Request_exclusive [where r = r, OF x(1) w(1)] reqt by simp
  have s2: "lock_step ?b (Ev_request u r EXCLUSIVE) ?d" using Request_exclusive [where r = r, OF txb(2) wb] requ by simp
  have s3: "lock_step ?d (Ev_grant u) ?e" using cg by (intro Grant) (simp_all add: enqueue_def)
  have "lock_run s [Ev_request t r EXCLUSIVE, Ev_request u r EXCLUSIVE, Ev_grant u] ?e"
    by (rule Run_Cons [OF s1 Run_Cons [OF s2 run_single [OF s3]]])
  moreover have "holds ?e u EXCLUSIVE r" "\<not> holds ?e t SHARED r"
    using holds_grant [OF txd(1)] hd t by auto
  moreover have "txs ?e t = txs ?b t" using txd t by (simp add: grant_def set_tx_def)
  ultimately show ?thesis using txb(1) x(2) by auto
qed

theorem upgrade_lets_others_write_witness:
  "\<exists>s'. lock_run two_readers [Ev_request 0 sample_rid EXCLUSIVE, Ev_request 1 sample_rid EXCLUSIVE, Ev_grant 1] s' \<and>
    holds s' 1 EXCLUSIVE sample_rid \<and> \<not> holds s' 0 SHARED sample_rid"
proof -
  have only: "\<forall>v m. holds two_readers v m sample_rid \<longrightarrow> v \<in> {0, 1} \<and> m = SHARED"
  proof (intro allI impI)
    fix v m assume "holds two_readers v m sample_rid"
    then show "v \<in> {0, 1} \<and> m = SHARED"
      by (cases m) (auto simp: holds_def two_readers_def tx_object_def split: if_splits)
  qed
  show ?thesis
    using upgrade_lets_others_write [OF lock_reachable_good [OF two_readers_reachable], of 0 1 sample_rid]
      only two_readers_facts by (auto simp: tx_object_def)
qed

text \<open>
  C30: the outcome of an exclusive lock call with nothing running beside it, for a growing
  transaction. It answers true exactly when no other transaction holds the row, and then the row is
  locked; otherwise the transaction is aborted and holds the row in no mode, not even the shared one
  it had.
\<close>

theorem lock_exclusive_outcome:
  assumes good: "lock_good s" and w: "waiting s t = None" and x: "txs s t = Some x" "tx_state x = GROWING"
  shows "case lock_exclusive t r s of (b, s') \<Rightarrow>
    (b \<longleftrightarrow> (\<forall>u m. holds s u m r \<longrightarrow> u = t)) \<and>
    (if b then holds s' t EXCLUSIVE r
     else (\<forall>m. \<not> holds s' t m r) \<and> (\<exists>y. txs s' t = Some y \<and> tx_state y = ABORTED))"
  using lock_exclusive_case [OF assms] .

theorem lock_exclusive_outcome_witness:
  "fst (lock_exclusive 0 sample_rid two_readers) = False \<and>
   (\<forall>m. \<not> holds (snd (lock_exclusive 0 sample_rid two_readers)) 0 m sample_rid)"
proof -
  have "case lock_exclusive 0 sample_rid two_readers of (b, s') \<Rightarrow>
    (b \<longleftrightarrow> (\<forall>u m. holds two_readers u m sample_rid \<longrightarrow> u = 0)) \<and>
    (if b then holds s' 0 EXCLUSIVE sample_rid
     else (\<forall>m. \<not> holds s' 0 m sample_rid) \<and> (\<exists>y. txs s' 0 = Some y \<and> tx_state y = ABORTED))"
    using two_readers_facts
    by (intro lock_exclusive_outcome [OF lock_reachable_good [OF two_readers_reachable],
          where x = "tx_object\<lparr>shared_locks := {sample_rid}\<rparr>"]) (simp_all add: tx_object_def)
  moreover have "\<not> (\<forall>u m. holds two_readers u m sample_rid \<longrightarrow> u = 0)" using two_readers_facts(5) zero_neq_one by metis
  moreover obtain b s' where "lock_exclusive 0 sample_rid two_readers = (b, s')" by (rule prod.exhaust)
  ultimately show ?thesis by (cases b) simp_all
qed

section \<open>Waiting requests\<close>

fun event_tx :: "lock_event \<Rightarrow> transaction_id" where
  "event_tx (Ev_begin t) = t"
| "event_tx (Ev_request t r m) = t"
| "event_tx (Ev_grant t) = t"
| "event_tx (Ev_timeout t) = t"
| "event_tx (Ev_end t st) = t"

text \<open>The requests that stand in the way of one of transaction \<open>t\<close> on row \<open>r\<close>.\<close>

definition others_granted :: "'u lock_state \<Rightarrow> transaction_id \<Rightarrow> rid \<Rightarrow> lock_request list" where
  "others_granted s t r = filter (\<lambda>q. req_granted q \<and> req_tx q \<noteq> t) (lock_table s r)"

lemma lock_call_returns:
  assumes "waiting s u = Some (q, m)"
  shows "\<exists>e s'. lock_step s e s' \<and> event_tx e = u \<and> waiting s' = (waiting s)(u := None) \<and>
    (\<forall>r. r \<noteq> q \<longrightarrow> lock_table s' r = lock_table s r)"
proof (cases "can_grant (lock_table s q) u m")
  case True
  from Grant [OF assms True] show ?thesis
    by (intro exI [of _ "Ev_grant u"] exI [of _ "grant u q m s"]) (auto simp: grant_def set_tx_def set_queue_def)
next
  case False
  from Timeout [OF assms False] show ?thesis
    by (intro exI [of _ "Ev_timeout u"] exI [of _ "time_out u q s"]) (auto simp: time_out_def set_tx_def set_queue_def)
qed

lemma end_releases:
  assumes "holds s u m r" and "waiting s u = None"
  shows "\<exists>s'. lock_step s (Ev_end u ABORTED) s' \<and> waiting s' = waiting s \<and> lock_table s' r = erase_requests u (lock_table s r)"
proof -
  obtain x where x: "txs s u = Some x" "r \<in> exclusive_locks x \<union> shared_locks x"
    using assms(1) by (cases m) (auto simp: holds_def)
  from End [OF x(1) assms(2), of ABORTED] x show ?thesis by (auto simp: unlock_all_def set_tx_def)
qed

lemma way_is_free:
  "lock_good s \<Longrightarrow> waiting s t = Some (r, m) \<Longrightarrow>
   \<exists>es s'. lock_run s es s' \<and> (\<forall>e\<in>set es. event_tx e \<noteq> t) \<and> waiting s' t = Some (r, m) \<and> can_grant (lock_table s' r) t m"
proof (induction "length (others_granted s t r)" arbitrary: s rule: less_induct)
  case less
  have inv: "lock_inv s" using less.prems(1) by (simp add: lock_good_def)
  show ?case
  proof (cases "others_granted s t r")
    case Nil
    then have "can_grant (lock_table s r) t m" by (auto simp: can_grant_iff others_granted_def filter_empty_conv)
    then show ?thesis using less.prems(2) Run_Nil by (intro exI [of _ "[]"]) auto
  next
    case (Cons q qs)
    then have "q \<in> set (others_granted s t r)" by simp
    then have q: "q \<in> set (lock_table s r)" "req_granted q" "req_tx q \<noteq> t" by (simp_all add: others_granted_def)
    let ?u = "req_tx q"
    have hu: "holds s ?u (req_mode q) r"
      using lock_invD(2) [OF inv] q by (metis (full_types) req_cases lock_request.select_convs(3))
    have "\<exists>es v. lock_run s es v \<and> (\<forall>e\<in>set es. event_tx e = ?u) \<and> waiting v ?u = None \<and> waiting v t = Some (r, m) \<and>
        lock_table v r = lock_table s r"
    proof (cases "waiting s ?u")
      case None
      then show ?thesis using less.prems(2) Run_Nil by (intro exI [of _ "[]"]) auto
    next
      case (Some a)
      obtain p k where p: "waiting s ?u = Some (p, k)" using Some by (cases a) auto
      have "p \<noteq> r"
      proof
        assume "p = r"
        then have "\<lparr>req_tx = ?u, req_mode = k, req_granted = False\<rparr> \<in> set (lock_table s r)" using lock_invD(3) [OF inv] p by simp
        from same_request [OF inv q(1) this] have "\<not> req_granted q" by (metis lock_request.select_convs(1,3))
        then show False using q(2) by simp
      qed
      obtain e v where "lock_step s e v" "event_tx e = ?u" "waiting v = (waiting s)(?u := None)" "\<forall>q. q \<noteq> p \<longrightarrow> lock_table v q = lock_table s q"
        using lock_call_returns [OF p] by blast
      then show ?thesis using \<open>p \<noteq> r\<close> less.prems(2) q(3) run_single by (intro exI [of _ "[e]"] exI [of _ v]) auto
    qed
    then obtain es v where v: "lock_run s es v" "\<forall>e\<in>set es. event_tx e = ?u" "waiting v ?u = None" "waiting v t = Some (r, m)"
      "lock_table v r = lock_table s r" by blast
    have good: "lock_good v" using lock_run_good [OF v(1) less.prems(1)] .
    have "holds v ?u (req_mode q) r"
      using lock_invD(2) [of v] good q v(5) by (metis (full_types) lock_good_def req_cases lock_request.select_convs(3))
    from end_releases [OF this v(3)] obtain u where u: "lock_step v (Ev_end ?u ABORTED) u" "waiting u = waiting v"
      "lock_table u r = erase_requests ?u (lock_table v r)" by blast
    have "others_granted u t r = filter (\<lambda>q'. req_tx q' \<noteq> ?u) (others_granted s t r)"
      by (auto simp: others_granted_def u(3) v(5) erase_requests_def intro: filter_cong)
    moreover have "q \<in> set (others_granted s t r)" using Cons by simp
    ultimately have "length (others_granted u t r) < length (others_granted s t r)"
      using length_filter_less [of q "others_granted s t r" "\<lambda>q'. req_tx q' \<noteq> ?u"] by simp
    from less.hyps [OF this] lock_step_good [OF u(1) good] u(2) v(4) obtain fs s' where
      "lock_run u fs s'" "\<forall>e\<in>set fs. event_tx e \<noteq> t" "waiting s' t = Some (r, m)" "can_grant (lock_table s' r) t m" by auto
    moreover from this(1) have "lock_run s (es @ Ev_end ?u ABORTED # fs) s'" by (rule run_append [OF v(1) Run_Cons [OF u(1)]])
    ultimately show ?thesis using v(2) q(3) by (intro exI [of _ "es @ Ev_end ?u ABORTED # fs"] exI [of _ s']) auto
  qed
qed

text \<open>
  C16: a waiting request can always be granted. From every reachable state in which a transaction waits
  for a lock, the lock is granted after some steps of other transactions alone: calls that return and
  transactions that end. Waiting is never a deadlock that only the waiting transaction can break.
\<close>

theorem waiting_can_be_granted:
  assumes "lock_reachable s" and "waiting s t = Some (r, m)"
  shows "\<exists>es s'. lock_run s (es @ [Ev_grant t]) s' \<and> (\<forall>e\<in>set es. event_tx e \<noteq> t) \<and> holds s' t m r"
proof -
  obtain es v where v: "lock_run s es v" "\<forall>e\<in>set es. event_tx e \<noteq> t" "waiting v t = Some (r, m)" "can_grant (lock_table v r) t m"
    using way_is_free [OF lock_reachable_good [OF assms(1)] assms(2)] by blast
  have "lock_good v" using lock_run_good [OF v(1) lock_reachable_good [OF assms(1)]] .
  then obtain x where "txs v t = Some x" using v(3) by (auto simp: lock_good_def)
  then have "holds (grant t r m v) t m r" by (simp add: holds_grant)
  moreover have "lock_run s (es @ [Ev_grant t]) (grant t r m v)" by (rule run_append [OF v(1) run_single [OF Grant [OF v(3,4)]]])
  ultimately show ?thesis using v(2) by blast
qed

theorem waiting_can_be_granted_witness:
  "\<exists>s es s'. waiting s 0 = Some (sample_rid, EXCLUSIVE) \<and> holds s 1 SHARED sample_rid \<and>
     lock_run s (es @ [Ev_grant 0]) (s' :: row_undo lock_state) \<and> holds s' 0 EXCLUSIVE sample_rid"
proof -
  let ?s = "snd (request_exclusive 0 sample_rid two_readers)"
  obtain es where "lock_run lock_init es two_readers" using two_readers_reachable by (auto simp: lock_reachable_def)
  moreover have "lock_step two_readers (Ev_request 0 sample_rid EXCLUSIVE) ?s"
    by (rule Request_exclusive [OF two_readers_facts(1,3)])
  ultimately have "lock_run lock_init (es @ [Ev_request 0 sample_rid EXCLUSIVE]) ?s" by (rule run_append [OF _ run_single])
  then have "lock_reachable ?s" unfolding lock_reachable_def by (rule exI)
  moreover have "waiting ?s 0 = Some (sample_rid, EXCLUSIVE)" "holds ?s 1 SHARED sample_rid"
    by (simp_all add: request_exclusive_def two_readers_def tx_object_def Let_def enqueue_def set_queue_def set_tx_def holds_def)
  ultimately show ?thesis using waiting_can_be_granted [of ?s 0 sample_rid EXCLUSIVE] by blast
qed

lemma abort_ends:
  assumes ab: "tm_abort run t m = (Inr (), m')" and x: "txs (locks m) t = Some x"
  shows "t \<notin> active_txs m' \<and> (\<exists>y. txs (locks m') t = Some y \<and> tx_state y = ABORTED \<and> shared_locks y = {} \<and> exclusive_locks y = {})"
proof -
  obtain a where a: "tx_undo run t (tx_set_state t SHRINKING m) = (Inr (), a)"
    and m'_eq: "m' = (tx_set_state t ABORTED (a\<lparr>locks := unlock_all t (locks a)\<rparr>))\<lparr>active_txs := active_txs a - {t}\<rparr>"
    using ab by (auto simp: tm_abort_def and_then_eq_Inr tx_set_state_def)
  have "locks a = locks (tx_set_state t SHRINKING m)" using a by (auto simp: tx_undo_def zoom_def split: prod.splits)
  then have "txs (locks a) t = Some (x\<lparr>tx_state := SHRINKING\<rparr>)"
    using x by (simp add: tx_set_state_def set_tx_def)
  then have "txs (locks m') t = Some (x\<lparr>tx_state := ABORTED, shared_locks := {}, exclusive_locks := {}\<rparr>)"
    by (simp add: m'_eq tx_set_state_def unlock_all_def set_tx_def)
  then show ?thesis by (auto simp: m'_eq)
qed

text \<open>
  Abort. When the undo log of a transaction records what was done to the rows of a page since its
  state \<open>d\<close> (inserts into free slots, deletes, updates), abort runs through and every slot has the row
  it had in \<open>d\<close>; the transaction is aborted, holds no locks and is no longer active.
\<close>

theorem abort_restores_rows:
  assumes ch: "changes page_change d us (tx_data m)" and wf: "wf_page d"
    and x: "txs (locks m) t = Some x" and us: "undo_log x = us"
  shows "\<exists>m'. tm_abort page_undo t m = (Inr (), m') \<and> wf_page (tx_data m') \<and>
    page_tuples (tx_data m') = page_tuples d \<and> t \<notin> active_txs m' \<and>
    (\<exists>y. txs (locks m') t = Some y \<and> tx_state y = ABORTED \<and> shared_locks y = {} \<and> exclusive_locks y = {})"
proof -
  obtain m' where m': "tm_abort page_undo t m = (Inr (), m')" "wf_page (tx_data m')"
    "page_tuples (tx_data m') = page_tuples d"
    using page_undo.abort_restores_inv [OF ch wf x us] by blast
  then show ?thesis using abort_ends [OF m'(1) x] by blast
qed

definition sample_tm :: "page_data \<Rightarrow> row_undo list \<Rightarrow> (row_undo, page_data) tx_manager" where
  "sample_tm d us = \<lparr>locks = \<lparr>lock_table = (\<lambda>_. []), txs = [0 \<mapsto> tx_object\<lparr>undo_log := us\<rparr>], waiting = Map.empty\<rparr>,
     next_tx_id = 1, active_txs = {0}, tx_data = d\<rparr>"

theorem abort_restores_rows_witness:
  "\<exists>e m'. sp_delete_tuple (sample_page [7, 8]) 0 = Inr (True, e) \<and>
    tm_abort page_undo 0 (sample_tm e [Restore_row 0 [7, 8]]) = (Inr (), m') \<and>
    page_tuples (tx_data m') = page_tuples (sample_page [7, 8])"
proof -
  let ?d = "sample_page [7, 8]"
  have wf: "wf_page ?d" and tp: "tuple_at ?d = [0 \<mapsto> [7, 8]]" and n: "page_slots ?d = 1"
    using sample_page [of "[7, 8]"] by simp_all
  have r: "page_tuples ?d ! 0 = Some [7, 8]" using tp n tuple_at_page_tuples [of ?d 0] by simp
  let ?e = "put_slot_offset 0 0 ?d"
  have e: "wf_page ?e" "page_tuples ?e = (page_tuples ?d)[0 := None]" using drop_slot_wf [OF wf, of 0] n by simp_all
  have "sp_delete_tuple ?d 0 = Inr (True, ?e)" using sample_live [of "[7, 8]" 0] by (simp add: sp_delete_tuple_wf [OF wf])
  moreover have "page_change ?d (Restore_row 0 [7, 8]) ?e"
    using n r e by (intro page_change.Delete_row) simp_all
  then have "changes page_change ?d ([] @ [Restore_row 0 [7, 8]]) ?e" by (rule One_more [OF No_change])
  ultimately show ?thesis
    using abort_restores_rows [of ?d "[Restore_row 0 [7, 8]]" "sample_tm ?e [Restore_row 0 [7, 8]]" 0] wf
    by (auto simp: sample_tm_def)
qed

text \<open>
  Committing after a failed lock call. A growing transaction whose exclusive lock call cannot be
  granted has been aborted by the lock manager, but nothing is undone, and a commit that follows makes
  it committed, with the changes it had made before.
\<close>

theorem aborted_can_commit:
  assumes good: "lock_good (locks m)" and w: "waiting (locks m) t = None"
    and x: "txs (locks m) t = Some x" "tx_state x = GROWING"
    and u: "u \<noteq> t" "holds (locks m) u n r"
  shows "\<exists>l y z. lock_exclusive t r (locks m) = (False, l) \<and> txs l t = Some y \<and> tx_state y = ABORTED \<and>
    tx_data (tm_commit t (m\<lparr>locks := l\<rparr>)) = tx_data m \<and>
    txs (locks (tm_commit t (m\<lparr>locks := l\<rparr>))) t = Some z \<and> tx_state z = COMMITTED"
proof -
  obtain b l where l: "lock_exclusive t r (locks m) = (b, l)" by (rule prod.exhaust)
  have "(\<forall>u m'. holds (locks m) u m' r \<longrightarrow> u = t) = False" using u by blast
  with lock_exclusive_case [OF good w x, of r] l have "\<not> b \<and> (\<exists>y. txs l t = Some y \<and> tx_state y = ABORTED)" by simp
  then obtain y where y: "\<not> b" "txs l t = Some y" "tx_state y = ABORTED" by blast
  have "txs (locks (m\<lparr>locks := l\<rparr>)) t = Some y" using y by simp
  from commit_locks [OF this] y l show ?thesis
    by (auto simp: tm_commit_def tx_set_state_def Let_def)
qed

theorem aborted_can_commit_witness:
  "\<exists>l z. lock_exclusive 0 sample_rid two_readers = (False, l) \<and>
    txs (locks (tm_commit 0 ((sample_tm zero_page [])\<lparr>locks := l\<rparr>))) 0 = Some z \<and> tx_state z = COMMITTED"
  using aborted_can_commit [of "(sample_tm zero_page [])\<lparr>locks := two_readers\<rparr>" 0
      "tx_object\<lparr>shared_locks := {sample_rid}\<rparr>" 1 SHARED sample_rid]
    lock_reachable_good [OF two_readers_reachable] two_readers_facts
  by (auto simp: tx_object_def)

text \<open>
  An abort that cannot succeed. On a page filled by one row of the largest size, a transaction
  deletes the row and inserts two small ones (the heap compacts the page and reuses the slot); its
  abort then fails the assertion of \<open>restore_tuple\<close>: the undone inserts leave their slots behind, and
  the row no longer fits.
\<close>

lemma insert_fits_obtain:
  assumes "wf_page d" and "insert_fits d t p" and "insert_index (page_tuples d) p = i"
  shows "\<exists>r e. sp_insert_tuple d t p = Inr (r, e) \<and> wf_page e \<and> page_tuples e = put_tuple (page_tuples d) i t \<and>
    page_free e = page_free d - length t"
  using sp_insert_tuple_fits [OF assms(1,2)] assms(3) by metis

lemma undo_delete:
  assumes "wf_page d" and "live d (unat s)"
  shows "\<exists>e. page_undo (Delete_row s) d = (Inr (), e) \<and> wf_page e \<and> page_tuples e = (page_tuples d)[unat s := None]"
  using assms drop_slot_wf(1,2) [OF assms(1) live_less [OF assms(2)]] by (simp add: sp_delete_tuple_wf)

lemma live_tuples: "live d i \<longleftrightarrow> i < page_slots d \<and> page_tuples d ! i \<noteq> None"
  using tuple_at_None [of d i] live_less [of d i] by (auto simp: tuple_at_page_tuples split: if_splits)

theorem undo_can_fail:
  assumes big: "length big = 8180"
  shows "\<exists>d e m. page_run [Page_delete 0, Page_compact, Page_insert [2] None, Page_insert [3] None] (sample_page big) = Inr d \<and>
    page_tuples d = [Some [2], Some [3]] \<and>
    run_undo page_undo (rev [Restore_row 0 big, Delete_row 0, Delete_row 1]) d = (Inl (Assert_failed m), e)"
proof -
  let ?d = "sample_page big"
  have wf: "wf_page ?d" and n: "page_slots ?d = 1" and lv: "live ?d 0"
    using big sample_page [of big] sample_live [of big 0] by simp_all
  have one: "xs = [xs ! 0]" if "length xs = 1" for xs :: "'a list" using that by (cases xs) auto
  let ?a = "put_slot_offset 0 0 ?d"
  have a: "sp_delete_tuple ?d 0 = Inr (True, ?a)" "wf_page ?a" "page_tuples ?a = [None]"
    using lv drop_slot_wf(1,2) [OF wf, of 0] n one [of "page_tuples ?d"] by (auto simp: sp_delete_tuple_wf [OF wf]) (metis list_update_code(2))
  have na: "page_slots ?a = 1" using a(3) by (metis One_nat_def length_page_tuples length_Cons list.size(3))
  obtain b where b: "sp_compact ?a = Inr b" "compacted_page ?a b" using sp_compact_wf [OF a(2)] by blast
  have nol: "\<not> live ?a i" for i using a(3) na by (cases i) (auto simp: live_tuples)
  then have "used ?a (page_slots ?a) = 0" by (simp add: used_def)
  then have wfb: "wf_page b" and tb: "page_tuples b = [None]" and fb: "page_free b = 8192" and nb: "page_slots b = 1"
    using b(2) a(3) na by (auto simp: compacted_page_def kPAGE_SIZE_def) (metis length_page_tuples na a(3))
  have ib: "insert_index (page_tuples b) None = 0" by (simp add: tb insert_index_def free_index_def)
  then obtain r1 c where c: "sp_insert_tuple b [2] None = Inr (r1, c)" "wf_page c" "page_tuples c = [Some [2]]" "page_free c = 8191"
    using insert_fits_obtain [OF wfb _ ib, of "[2]"] tb fb nb
    by (auto simp: insert_fits_def page_room_def put_tuple_def)
  have nc: "page_slots c = 1" using c(3) by (metis One_nat_def length_page_tuples length_Cons list.size(3))
  have ic: "insert_index (page_tuples c) None = 1" by (simp add: c(3) insert_index_def free_index_def)
  then obtain r2 d where d: "sp_insert_tuple c [3] None = Inr (r2, d)" "wf_page d" "page_tuples d = [Some [2], Some [3]]"
    using insert_fits_obtain [OF c(2) _ ic, of "[3]"] c(3,4) nc
    by (auto simp: insert_fits_def page_room_def put_tuple_def)
  have run: "page_run [Page_delete 0, Page_compact, Page_insert [2] None, Page_insert [3] None] ?d = Inr d"
    using a(1) b(1) c(1) d(1) by simp
  have nd: "page_slots d = 2" using d(3) by (metis length_page_tuples length_Cons list.size(3) numeral_2_eq_2)
  obtain e where e: "page_undo (Delete_row 1) d = (Inr (), e)" "wf_page e" "page_tuples e = [Some [2], None]"
    using undo_delete [OF d(2), of 1] nd d(3) by (auto simp: live_tuples)
  have ne: "page_slots e = 2" using e(3) by (metis length_page_tuples length_Cons list.size(3) numeral_2_eq_2)
  obtain f where f: "page_undo (Delete_row 0) e = (Inr (), f)" "wf_page f" "page_tuples f = [None, None]"
    using undo_delete [OF e(2), of 0] ne e(3) by (auto simp: live_tuples)
  have nf: "page_slots f = 2" using f(3) by (metis length_page_tuples length_Cons list.size(3) numeral_2_eq_2)
  have "\<not> restorable f 0 big" using big nf by (simp add: restorable_def kPAGE_SIZE_def)
  from restore_refused [OF f(2) _ this] big obtain m where "sp_restore_tuple f 0 big = Inl (Assert_failed m)" by auto
  then have "page_undo (Restore_row 0 big) f = (Inl (Assert_failed m), f)" by simp
  then have "run_undo page_undo (rev [Restore_row 0 big, Delete_row 0, Delete_row 1]) d = (Inl (Assert_failed m), f)"
    using e(1) f(1) by (simp add: and_then_def)
  with run d(3) show ?thesis by blast
qed

theorem undo_can_fail_witness:
  "\<exists>d e m. page_tuples d = [Some [2], Some [3]] \<and>
    run_undo page_undo [Delete_row 1, Delete_row 0, Restore_row 0 (replicate 8180 1)] d = (Inl (Assert_failed m), e)"
  using undo_can_fail [of "replicate 8180 1"] by auto

end
