(* ===== verification/Expression.thy ===== *)
theory Expression
  imports Schema_Model
begin

text \<open>
  \<open>Record\<close> and the expressions over it (\<open>include/duck/record\<close>, \<open>include/duck/expression\<close>,
  \<open>src/expression\<close>): the comparison of two values, the three-valued connectives, and \<open>evaluate\<close> of
  an expression tree. \<open>expression_type\<close> is the typing discipline under which evaluation cannot throw.
\<close>

section \<open>Records\<close>

type_synonym row = "sql_value list"

definition record_get :: "row \<Rightarrow> nat \<Rightarrow> sql_value res" where
  "record_get r i = (if i < length r then Inr (r ! i) else Inl Out_of_range)"

definition record_plus :: "row \<Rightarrow> row \<Rightarrow> row" where
  "record_plus r other = r @ other"

section \<open>Expression trees\<close>

datatype comparison_operator = GREATER | LESS | GREATER_EQ | LESS_EQ | EQUAL | NOT_EQ

datatype compare_result = Cmp_LESS | Cmp_EQ | Cmp_GREATER | Cmp_UNKNOWN

datatype binary_operator = AND_OP | OR_OP

datatype unary_operator = NOT_OP

datatype expression =
    ColumnExpression nat
  | ConstantExpression sql_value
  | ComparisonExpression expression comparison_operator expression
  | BinaryExpression expression binary_operator expression
  | UnaryExpression expression unary_operator

section \<open>Comparing two values\<close>

definition compare_generic :: "('a \<Rightarrow> 'a \<Rightarrow> bool) \<Rightarrow> 'a \<Rightarrow> 'a \<Rightarrow> compare_result" where
  "compare_generic lt left right =
     (if lt left right then Cmp_LESS else if lt right left then Cmp_GREATER else Cmp_EQ)"

text \<open>The order of \<open>std::string\<close> and \<open>std::vector<std::byte>\<close>: lexicographic on unsigned bytes.\<close>

fun bytes_less :: "byte list \<Rightarrow> byte list \<Rightarrow> bool" where
  "bytes_less [] ys = (ys \<noteq> [])"
| "bytes_less (x # xs) [] = False"
| "bytes_less (x # xs) (y # ys) = (if x < y then True else if y < x then False else bytes_less xs ys)"

definition string_less :: "string \<Rightarrow> string \<Rightarrow> bool" where
  "string_less a b = bytes_less (map byte_of_char a) (map byte_of_char b)"

definition floating_operand :: "sql_value \<Rightarrow> f64 res" where
  "floating_operand v =
     (if vtype v = FLOAT then bind_res (as_float v) (\<lambda>w. Inr (f64_of_f32 w)) else as_double v)"

text \<open>
  The conditional \<open>type == UINT64 ? as_uint64() : as_integral()\<close> has the common type
  \<open>std::uint64_t\<close>, so a negative integer is converted to \<open>double\<close> as the number modulo \<open>2^64\<close>.
\<close>

definition integral_operand :: "sql_value \<Rightarrow> f64 res" where
  "integral_operand v =
     bind_res (if vtype v = UINT64 then as_uint64 v else as_integral v) (\<lambda>w. Inr (f64_of_u64 w))"

definition compare_floating :: "f64 \<Rightarrow> f64 \<Rightarrow> compare_result" where
  "compare_floating l r =
     (if f64_isnan l \<or> f64_isnan r then Cmp_UNKNOWN else compare_generic f64_less l r)"

definition compare_integral :: "sql_value \<Rightarrow> sql_value \<Rightarrow> compare_result res" where
  "compare_integral left right =
     (if vtype left = UINT64 \<and> vtype right = UINT64 then
        bind_res (as_uint64 left) (\<lambda>l. bind_res (as_uint64 right) (\<lambda>r. Inr (compare_generic (<) l r)))
      else if vtype left = UINT64 then
        bind_res (as_uint64 left) (\<lambda>l.
        if l > 0x7FFFFFFFFFFFFFFF then Inr Cmp_GREATER
        else bind_res (as_integral right) (\<lambda>r. Inr (compare_generic (<s) l r)))
      else if vtype right = UINT64 then
        bind_res (as_uint64 right) (\<lambda>r.
        if r > 0x7FFFFFFFFFFFFFFF then Inr Cmp_LESS
        else bind_res (as_integral left) (\<lambda>l. Inr (compare_generic (<s) l r)))
      else bind_res (as_integral left) (\<lambda>l. bind_res (as_integral right) (\<lambda>r.
        Inr (compare_generic (<s) l r))))"

definition compare :: "sql_value \<Rightarrow> sql_value \<Rightarrow> compare_result res" where
  "compare left right =
     (if is_null left \<or> is_null right then Inr Cmp_UNKNOWN
      else if is_floating left \<and> is_floating right then
        bind_res (floating_operand left) (\<lambda>l. bind_res (floating_operand right) (\<lambda>r. Inr (compare_floating l r)))
      else if is_floating left \<and> is_numeric right then
        bind_res (floating_operand left) (\<lambda>l. bind_res (integral_operand right) (\<lambda>r. Inr (compare_floating l r)))
      else if is_numeric left \<and> is_floating right then
        bind_res (integral_operand left) (\<lambda>l. bind_res (floating_operand right) (\<lambda>r. Inr (compare_floating l r)))
      else if is_integral left \<and> is_integral right then compare_integral left right
      else if vtype left = BOOL \<and> vtype right = BOOL then
        bind_res (as_bool left) (\<lambda>l. bind_res (as_bool right) (\<lambda>r. Inr (compare_generic (<) l r)))
      else if vtype left = STRING \<and> vtype right = STRING then
        bind_res (as_string left) (\<lambda>l. bind_res (as_string right) (\<lambda>r. Inr (compare_generic string_less l r)))
      else if vtype left = BYTES \<and> vtype right = BYTES then
        bind_res (as_bytes left) (\<lambda>l. bind_res (as_bytes right) (\<lambda>r. Inr (compare_generic bytes_less l r)))
      else Inr Cmp_UNKNOWN)"

section \<open>Evaluation\<close>

definition comparison_value :: "comparison_operator \<Rightarrow> compare_result \<Rightarrow> sql_value" where
  "comparison_value op cmp =
     (if cmp = Cmp_UNKNOWN then null_value BOOL
      else case op of
        EQUAL \<Rightarrow> of_boolean (cmp = Cmp_EQ)
      | NOT_EQ \<Rightarrow> of_boolean (cmp \<noteq> Cmp_EQ)
      | GREATER \<Rightarrow> of_boolean (cmp = Cmp_GREATER)
      | LESS \<Rightarrow> of_boolean (cmp = Cmp_LESS)
      | GREATER_EQ \<Rightarrow> of_boolean (cmp = Cmp_GREATER \<or> cmp = Cmp_EQ)
      | LESS_EQ \<Rightarrow> of_boolean (cmp = Cmp_LESS \<or> cmp = Cmp_EQ))"

text \<open>\<open>!v.is_null() && v.as_bool() == b\<close>: \<open>as_bool\<close> is not called on a null value.\<close>

definition known_to_be :: "bool \<Rightarrow> sql_value \<Rightarrow> bool res" where
  "known_to_be b v = (if is_null v then Inr False else bind_res (as_bool v) (\<lambda>x. Inr (x = b)))"

definition binary_value :: "binary_operator \<Rightarrow> sql_value \<Rightarrow> sql_value \<Rightarrow> sql_value res" where
  "binary_value op left right =
     (if is_null left \<and> is_null right then Inr (null_value BOOL)
      else if vtype left \<noteq> BOOL \<or> vtype right \<noteq> BOOL
      then Inl (Runtime_error ''BinaryExpression expects boolean operands'')
      else case op of
        AND_OP \<Rightarrow>
          bind_res (known_to_be False left) (\<lambda>l. if l then Inr (of_boolean False) else
          bind_res (known_to_be False right) (\<lambda>r. if r then Inr (of_boolean False) else
          if is_null left \<or> is_null right then Inr (null_value BOOL) else Inr (of_boolean True)))
      | OR_OP \<Rightarrow>
          bind_res (known_to_be True left) (\<lambda>l. if l then Inr (of_boolean True) else
          bind_res (known_to_be True right) (\<lambda>r. if r then Inr (of_boolean True) else
          if is_null left \<or> is_null right then Inr (null_value BOOL) else Inr (of_boolean False))))"

definition unary_value :: "unary_operator \<Rightarrow> sql_value \<Rightarrow> sql_value res" where
  "unary_value op v =
     (if is_null v then Inr (null_value BOOL)
      else if vtype v \<noteq> BOOL then Inl (Runtime_error ''UnaryExpression expects boolean operand'')
      else case op of NOT_OP \<Rightarrow> bind_res (as_bool v) (\<lambda>b. Inr (of_boolean (\<not> b))))"

fun evaluate :: "expression \<Rightarrow> row \<Rightarrow> sql_value res" where
  "evaluate (ColumnExpression i) rec = record_get rec i"
| "evaluate (ConstantExpression v) rec = Inr v"
| "evaluate (ComparisonExpression l op r) rec =
     bind_res (evaluate l rec) (\<lambda>left.
     bind_res (evaluate r rec) (\<lambda>right.
     bind_res (compare left right) (\<lambda>cmp. Inr (comparison_value op cmp))))"
| "evaluate (BinaryExpression l op r) rec =
     bind_res (evaluate l rec) (\<lambda>left. bind_res (evaluate r rec) (\<lambda>right. binary_value op left right))"
| "evaluate (UnaryExpression e op) rec = bind_res (evaluate e rec) (\<lambda>v. unary_value op v)"

section \<open>Comparison is total and symmetric\<close>

text \<open>What a well-formed value means, by kind; kinds that differ do not compare, except the numeric ones.\<close>

definition int_value :: "sql_value \<Rightarrow> int" where
  "int_value v = (case vdata v of
       V_int64 w \<Rightarrow> sint w | V_uint64 w \<Rightarrow> uint w | V_int32 w \<Rightarrow> sint w | V_uint32 w \<Rightarrow> uint w | _ \<Rightarrow> 0)"

definition double_value :: "sql_value \<Rightarrow> f64" where
  "double_value v = (case vdata v of
       V_float w \<Rightarrow> f64_of_f32 w | V_double w \<Rightarrow> w | V_uint64 w \<Rightarrow> f64_of_u64 w | V_int64 w \<Rightarrow> f64_of_u64 w
     | V_uint32 w \<Rightarrow> f64_of_u64 (ucast w) | V_int32 w \<Rightarrow> f64_of_u64 (scast w) | _ \<Rightarrow> 0)"

fun flip :: "compare_result \<Rightarrow> compare_result" where
  "flip Cmp_LESS = Cmp_GREATER" | "flip Cmp_GREATER = Cmp_LESS" | "flip r = r"

lemma small_signed: "0 \<le> k \<Longrightarrow> k < 2 ^ 63 \<Longrightarrow> signed_take_bit 63 k = k" for k :: int
  by (subst signed_take_bit_int_eq_self_iff) simp

lemma sint_ucast32: "sint (ucast (w :: 32 word) :: 64 word) = uint w"
proof -
  have "uint (ucast w :: 64 word) = uint w" by (simp add: uint_up_ucast is_up)
  moreover have "uint w < 2 ^ 63" using unsigned_less [of w, where 'a = int] by simp
  ultimately show ?thesis by (simp add: sint_uint small_signed)
qed

lemma int_value_sint:
  assumes "wf_value v" and "\<not> is_null v" and "is_integral v" and "vtype v \<noteq> UINT64"
  shows "\<exists>w. as_integral v = Inr w \<and> sint w = int_value v"
  using assms
  by (cases "vdata v")
     (auto simp: wf_value_def as_integral_def as_defs get_defs int_value_def is_integral_def
        sint_up_scast is_up sint_ucast32)

lemma int_value_uint:
  assumes "wf_value v" and "\<not> is_null v" and "vtype v = UINT64"
  shows "\<exists>w. as_uint64 v = Inr w \<and> uint w = int_value v"
  using assms by (cases "vdata v") (auto simp: wf_value_def as_defs get_defs int_value_def)

lemma compare_generic_sint: "compare_generic (<s) l r = compare_generic (<) (sint l) (sint r)"
  by (simp add: compare_generic_def word_sless_alt)

lemma compare_generic_uint: "compare_generic (<) l r = compare_generic (<) (uint l) (uint r)"
  for l r :: "64 word"
  by (simp add: compare_generic_def word_less_def)

lemma sint_small:
  assumes "\<not> (w :: 64 word) > 0x7FFFFFFFFFFFFFFF"
  shows "sint w = uint w"
proof -
  have "uint w < 2 ^ 63" using assms by (simp add: word_less_def)
  then show ?thesis by (simp add: sint_uint small_signed)
qed

lemma sint_bounds: "sint (w :: 64 word) < 2 ^ 63" "- (2 ^ 63) \<le> sint w"
  using sint_lt [of w] sint_ge [of w] by simp_all

lemma compare_integral_exact:
  assumes wf: "wf_value a" "wf_value b" and nn: "\<not> is_null a" "\<not> is_null b"
    and int: "is_integral a" "is_integral b"
  shows "compare_integral a b = Inr (compare_generic (<) (int_value a) (int_value b))"
proof (cases "vtype a = UINT64")
  case ua: True
  obtain l where l: "as_uint64 a = Inr l" "uint l = int_value a"
    using int_value_uint [OF wf(1) nn(1) ua] by blast
  show ?thesis
  proof (cases "vtype b = UINT64")
    case True
    obtain r where "as_uint64 b = Inr r" "uint r = int_value b"
      using int_value_uint [OF wf(2) nn(2) True] by blast
    with l ua True show ?thesis by (simp add: compare_integral_def compare_generic_uint)
  next
    case False
    obtain r where r: "as_integral b = Inr r" "sint r = int_value b"
      using int_value_sint [OF wf(2) nn(2) int(2) False] by blast
    show ?thesis
    proof (cases "l > 0x7FFFFFFFFFFFFFFF")
      case True
      then have "int_value b < int_value a"
        using l(2) r(2) sint_bounds(1) [of r] by (simp add: word_less_def)
      with l(1) ua False True show ?thesis by (simp add: compare_integral_def compare_generic_def)
    next
      case small: False
      with l r ua False sint_small [OF small] show ?thesis
        by (simp add: compare_integral_def compare_generic_sint)
    qed
  qed
next
  case sa: False
  obtain l where l: "as_integral a = Inr l" "sint l = int_value a"
    using int_value_sint [OF wf(1) nn(1) int(1) sa] by blast
  show ?thesis
  proof (cases "vtype b = UINT64")
    case True
    obtain r where r: "as_uint64 b = Inr r" "uint r = int_value b"
      using int_value_uint [OF wf(2) nn(2) True] by blast
    show ?thesis
    proof (cases "r > 0x7FFFFFFFFFFFFFFF")
      case big: True
      then have "int_value a < int_value b"
        using r(2) l(2) sint_bounds(1) [of l] by (simp add: word_less_def)
      with r(1) sa True big show ?thesis by (simp add: compare_integral_def compare_generic_def)
    next
      case small: False
      with l r sa True sint_small [OF small] show ?thesis
        by (simp add: compare_integral_def compare_generic_sint)
    qed
  next
    case False
    obtain r where "as_integral b = Inr r" "sint r = int_value b"
      using int_value_sint [OF wf(2) nn(2) int(2) False] by blast
    with l sa False show ?thesis by (simp add: compare_integral_def compare_generic_sint)
  qed
qed

lemma floating_operand_wf:
  "wf_value v \<Longrightarrow> \<not> is_null v \<Longrightarrow> is_floating v \<Longrightarrow> floating_operand v = Inr (double_value v)"
  by (cases "vdata v")
     (auto simp: wf_value_def floating_operand_def is_floating_def as_defs get_defs double_value_def)

lemma integral_operand_wf:
  "wf_value v \<Longrightarrow> \<not> is_null v \<Longrightarrow> is_integral v \<Longrightarrow> integral_operand v = Inr (double_value v)"
  by (cases "vdata v")
     (auto simp: wf_value_def integral_operand_def is_integral_def as_integral_def as_defs get_defs double_value_def)

text \<open>
  The reference: numbers with a floating operand compare as doubles, integers as integers, equal kinds of
  the rest by their bytes.
\<close>

definition compare_ref :: "sql_value \<Rightarrow> sql_value \<Rightarrow> compare_result" where
  "compare_ref a b =
     (if is_null a \<or> is_null b then Cmp_UNKNOWN
      else if is_numeric a \<and> is_numeric b then
        (if is_floating a \<or> is_floating b then compare_floating (double_value a) (double_value b)
         else compare_generic (<) (int_value a) (int_value b))
      else if vtype a = vtype b
      then compare_generic bytes_less (variant_bytes (vdata a)) (variant_bytes (vdata b))
      else Cmp_UNKNOWN)"

lemma compare_numeric:
  assumes wf: "wf_value a" "wf_value b" and nn: "\<not> is_null a" "\<not> is_null b"
    and num: "is_numeric a" "is_numeric b"
  shows "compare a b = Inr (compare_ref a b)"
  using num compare_integral_exact [OF wf nn] floating_operand_wf [OF wf(1) nn(1)] floating_operand_wf [OF wf(2) nn(2)]
    integral_operand_wf [OF wf(1) nn(1)] integral_operand_wf [OF wf(2) nn(2)] nn
  by (auto simp: compare_def compare_ref_def is_numeric_def is_integral_def is_floating_def)

lemma compare_generic_bool:
  "compare_generic (<) x y = compare_generic bytes_less [if x then 1 else 0] [if y then 1 else 0]"
  by (simp add: compare_generic_def)

lemma compare_other:
  assumes wf: "wf_value a" "wf_value b" and nn: "\<not> is_null a" "\<not> is_null b"
    and num: "\<not> (is_numeric a \<and> is_numeric b)"
  shows "compare a b = Inr (compare_ref a b)"
  using wf nn num
  by (cases "vdata a"; cases "vdata b")
     (simp_all add: wf_value_def compare_def compare_ref_def is_numeric_def is_integral_def is_floating_def
        as_defs get_defs compare_generic_bool compare_generic_def string_less_def)

lemma compare_null: "is_null a \<or> is_null b \<Longrightarrow> compare a b = Inr Cmp_UNKNOWN"
  by (simp add: compare_def)

lemma compare_ref_null: "is_null a \<or> is_null b \<Longrightarrow> compare_ref a b = Cmp_UNKNOWN"
  by (simp add: compare_ref_def)

lemma compare_wf: "wf_value a \<Longrightarrow> wf_value b \<Longrightarrow> compare a b = Inr (compare_ref a b)"
  using compare_numeric [of a b] compare_other [of a b] compare_null [of a b] compare_ref_null [of a b]
  by metis

lemma bytes_less_Nil [simp]: "\<not> bytes_less xs []"
  by (cases xs) simp_all

lemma bytes_less_asym: "bytes_less xs ys \<Longrightarrow> \<not> bytes_less ys xs"
  by (induction xs ys rule: bytes_less.induct) (auto split: if_splits)

lemma bytes_less_linear: "\<not> bytes_less xs ys \<Longrightarrow> \<not> bytes_less ys xs \<Longrightarrow> xs = ys"
  by (induction xs ys rule: bytes_less.induct) (auto split: if_splits)

lemma compare_generic_flip:
  "\<not> (lt l r \<and> lt r l) \<Longrightarrow> compare_generic lt r l = flip (compare_generic lt l r)"
  by (simp add: compare_generic_def)

lemma compare_ref_flip: "compare_ref b a = flip (compare_ref a b)"
  using bytes_less_asym f64_less_asym
  by (auto simp: compare_ref_def compare_floating_def intro!: compare_generic_flip)

section \<open>Types of expressions\<close>

fun expression_type :: "value_type list \<Rightarrow> expression \<Rightarrow> value_type option" where
  "expression_type ts (ColumnExpression i) = (if i < length ts then Some (ts ! i) else None)"
| "expression_type ts (ConstantExpression v) = (if wf_value v then Some (vtype v) else None)"
| "expression_type ts (ComparisonExpression l op r) =
     (if expression_type ts l \<noteq> None \<and> expression_type ts r \<noteq> None then Some BOOL else None)"
| "expression_type ts (BinaryExpression l op r) =
     (if expression_type ts l = Some BOOL \<and> expression_type ts r = Some BOOL then Some BOOL else None)"
| "expression_type ts (UnaryExpression e op) =
     (if expression_type ts e = Some BOOL then Some BOOL else None)"

definition row_of_type :: "value_type list \<Rightarrow> row \<Rightarrow> bool" where
  "row_of_type ts r \<longleftrightarrow> list_all2 (\<lambda>t v. wf_value v \<and> vtype v = t) ts r"

text \<open>Truth values: \<open>None\<close> is unknown.\<close>

definition truth :: "sql_value \<Rightarrow> bool option" where
  "truth v = (if is_null v then None else case vdata v of V_bool b \<Rightarrow> Some b | _ \<Rightarrow> None)"

fun and3 :: "bool option \<Rightarrow> bool option \<Rightarrow> bool option" where
  "and3 (Some False) q = Some False"
| "and3 p (Some False) = Some False"
| "and3 (Some True) (Some True) = Some True"
| "and3 p q = None"

definition not3 :: "bool option \<Rightarrow> bool option" where
  "not3 p = map_option Not p"

definition or3 :: "bool option \<Rightarrow> bool option \<Rightarrow> bool option" where
  "or3 p q = not3 (and3 (not3 p) (not3 q))"

text \<open>A boolean value is null or holds a truth value.\<close>

lemma bool_value_cases:
  assumes "wf_value v" and "vtype v = BOOL"
  obtains "v = null_value BOOL" "truth v = None" | b where "v = of_boolean b" "truth v = Some b"
proof (cases "is_null v")
  case True
  with assms have "v = null_value BOOL" by (simp add: wf_value_def null_value_def)
  then show ?thesis using that(1) by (simp add: truth_def null_value_def)
next
  case False
  with assms obtain b where "vdata v = V_bool b"
    by (cases "vdata v") (simp_all add: wf_value_def)
  with False assms have "v = of_boolean b" by (simp add: of_boolean_def)
  then show ?thesis using that(2) by (simp add: truth_def of_boolean_def)
qed

lemma truth_simps [simp]: "truth (of_boolean b) = Some b" "truth (null_value t) = None"
  by (simp_all add: truth_def of_boolean_def null_value_def)

lemma bool_value_fields [simp]:
  "vtype (of_boolean b) = BOOL" "\<not> is_null (of_boolean b)" "as_bool (of_boolean b) = Inr b"
  "vtype (null_value t) = t" "is_null (null_value t)"
  by (simp_all add: of_boolean_def null_value_def as_bool_def get_bool_def)

lemma of_boolean_eq [simp]: "of_boolean a = of_boolean b \<longleftrightarrow> a = b" "of_boolean a \<noteq> null_value t"
  by (auto simp: of_boolean_def null_value_def)

definition is_bool_value :: "sql_value \<Rightarrow> bool" where
  "is_bool_value v \<longleftrightarrow> wf_value v \<and> vtype v = BOOL"

lemma is_bool_value_simps [simp]: "is_bool_value (of_boolean b)" "is_bool_value (null_value BOOL)"
  by (simp_all add: is_bool_value_def)

lemma binary_value_bool:
  assumes "is_bool_value l" and "is_bool_value r"
  shows "\<exists>v. binary_value op l r = Inr v \<and> is_bool_value v \<and>
    truth v = (case op of AND_OP \<Rightarrow> and3 (truth l) (truth r) | OR_OP \<Rightarrow> or3 (truth l) (truth r))"
proof -
  have l: "l = null_value BOOL \<or> l = of_boolean True \<or> l = of_boolean False"
    using assms(1) bool_value_cases [of l] unfolding is_bool_value_def by (metis (full_types))
  have r: "r = null_value BOOL \<or> r = of_boolean True \<or> r = of_boolean False"
    using assms(2) bool_value_cases [of r] unfolding is_bool_value_def by (metis (full_types))
  from l r show ?thesis
    by (cases op; elim disjE) (simp_all add: binary_value_def known_to_be_def or3_def not3_def)
qed

lemma unary_value_bool:
  assumes "is_bool_value e"
  shows "\<exists>v. unary_value op e = Inr v \<and> is_bool_value v \<and> truth v = not3 (truth e)"
proof -
  have "e = null_value BOOL \<or> e = of_boolean True \<or> e = of_boolean False"
    using assms bool_value_cases [of e] unfolding is_bool_value_def by (metis (full_types))
  then show ?thesis by (cases op; elim disjE) (simp_all add: unary_value_def not3_def)
qed

lemma comparison_value_bool: "is_bool_value (comparison_value op c)"
  by (cases op) (simp_all add: comparison_value_def)

lemma evaluate_typed:
  assumes "row_of_type ts rec"
  shows "expression_type ts e = Some t \<Longrightarrow> \<exists>v. evaluate e rec = Inr v \<and> wf_value v \<and> vtype v = t"
proof (induction e arbitrary: t)
  case (ColumnExpression i)
  then show ?case using assms
    by (auto simp: row_of_type_def record_get_def list_all2_conv_all_nth split: if_splits)
next
  case (ConstantExpression v)
  then show ?case by (auto split: if_splits)
next
  case (ComparisonExpression l op r)
  then obtain a b where "evaluate l rec = Inr a" "wf_value a" "evaluate r rec = Inr b" "wf_value b" "t = BOOL"
    by (auto split: if_splits)
  then show ?case
    using comparison_value_bool [of op] by (simp add: compare_wf is_bool_value_def)
next
  case (BinaryExpression l op r)
  then obtain a b where ab: "evaluate l rec = Inr a" "is_bool_value a" "evaluate r rec = Inr b" "is_bool_value b" "t = BOOL"
    by (auto simp: is_bool_value_def split: if_splits)
  then show ?case
    using binary_value_bool [OF ab(2,4), of op] by (auto simp: is_bool_value_def)
next
  case (UnaryExpression e op)
  then obtain a where a: "evaluate e rec = Inr a" "is_bool_value a" "t = BOOL"
    by (auto simp: is_bool_value_def split: if_splits)
  then show ?case using unary_value_bool [OF a(2), of op] by (auto simp: is_bool_value_def)
qed

end
