(* ===== verification/Expression_Properties.thy ===== *)
theory Expression_Properties
  imports Expression
begin

text \<open>
  What comparing and evaluating promises: comparison never throws on well-formed values, is
  symmetric, and is exact on integers of all widths and signs; well-typed predicates evaluate to a
  truth value by Kleene's three-valued logic; and a negative integer is compared wrongly with a double.
\<close>

section \<open>Comparison\<close>

text \<open>
  C32: comparison. On well-formed values \<open>compare\<close> never throws, swapping the operands mirrors the
  result, a null operand makes it unknown, and two integers of any of the four integer types compare as
  the mathematical integers they denote, mixed signs and widths included.
\<close>

theorem compare_exact:
  assumes "wf_value a" and "wf_value b"
  shows "\<exists>c. compare a b = Inr c \<and> compare b a = Inr (flip c) \<and>
    (is_null a \<or> is_null b \<longrightarrow> c = Cmp_UNKNOWN) \<and>
    (\<not> is_null a \<and> \<not> is_null b \<and> is_integral a \<and> is_integral b \<longrightarrow>
       (c = Cmp_LESS \<longleftrightarrow> int_value a < int_value b) \<and> (c = Cmp_GREATER \<longleftrightarrow> int_value b < int_value a) \<and>
       (c = Cmp_EQ \<longleftrightarrow> int_value a = int_value b))"
proof (intro exI conjI)
  show "compare a b = Inr (compare_ref a b)" by (rule compare_wf [OF assms])
  show "compare b a = Inr (flip (compare_ref a b))"
    using compare_wf [OF assms(2,1)] by (simp only: compare_ref_flip [of b a])
  show "is_null a \<or> is_null b \<longrightarrow> compare_ref a b = Cmp_UNKNOWN"
    by (simp add: compare_ref_def)
next
  have int: "is_integral a \<Longrightarrow> \<not> is_floating a" for a by (auto simp: is_integral_def is_floating_def)
  have ref: "\<not> is_null a \<and> \<not> is_null b \<and> is_integral a \<and> is_integral b \<Longrightarrow>
      compare_ref a b = compare_generic (<) (int_value a) (int_value b)"
    using int by (simp add: compare_ref_def is_numeric_def)
  show "\<not> is_null a \<and> \<not> is_null b \<and> is_integral a \<and> is_integral b \<longrightarrow>
      (compare_ref a b = Cmp_LESS \<longleftrightarrow> int_value a < int_value b) \<and>
      (compare_ref a b = Cmp_GREATER \<longleftrightarrow> int_value b < int_value a) \<and>
      (compare_ref a b = Cmp_EQ \<longleftrightarrow> int_value a = int_value b)"
    using ref by (auto simp: compare_generic_def)
qed

theorem compare_exact_witness:
  "compare (of_uint64 0xFFFFFFFFFFFFFFFF) (of_int32 (- 1)) = Inr Cmp_GREATER \<and>
   compare (of_int32 (- 1)) (of_uint64 0xFFFFFFFFFFFFFFFF) = Inr Cmp_LESS"
proof -
  have f: "\<not> is_null (of_uint64 0xFFFFFFFFFFFFFFFF)" "\<not> is_null (of_int32 (- 1))" "is_integral (of_uint64 0xFFFFFFFFFFFFFFFF)"
    "is_integral (of_int32 (- 1))" "int_value (of_uint64 0xFFFFFFFFFFFFFFFF) = 2 ^ 64 - 1" "int_value (of_int32 (- 1)) = - 1"
    by (simp_all add: of_uint64_def of_int32_def is_integral_def int_value_def)
  show ?thesis
    using compare_exact [OF wf_factories(3) [of "0xFFFFFFFFFFFFFFFF"] wf_factories(4) [of "- 1"]] f by auto
qed

section \<open>Integers against doubles\<close>

lemma int_log2_top: "2 ^ 63 \<le> n \<Longrightarrow> n < 2 ^ 64 \<Longrightarrow> int_log2 n = 63"
proof -
  assume n: "2 ^ 63 \<le> n" "n < (2::int) ^ 64"
  have b: "2 ^ int_log2 n \<le> n" "n < 2 ^ Suc (int_log2 n)" using int_log2_bounds [of n] n by simp_all
  have "(2::int) ^ int_log2 n < 2 ^ 64" using b(1) n(2) by linarith
  then have "int_log2 n < 64" by (rule power_less_imp_less_exp [rotated]) simp
  moreover have "(2::int) ^ 63 < 2 ^ Suc (int_log2 n)" using b(2) n(1) by linarith
  then have "63 < Suc (int_log2 n)" by (rule power_less_imp_less_exp [rotated]) simp
  ultimately show ?thesis by simp
qed

text \<open>The bit pattern of \<open>2^63\<close>, and where numbers from there on are mapped to.\<close>

definition two63 :: f64 where
  "two63 = 0x43E0000000000000"

lemma f64_of_u64_top:
  assumes "2 ^ 63 \<le> uint (w :: 64 word)"
  shows "\<not> f64_isnan (f64_of_u64 w) \<and> f64_key two63 \<le> f64_key (f64_of_u64 w)"
proof -
  define q where "q = uint w div 2 ^ 11"
  have lt: "uint w < 2 ^ 64" using unsigned_less [of w, where 'a = int] by simp
  have q: "2 ^ 52 \<le> q" "q < 2 ^ 53" using assms lt unfolding q_def by auto
  obtain p where p: "p = q \<or> p = q + 1" "f64_of_u64 w = word_of_int (1086 * 2 ^ 52 + (p - 2 ^ 52))"
  proof
    show "(if 2 ^ 10 < uint w mod 2 ^ 11 \<or> (uint w mod 2 ^ 11 = 2 ^ 10 \<and> odd q) then q + 1 else q) = q \<or>
      (if 2 ^ 10 < uint w mod 2 ^ 11 \<or> (uint w mod 2 ^ 11 = 2 ^ 10 \<and> odd q) then q + 1 else q) = q + 1" by simp
    show "f64_of_u64 w = word_of_int (1086 * 2 ^ 52 +
      ((if 2 ^ 10 < uint w mod 2 ^ 11 \<or> (uint w mod 2 ^ 11 = 2 ^ 10 \<and> odd q) then q + 1 else q) - 2 ^ 52))"
      using assms int_log2_top [OF assms lt] by (simp add: f64_of_u64_def Let_def q_def cong: if_cong)
  qed
  define k where "k = 1086 * 2 ^ 52 + (p - 2 ^ 52)"
  have k: "1086 * 2 ^ 52 \<le> k" "k \<le> 1087 * 2 ^ 52" using p(1) q unfolding k_def by auto
  have u: "uint (f64_of_u64 w) = k" using p(2) k unfolding k_def [symmetric] by (simp add: uint_word_of_int)
  have "k div 2 ^ 52 = 1086 \<or> k div 2 ^ 52 = 1087" using k by auto
  then have "\<not> f64_isnan (f64_of_u64 w)" unfolding f64_isnan_def f64_exp_def u by auto
  moreover have "f64_key (f64_of_u64 w) = k" using k unfolding f64_key_def u by (simp add: Let_def)
  moreover have "f64_key two63 = 1086 * 2 ^ 52" by (simp add: f64_key_def two63_def)
  ultimately show ?thesis using k by simp
qed

text \<open>
  C39: a negative \<open>INT64\<close> or \<open>INT32\<close> compares as greater than every double below \<open>2^63\<close>, although it
  is less than all of them that are not negative: the conversion goes through \<open>std::uint64_t\<close>.
\<close>

theorem negative_integer_above_doubles:
  assumes "f64_less d two63" and "sint (i :: 64 word) < 0" and "sint (j :: 32 word) < 0"
  shows "compare (of_int64 i) (of_double d) = Inr Cmp_GREATER \<and>
    compare (of_int32 j) (of_double d) = Inr Cmp_GREATER"
proof -
  have top: "2 ^ 63 \<le> uint w" if "sint w < 0" for w :: "64 word"
    using that sint_small [of w] by (cases "w > 0x7FFFFFFFFFFFFFFF") (simp_all add: word_less_def)
  have d: "\<not> f64_isnan d" "f64_key d < f64_key two63" using assms(1) by (simp_all add: f64_less_def)
  have gt: "compare_floating (f64_of_u64 w) d = Cmp_GREATER" if "sint w < 0" for w
    using d f64_of_u64_top [OF top [OF that]]
    by (simp add: compare_floating_def compare_generic_def f64_less_def)
  have "sint (scast j :: 64 word) < 0" using assms(3) by (simp add: sint_up_scast is_up)
  then have "compare_ref (of_int64 i) (of_double d) = Cmp_GREATER"
    "compare_ref (of_int32 j) (of_double d) = Cmp_GREATER"
    using gt assms(2)
    by (simp_all add: compare_ref_def is_numeric_def is_integral_def is_floating_def
        of_int64_def of_int32_def of_double_def double_value_def)
  then show ?thesis by (simp add: compare_wf)
qed

text \<open>The number one, as a double.\<close>

definition one_double :: f64 where
  "one_double = 0x3FF0000000000000"

theorem negative_integer_above_doubles_witness:
  "compare (of_int64 (- 1)) (of_double one_double) = Inr Cmp_GREATER \<and> double_value (of_int64 1) = one_double"
proof
  have "f64_less one_double two63"
    by (simp add: f64_less_def one_double_def two63_def f64_key_def f64_isnan_def f64_exp_def f64_man_def)
  then show "compare (of_int64 (- 1)) (of_double one_double) = Inr Cmp_GREATER"
    using negative_integer_above_doubles [of one_double "- 1" "- 1"] by simp
  show "double_value (of_int64 1) = one_double"
    by (simp add: double_value_def of_int64_def one_double_def f64_of_u64_def int_log2.simps [of 1] f64_pack_def)
qed

section \<open>Predicates\<close>

text \<open>
  C31: evaluation is type safe and three-valued. On rows of the expected types every well-typed
  expression evaluates without an exception to a well-formed value of its type, and on boolean operands
  \<open>AND\<close>, \<open>OR\<close> and \<open>NOT\<close> compute Kleene's connectives.
\<close>

theorem predicates_well_typed:
  assumes "row_of_type ts r" and "expression_type ts e = Some t"
    and "expression_type ts p = Some BOOL" and "expression_type ts q = Some BOOL"
  shows "(\<exists>v. evaluate e r = Inr v \<and> wf_value v \<and> vtype v = t) \<and>
    (\<exists>x y conj disj neg. evaluate p r = Inr x \<and> evaluate q r = Inr y \<and>
      evaluate (BinaryExpression p AND_OP q) r = Inr conj \<and> truth conj = and3 (truth x) (truth y) \<and>
      evaluate (BinaryExpression p OR_OP q) r = Inr disj \<and> truth disj = or3 (truth x) (truth y) \<and>
      evaluate (UnaryExpression p NOT_OP) r = Inr neg \<and> truth neg = not3 (truth x))"
proof (intro conjI)
  show "\<exists>v. evaluate e r = Inr v \<and> wf_value v \<and> vtype v = t"
    by (rule evaluate_typed [OF assms(1,2)])
next
  obtain x where x: "evaluate p r = Inr x" "is_bool_value x"
    using evaluate_typed [OF assms(1,3)] by (auto simp: is_bool_value_def)
  obtain y where y: "evaluate q r = Inr y" "is_bool_value y"
    using evaluate_typed [OF assms(1,4)] by (auto simp: is_bool_value_def)
  show "\<exists>x y conj disj neg. evaluate p r = Inr x \<and> evaluate q r = Inr y \<and>
      evaluate (BinaryExpression p AND_OP q) r = Inr conj \<and> truth conj = and3 (truth x) (truth y) \<and>
      evaluate (BinaryExpression p OR_OP q) r = Inr disj \<and> truth disj = or3 (truth x) (truth y) \<and>
      evaluate (UnaryExpression p NOT_OP) r = Inr neg \<and> truth neg = not3 (truth x)"
    using x(1) y(1) binary_value_bool [OF x(2) y(2), of AND_OP] binary_value_bool [OF x(2) y(2), of OR_OP]
      unary_value_bool [OF x(2), of NOT_OP] by auto
qed

definition sample_predicate :: expression where
  "sample_predicate = BinaryExpression (ColumnExpression 0) AND_OP
     (ComparisonExpression (ColumnExpression 1) LESS (ConstantExpression (of_int32 5)))"

theorem predicates_well_typed_witness:
  "\<exists>v. evaluate sample_predicate [of_boolean True, null_value INT32] = Inr v \<and> vtype v = BOOL"
proof -
  have "row_of_type [BOOL, INT32] [of_boolean True, null_value INT32]"
    "expression_type [BOOL, INT32] sample_predicate = Some BOOL"
    by (simp_all add: row_of_type_def sample_predicate_def)
  from predicates_well_typed [OF this this(2) this(2)] show ?thesis by blast
qed

end
