(* ===== verification/Heap_Scan.thy ===== *)
theory Heap_Scan
  imports Heap_Pins
begin

text \<open>
  A table heap as a list of linked pages and the list of its rows in scan order; opening, stepping and
  closing a scan over that list. Other pages may be held by other scans: only the page the scan leaves
  is released, and only the page it enters is pinned.
\<close>

section \<open>The rows of a heap\<close>

definition page_rows :: "page_id \<Rightarrow> page_data \<Rightarrow> nat \<Rightarrow> (rid \<times> byte list) list" where
  "page_rows p d k =
     map (\<lambda>i. (\<lparr>rid_page = p, rid_slot = of_nat i\<rparr>, the (tuple_at d i))) (filter (live d) [k..<page_slots d])"

fun rows_from :: "(page_id \<Rightarrow> page_data) \<Rightarrow> page_id list \<Rightarrow> nat \<Rightarrow> (rid \<times> byte list) list" where
  "rows_from v [] k = []"
| "rows_from v (p # ps) k = page_rows p (v p) k @ rows_from v ps 0"

text \<open>\<open>chain v U p ps\<close>: following the links from \<open>p\<close> visits the well-formed pages \<open>ps\<close> and ends.\<close>

fun chain :: "(page_id \<Rightarrow> page_data) \<Rightarrow> page_id set \<Rightarrow> page_id \<Rightarrow> page_id list \<Rightarrow> bool" where
  "chain v U p [] \<longleftrightarrow> p = INVALID_PAGE_ID"
| "chain v U p (q # qs) \<longleftrightarrow> p = q \<and> q \<in> U \<and> q \<noteq> INVALID_PAGE_ID \<and> wf_page (v q) \<and> chain v U (sp_next (v q)) qs"

definition heap_pages :: "(page_id \<Rightarrow> page_data) \<Rightarrow> page_id set \<Rightarrow> page_id \<Rightarrow> page_id list \<Rightarrow> bool" where
  "heap_pages v U p ps \<longleftrightarrow> chain v U p ps \<and> distinct ps \<and> ps \<noteq> []"

lemma chain_in: "chain v U p ps \<Longrightarrow> q \<in> set ps \<Longrightarrow> q \<in> U \<and> wf_page (v q)"
  by (induction ps arbitrary: p) auto

lemma chain_cong: "(\<And>q. q \<in> set ps \<Longrightarrow> v q = w q) \<Longrightarrow> U \<subseteq> V \<Longrightarrow> chain v U p ps \<Longrightarrow> chain w V p ps"
  by (induction ps arbitrary: p) auto

lemma chain_unique: "chain v U p ps \<Longrightarrow> chain v U p qs \<Longrightarrow> ps = qs"
  by (induction ps arbitrary: p qs; case_tac qs) auto

lemma rows_from_cong: "(\<And>q. q \<in> set ps \<Longrightarrow> v q = w q) \<Longrightarrow> rows_from v ps k = rows_from w ps k"
  by (induction ps arbitrary: k) auto

section \<open>Finding the next row of a page\<close>

lemma filter_upt_find:
  "filter q [k..<n] = (case List.find q [k..<n] of None \<Rightarrow> [] | Some i \<Rightarrow> i # filter q [Suc i..<n])"
proof (cases "List.find q [k..<n]")
  case None
  then have "filter q [k..<n] = []" by (simp add: find_upt_None filter_empty_conv)
  with None show ?thesis by simp
next
  case (Some i)
  then have i: "k \<le> i" "i < n" "q i" "\<forall>j. k \<le> j \<longrightarrow> j < i \<longrightarrow> \<not> q j" by (simp_all add: find_upt_Some)
  have "[k..<n] = [k..<i] @ i # [Suc i..<n]"
    using i(1,2) upt_add_eq_append [of k i "n - i"] upt_conv_Cons [of i n] by simp
  moreover have "filter q [k..<i] = []" using i(4) by (simp add: filter_empty_conv)
  ultimately show ?thesis using Some i(3) by simp
qed

lemma page_rows_find:
  "page_rows p d k = (case List.find (live d) [k..<page_slots d] of None \<Rightarrow> []
     | Some i \<Rightarrow> (\<lparr>rid_page = p, rid_slot = of_nat i\<rparr>, the (tuple_at d i)) # page_rows p d (Suc i))"
  unfolding page_rows_def by (subst filter_upt_find) (simp split: option.split)

lemma page_slots_bound: "wf_page d \<Longrightarrow> page_slots d < 2 ^ 16 - 1"
  using wf_pageD(2,3) [of d] by (simp add: kPAGE_SIZE_def)

lemma unat_next_slot: "wf_page d \<Longrightarrow> unat s \<le> page_slots d \<Longrightarrow> unat (s + 1) = Suc (unat s)" for s :: "16 word"
proof -
  assume "wf_page d" "unat s \<le> page_slots d"
  then have "unat s < 65535" using page_slots_bound [of d] by simp
  then have "1 + s \<noteq> 0" by (auto simp: add_eq_0_iff unsigned_minus_1_eq_mask mask_eq_exp_minus_1)
  then show ?thesis using unatSuc [of s] by (simp add: add.commute)
qed

lemma scan_skip_find:
  assumes wf: "wf_page d" and s: "unat s \<le> page_slots d"
  shows "scan_skip d s = Inr (case List.find (live d) [unat s..<page_slots d] of None \<Rightarrow> s | Some i \<Rightarrow> of_nat i)"
proof (cases "live d (unat s)")
  case True
  then have "List.find (live d) [unat s..<page_slots d] = Some (unat s)" by (simp add: find_upt_Some live_def)
  with True show ?thesis by (simp add: scan_skip_def sp_has_slot_wf [OF wf])
next
  case False
  then have "List.find (live d) [unat s..<page_slots d] = List.find (live d) [Suc (unat s)..<page_slots d]"
    by (cases "unat s < page_slots d") (simp_all add: upt_conv_Cons)
  with False show ?thesis
    by (simp add: scan_skip_def sp_has_slot_wf [OF wf] sp_next_occupied_slot_wf [OF wf] unat_next_slot [OF wf s] split: option.split)
qed

section \<open>Stepping a scan\<close>

text \<open>
  A scan that is open on page \<open>scan_pid sc\<close> with the pages \<open>qs\<close> still ahead, and the rows it will give.
\<close>

abbreviation scan_pid :: "heap_scan \<Rightarrow> page_id" where
  "scan_pid sc \<equiv> rid_page (scan_rid sc)"

definition scan_ready :: "bpm \<Rightarrow> heap_scan \<Rightarrow> page_id list \<Rightarrow> bool" where
  "scan_ready b sc qs \<longleftrightarrow> (\<exists>f. scan_page sc = Some f \<and> page_table b (scan_pid sc) = Some f) \<and>
     distinct (scan_pid sc # qs) \<and> chain (bpm_view b) (bpm_pages b) (scan_pid sc) (scan_pid sc # qs) \<and>
     unat (rid_slot (scan_rid sc)) \<le> page_slots (bpm_view b (scan_pid sc))"

definition scan_rows :: "bpm \<Rightarrow> heap_scan \<Rightarrow> page_id list \<Rightarrow> (rid \<times> byte list) list" where
  "scan_rows b sc qs = rows_from (bpm_view b) (scan_pid sc # qs) (unat (rid_slot (scan_rid sc)))"

text \<open>What a step of a scan changes in the pool: one pin moves from page \<open>p\<close> to page \<open>q\<close>.\<close>

definition pin_moved :: "page_id multiset \<Rightarrow> bpm \<Rightarrow> page_id \<Rightarrow> bpm \<Rightarrow> bool" where
  "pin_moved P b q c \<longleftrightarrow> held {} (add_mset q P) c \<and> bpm_view c = bpm_view b \<and> bpm_pages c = bpm_pages b \<and>
     pool_shape c = pool_shape b \<and> (\<forall>r\<in>#P. page_table c r = page_table b r)"

lemma pin_moved_trans: "pin_moved P b q c \<Longrightarrow> pin_moved P c r d \<Longrightarrow> pin_moved P b r d"
  by (simp add: pin_moved_def)

lemma pin_moved_refl: "held {} (add_mset p P) b \<Longrightarrow> pin_moved P b p b"
  by (simp add: pin_moved_def)

lemma chain_INVALID: "chain v U INVALID_PAGE_ID ps \<longleftrightarrow> ps = []"
  by (cases ps) auto

lemma unpin_page_ok:
  assumes h: "held {} (add_mset p P) b" and m: "page_table b p = Some f"
  shows "\<exists>c. unpin_page p False b = (Inr (), c) \<and> held {} P c \<and> bpm_view c = bpm_view b \<and> same_pool b c"
proof -
  let ?u = "make_pinned (Some f)"
  have u: "pin_frame ?u = Some f" "\<not> pin_dirty ?u" by (simp_all add: make_pinned_def)
  have "unpin ?u b = unpin_page p False b"
    using u held_frame(1,3) [OF h m] by (simp add: unpin_def and_then_Inr [of "frame_at f"])
  then show ?thesis using held_unpin [OF h m u(1)] by simp
qed

lemma scan_next_page_ok:
  assumes h: "held {} (add_mset (scan_pid sc) P) b" and r: "scan_ready b sc qs"
  shows "case qs of [] \<Rightarrow> scan_next_page sc b = (Inr (False, sc), b)
    | q # qs' \<Rightarrow> \<exists>sc' c. scan_next_page sc b = (Inr (True, sc'), c) \<and> scan_pid sc' = q \<and> rid_slot (scan_rid sc') = 0 \<and>
        pin_moved P b q c \<and> scan_ready c sc' qs'"
proof -
  let ?p = "scan_pid sc"
  obtain f where f: "scan_page sc = Some f" "page_table b ?p = Some f" using r by (auto simp: scan_ready_def)
  have ch: "chain (bpm_view b) (bpm_pages b) (sp_next (bpm_view b ?p)) qs" and dist: "distinct (?p # qs)"
    using r by (simp_all add: scan_ready_def)
  note F = held_frame [OF h f(2)]
  show ?thesis
  proof (cases qs)
    case Nil
    then have "\<not> sp_has_next_page (bpm_view b ?p)" using ch by (simp add: sp_has_next_page_def)
    then show ?thesis using Nil f(1) F by (simp add: scan_next_page_def and_then_Inr [of "frame_at f"])
  next
    case (Cons q qs')
    then have q: "sp_next (bpm_view b ?p) = q" "q \<noteq> INVALID_PAGE_ID" "q \<in> bpm_pages b"
      "chain (bpm_view b) (bpm_pages b) (sp_next (bpm_view b q)) qs'" using ch by auto
    obtain c where c: "unpin_page ?p False b = (Inr (), c)" "held {} P c" "bpm_view c = bpm_view b" "same_pool b c"
      using unpin_page_ok [OF h f(2)] by blast
    have sp: "page_table c = page_table b" "bpm_pages c = bpm_pages b" "pool_capacity c = pool_capacity b" "bdisk c = bdisk b"
      using c(4) by (simp_all add: same_pool_def)
    have "q \<in> bpm_pages c" "size P < pool_capacity c" using q(3) sp heldD(4) [OF h] by simp_all
    from held_fetch [OF c(2) this] obtain g e where e: "fetch_page q c = (Inr (Some g), e)"
      "held {} (add_mset q P) e" "page_table e q = Some g" "bpm_view e = bpm_view c" "bpm_pages e = bpm_pages c"
      "pool_shape e = pool_shape c" "\<forall>r\<in>#P. page_table e r = page_table c r" by blast
    let ?sc = "\<lparr>scan_page = Some g, scan_rid = \<lparr>rid_page = q, rid_slot = 0\<rparr>\<rparr>"
    have "scan_next_page sc b = (Inr (True, ?sc), e)"
      using f(1) F q(1,2) held_frame(4) [OF e(2,3)]
      by (simp add: scan_next_page_def and_then_Inr [of "frame_at f"] sp_has_next_page_def
          and_then_Inr [of "unpin_page ?p False" b, OF c(1)] and_then_Inr [of "fetch_page q" c, OF e(1)]
          and_then_Inr [of "frame_page_id g"])
    moreover have "pin_moved P b q e"
      using e sp c(3) by (simp add: pin_moved_def pool_shape_def)
    moreover have "scan_ready e ?sc qs'"
      using e(3-5) c(3) sp q dist Cons ch by (simp add: scan_ready_def)
    ultimately show ?thesis using Cons by auto
  qed
qed

lemma scan_found:
  assumes h: "held {} (add_mset (scan_pid sc) P) b" and r: "scan_ready b sc qs"
    and i: "List.find (live (bpm_view b (scan_pid sc))) [unat (rid_slot (scan_rid sc))..<page_slots (bpm_view b (scan_pid sc))] = Some i"
  defines "sc' \<equiv> sc\<lparr>scan_rid := (scan_rid sc)\<lparr>rid_slot := of_nat i + 1\<rparr>\<rparr>"
  shows "scan_next_from (Suc n) sc b = (Inr (Some (hd (scan_rows b sc qs)), sc'), b)" "scan_ready b sc' qs"
    "scan_rows b sc qs \<noteq> []" "scan_rows b sc' qs = tl (scan_rows b sc qs)"
proof -
  let ?p = "scan_pid sc" and ?s = "rid_slot (scan_rid sc)"
  let ?d = "bpm_view b ?p"
  obtain f where f: "scan_page sc = Some f" "page_table b ?p = Some f" using r by (auto simp: scan_ready_def)
  note F = held_frame [OF h f(2)]
  have wf: "wf_page ?d" and s: "unat ?s \<le> page_slots ?d" using r by (simp_all add: scan_ready_def)
  have lv: "live ?d i" "i < page_slots ?d" using i by (simp_all add: find_upt_Some)
  have ui: "unat (of_nat i :: 16 word) = i" "unat (of_nat i + 1 :: 16 word) = Suc i"
  proof -
    show u: "unat (of_nat i :: 16 word) = i" using lv(2) page_slots_bound [OF wf] by (simp add: unat_of_nat)
    show "unat (of_nat i + 1 :: 16 word) = Suc i" using unat_next_slot [OF wf, of "of_nat i"] u lv(2) by simp
  qed
  have t: "tuple_at ?d i = Some (the (tuple_at ?d i))" using lv(1) by (simp add: tuple_at_def)
  have rows: "scan_rows b sc qs =
      (\<lparr>rid_page = ?p, rid_slot = of_nat i\<rparr>, the (tuple_at ?d i)) # page_rows ?p ?d (Suc i) @ rows_from (bpm_view b) qs 0"
    using i by (simp add: scan_rows_def page_rows_find [of ?p ?d "unat ?s"])
  have gt: "sp_get_tuple ?d (of_nat i) = Inr (the (tuple_at ?d i))"
    using get_as_map [OF wf, of "of_nat i"] t by (simp add: ui split: option.splits)
  show "scan_rows b sc qs \<noteq> []" using rows by simp
  show "scan_rows b sc' qs = tl (scan_rows b sc qs)" using rows ui by (simp add: scan_rows_def sc'_def)
  show "scan_ready b sc' qs" using r lv(2) ui by (simp add: scan_ready_def sc'_def)
  show "scan_next_from (Suc n) sc b = (Inr (Some (hd (scan_rows b sc qs)), sc'), b)"
    using f(1) F(1,2) lv(1) i rows ui gt
    by (simp add: and_then_Inr [of "frame_at f"] scan_skip_find [OF wf s] sp_has_slot_wf [OF wf] Let_def sc'_def)
qed

lemma scan_not_found:
  assumes h: "held {} (add_mset (scan_pid sc) P) b" and r: "scan_ready b sc qs"
    and i: "List.find (live (bpm_view b (scan_pid sc))) [unat (rid_slot (scan_rid sc))..<page_slots (bpm_view b (scan_pid sc))] = None"
  shows "scan_next_from (Suc n) sc b =
      and_then (scan_next_page sc) (\<lambda>(moved, sc). if moved then scan_next_from n sc else ret (None, sc)) b"
    "scan_rows b sc qs = rows_from (bpm_view b) qs 0"
proof -
  let ?p = "scan_pid sc" and ?s = "rid_slot (scan_rid sc)"
  let ?d = "bpm_view b ?p"
  obtain f where f: "scan_page sc = Some f" "page_table b ?p = Some f" using r by (auto simp: scan_ready_def)
  note F = held_frame [OF h f(2)]
  have wf: "wf_page ?d" and s: "unat ?s \<le> page_slots ?d" using r by (simp_all add: scan_ready_def)
  have dead: "\<not> live ?d (unat ?s)" using i unfolding find_upt_None by (auto simp: live_def)
  show "scan_rows b sc qs = rows_from (bpm_view b) qs 0"
    using i by (simp add: scan_rows_def page_rows_find [of ?p ?d "unat ?s"])
  show "scan_next_from (Suc n) sc b =
      and_then (scan_next_page sc) (\<lambda>(moved, sc). if moved then scan_next_from n sc else ret (None, sc)) b"
    using f(1) F(1,2) i dead
    by (simp add: and_then_Inr [of "frame_at f"] scan_skip_find [OF wf s] sp_has_slot_wf [OF wf] Let_def)
qed

text \<open>The result of a step: the first row that is left, if any, and a scan of the others.\<close>

definition stepped :: "page_id multiset \<Rightarrow> bpm \<Rightarrow> (rid \<times> byte list) list
    \<Rightarrow> ((rid \<times> byte list) option \<times> heap_scan) res \<times> bpm \<Rightarrow> bool" where
  "stepped P b rs x \<longleftrightarrow> (\<exists>sc c qs. x = (Inr (case rs of [] \<Rightarrow> None | r # _ \<Rightarrow> Some r, sc), c) \<and>
     pin_moved P b (scan_pid sc) c \<and> scan_ready c sc qs \<and> scan_rows c sc qs = tl rs)"

lemma stepped_trans: "pin_moved P b q c \<Longrightarrow> stepped P c rs x \<Longrightarrow> stepped P b rs x"
  unfolding stepped_def using pin_moved_trans by blast

lemma stepped_found:
  assumes h: "held {} (add_mset (scan_pid sc) P) b" and r: "scan_ready b sc qs"
    and i: "List.find (live (bpm_view b (scan_pid sc))) [unat (rid_slot (scan_rid sc))..<page_slots (bpm_view b (scan_pid sc))] = Some i"
  shows "stepped P b (scan_rows b sc qs) (scan_next_from (Suc n) sc b)"
proof -
  note S = scan_found [OF h r i]
  obtain x xs where x: "scan_rows b sc qs = x # xs" using S(3) by (cases "scan_rows b sc qs") auto
  let ?sc = "sc\<lparr>scan_rid := (scan_rid sc)\<lparr>rid_slot := of_nat i + 1\<rparr>\<rparr>"
  have "pin_moved P b (scan_pid ?sc) b" using pin_moved_refl [OF h] by simp
  then show ?thesis unfolding stepped_def using S(1) [of n] S(2,4) x by auto
qed

lemma scan_next_from_ok:
  assumes "held {} (add_mset (scan_pid sc) P) b" and "scan_ready b sc qs" and "length qs < n"
  shows "stepped P b (scan_rows b sc qs) (scan_next_from n sc b)"
  using assms
proof (induction qs arbitrary: sc b n)
  case (Cons q qs)
  then obtain m where n: "n = Suc m" "length qs < m" by (cases n) auto
  note h = Cons.prems(1) and r = Cons.prems(2)
  show ?case
  proof (cases "List.find (live (bpm_view b (scan_pid sc))) [unat (rid_slot (scan_rid sc))..<page_slots (bpm_view b (scan_pid sc))]")
    case (Some i)
    then show ?thesis using stepped_found [OF h r] n(1) by simp
  next
    case None
    obtain sc' c where c: "scan_next_page sc b = (Inr (True, sc'), c)" "scan_pid sc' = q" "rid_slot (scan_rid sc') = 0"
      "pin_moved P b q c" "scan_ready c sc' qs"
      using scan_next_page_ok [OF h r] by auto
    have "held {} (add_mset (scan_pid sc') P) c" using c(2,4) by (simp add: pin_moved_def)
    from Cons.IH [OF this c(5) n(2)] have "stepped P c (scan_rows c sc' qs) (scan_next_from m sc' c)" .
    moreover have "scan_rows c sc' qs = scan_rows b sc (q # qs)"
      using scan_not_found(2) [OF h r None] c(2-4) by (simp add: scan_rows_def pin_moved_def)
    ultimately show ?thesis
      using scan_not_found(1) [OF h r None, where n = m] n(1) stepped_trans [OF c(4)]
      by (simp add: and_then_Inr [of "scan_next_page sc" b, OF c(1)])
  qed
next
  case Nil
  then obtain m where n: "n = Suc m" by (cases n) auto
  note h = Nil.prems(1) and r = Nil.prems(2)
  show ?case
  proof (cases "List.find (live (bpm_view b (scan_pid sc))) [unat (rid_slot (scan_rid sc))..<page_slots (bpm_view b (scan_pid sc))]")
    case (Some i)
    then show ?thesis using stepped_found [OF h r] n by simp
  next
    case None
    have np: "scan_next_page sc b = (Inr (False, sc), b)" using scan_next_page_ok [OF h r] by simp
    have "scan_next_from (Suc m) sc b = (Inr (None, sc), b)"
      unfolding scan_not_found(1) [OF h r None] by (simp add: and_then_Inr [of "scan_next_page sc" b, OF np])
    moreover have "scan_rows b sc [] = []" using scan_not_found(2) [OF h r None] by simp
    ultimately show ?thesis using n r pin_moved_refl [OF h] by (auto simp only: stepped_def list.case tl_def)
  qed
qed

section \<open>Open, step, close\<close>

lemma pages_length:
  assumes "distinct ps" and "set ps \<subseteq> bpm_pages b"
  shows "length ps \<le> unat (dcapacity (bdisk b))"
proof -
  let ?U = "{p. p < dcapacity (bdisk b)}"
  have "unat ` ?U \<subseteq> {..<unat (dcapacity (bdisk b))}" by (auto simp: word_less_nat_alt)
  moreover have "inj_on unat ?U" by (auto intro: inj_onI unsigned_word_eqI)
  ultimately have "card ?U \<le> unat (dcapacity (bdisk b))" using card_inj_on_le [of unat ?U "{..<unat (dcapacity (bdisk b))}"] by simp
  moreover have "set ps \<subseteq> ?U" using assms(2) in_use_valid by auto
  then have "card (set ps) \<le> card ?U" by (intro card_mono) auto
  ultimately show ?thesis using assms(1) by (simp add: distinct_card)
qed

lemma heap_fuel: "heap_pages (bpm_view b) (bpm_pages b) p ps \<Longrightarrow> length ps < page_fuel b"
  using pages_length [of ps b] chain_in by (force simp: heap_pages_def page_fuel_def)

lemma scan_fuel:
  assumes "scan_ready b sc qs"
  shows "length qs < page_fuel b"
proof -
  have ch: "chain (bpm_view b) (bpm_pages b) (scan_pid sc) (scan_pid sc # qs)" and d: "distinct qs"
    using assms by (simp_all add: scan_ready_def)
  have "set qs \<subseteq> bpm_pages b" using chain_in [OF ch] by fastforce
  from pages_length [OF d this] show ?thesis by (simp add: page_fuel_def)
qed

lemma heap_scan_next_ok:
  assumes h: "held {} (add_mset (scan_pid sc) P) b" and r: "scan_ready b sc qs"
  shows "stepped P b (scan_rows b sc qs) (heap_scan_next sc b)"
  using scan_next_from_ok [OF h r scan_fuel [OF r]] by (simp add: heap_scan_next_def)

lemma heap_scan_open_ok:
  assumes h: "held {} P b" and P: "size P < pool_capacity b" and p: "heap_pages (bpm_view b) (bpm_pages b) p (p # qs)"
  shows "\<exists>sc c. heap_scan_open p b = (Inr sc, c) \<and> scan_pid sc = p \<and> pin_moved P b p c \<and> scan_ready c sc qs \<and>
    scan_rows c sc qs = rows_from (bpm_view b) (p # qs) 0"
proof -
  have "p \<in> bpm_pages b" using p by (simp add: heap_pages_def)
  from held_fetch [OF h this P] obtain f c where c: "fetch_page p b = (Inr (Some f), c)" "held {} (add_mset p P) c"
    "page_table c p = Some f" "bpm_view c = bpm_view b" "bpm_pages c = bpm_pages b" "pool_shape c = pool_shape b"
    "\<forall>q\<in>#P. page_table c q = page_table b q" by blast
  then show ?thesis
    using p by (simp add: heap_scan_open_def and_then_Inr [of "fetch_page p" b, OF c(1)] pin_moved_def scan_ready_def
        scan_rows_def heap_pages_def)
qed

lemma heap_scan_close_ok:
  assumes h: "held {} (add_mset (scan_pid sc) P) b" and r: "scan_ready b sc qs"
  shows "\<exists>c. heap_scan_close sc b = (Inr (), c) \<and> held {} P c \<and> bpm_view c = bpm_view b \<and> same_pool b c"
proof -
  obtain f where f: "scan_page sc = Some f" "page_table b (scan_pid sc) = Some f" using r by (auto simp: scan_ready_def)
  show ?thesis
    using unpin_page_ok [OF h f(2)] f(1) held_frame(4) [OF h f(2)]
    by (simp add: heap_scan_close_def and_then_Inr [of "frame_page_id f"])
qed

end
