(* ===== verification/Heap_Rows.thy ===== *)
theory Heap_Rows
  imports Heap_Scan
begin

text \<open>
  The operations of a table heap on its rows, over the bytes of the pages that clients see. A row of
  the heap is named by its page and its slot.
\<close>

definition heap_row :: "(page_id \<Rightarrow> page_data) \<Rightarrow> page_id list \<Rightarrow> rid \<Rightarrow> byte list option" where
  "heap_row v ps r = (if rid_page r \<in> set ps then tuple_at (v (rid_page r)) (unat (rid_slot r)) else None)"

section \<open>One page at a time\<close>

definition page_changed :: "page_id multiset \<Rightarrow> bpm \<Rightarrow> page_id \<Rightarrow> page_data \<Rightarrow> bpm \<Rightarrow> bool" where
  "page_changed P b p z e \<longleftrightarrow> held {} P e \<and> bpm_view e = (bpm_view b)(p := z) \<and> bpm_pages e = bpm_pages b \<and>
     pool_shape e = pool_shape b \<and> (\<forall>r\<in>#P. page_table e r = page_table b r)"

text \<open>A block on page \<open>p\<close> in frame \<open>f\<close> has left the bytes \<open>z\<close> there and answered \<open>x\<close>.\<close>

definition block_done :: "page_id multiset \<Rightarrow> bpm \<Rightarrow> page_id \<Rightarrow> frame_id \<Rightarrow> page_data \<Rightarrow> 'a \<Rightarrow> ('a \<times> pinned) res \<times> bpm \<Rightarrow> bool" where
  "block_done P c p f z x r \<longleftrightarrow> (\<exists>u d Y. r = (Inr (x, u), d) \<and> pin_frame u = Some f \<and> same_pool c d \<and>
     bpm_view d = (bpm_view c)(p := z) \<and> held Y (add_mset p P) d \<and> Y \<subseteq> {p} \<and> (pin_dirty u \<or> p \<notin> Y))"

lemma scope_ok:
  assumes "body c = (Inr (x, u'), d)" and h: "held Y (add_mset p P) d" and m: "page_table d p = Some f"
    and u: "pin_frame u' = Some f" "pin_dirty u' \<or> p \<notin> Y"
  shows "\<exists>e. scope u body c = (Inr x, e) \<and> held (Y - {p}) P e \<and> bpm_view e = bpm_view d \<and> same_pool d e"
  using held_unpin [OF h m u] assms(1) by (auto simp: scope_def and_then_Inr)

lemma same_pool_shape: "same_pool b c \<Longrightarrow> pool_shape c = pool_shape b \<and> bpm_pages c = bpm_pages b"
  by (simp add: same_pool_def pool_shape_def)

lemma fetch_scope_run:
  assumes h: "held {} P b" and p: "p \<in> bpm_pages b" and P: "size P < pool_capacity b"
    and body: "\<And>f c. fetch_page p b = (Inr (Some f), c) \<Longrightarrow> held {} (add_mset p P) c \<Longrightarrow> page_table c p = Some f \<Longrightarrow> bpm_view c = bpm_view b \<Longrightarrow>
      \<exists>x z. Q x z \<and> block_done P c p f z x (body (make_pinned (Some f)) c)"
  shows "\<exists>f c x z e. Q x z \<and> fetch_page p b = (Inr (Some f), c) \<and>
    scope (make_pinned (Some f)) (body (make_pinned (Some f))) c = (Inr x, e) \<and> page_changed P b p z e"
proof -
  from held_fetch [OF h p P] obtain f c where c: "fetch_page p b = (Inr (Some f), c)" "held {} (add_mset p P) c"
    "page_table c p = Some f" "bpm_view c = bpm_view b" "bpm_pages c = bpm_pages b" "pool_shape c = pool_shape b"
    "\<forall>q\<in>#P. page_table c q = page_table b q" by blast
  obtain x z u d Y where q: "Q x z" and d: "body (make_pinned (Some f)) c = (Inr (x, u), d)" "pin_frame u = Some f" "same_pool c d"
    "bpm_view d = (bpm_view c)(p := z)" "held Y (add_mset p P) d" "Y \<subseteq> {p}" "pin_dirty u \<or> p \<notin> Y"
    using body [OF c(1-4)] unfolding block_done_def by blast
  have "page_table d p = Some f" using c(3) d(3) by (simp add: same_pool_def)
  from scope_ok [of "body (make_pinned (Some f))", OF d(1,5) this d(2,7)] obtain e where
    e: "scope (make_pinned (Some f)) (body (make_pinned (Some f))) c = (Inr x, e)" "held (Y - {p}) P e"
      "bpm_view e = bpm_view d" "same_pool d e" by blast
  have E: "Y - {p} = {}" using d(6) by auto
  have "held {} P e" using e(2) unfolding E .
  then have "page_changed P b p z e"
    using e(3,4) d(3,4) c(4-7) same_pool_shape [of c d] same_pool_shape [of d e]
    by (simp add: page_changed_def same_pool_def)
  then show ?thesis using c(1) e(1) q by blast
qed

lemma fetch_scope_any:
  assumes "held {} P b" and "p \<in> bpm_pages b" and "size P < pool_capacity b"
    and "\<And>f c. held {} (add_mset p P) c \<Longrightarrow> page_table c p = Some f \<Longrightarrow> bpm_view c = bpm_view b \<Longrightarrow>
      \<exists>x z. Q x z \<and> block_done P c p f z x (body (make_pinned (Some f)) c)"
  shows "\<exists>f c x z e. Q x z \<and> fetch_page p b = (Inr (Some f), c) \<and>
    scope (make_pinned (Some f)) (body (make_pinned (Some f))) c = (Inr x, e) \<and> page_changed P b p z e"
  by (rule fetch_scope_run [OF assms(1-3)]) (rule assms(4))

lemma fetch_scope:
  assumes "held {} P b" and "p \<in> bpm_pages b" and "size P < pool_capacity b"
    and "\<And>f c. held {} (add_mset p P) c \<Longrightarrow> page_table c p = Some f \<Longrightarrow> bpm_view c = bpm_view b \<Longrightarrow>
      block_done P c p f z x (body (make_pinned (Some f)) c)"
  shows "\<exists>f c e. fetch_page p b = (Inr (Some f), c) \<and>
    scope (make_pinned (Some f)) (body (make_pinned (Some f))) c = (Inr x, e) \<and> page_changed P b p z e"
  using fetch_scope_any [OF assms(1-3), of "\<lambda>x' z'. x' = x \<and> z' = z" body] assms(4) by blast

text \<open>Blocks that only read the page, or change it and mark it.\<close>

lemma block_read:
  "held {} (add_mset p P) c \<Longrightarrow> page_table c p = Some f \<Longrightarrow> z = bpm_view c p \<Longrightarrow> pin_frame u = Some f \<Longrightarrow>
   block_done P c p f z x (Inr (x, u), c)"
  by (auto simp: block_done_def same_pool_def)

lemma block_write:
  assumes "held Y (add_mset p P) d" and "Y \<subseteq> {p}" and "same_pool c d" and "bpm_view d = (bpm_view c)(p := z)"
    and "pin_frame u = Some f"
  shows "block_done P c p f z x (Inr (x, mark_dirty u), d)"
  using assms by (auto simp: block_done_def mark_dirty_def)

section \<open>Get and delete\<close>

lemma heap_get_ok:
  assumes h: "held {} P b" and p: "rid_page r \<in> bpm_pages b" and P: "size P < pool_capacity b"
    and wf: "wf_page (bpm_view b (rid_page r))"
  shows "\<exists>e. heap_get r b = (Inr (case tuple_at (bpm_view b (rid_page r)) (unat (rid_slot r)) of
      None \<Rightarrow> None | Some t \<Rightarrow> if t = [] then None else Some t), e) \<and>
    page_changed P b (rid_page r) (bpm_view b (rid_page r)) e"
proof -
  let ?p = "rid_page r"
  let ?x = "case tuple_at (bpm_view b ?p) (unat (rid_slot r)) of None \<Rightarrow> None | Some t \<Rightarrow> if t = [] then None else Some t"
  let ?body = "\<lambda>h. and_then (read_page_of h (\<lambda>d. sp_get_tuple d (rid_slot r))) (\<lambda>view.
           ret (if view = [] then None else Some view, h))"
  have "block_done P c ?p f (bpm_view b ?p) ?x (?body (make_pinned (Some f)) c)"
    if c: "held {} (add_mset ?p P) c" "page_table c ?p = Some f" "bpm_view c = bpm_view b" for f c
  proof -
    have "?body (make_pinned (Some f)) c = (Inr (?x, make_pinned (Some f)), c)"
      using held_read [OF c(1,2), of "make_pinned (Some f)" "\<lambda>d. sp_get_tuple d (rid_slot r)"] c(3) wf
      by (simp add: and_then_def get_as_map split: option.split)
    then show ?thesis by (simp only:) (rule block_read [OF c(1,2)]; simp add: c(3))
  qed
  from fetch_scope [OF h p P, of "bpm_view b ?p" ?x ?body, OF this] obtain f c e where
    e: "fetch_page ?p b = (Inr (Some f), c)" "scope (make_pinned (Some f)) (?body (make_pinned (Some f))) c = (Inr ?x, e)"
       "page_changed P b ?p (bpm_view b ?p) e" by blast
  then show ?thesis by (simp add: heap_get_def and_then_Inr [of "fetch_page ?p" b, OF e(1)] Let_def)
qed

lemma heap_delete_ok:
  assumes h: "held {} P b" and p: "rid_page r \<in> bpm_pages b" and P: "size P < pool_capacity b"
    and wf: "wf_page (bpm_view b (rid_page r))"
  shows "\<exists>z e. heap_delete r b = (Inr (live (bpm_view b (rid_page r)) (unat (rid_slot r))), e) \<and>
    page_changed P b (rid_page r) z e \<and> wf_page z \<and> sp_next z = sp_next (bpm_view b (rid_page r)) \<and>
    tuple_at z = (tuple_at (bpm_view b (rid_page r)))(unat (rid_slot r) := None) \<and>
    page_slots z = page_slots (bpm_view b (rid_page r))"
proof -
  let ?p = "rid_page r"
  let ?d = "bpm_view b ?p" and ?x = "live (bpm_view b (rid_page r)) (unat (rid_slot r))"
  let ?body = "\<lambda>h. and_then (on_page h (\<lambda>d. sp_delete_tuple d (rid_slot r))) (\<lambda>deleted.
           ret (deleted, if deleted then mark_dirty h else h))"
  obtain z where z: "sp_delete_tuple ?d (rid_slot r) = Inr (?x, z)" "wf_page z" "sp_next z = sp_next ?d"
    "tuple_at z = (tuple_at ?d)(unat (rid_slot r) := None)" "page_slots z = page_slots ?d" "\<not> ?x \<Longrightarrow> z = ?d"
  proof (cases ?x)
    case True
    then show thesis using delete_as_map [OF wf] that by (metis)
  next
    case False
    then have "tuple_at ?d = (tuple_at ?d)(unat (rid_slot r) := None)" by (auto simp: tuple_at_def)
    moreover have "sp_delete_tuple ?d (rid_slot r) = Inr (False, ?d)" using sp_delete_tuple_wf [OF wf] False by simp
    ultimately show thesis using that [of ?d] False wf by simp
  qed
  have len: "length z = kPAGE_SIZE" using wf_pageD(1) [OF z(2)] .
  have "block_done P c ?p f z ?x (?body (make_pinned (Some f)) c)"
    if c: "held {} (add_mset ?p P) c" "page_table c ?p = Some f" "bpm_view c = bpm_view b" for f c
  proof (cases ?x)
    case True
    obtain d where d: "on_page (make_pinned (Some f)) (\<lambda>d. sp_delete_tuple d (rid_slot r)) c = (Inr ?x, d)"
      "held (insert ?p {}) (add_mset ?p P) d" "bpm_view d = (bpm_view c)(?p := z)" "same_pool c d"
      using held_change [OF c(1,2), of "make_pinned (Some f)" "\<lambda>d. sp_delete_tuple d (rid_slot r)" ?x z] z(1) c(3) len by auto
    have "?body (make_pinned (Some f)) c = (Inr (?x, mark_dirty (make_pinned (Some f))), d)"
      using True by (simp add: and_then_Inr [of "on_page _ _" c, OF d(1)])
    then show ?thesis by (simp only:) (rule block_write [OF d(2) _ d(4,3)]; simp)
  next
    case False
    have op: "on_page (make_pinned (Some f)) (\<lambda>d. sp_delete_tuple d (rid_slot r)) c = (Inr ?x, c)"
      by (rule held_rewrite [OF c(1,2)]) (use z(1,6) False c(3) in simp_all)
    have "?body (make_pinned (Some f)) c = (Inr (?x, make_pinned (Some f)), c)"
      using False by (simp add: and_then_Inr [of "on_page _ _" c, OF op])
    then show ?thesis by (simp only:) (rule block_read [OF c(1,2)]; simp add: c(3) z(6) False)
  qed
  from fetch_scope [OF h p P, of z ?x ?body, OF this] obtain f c e where
    e: "fetch_page ?p b = (Inr (Some f), c)" "scope (make_pinned (Some f)) (?body (make_pinned (Some f))) c = (Inr ?x, e)"
       "page_changed P b ?p z e" by blast
  then show ?thesis
    using z(2-5) by (auto simp: heap_delete_def and_then_Inr [of "fetch_page ?p" b, OF e(1)] Let_def)
qed

section \<open>Insert\<close>

definition placed :: "page_data \<Rightarrow> byte list \<Rightarrow> page_data \<Rightarrow> 16 word \<Rightarrow> bool" where
  "placed d t z s \<longleftrightarrow> wf_page z \<and> sp_next z = sp_next d \<and> tuple_at d (unat s) = None \<and>
     tuple_at z = (tuple_at d)(unat s \<mapsto> t)"

lemma insert_placed:
  assumes wf: "wf_page d" and fits: "insert_fits d t None"
  shows "\<exists>s z. sp_insert_tuple d t None = Inr (Some \<lparr>rid_page = INVALID_PAGE_ID, rid_slot = s\<rparr>, z) \<and> placed d t z s"
proof -
  let ?i = "insert_index (page_tuples d) None"
  have "unat (of_nat ?i :: 16 word) = ?i"
    using insert_index_le [of "page_tuples d" None] page_slots_bound [OF wf] by (simp add: unat_of_nat)
  moreover from insert_as_map [OF wf fits] obtain z where
    "sp_insert_tuple d t None = Inr (Some \<lparr>rid_page = INVALID_PAGE_ID, rid_slot = of_nat ?i\<rparr>, z)"
    "wf_page z" "tuple_at z = (tuple_at d)(?i \<mapsto> t)" "sp_next z = sp_next d" by blast
  ultimately have "placed d t z (of_nat ?i)" using insert_index_dead [of d None] by (simp add: placed_def)
  with \<open>sp_insert_tuple d t None = _\<close> show ?thesis by blast
qed

text \<open>
  A page is settled for a row when it takes the row, or when compacting it changes nothing. Compacting
  a page without room changes its bytes and is not marked dirty.
\<close>

definition settled :: "page_data \<Rightarrow> byte list \<Rightarrow> bool" where
  "settled d t \<longleftrightarrow> insert_fits d t None \<or> sp_is_compacted d = Inr True \<or>
     (\<forall>e. sp_compact d = Inr e \<longrightarrow> insert_fits e t None \<or> e = d)"

text \<open>The page takes the row, at once or after compaction; otherwise it keeps its rows.\<close>

definition takes :: "page_data \<Rightarrow> byte list \<Rightarrow> bool" where
  "takes d t \<longleftrightarrow> insert_fits d t None \<or>
     (sp_is_compacted d = Inr False \<and> (\<exists>e. sp_compact d = Inr e \<and> insert_fits e t None))"

lemma compact_same:
  assumes wf: "wf_page d" and e: "sp_compact d = Inr e"
  shows "wf_page e \<and> tuple_at e = tuple_at d \<and> sp_next e = sp_next d"
proof -
  obtain c where c: "sp_compact d = Inr c" "compacted_page d c" using sp_compact_wf [OF wf] by blast
  then have "e = c" using e by simp
  then show ?thesis using c(2) tuple_at_cong [of e d] by (simp add: compacted_page_def)
qed

text \<open>Changing the page through a fresh handle.\<close>

lemma change_here:
  assumes "held X (add_mset p P) b" and "page_table b p = Some f"
    and "g (bpm_view b p) = Inr (x, d)" and "length d = kPAGE_SIZE" and "pin_frame u = Some f"
  shows "\<exists>c. on_page u g b = (Inr x, c) \<and> held (insert p X) (add_mset p P) c \<and>
    bpm_view c = (bpm_view b)(p := d) \<and> same_pool b c \<and> page_table c p = Some f"
  using held_change [OF assms(1,2), of u g x d] assms by (auto simp: same_pool_def)

lemma inserted_here_ok:
  assumes h: "held Y (add_mset p P) d" and Y: "Y \<subseteq> {p}" and m: "page_table d p = Some f"
    and s: "same_pool c d" and v: "bpm_view d = (bpm_view c)(p := z)" and u: "pin_frame u = Some f"
  shows "block_done P c p f z (Inserted (r\<lparr>rid_page := p\<rparr>)) (inserted_here u r d)"
  using block_write [OF h Y s v u] held_page_id [OF h m u]
  by (simp add: inserted_here_def and_then_Inr [of "pinned_page_id u" d])

lemma insert_takes:
  assumes c: "held {} (add_mset p P) c" "page_table c p = Some f" and wf: "wf_page (bpm_view c p)"
    and t: "length t < 65536" and tk: "takes (bpm_view c p) t"
  shows "\<exists>s z. placed (bpm_view c p) t z s \<and>
    block_done P c p f z (Inserted \<lparr>rid_page = p, rid_slot = s\<rparr>) (insert_on_page created t (make_pinned (Some f)) c)"
proof (cases "insert_fits (bpm_view c p) t None")
  case True
  let ?u = "make_pinned (Some f)" and ?ins = "\<lambda>d. sp_insert_tuple d t None"
  obtain s z where z: "?ins (bpm_view c p) = Inr (Some \<lparr>rid_page = INVALID_PAGE_ID, rid_slot = s\<rparr>, z)"
    "placed (bpm_view c p) t z s" using insert_placed [OF wf True] by blast
  have "length z = kPAGE_SIZE" using z(2) wf_pageD(1) by (simp add: placed_def)
  from change_here [where g = ?ins and u = ?u, OF c z(1) this] obtain d where d: "on_page ?u ?ins c =
      (Inr (Some \<lparr>rid_page = INVALID_PAGE_ID, rid_slot = s\<rparr>), d)" "held {p} (add_mset p P) d"
      "bpm_view d = (bpm_view c)(p := z)" "same_pool c d" and m: "page_table d p = Some f" by auto
  have "insert_on_page created t ?u c = inserted_here ?u \<lparr>rid_page = INVALID_PAGE_ID, rid_slot = s\<rparr> d"
    by (simp add: insert_on_page_def and_then_Inr [of "on_page ?u ?ins" c, OF d(1)])
  then show ?thesis
    using inserted_here_ok [OF d(2) _ m d(4,3), of ?u "\<lparr>rid_page = INVALID_PAGE_ID, rid_slot = s\<rparr>"] z(2) by auto
next
  case False
  let ?u = "make_pinned (Some f)" and ?ins = "\<lambda>d. sp_insert_tuple d t None"
  let ?cmp = "\<lambda>d. bind_res (sp_compact d) (\<lambda>d. Inr ((), d))"
  obtain e where e: "sp_is_compacted (bpm_view c p) = Inr False" "sp_compact (bpm_view c p) = Inr e" "insert_fits e t None"
    using tk False by (auto simp: takes_def)
  have E: "wf_page e" "tuple_at e = tuple_at (bpm_view c p)" "sp_next e = sp_next (bpm_view c p)"
    using compact_same [OF wf e(2)] by auto
  obtain s z where z: "?ins e = Inr (Some \<lparr>rid_page = INVALID_PAGE_ID, rid_slot = s\<rparr>, z)" "placed e t z s"
    using insert_placed [OF E(1) e(3)] by blast
  have full: "on_page ?u ?ins c = (Inr None, c)"
    by (rule held_rewrite [OF c]) (simp_all add: sp_insert_tuple_full [OF wf t False])
  have ic: "read_page_of ?u sp_is_compacted c = (Inr False, c)" using held_read [OF c, of ?u sp_is_compacted] e(1) by simp
  have "length e = kPAGE_SIZE" "length z = kPAGE_SIZE" using E(1) z(2) wf_pageD(1) by (auto simp: placed_def)
  note len = this
  have cmp: "?cmp (bpm_view c p) = Inr ((), e)" using e(2) by simp
  from change_here [where g = ?cmp and u = ?u, OF c cmp len(1)] obtain a where a: "on_page ?u ?cmp c = (Inr (), a)"
    "held {p} (add_mset p P) a" "bpm_view a = (bpm_view c)(p := e)" "same_pool c a"
    and ma: "page_table a p = Some f" by auto
  have za: "?ins (bpm_view a p) = Inr (Some \<lparr>rid_page = INVALID_PAGE_ID, rid_slot = s\<rparr>, z)" using z(1) a(3) by simp
  from change_here [where g = ?ins and u = ?u, OF a(2) ma za len(2)] obtain d where
    d: "on_page ?u ?ins a = (Inr (Some \<lparr>rid_page = INVALID_PAGE_ID, rid_slot = s\<rparr>), d)"
      "held {p} (add_mset p P) d" "bpm_view d = (bpm_view a)(p := z)" "same_pool a d" and m: "page_table d p = Some f" by auto
  have vw: "bpm_view d = (bpm_view c)(p := z)" using d(3) a(3) by simp
  have "insert_on_page created t ?u c = inserted_here ?u \<lparr>rid_page = INVALID_PAGE_ID, rid_slot = s\<rparr> d"
    by (simp add: insert_on_page_def and_then_Inr [of "on_page ?u ?ins" c, OF full]
        and_then_Inr [of "read_page_of ?u sp_is_compacted" c, OF ic] and_then_assoc
        and_then_Inr [of "on_page ?u ?cmp" c, OF a(1)] and_then_Inr [of "on_page ?u ?ins" a, OF d(1)])
  then show ?thesis
    using inserted_here_ok [OF d(2) _ m same_pool_trans [OF a(4) d(4)] vw, of ?u "\<lparr>rid_page = INVALID_PAGE_ID, rid_slot = s\<rparr>"]
      z(2) E by (auto simp: placed_def)
qed

lemma compacted_total: "wf_page d \<Longrightarrow> \<exists>b. sp_is_compacted d = Inr b"
  using is_compacted_from_total [of d "[0..<page_slots d]" "slot_offset d 0"]
  by (cases "page_slots d = 0") (auto simp: sp_is_compacted_wf lessThan_atLeast0)

text \<open>A page without room: what the loop does next.\<close>

definition go_on :: "bool \<Rightarrow> pinned \<Rightarrow> (bpm, insert_step \<times> pinned) proc" where
  "go_on created h = and_then (read_page_of h (\<lambda>d. Inr (sp_next d))) (\<lambda>next_id.
     if next_id = INVALID_PAGE_ID then
       if created
       then throw (Runtime_error ''TableHeap::insert_tuple: tuple failed to fit even on a freshly created page'')
       else link_new_page h
     else ret (Go_on created next_id, h))"

lemma insert_full:
  assumes c: "held {} (add_mset p P) c" "page_table c p = Some f" and wf: "wf_page (bpm_view c p)"
    and t: "length t < 65536" and tk: "\<not> takes (bpm_view c p) t"
  shows "\<exists>z a Y. insert_on_page created t (make_pinned (Some f)) c = go_on created (make_pinned (Some f)) a \<and>
    held Y (add_mset p P) a \<and> Y \<subseteq> {p} \<and> bpm_view a = (bpm_view c)(p := z) \<and> same_pool c a \<and> page_table a p = Some f \<and>
    wf_page z \<and> tuple_at z = tuple_at (bpm_view c p) \<and> sp_next z = sp_next (bpm_view c p) \<and>
    (settled (bpm_view c p) t \<longrightarrow> a = c \<and> z = bpm_view c p)"
proof -
  let ?u = "make_pinned (Some f)" and ?ins = "\<lambda>d. sp_insert_tuple d t None"
  let ?cmp = "\<lambda>d. bind_res (sp_compact d) (\<lambda>d. Inr ((), d))"
  have nofit: "\<not> insert_fits (bpm_view c p) t None" using tk by (simp add: takes_def)
  have full: "on_page ?u ?ins c = (Inr None, c)"
    by (rule held_rewrite [OF c]) (simp_all add: sp_insert_tuple_full [OF wf t nofit])
  obtain b where b: "sp_is_compacted (bpm_view c p) = Inr b" using compacted_total [OF wf] by blast
  have ic: "read_page_of ?u sp_is_compacted c = (Inr b, c)" using held_read [OF c, of ?u sp_is_compacted] b by simp
  note I = insert_on_page_def and_then_Inr [of "on_page ?u ?ins" c, OF full]
    and_then_Inr [of "read_page_of ?u sp_is_compacted" c, OF ic] and_then_assoc go_on_def [symmetric]
  show ?thesis
  proof (cases b)
    case True
    then have "insert_on_page created t ?u c = go_on created ?u c" by (simp add: I)
    then show ?thesis using c wf by (intro exI [of _ "bpm_view c p"] exI [of _ c] exI [of _ "{}"]) (simp add: same_pool_def)
  next
    case False
    obtain e where e: "sp_compact (bpm_view c p) = Inr e" using sp_compact_wf [OF wf] by blast
    have ne: "\<not> insert_fits e t None" using tk b False e by (auto simp: takes_def)
    have E: "wf_page e" "tuple_at e = tuple_at (bpm_view c p)" "sp_next e = sp_next (bpm_view c p)"
      using compact_same [OF wf e] by auto
    have same: "settled (bpm_view c p) t \<Longrightarrow> e = bpm_view c p" using b False e ne nofit by (auto simp: settled_def)
    have cmp: "?cmp (bpm_view c p) = Inr ((), e)" using e by simp
    obtain a Y where a: "on_page ?u ?cmp c = (Inr (), a)" "held Y (add_mset p P) a" "Y \<subseteq> {p}"
      "bpm_view a = (bpm_view c)(p := e)" "same_pool c a" "page_table a p = Some f" "e = bpm_view c p \<longrightarrow> a = c"
    proof (cases "e = bpm_view c p")
      case True
      have "on_page ?u ?cmp c = (Inr (), c)" by (rule held_rewrite [OF c]) (use cmp True in simp_all)
      then show ?thesis using that c True by (simp add: same_pool_def)
    next
      case False
      have "length e = kPAGE_SIZE" using wf_pageD(1) [OF E(1)] .
      from change_here [where g = ?cmp and u = ?u, OF c cmp this] that False show ?thesis by auto
    qed
    have full': "on_page ?u ?ins a = (Inr None, a)"
      by (rule held_rewrite [OF a(2,6)]) (simp_all add: a(4) sp_insert_tuple_full [OF E(1) t ne])
    have "insert_on_page created t ?u c = go_on created ?u a"
      using False by (simp add: I and_then_Inr [of "on_page ?u ?cmp" c, OF a(1)] and_then_Inr [of "on_page ?u ?ins" a, OF full'])
    then show ?thesis using a(2-7) E same by blast
  qed
qed

lemma wf_put_next:
  assumes "wf_page d"
  shows "wf_page (put_next n d)" "tuple_at (put_next n d) = tuple_at d" "sp_next (put_next n d) = n"
proof -
  note W = wf_pageD [OF assms]
  have len: "8 \<le> length d" using wf_length_ge [OF assms] .
  have H: "sp_count (put_next n d) = sp_count d" "sp_free (put_next n d) = sp_free d" "length (put_next n d) = kPAGE_SIZE"
    using len W(1) by (simp_all add: layout_simps)
  show "sp_next (put_next n d) = n" using len by (simp add: layout_simps)
  have slots: "page_slots (put_next n d) = page_slots d" using H by (simp add: page_slots_def)
  have S: "slot_offset (put_next n d) i = slot_offset d i" "slot_length (put_next n d) i = slot_length d i"
    if "i < page_slots d" for i
    using wf_slot_in_page [OF assms that] by (simp_all add: layout_simps)
  have lv: "live (put_next n d) i = live d i" for i using S slots by (auto simp: live_def)
  show "wf_page (put_next n d)"
    unfolding wf_page_def
    using W H slots S lv live_less by (auto simp: disjoint_tuples_def)
  show "tuple_at (put_next n d) = tuple_at d"
  proof (rule ext)
    fix i show "tuple_at (put_next n d) i = tuple_at d i"
    proof (cases "live d i")
      case True
      have "8 \<le> slot_off d i" "slot_off d i + slot_len d i \<le> length d" using W(1,2) W(4,5) [OF True] by linarith+
      then show ?thesis using True lv S live_less [OF True] by (simp add: tuple_at_def layout_simps)
    qed (simp add: tuple_at_def lv)
  qed
qed

text \<open>Linking a new page behind the last one.\<close>

lemma link_new_page_ok:
  assumes h: "held Y (add_mset p P) a" and Y: "Y \<subseteq> {p}" and m: "page_table a p = Some f" and wf: "wf_page (bpm_view a p)"
    and nxt: "sp_next (bpm_view a p) = INVALID_PAGE_ID"
    and room: "disk_room (bdisk a)" and P: "size P + 1 < pool_capacity a"
  shows "\<exists>n c. link_new_page (make_pinned (Some f)) a = (Inr (Go_on True n, mark_dirty (make_pinned (Some f))), c) \<and>
    n \<notin> bpm_pages a \<and> bpm_pages c = insert n (bpm_pages a) \<and> n \<noteq> p \<and>
    bpm_view c = (bpm_view a)(n := sp_init zero_page, p := put_next n (bpm_view a p)) \<and>
    held {p} (add_mset p P) c \<and> page_table c p = Some f \<and> pool_capacity c = pool_capacity a"
proof -
  let ?u = "make_pinned (Some f)" and ?init = "\<lambda>d. Inr ((), sp_init d)" and ?nxt = "\<lambda>d. Inr (sp_next d)"
  have pin: "p \<in> bpm_pages a" using mappedD(6) [OF heldD(1) [OF h] m] .
  have "size (add_mset p P) < pool_capacity a" using P by simp
  from held_new [OF h room this] obtain n g b where np: "new_page a = (Inr (Some g), b)"
    and b: "held (insert n Y) (add_mset n (add_mset p P)) b" "n \<notin> bpm_pages a" "bpm_pages b = insert n (bpm_pages a)"
      "page_table b n = Some g" "bpm_view b = (bpm_view a)(n := zero_page)" "pool_capacity b = pool_capacity a"
      "\<forall>q\<in>#add_mset p P. page_table b q = page_table a q" by blast
  have np': "n \<noteq> p" using b(2) pin by auto
  let ?w = "make_pinned (Some g)"
  have zn: "?init (bpm_view b n) = Inr ((), sp_init zero_page)" using b(5) by simp
  have len: "length (sp_init zero_page) = kPAGE_SIZE" using sp_init_fields(1) [OF length_zero_page] .
  from change_here [where g = ?init and u = ?w, OF b(1,4) zn len] obtain c1 where
    c1: "on_page ?w ?init b = (Inr (), c1)" "held (insert n Y) (add_mset n (add_mset p P)) c1"
      "bpm_view c1 = (bpm_view b)(n := sp_init zero_page)" "same_pool b c1" "page_table c1 n = Some g" by auto
  have blk: "and_then (on_page ?w ?init) (\<lambda>_. ret ((), mark_dirty ?w)) b = (Inr ((), mark_dirty ?w), c1)"
    by (simp add: and_then_Inr [of "on_page ?w ?init" b, OF c1(1)])
  obtain c2 where c2: "scope ?w (and_then (on_page ?w ?init) (\<lambda>_. ret ((), mark_dirty ?w))) b = (Inr (), c2)"
    "held (insert n Y - {n}) (add_mset p P) c2" "bpm_view c2 = bpm_view c1" "same_pool c1 c2"
    using scope_ok [of "and_then (on_page ?w ?init) (\<lambda>_. ret ((), mark_dirty ?w))", OF blk c1(2,5)] by auto
  have Y2: "insert n Y - {n} = Y" using Y np' by auto
  have h2: "held Y (add_mset p P) c2" using c2(2) unfolding Y2 .
  have m2: "page_table c2 p = Some f" "page_table c2 n = Some g"
    using c2(4) c1(4,5) b(7) m by (simp_all add: same_pool_def)
  have v2: "bpm_view c2 = (bpm_view a)(n := sp_init zero_page)" using c2(3) c1(3) b(5) by simp
  have r2: "read_page_of ?u ?nxt c2 = (Inr INVALID_PAGE_ID, c2)"
    using held_read [OF h2 m2(1), of ?u ?nxt] v2 np' nxt by simp
  have id2: "frame_page_id g c2 = (Inr n, c2)" by (rule held_frame(4) [OF h2 m2(2)])
  let ?put = "\<lambda>d. Inr ((), put_next n d)"
  have zp: "?put (bpm_view c2 p) = Inr ((), put_next n (bpm_view a p))" using v2 np' by simp
  have "length (put_next n (bpm_view a p)) = kPAGE_SIZE" using wf_pageD(1) [OF wf_put_next(1) [OF wf]] .
  from change_here [where g = ?put and u = ?u, OF h2 m2(1) zp this] obtain c3 where
    c3: "on_page ?u ?put c2 = (Inr (), c3)" "held (insert p Y) (add_mset p P) c3"
      "bpm_view c3 = (bpm_view c2)(p := put_next n (bpm_view a p))" "same_pool c2 c3" "page_table c3 p = Some f" by auto
  have Y3: "insert p Y = {p}" using Y by auto
  have h3: "held {p} (add_mset p P) c3" using c3(2) unfolding Y3 .
  have r3: "read_page_of ?u ?nxt c3 = (Inr n, c3)"
    using held_read [OF h3 c3(5), of ?u ?nxt] c3(3) wf_put_next(3) [OF wf] by simp
  have "link_new_page ?u a = (Inr (Go_on True n, mark_dirty ?u), c3)"
    unfolding link_new_page_def and_then_Inr [of new_page a, OF np]
    by (simp add: Let_def and_then_Inr [of "scope _ _" b, OF c2(1)] and_then_Inr [of "read_page_of ?u ?nxt" c2, OF r2]
        and_then_Inr [of "frame_page_id g" c2, OF id2] and_then_Inr [of "on_page ?u ?put" c2, OF c3(1)]
        and_then_Inr [of "read_page_of ?u ?nxt" c3, OF r3])
  moreover have "bpm_pages c3 = insert n (bpm_pages a)" "pool_capacity c3 = pool_capacity a"
    using c3(4) c2(4) c1(4) b(3,6) by (simp_all add: same_pool_def)
  moreover have "bpm_view c3 = (bpm_view a)(n := sp_init zero_page, p := put_next n (bpm_view a p))"
    by (simp add: c3(3) v2)
  ultimately show ?thesis using b(2) np' c3(5) h3 by blast
qed

section \<open>The loop of insert\<close>

definition inserted :: "page_id multiset \<Rightarrow> bpm \<Rightarrow> page_id \<Rightarrow> page_id list \<Rightarrow> byte list \<Rightarrow> rid \<Rightarrow> page_id list \<Rightarrow> bpm \<Rightarrow> bool" where
  "inserted P b p ps t r qs e \<longleftrightarrow> held {} P e \<and> pool_capacity e = pool_capacity b \<and>
     heap_pages (bpm_view e) (bpm_pages e) p qs \<and>
     heap_row (bpm_view b) ps r = None \<and> heap_row (bpm_view e) qs = (heap_row (bpm_view b) ps)(r \<mapsto> t) \<and>
     (\<forall>q. q \<notin> set qs \<longrightarrow> bpm_view e q = bpm_view b q) \<and>
     (qs = ps \<and> bpm_pages e = bpm_pages b \<or>
      (\<exists>n. n \<notin> bpm_pages b \<and> qs = ps @ [n] \<and> bpm_pages e = insert n (bpm_pages b)))"

text \<open>The row goes to page \<open>p\<close> of the heap.\<close>

lemma heap_row_placed:
  assumes p: "p \<in> set ps" and z: "placed (v p) t z s"
  shows "heap_row v ps \<lparr>rid_page = p, rid_slot = s\<rparr> = None"
    "heap_row (v(p := z)) ps = (heap_row v ps)(\<lparr>rid_page = p, rid_slot = s\<rparr> \<mapsto> t)"
proof -
  show "heap_row v ps \<lparr>rid_page = p, rid_slot = s\<rparr> = None" using z by (simp add: heap_row_def placed_def)
  show "heap_row (v(p := z)) ps = (heap_row v ps)(\<lparr>rid_page = p, rid_slot = s\<rparr> \<mapsto> t)"
  proof (rule ext)
    fix r :: rid
    have "r = \<lparr>rid_page = p, rid_slot = s\<rparr> \<longleftrightarrow> rid_page r = p \<and> unat (rid_slot r) = unat s"
      by (cases r) (auto dest: unsigned_word_eqI)
    then show "heap_row (v(p := z)) ps r = ((heap_row v ps)(\<lparr>rid_page = p, rid_slot = s\<rparr> \<mapsto> t)) r"
      using z p by (auto simp: heap_row_def placed_def)
  qed
qed

lemma chain_update:
  assumes "chain v U p ps" and "distinct ps" and "q \<in> set ps" and "wf_page z" and "sp_next z = sp_next (v q)"
  shows "chain (v(q := z)) U p ps"
  using assms(1-3)
proof (induction ps arbitrary: p)
  case (Cons a ps)
  show ?case
  proof (cases "a = q")
    case True
    then have "q \<notin> set ps" and "chain v U (sp_next (v q)) ps" using Cons.prems(1,2) by simp_all
    then have "chain (v(q := z)) U (sp_next (v q)) ps"
      using chain_cong [of ps v "v(q := z)" U U "sp_next (v q)"] by fastforce
    then show ?thesis using True Cons.prems assms(4,5) by (simp only: chain.simps fun_upd_same simp_thms)
  next
    case False
    then show ?thesis using Cons.IH [of "sp_next (v a)"] Cons.prems by simp
  qed
qed simp

lemma inserted_here_page:
  assumes hp: "heap_pages (bpm_view b) (bpm_pages b) p ps" and q: "q \<in> set ps" and z: "placed (bpm_view b q) t z s"
    and e: "page_changed P b q z e"
  shows "inserted P b p ps t \<lparr>rid_page = q, rid_slot = s\<rparr> ps e"
  using e hp chain_update [of "bpm_view b" "bpm_pages b" p ps q z] heap_row_placed [of q ps "bpm_view b" t z s, OF q z] z q
  by (auto simp: inserted_def page_changed_def heap_pages_def placed_def pool_shape_def)

lemma takes_new_page:
  assumes "length t \<le> 8180"
  shows "takes (sp_init zero_page) t"
  using assms by (simp add: takes_def insert_fits_def init_insert init_slots init_room)

text \<open>A page with room, or the fresh last page.\<close>

lemma insert_from_takes:
  assumes h: "held {} P b" and P: "size P < pool_capacity b" and q: "q \<in> bpm_pages b" and wf: "wf_page (bpm_view b q)"
    and t: "length t < 65536" and tk: "takes (bpm_view b q) t"
  shows "\<exists>s z e. insert_from (Suc n) created q t b = (Inr (Some \<lparr>rid_page = q, rid_slot = s\<rparr>), e) \<and>
    placed (bpm_view b q) t z s \<and> page_changed P b q z e"
proof -
  let ?Q = "\<lambda>x z. \<exists>s. x = Inserted \<lparr>rid_page = q, rid_slot = s\<rparr> \<and> placed (bpm_view b q) t z s"
  have "\<exists>x z. ?Q x z \<and> block_done P c q f z x (insert_on_page created t (make_pinned (Some f)) c)"
    if "held {} (add_mset q P) c" "page_table c q = Some f" "bpm_view c = bpm_view b" for f c
    using insert_takes [OF that(1,2) _ t, of created] wf tk that(3) by auto
  from fetch_scope_any [OF h q P, of ?Q "insert_on_page created t", OF this] obtain f c s z e where
    e: "placed (bpm_view b q) t z s" "fetch_page q b = (Inr (Some f), c)"
      "scope (make_pinned (Some f)) (insert_on_page created t (make_pinned (Some f))) c = (Inr (Inserted \<lparr>rid_page = q, rid_slot = s\<rparr>), e)"
      "page_changed P b q z e" by blast
  then have "insert_from (Suc n) created q t b = (Inr (Some \<lparr>rid_page = q, rid_slot = s\<rparr>), e)"
    by (simp add: and_then_Inr [of "fetch_page q" b] Let_def and_then_Inr [of "scope _ _" c])
  then show ?thesis using e(1,4) by blast
qed

text \<open>A settled page without room that is not the last: the loop goes to the next page.\<close>

lemma insert_from_next:
  assumes h: "held {} P b" and P: "size P < pool_capacity b" and q: "q \<in> bpm_pages b" and wf: "wf_page (bpm_view b q)"
    and t: "length t < 65536" and tk: "\<not> takes (bpm_view b q) t" and st: "settled (bpm_view b q) t"
    and nxt: "sp_next (bpm_view b q) \<noteq> INVALID_PAGE_ID"
  shows "\<exists>e. insert_from (Suc n) created q t b = insert_from n created (sp_next (bpm_view b q)) t e \<and>
    page_changed P b q (bpm_view b q) e"
proof -
  let ?x = "Go_on created (sp_next (bpm_view b q))"
  have "block_done P c q f (bpm_view b q) ?x (insert_on_page created t (make_pinned (Some f)) c)"
    if c: "held {} (add_mset q P) c" "page_table c q = Some f" "bpm_view c = bpm_view b" for f c
  proof -
    let ?u = "make_pinned (Some f)"
    have "insert_on_page created t ?u c = go_on created ?u c"
      using insert_full [OF c(1,2) _ t, of created] wf tk st c(3) by auto
    also have "\<dots> = (Inr (?x, ?u), c)"
      using held_read [OF c(1,2), of ?u "\<lambda>d. Inr (sp_next d)"] c(3) nxt
      by (simp add: go_on_def and_then_Inr [of "read_page_of ?u _" c])
    finally show ?thesis by (simp only:) (rule block_read [OF c(1,2)]; simp add: c(3))
  qed
  from fetch_scope [OF h q P, of "bpm_view b q" ?x "insert_on_page created t", OF this] obtain f c e where
    e: "fetch_page q b = (Inr (Some f), c)"
      "scope (make_pinned (Some f)) (insert_on_page created t (make_pinned (Some f))) c = (Inr ?x, e)"
      "page_changed P b q (bpm_view b q) e" by blast
  then show ?thesis
    by (auto simp: and_then_Inr [of "fetch_page q" b, OF e(1)] Let_def and_then_Inr [of "scope _ _" c, OF e(2)])
qed

text \<open>The last page without room: a new page is linked behind it and takes the row.\<close>

lemma insert_from_last:
  assumes h: "held {} P b" and P: "size P + 1 < pool_capacity b" and q: "q \<in> bpm_pages b" and wf: "wf_page (bpm_view b q)"
    and t: "length t \<le> 8180" and tk: "\<not> takes (bpm_view b q) t"
    and nxt: "sp_next (bpm_view b q) = INVALID_PAGE_ID" and room: "disk_room (bdisk b)"
  shows "\<exists>n z e. insert_from (Suc k) False q t b = insert_from k True n t e \<and> n \<notin> bpm_pages b \<and> n \<noteq> q \<and>
    held {} P e \<and> pool_capacity e = pool_capacity b \<and> bpm_pages e = insert n (bpm_pages b) \<and>
    bpm_view e = (bpm_view b)(n := sp_init zero_page, q := z) \<and>
    wf_page z \<and> tuple_at z = tuple_at (bpm_view b q) \<and> sp_next z = n"
proof -
  have "size P < pool_capacity b" using P by simp
  from held_fetch [OF h q this] obtain f c where c: "fetch_page q b = (Inr (Some f), c)" "held {} (add_mset q P) c"
    "page_table c q = Some f" "bpm_view c = bpm_view b" "bpm_pages c = bpm_pages b" "pool_shape c = pool_shape b" by blast
  let ?u = "make_pinned (Some f)"
  have t': "length t < 65536" using t by simp
  obtain y a Y where a: "insert_on_page False t ?u c = go_on False ?u a" "held Y (add_mset q P) a" "Y \<subseteq> {q}"
    "bpm_view a = (bpm_view c)(q := y)" "same_pool c a" "page_table a q = Some f"
    and y: "wf_page y" "tuple_at y = tuple_at (bpm_view c q)" "sp_next y = sp_next (bpm_view c q)"
    using insert_full [OF c(2,3) _ t', of False] wf tk c(4) by metis
  have ya: "bpm_view a q = y" using a(4) by simp
  have "disk_room (bdisk a)" using room a(5) c(5,6) by (simp add: same_pool_def disk_room_def pool_shape_def)
  moreover have cap: "pool_capacity a = pool_capacity b" using a(5) c(6) by (simp add: same_pool_def pool_shape_def)
  ultimately obtain n d where d: "link_new_page ?u a = (Inr (Go_on True n, mark_dirty ?u), d)" "n \<notin> bpm_pages a"
    "bpm_pages d = insert n (bpm_pages a)" "n \<noteq> q" "bpm_view d = (bpm_view a)(n := sp_init zero_page, q := put_next n y)"
    "held {q} (add_mset q P) d" "page_table d q = Some f" "pool_capacity d = pool_capacity a"
    using link_new_page_ok [OF a(2,3,6)] ya y nxt c(4) P by auto
  have "read_page_of ?u (\<lambda>d. Inr (sp_next d)) a = (Inr INVALID_PAGE_ID, a)"
    using held_read [OF a(2,6), of ?u "\<lambda>d. Inr (sp_next d)"] ya y(3) nxt c(4) by simp
  then have "insert_on_page False t ?u c = (Inr (Go_on True n, mark_dirty ?u), d)"
    using a(1) d(1) by (simp add: go_on_def and_then_Inr [of "read_page_of ?u _" a])
  from scope_ok [of "insert_on_page False t ?u", OF this d(6,7), of ?u] obtain e where
    e: "scope ?u (insert_on_page False t ?u) c = (Inr (Go_on True n), e)" "held {} P e" "bpm_view e = bpm_view d" "same_pool d e"
    by auto
  have "insert_from (Suc k) False q t b = insert_from k True n t e"
    by (simp add: and_then_Inr [of "fetch_page q" b, OF c(1)] Let_def and_then_Inr [of "scope _ _" c, OF e(1)])
  moreover have "bpm_view e = (bpm_view b)(n := sp_init zero_page, q := put_next n y)"
    using e(3) d(5) a(4) c(4) d(4) by (simp add: fun_upd_twist)
  moreover have "pool_capacity e = pool_capacity b" "bpm_pages e = insert n (bpm_pages b)" "n \<notin> bpm_pages b"
    using e(4) d(2,3,8) cap a(5) c(5) by (simp_all add: same_pool_def)
  moreover have "tuple_at (put_next n y) = tuple_at (bpm_view b q)" using wf_put_next(2) [OF y(1)] y(2) c(4) by simp
  ultimately show ?thesis using e(2) d(4) wf_put_next(1,3) [OF y(1)] by blast
qed

text \<open>The new last page.\<close>

lemma chain_new_page:
  assumes "chain v U p (ps @ [q])" and "\<And>x. x \<in> set ps \<Longrightarrow> w x = v x" and "U \<subseteq> V"
    and "wf_page (w q)" and "sp_next (w q) = n" and "n \<noteq> INVALID_PAGE_ID" and "n \<in> V" and "wf_page (w n)"
    and "sp_next (w n) = INVALID_PAGE_ID"
  shows "chain w V p (ps @ [q, n])"
  using assms by (induction ps arbitrary: p) auto

lemma pages_valid: "p \<in> bpm_pages b \<Longrightarrow> p \<noteq> INVALID_PAGE_ID"
  using in_use_valid [of p "bdisk b"] word_n1_ge [of "dcapacity (bdisk b)"] by (auto simp: INVALID_PAGE_ID_def)

lemma tuple_at_init: "tuple_at (sp_init zero_page) = Map.empty"
  by (rule ext) (rule init_dead)

lemma inserted_new_page:
  assumes hp: "heap_pages (bpm_view b) (bpm_pages b) p ps" and q: "ps = pre @ [q]"
    and n: "n \<notin> bpm_pages b" "n \<noteq> q" and a: "held {} P a" "pool_capacity a = pool_capacity b"
      "bpm_pages a = insert n (bpm_pages b)" "bpm_view a = (bpm_view b)(n := sp_init zero_page, q := y)"
    and y: "wf_page y" "tuple_at y = tuple_at (bpm_view b q)" "sp_next y = n"
    and z: "placed (bpm_view a n) t z s" and e: "page_changed P a n z e"
  shows "inserted P b p ps t \<lparr>rid_page = n, rid_slot = s\<rparr> (ps @ [n]) e"
proof -
  have ch: "chain (bpm_view b) (bpm_pages b) p ps" and dist: "distinct ps" using hp by (simp_all add: heap_pages_def)
  have sub: "set ps \<subseteq> bpm_pages b" using chain_in [OF ch] by blast
  have n': "n \<notin> set ps" using n(1) sub by blast
  have ve: "bpm_view e = (bpm_view b)(n := z, q := y)" using e a(4) n(2) by (simp add: page_changed_def fun_upd_twist)
  have va: "bpm_view a n = sp_init zero_page" using a(4) n(2) by simp
  have Z: "wf_page z" "sp_next z = INVALID_PAGE_ID" "tuple_at z = [unat s \<mapsto> t]"
    using z unfolding va by (simp_all add: placed_def tuple_at_init sp_init_fields(4) [OF length_zero_page])
  have pe: "bpm_pages e = insert n (bpm_pages b)" "pool_capacity e = pool_capacity b"
    using e a(2,3) by (simp_all add: page_changed_def pool_shape_def)
  have "chain (bpm_view e) (bpm_pages e) p (pre @ [q, n])"
  proof (rule chain_new_page [of "bpm_view b" "bpm_pages b"])
    show "chain (bpm_view b) (bpm_pages b) p (pre @ [q])" using ch q by simp
    show "bpm_view e x = bpm_view b x" if "x \<in> set pre" for x using that q n' dist ve by auto
    show "n \<noteq> INVALID_PAGE_ID" using pages_valid [of n e] pe by simp
  qed (use ve n(2) y Z pe in auto)
  then have heap: "heap_pages (bpm_view e) (bpm_pages e) p (ps @ [n])" using q n' n(2) dist by (auto simp: heap_pages_def)
  have ins: "q \<in> set ps" using q by simp
  have new: "heap_row (bpm_view b) ps \<lparr>rid_page = n, rid_slot = s\<rparr> = None" using n' by (simp add: heap_row_def)
  have rows: "heap_row (bpm_view e) (ps @ [n]) = (heap_row (bpm_view b) ps)(\<lparr>rid_page = n, rid_slot = s\<rparr> \<mapsto> t)"
  proof (rule ext)
    fix r :: rid
    have "r = \<lparr>rid_page = n, rid_slot = s\<rparr> \<longleftrightarrow> rid_page r = n \<and> unat (rid_slot r) = unat s"
      by (cases r) (auto dest: unsigned_word_eqI)
    then show "heap_row (bpm_view e) (ps @ [n]) r = ((heap_row (bpm_view b) ps)(\<lparr>rid_page = n, rid_slot = s\<rparr> \<mapsto> t)) r"
      using ve n' n(2) y(2) Z(3) ins by (auto simp: heap_row_def)
  qed
  have rest: "\<forall>r. r \<notin> set (ps @ [n]) \<longrightarrow> bpm_view e r = bpm_view b r" using ve ins by auto
  have "held {} P e" using e by (simp add: page_changed_def)
  then show ?thesis unfolding inserted_def using pe heap new rows n(1) rest by blast
qed

lemma inserted_cong:
  "bpm_view a = bpm_view b \<Longrightarrow> bpm_pages a = bpm_pages b \<Longrightarrow> pool_capacity a = pool_capacity b \<Longrightarrow>
   inserted P a p ps t r qs e \<Longrightarrow> inserted P b p ps t r qs e"
  by (simp add: inserted_def)

lemma insert_from_ok:
  assumes "heap_pages (bpm_view b) (bpm_pages b) p ps" and "ps = pre @ q # post" and "held {} P b"
    and "size P + 1 < pool_capacity b" and "length t \<le> 8180" and "disk_room (bdisk b) \<or> (\<exists>x\<in>set (q # post). takes (bpm_view b x) t)"
    and "\<forall>x\<in>set (butlast ps). settled (bpm_view b x) t" and "length post + 1 < n"
  shows "\<exists>r qs e. insert_from n False q t b = (Inr (Some r), e) \<and> inserted P b p ps t r qs e"
  using assms
proof (induction post arbitrary: pre q b n)
  case (Cons q' post)
  note h = Cons.prems(3)
  obtain k where k: "n = Suc k" "length post + 1 < k" using Cons.prems(8) by (cases n) auto
  have P: "size P < pool_capacity b" and t: "length t < 65536" using Cons.prems(4,5) by simp_all
  have ch: "chain (bpm_view b) (bpm_pages b) p ps" using Cons.prems(1) by (simp add: heap_pages_def)
  have q: "q \<in> set ps" "q \<in> bpm_pages b" "wf_page (bpm_view b q)"
    using chain_in [OF ch, of q] Cons.prems(2) by simp_all
  show ?case
  proof (cases "takes (bpm_view b q) t")
    case True
    from insert_from_takes [OF h P q(2,3) t this] inserted_here_page [OF Cons.prems(1) q(1)] show ?thesis
      unfolding k(1) by blast
  next
    case False
    have st: "settled (bpm_view b q) t" using Cons.prems(2,7) by (simp add: butlast_append)
    have "sp_next (bpm_view b q) = q' \<and> q' \<noteq> INVALID_PAGE_ID"
      using ch unfolding Cons.prems(2) by (induction pre arbitrary: p) auto
    then have nx: "sp_next (bpm_view b q) = q'" "sp_next (bpm_view b q) \<noteq> INVALID_PAGE_ID" by simp_all
    obtain e where e: "insert_from (Suc k) False q t b = insert_from k False q' t e"
      "page_changed P b q (bpm_view b q) e"
      using insert_from_next [OF h P q(2,3) t False st nx(2)] nx(1) by auto
    have E: "held {} P e" "bpm_view e = bpm_view b" "bpm_pages e = bpm_pages b" "pool_capacity e = pool_capacity b"
      "disk_room (bdisk e) = disk_room (bdisk b)"
      using e(2) by (simp_all add: page_changed_def pool_shape_def disk_room_def)
    have "\<exists>r qs c. insert_from k False q' t e = (Inr (Some r), c) \<and> inserted P e p ps t r qs c"
      by (rule Cons.IH [of e "pre @ [q]"]) (use E Cons.prems k False in simp_all)
    then show ?thesis using e(1) k(1) inserted_cong [OF E(2-4)] by metis
  qed
next
  case Nil
  note h = Nil.prems(3)
  obtain k where k: "n = Suc (Suc k)" using Nil.prems(8) by (cases n; cases "n - 1") auto
  have P: "size P < pool_capacity b" and t: "length t < 65536" using Nil.prems(4,5) by simp_all
  have ch: "chain (bpm_view b) (bpm_pages b) p ps" using Nil.prems(1) by (simp add: heap_pages_def)
  have q: "q \<in> set ps" "q \<in> bpm_pages b" "wf_page (bpm_view b q)"
    using chain_in [OF ch, of q] Nil.prems(2) by simp_all
  show ?case
  proof (cases "takes (bpm_view b q) t")
    case True
    from insert_from_takes [OF h P q(2,3) t this] inserted_here_page [OF Nil.prems(1) q(1)] show ?thesis
      unfolding k by blast
  next
    case False
    have nx: "sp_next (bpm_view b q) = INVALID_PAGE_ID"
      using ch unfolding Nil.prems(2) by (induction pre arbitrary: p) auto
    have "disk_room (bdisk b)" using Nil.prems(6) False by simp
    from insert_from_last [OF h Nil.prems(4) q(2,3) Nil.prems(5) False nx this] obtain m z e where
      e: "insert_from (Suc (Suc k)) False q t b = insert_from (Suc k) True m t e" "m \<notin> bpm_pages b" "m \<noteq> q"
      "held {} P e" "pool_capacity e = pool_capacity b" "bpm_pages e = insert m (bpm_pages b)"
      "bpm_view e = (bpm_view b)(m := sp_init zero_page, q := z)"
      and z: "wf_page z" "tuple_at z = tuple_at (bpm_view b q)" "sp_next z = m" by blast
    have m: "m \<in> bpm_pages e" "bpm_view e m = sp_init zero_page" using e(3,6,7) by simp_all
    have "size P < pool_capacity e" "wf_page (bpm_view e m)" "takes (bpm_view e m) t"
      using P e(5) m takes_new_page [OF Nil.prems(5)] sp_init_wf by (simp_all add: length_zero_page)
    from insert_from_takes [OF e(4) this(1) m(1) this(2) t this(3), of k True] obtain s y c where
      c: "insert_from (Suc k) True m t e = (Inr (Some \<lparr>rid_page = m, rid_slot = s\<rparr>), c)" "placed (bpm_view e m) t y s"
      "page_changed P e m y c" by blast
    from inserted_new_page [OF Nil.prems(1) Nil.prems(2) e(2-7) z c(2,3)] show ?thesis
      using e(1) c(1) k by auto
  qed
qed

text \<open>The loop has fuel for all the pages of the heap and a new one.\<close>

lemma heap_insert_ok:
  assumes h: "held {} P b" and hp: "heap_pages (bpm_view b) (bpm_pages b) p ps"
    and P: "size P + 1 < pool_capacity b" and t: "length t \<le> 8180" and room: "disk_room (bdisk b) \<or> (\<exists>x\<in>set ps. takes (bpm_view b x) t)"
    and st: "\<forall>x\<in>set (butlast ps). settled (bpm_view b x) t"
  shows "\<exists>r qs e. heap_insert p t b = (Inr (Some r), e) \<and> inserted P b p ps t r qs e"
proof -
  obtain post where ps: "ps = p # post" using hp by (cases ps) (auto simp: heap_pages_def)
  have "length post + 1 < page_fuel b" using heap_fuel [OF hp] ps by simp
  from insert_from_ok [OF hp _ h P t _ st this, of "[]" p] ps room show ?thesis
    using t by (simp add: heap_insert_def kPAGE_SIZE_def)
qed

end
