(* ===== verification/Heap_Properties.thy ===== *)
theory Heap_Properties
  imports Heap_Rows Buffer_Properties
begin

text \<open>
  What a table heap promises its clients: insert, get and delete are the operations of a finite map from
  row numbers to bytes, a scan lists that map and ends, and the list of pages is complete.
\<close>

section \<open>Rows in scan order are the map of rows\<close>

lemma page_rows_in:
  assumes "wf_page d"
  shows "(r, t) \<in> set (page_rows p d 0) \<longleftrightarrow> rid_page r = p \<and> tuple_at d (unat (rid_slot r)) = Some t"
proof
  assume "(r, t) \<in> set (page_rows p d 0)"
  then obtain i where i: "r = \<lparr>rid_page = p, rid_slot = of_nat i\<rparr>" "t = the (tuple_at d i)" "live d i" "i < page_slots d"
    by (auto simp: page_rows_def)
  have "unat (of_nat i :: 16 word) = i" using i(4) page_slots_bound [OF assms] by (simp add: unat_of_nat)
  then show "rid_page r = p \<and> tuple_at d (unat (rid_slot r)) = Some t" using i by (simp add: tuple_at_def)
next
  assume r: "rid_page r = p \<and> tuple_at d (unat (rid_slot r)) = Some t"
  then have "live d (unat (rid_slot r))" by (auto simp: tuple_at_def split: if_splits)
  then have "unat (rid_slot r) \<in> set (filter (live d) [0..<page_slots d])" by (simp add: live_less)
  then show "(r, t) \<in> set (page_rows p d 0)"
    using r by (cases r) (force simp: page_rows_def)
qed

lemma rows_in:
  assumes "\<forall>q\<in>set ps. wf_page (v q)"
  shows "(r, t) \<in> set (rows_from v ps 0) \<longleftrightarrow> heap_row v ps r = Some t"
  using assms by (induction ps) (auto simp: page_rows_in heap_row_def split: if_splits)

lemma page_rows_distinct: "wf_page d \<Longrightarrow> distinct (map fst (page_rows p d k))"
proof -
  assume wf: "wf_page d"
  have "inj_on (\<lambda>i. \<lparr>rid_page = p, rid_slot = of_nat i\<rparr>) {..<page_slots d}"
  proof (rule inj_onI)
    fix i j assume a: "i \<in> {..<page_slots d}" "j \<in> {..<page_slots d}"
      "\<lparr>rid_page = p, rid_slot = of_nat i\<rparr> = \<lparr>rid_page = p, rid_slot = of_nat j\<rparr>"
    then have "unat (of_nat i :: 16 word) = unat (of_nat j :: 16 word)" by simp
    then show "i = j" using a(1,2) page_slots_bound [OF wf] by (simp add: unat_of_nat)
  qed
  then have "inj_on (\<lambda>i. \<lparr>rid_page = p, rid_slot = of_nat i\<rparr>) (set (filter (live d) [k..<page_slots d]))"
    by (rule inj_on_subset) auto
  then show ?thesis by (simp add: page_rows_def distinct_map comp_def)
qed

lemma page_rows_page: "x \<in> fst ` set (page_rows p d k) \<Longrightarrow> rid_page x = p"
  by (auto simp: page_rows_def)

lemma rows_page: "x \<in> fst ` set (rows_from v ps k) \<Longrightarrow> rid_page x \<in> set ps"
proof (induction ps arbitrary: k)
  case (Cons p ps)
  then consider "x \<in> fst ` set (page_rows p (v p) k)" | "x \<in> fst ` set (rows_from v ps 0)" by (auto simp: image_Un)
  then show ?case
  proof cases
    case 1
    then have "rid_page x = p" by (rule page_rows_page)
    then show ?thesis by simp
  next
    case 2
    then have "rid_page x \<in> set ps" by (rule Cons.IH)
    then show ?thesis by simp
  qed
qed simp

lemma rows_distinct:
  assumes "distinct ps" and "\<forall>q\<in>set ps. wf_page (v q)"
  shows "distinct (map fst (rows_from v ps k))"
  using assms
proof (induction ps arbitrary: k)
  case (Cons p ps)
  have "fst ` set (page_rows p (v p) k) \<inter> fst ` set (rows_from v ps 0) = {}"
  proof (rule Int_emptyI)
    fix x assume x: "x \<in> fst ` set (page_rows p (v p) k)" "x \<in> fst ` set (rows_from v ps 0)"
    have "rid_page x = p" using x(1) by (rule page_rows_page)
    moreover have "rid_page x \<in> set ps" using x(2) by (rule rows_page)
    ultimately show False using Cons.prems(1) by simp
  qed
  moreover have "distinct (map fst (page_rows p (v p) k))" "distinct (map fst (rows_from v ps 0))"
    using Cons.prems Cons.IH [of 0] page_rows_distinct [of "v p" p k] by simp_all
  ultimately show ?case by simp
qed simp

section \<open>A new heap\<close>

definition disk_part :: "nat \<Rightarrow> disk \<Rightarrow> nat \<times> 32 word \<times> page_id list \<times> nat" where
  "disk_part n d = (n, dcapacity d, free_list d, flimit (dfile d))"

lemma new_page_shape:
  assumes "new_page b = (r, c)"
  shows "pool_shape c = disk_part (pool_capacity b) (snd (allocate_page (bdisk b)))"
proof -
  obtain p d where a: "allocate_page (bdisk b) = (Inr p, d)"
    by (cases "free_list (bdisk b) = []") (auto simp: allocate_page_def)
  have "swap_page p False (b\<lparr>bdisk := d\<rparr>) = (r, c)"
    using assms on_disk_ok [of allocate_page b, OF a] by (simp add: new_page_def and_then_Inr [of "on_disk allocate_page" b])
  from keepsD [OF keeps_swap refl this] show ?thesis by (simp add: a disk_part_def pool_shape_def)
qed

lemma heap_create_full:
  assumes h: "held {} P b" and room: "disk_room (bdisk b)" and P: "size P < pool_capacity b"
  shows "\<exists>p c. heap_create b = (Inr p, c) \<and> held {} P c \<and> p \<notin> bpm_pages b \<and>
    heap_pages (bpm_view c) (bpm_pages c) p [p] \<and> heap_row (bpm_view c) [p] = Map.empty \<and>
    bpm_view c = (bpm_view b)(p := sp_init zero_page) \<and> pool_capacity c = pool_capacity b \<and> bpm_pages c = insert p (bpm_pages b) \<and>
    pool_shape c = disk_part (pool_capacity b) (snd (allocate_page (bdisk b)))"
proof -
  from held_new [OF h room P] obtain p f a where np: "new_page b = (Inr (Some f), a)"
    and a: "held {p} (add_mset p P) a" "p \<notin> bpm_pages b" "bpm_pages a = insert p (bpm_pages b)"
      "page_table a p = Some f" "bpm_view a = (bpm_view b)(p := zero_page)" "pool_capacity a = pool_capacity b" by auto
  let ?u = "make_pinned (Some f)" and ?init = "\<lambda>d. Inr ((), sp_init d)"
  have z: "?init (bpm_view a p) = Inr ((), sp_init zero_page)" using a(5) by simp
  from change_here [where g = ?init and u = ?u, OF a(1,4) z sp_init_fields(1) [OF length_zero_page]] obtain c1 where
    c1: "on_page ?u ?init a = (Inr (), c1)" "held {p} (add_mset p P) c1"
      "bpm_view c1 = (bpm_view a)(p := sp_init zero_page)" "same_pool a c1" "page_table c1 p = Some f" by auto
  let ?body = "and_then (on_page ?u ?init) (\<lambda>_. let h = mark_dirty ?u in and_then (pinned_page_id h) (\<lambda>p. ret (p, h)))"
  have body: "?body a = (Inr (p, mark_dirty ?u), c1)"
    using held_page_id [OF c1(2,5), of "mark_dirty ?u"]
    by (simp add: and_then_Inr [of "on_page ?u ?init" a, OF c1(1)] Let_def and_then_Inr [of "pinned_page_id _" c1])
  from scope_ok [of ?body, OF body c1(2,5), of ?u] obtain c where
    c: "scope ?u ?body a = (Inr p, c)" "held {} P c" "bpm_view c = bpm_view c1" "same_pool c1 c" by auto
  have pages: "bpm_pages c = insert p (bpm_pages b)" "pool_capacity c = pool_capacity b"
    using c(4) c1(4) a(3,6) by (simp_all add: same_pool_def)
  have shape: "pool_shape c = disk_part (pool_capacity b) (snd (allocate_page (bdisk b)))"
    using same_pool_shape [OF c(4)] same_pool_shape [OF c1(4)] new_page_shape [OF np] by simp
  have view: "bpm_view c = (bpm_view b)(p := sp_init zero_page)" using c(3) c1(3) a(5) by simp
  have "heap_create b = (Inr p, c)"
    using c(1) by (simp add: heap_create_def and_then_Inr [of new_page b, OF np] Let_def pin_valid_def)
  moreover have "heap_pages (bpm_view c) (bpm_pages c) p [p]"
    using pages view pages_valid [of p c] zero_page_init(1) sp_init_fields(4) [OF length_zero_page] by (simp add: heap_pages_def)
  moreover have "heap_row (bpm_view c) [p] = Map.empty" by (rule ext) (simp add: heap_row_def view init_dead)
  ultimately show ?thesis using c(2) a(2) pages view shape by blast
qed

lemma heap_create_ok:
  assumes "held {} P b" and "disk_room (bdisk b)" and "size P < pool_capacity b"
  shows "\<exists>p c. heap_create b = (Inr p, c) \<and> held {} P c \<and> p \<notin> bpm_pages b \<and>
    heap_pages (bpm_view c) (bpm_pages c) p [p] \<and> heap_row (bpm_view c) [p] = Map.empty \<and>
    bpm_view c = (bpm_view b)(p := sp_init zero_page) \<and> pool_capacity c = pool_capacity b \<and> bpm_pages c = insert p (bpm_pages b)"
  using heap_create_full [OF assms] by blast

text \<open>How many pages the disk can still give.\<close>

definition page_budget :: "disk \<Rightarrow> nat" where
  "page_budget d = length (free_list d) + (min (2 ^ 32 - 1) (flimit (dfile d) div kPAGE_SIZE) - unat (dcapacity d))"

lemma disk_room_budget: "disk_room d \<longleftrightarrow> 0 < page_budget d"
proof -
  have m: "unat (- 1 :: 32 word) = 2 ^ 32 - 1" by (simp add: unsigned_minus_1_eq_mask mask_eq_exp_minus_1)
  have c: "dcapacity d \<noteq> -1 \<longleftrightarrow> unat (dcapacity d) < 2 ^ 32 - 1"
    using unsigned_less [of "dcapacity d", where 'a = nat] word_unat_eq_iff [of "dcapacity d" "-1"] unfolding m by auto
  have l: "(unat (dcapacity d) + 1) * kPAGE_SIZE \<le> flimit (dfile d) \<longleftrightarrow> unat (dcapacity d) < flimit (dfile d) div kPAGE_SIZE"
    using less_eq_div_iff_mult_less_eq [of kPAGE_SIZE "unat (dcapacity d) + 1" "flimit (dfile d)"] by (simp add: kPAGE_SIZE_def Suc_le_eq)
  show ?thesis unfolding disk_room_def c l by (cases "free_list d") (auto simp: page_budget_def)
qed

lemma allocate_budget:
  assumes "disk_room d"
  shows "Suc (page_budget (snd (allocate_page d))) = page_budget d"
proof (cases "free_list d = []")
  case True
  then have c: "dcapacity d \<noteq> -1" using assms by (simp add: disk_room_def)
  then have "1 + dcapacity d \<noteq> 0" by (simp add: add_eq_0_iff)
  then have "unat (dcapacity d + 1) = Suc (unat (dcapacity d))" using unatSuc [of "dcapacity d"] by (simp add: add.commute)
  then show ?thesis using assms True unfolding disk_room_budget by (auto simp: allocate_page_def page_budget_def)
next
  case False
  then show ?thesis by (cases "free_list d" rule: rev_cases) (auto simp: allocate_page_def page_budget_def)
qed

lemma shape_budget: "pool_shape c = disk_part n d \<Longrightarrow> page_budget (bdisk c) = page_budget d"
  by (simp add: pool_shape_def disk_part_def page_budget_def)

lemma heap_create_budget:
  assumes "held {} P b" and "disk_room (bdisk b)" and "size P < pool_capacity b" and "heap_create b = (Inr p, c)"
  shows "Suc (page_budget (bdisk c)) = page_budget (bdisk b)"
  using heap_create_full [OF assms(1-3)] assms(4) allocate_budget [OF assms(2)] shape_budget by auto

section \<open>All pages\<close>

lemma all_pages_from_ok:
  assumes "held {} P b" and "size P < pool_capacity b" and "chain (bpm_view b) (bpm_pages b) p ps" and "ps \<noteq> []" and "length ps \<le> n"
  shows "\<exists>c. all_pages_from n acc p b = (Inr (acc @ ps, SUCCESS), c) \<and> held {} P c \<and> bpm_view c = bpm_view b \<and>
    bpm_pages c = bpm_pages b \<and> pool_shape c = pool_shape b"
  using assms
proof (induction ps arbitrary: p b n acc)
  case (Cons q ps)
  obtain k where k: "n = Suc k" using Cons.prems(5) by (cases n) auto
  have p: "q = p" "p \<in> bpm_pages b" and ch: "chain (bpm_view b) (bpm_pages b) (sp_next (bpm_view b p)) ps"
    using Cons.prems(3) by auto
  let ?body = "\<lambda>h. and_then (read_page_of h (\<lambda>d. Inr (sp_next d))) (\<lambda>q. ret (q, h))"
  have "block_done P c p f (bpm_view b p) (sp_next (bpm_view b p)) (?body (make_pinned (Some f)) c)"
    if c: "held {} (add_mset p P) c" "page_table c p = Some f" "bpm_view c = bpm_view b" for f c
  proof -
    have "?body (make_pinned (Some f)) c = (Inr (sp_next (bpm_view b p), make_pinned (Some f)), c)"
      using held_read [OF c(1,2), of "make_pinned (Some f)" "\<lambda>d. Inr (sp_next d)"] c(3)
      by (simp add: and_then_Inr [of "read_page_of _ _" c])
    then show ?thesis by (simp only:) (rule block_read [OF c(1,2)]; simp add: c(3))
  qed
  from fetch_scope [OF Cons.prems(1) p(2) Cons.prems(2), of "bpm_view b p" "sp_next (bpm_view b p)" ?body, OF this]
  obtain f a c where c: "fetch_page p b = (Inr (Some f), a)"
    "scope (make_pinned (Some f)) (?body (make_pinned (Some f))) a = (Inr (sp_next (bpm_view b p)), c)"
    "page_changed P b p (bpm_view b p) c" by blast
  have C: "held {} P c" "bpm_view c = bpm_view b" "bpm_pages c = bpm_pages b" "pool_shape c = pool_shape b"
    using c(3) by (simp_all add: page_changed_def)
  have step: "all_pages_from n acc p b = (if sp_next (bpm_view b p) = INVALID_PAGE_ID then ret (acc @ [p], SUCCESS)
      else all_pages_from k (acc @ [p]) (sp_next (bpm_view b p))) c"
    by (simp add: k and_then_Inr [of "fetch_page p" b, OF c(1)] Let_def and_then_Inr [of "scope _ _" a, OF c(2)])
  show ?case
  proof (cases ps)
    case Nil
    then show ?thesis using ch step C p(1) by simp
  next
    case (Cons x xs)
    then have "sp_next (bpm_view b p) \<noteq> INVALID_PAGE_ID" using ch by auto
    moreover have "size P < pool_capacity c" using C(4) Cons.prems(2) by (simp add: pool_shape_def)
    ultimately show ?thesis
      using Cons.IH [of c "sp_next (bpm_view b p)" k "acc @ [p]"] C ch Cons Cons.prems(5) k step p(1) by simp
  qed
qed simp

lemma heap_all_pages_ok:
  assumes h: "held {} P b" and P: "size P < pool_capacity b" and hp: "heap_pages (bpm_view b) (bpm_pages b) p ps"
  shows "\<exists>c. heap_all_pages p b = (Inr (ps, SUCCESS), c) \<and> held {} P c \<and> bpm_view c = bpm_view b \<and>
    bpm_pages c = bpm_pages b \<and> pool_shape c = pool_shape b"
  using all_pages_from_ok [OF h P, of p ps "page_fuel b" "[]"] hp heap_fuel [OF hp]
  by (simp add: heap_all_pages_def heap_pages_def)

section \<open>Rows of a heap\<close>

lemma heap_page_in:
  assumes "heap_pages (bpm_view b) (bpm_pages b) p ps" and "q \<in> set ps"
  shows "q \<in> bpm_pages b" "wf_page (bpm_view b q)"
  using assms chain_in by (auto simp: heap_pages_def)

lemma inserted_get:
  assumes i: "inserted P b p ps t r qs e" and P: "size P + 1 < pool_capacity b" and t: "t \<noteq> []"
  shows "fst (heap_get r e) = Inr (Some t)"
proof -
  have hp: "heap_pages (bpm_view e) (bpm_pages e) p qs" and h: "held {} P e" "size P < pool_capacity e"
    and row: "heap_row (bpm_view e) qs r = Some t" using i P by (simp_all add: inserted_def)
  have r: "rid_page r \<in> set qs" and "tuple_at (bpm_view e (rid_page r)) (unat (rid_slot r)) = Some t"
    using row by (auto simp: heap_row_def split: if_splits)
  with heap_get_ok [OF h(1) heap_page_in(1) [OF hp r] h(2) heap_page_in(2) [OF hp r]] t show ?thesis by auto
qed

lemma heap_delete_row:
  assumes h: "held {} P b" and hp: "heap_pages (bpm_view b) (bpm_pages b) p ps" and P: "size P < pool_capacity b"
    and r: "rid_page r \<in> set ps"
  shows "\<exists>e. heap_delete r b = (Inr (heap_row (bpm_view b) ps r \<noteq> None), e) \<and> held {} P e \<and>
    heap_pages (bpm_view e) (bpm_pages e) p ps \<and> heap_row (bpm_view e) ps = (heap_row (bpm_view b) ps)(r := None) \<and>
    (\<forall>q. q \<notin> set ps \<longrightarrow> bpm_view e q = bpm_view b q)"
proof -
  note G = heap_page_in [OF hp r]
  obtain z e where e: "heap_delete r b = (Inr (live (bpm_view b (rid_page r)) (unat (rid_slot r))), e)"
    "page_changed P b (rid_page r) z e" "wf_page z" "sp_next z = sp_next (bpm_view b (rid_page r))"
    "tuple_at z = (tuple_at (bpm_view b (rid_page r)))(unat (rid_slot r) := None)"
    using heap_delete_ok [OF h G(1) P G(2)] by blast
  have v: "bpm_view e = (bpm_view b)(rid_page r := z)" "bpm_pages e = bpm_pages b" "held {} P e"
    using e(2) by (simp_all add: page_changed_def)
  have "heap_pages (bpm_view e) (bpm_pages e) p ps"
    using hp chain_update [of "bpm_view b" "bpm_pages b" p ps "rid_page r" z] r e(3,4) v by (simp add: heap_pages_def)
  moreover have "heap_row (bpm_view e) ps = (heap_row (bpm_view b) ps)(r := None)"
  proof (rule ext)
    fix s :: rid
    have "s = r \<longleftrightarrow> rid_page s = rid_page r \<and> unat (rid_slot s) = unat (rid_slot r)"
      by (cases s; cases r) (auto dest: unsigned_word_eqI)
    then show "heap_row (bpm_view e) ps s = ((heap_row (bpm_view b) ps)(r := None)) s"
      using v e(5) r by (auto simp: heap_row_def)
  qed
  moreover have "live (bpm_view b (rid_page r)) (unat (rid_slot r)) \<longleftrightarrow> heap_row (bpm_view b) ps r \<noteq> None"
    using r by (simp add: heap_row_def tuple_at_def)
  ultimately show ?thesis using e(1) v r by auto
qed

section \<open>Draining a scan\<close>

text \<open>A client's loop: \<open>next\<close> until it answers nothing, then the destructor.\<close>

fun scan_rest :: "nat \<Rightarrow> heap_scan \<Rightarrow> (bpm, (rid \<times> byte list) list) proc" where
  "scan_rest 0 sc = throw Out_of_fuel"
| "scan_rest (Suc n) sc = and_then (heap_scan_next sc) (\<lambda>(m, sc). case m of
       None \<Rightarrow> and_then (heap_scan_close sc) (\<lambda>_. ret [])
     | Some x \<Rightarrow> and_then (scan_rest n sc) (\<lambda>xs. ret (x # xs)))"

lemma scan_rest_ok:
  assumes "held {} (add_mset (scan_pid sc) P) b" and "scan_ready b sc qs" and "length (scan_rows b sc qs) < n"
  shows "\<exists>c. scan_rest n sc b = (Inr (scan_rows b sc qs), c) \<and> held {} P c \<and> bpm_view c = bpm_view b"
  using assms
proof (induction n arbitrary: sc b qs)
  case (Suc n)
  obtain sc' c qs' where c: "heap_scan_next sc b = (Inr (case scan_rows b sc qs of [] \<Rightarrow> None | r # _ \<Rightarrow> Some r, sc'), c)"
    "pin_moved P b (scan_pid sc') c" "scan_ready c sc' qs'" "scan_rows c sc' qs' = tl (scan_rows b sc qs)"
    using heap_scan_next_ok [OF Suc.prems(1,2)] unfolding stepped_def by blast
  have h: "held {} (add_mset (scan_pid sc') P) c" "bpm_view c = bpm_view b" using c(2) by (simp_all add: pin_moved_def)
  show ?case
  proof (cases "scan_rows b sc qs")
    case Nil
    obtain d where d: "heap_scan_close sc' c = (Inr (), d)" "held {} P d" "bpm_view d = bpm_view c"
      using heap_scan_close_ok [OF h(1) c(3)] by blast
    then show ?thesis
      using Nil c(1) h(2) by (simp add: and_then_Inr [of "heap_scan_next sc" b] and_then_Inr [of "heap_scan_close sc'" c, OF d(1)])
  next
    case (Cons x xs)
    obtain d where d: "scan_rest n sc' c = (Inr xs, d)" "held {} P d" "bpm_view d = bpm_view c"
      using Suc.IH [OF h(1) c(3)] Suc.prems(3) c(4) Cons by auto
    then show ?thesis
      using Cons c(1) h(2) by (simp add: and_then_Inr [of "heap_scan_next sc" b] and_then_Inr [of "scan_rest n sc'" c, OF d(1)])
  qed
qed simp

section \<open>A pool with a heap\<close>

definition sample_pool :: bpm where
  "sample_pool = bpm_object sample_disk 4"

lemma sample_pool_held: "held {} {#} sample_pool" "disk_room (bdisk sample_pool)" "pool_capacity sample_pool = 4"
proof -
  have "bpm_ok sample_pool" "pins sample_pool = (\<lambda>_. 0)"
    using bpm_object_ok [OF sample_disk_ok(1,2), of 4] by (simp_all add: sample_pool_def)
  then show "held {} {#} sample_pool" by (simp add: held_def tidy_def sample_pool_def bpm_object_def)
  show "disk_room (bdisk sample_pool)" by (simp add: sample_pool_def bpm_object_def disk_room_def sample_disk_def)
qed (simp add: sample_pool_def bpm_object_def)

text \<open>The pool after the creation of a heap.\<close>

definition sample_heap :: "page_id \<times> bpm" where
  "sample_heap = (case heap_create sample_pool of (Inr p, c) \<Rightarrow> (p, c) | (Inl _, c) \<Rightarrow> (INVALID_PAGE_ID, c))"

lemma sample_heap_ok:
  "heap_pages (bpm_view (snd sample_heap)) (bpm_pages (snd sample_heap)) (fst sample_heap) [fst sample_heap]"
  "held {} {#} (snd sample_heap)" "pool_capacity (snd sample_heap) = 4"
  and sample_heap_view: "bpm_view (snd sample_heap) (fst sample_heap) = sp_init zero_page"
proof -
  have "size {#} < pool_capacity sample_pool" using sample_pool_held(3) by simp
  from heap_create_ok [OF sample_pool_held(1,2) this] show
    "heap_pages (bpm_view (snd sample_heap)) (bpm_pages (snd sample_heap)) (fst sample_heap) [fst sample_heap]"
    "held {} {#} (snd sample_heap)" "pool_capacity (snd sample_heap) = 4"
    "bpm_view (snd sample_heap) (fst sample_heap) = sp_init zero_page"
    using sample_pool_held(3) by (auto simp: sample_heap_def)
qed

text \<open>The first row of a new heap.\<close>

lemma inserted_only_row:
  assumes i: "inserted P b p [p] t r qs e" and v: "bpm_view b p = sp_init zero_page"
  shows "rows_from (bpm_view e) qs 0 = [(r, t)]"
proof -
  let ?rows = "rows_from (bpm_view e) qs 0"
  have E: "heap_pages (bpm_view e) (bpm_pages e) p qs" "heap_row (bpm_view e) qs = [r \<mapsto> t]"
    using i by (auto simp: inserted_def heap_row_def v init_dead fun_eq_iff)
  have wf: "distinct qs" "\<forall>q\<in>set qs. wf_page (bpm_view e q)" using E(1) chain_in by (auto simp: heap_pages_def)
  have "set ?rows = {(r, t)}" using rows_in [OF wf(2)] E(2) by (auto split: if_splits)
  moreover have "distinct ?rows" using rows_distinct [OF wf, of 0] by (simp add: distinct_map)
  ultimately have "length ?rows = 1" using distinct_card [of ?rows] by simp
  with \<open>set ?rows = _\<close> show ?thesis by (cases ?rows) auto
qed

section \<open>The properties\<close>

text \<open>
  C7: A table heap is a finite map from row numbers to bytes. For a heap whose pages are the list \<open>ps\<close>,
  in a pool with two free frames: an insert of up to 8180 bytes adds one new row and keeps all others,
  on the pages it has or on one new page linked behind them, and reading the new row number gives the
  bytes back; a longer row is refused and nothing changes. \<open>get\<close> answers the row of the map (an empty
  row counts as absent) and changes nothing; \<open>delete\<close> answers whether there was a row and removes it
  alone. No pin is left behind. Every page but the last must be settled: take the row, or be
  compacted; the disk must have room if no page takes the row.
\<close>

theorem heap_is_map:
  assumes h: "held {} P b" and hp: "heap_pages (bpm_view b) (bpm_pages b) p ps" and P: "size P + 1 < pool_capacity b"
  shows "(length t \<le> 8180 \<longrightarrow> (\<forall>x\<in>set (butlast ps). settled (bpm_view b x) t) \<longrightarrow>
        disk_room (bdisk b) \<or> (\<exists>x\<in>set ps. takes (bpm_view b x) t) \<longrightarrow>
        (\<exists>r qs e. heap_insert p t b = (Inr (Some r), e) \<and> inserted P b p ps t r qs e \<and>
           (t \<noteq> [] \<longrightarrow> fst (heap_get r e) = Inr (Some t)))) \<and>
    (8180 < length t \<longrightarrow>
        heap_insert p t b = (Inl (Runtime_error ''TableHeap::insert_tuple: tuple exceeds maximum page capacity''), b)) \<and>
    (rid_page r \<in> set ps \<longrightarrow>
        (\<exists>e. heap_get r b = (Inr (case heap_row (bpm_view b) ps r of None \<Rightarrow> None | Some t \<Rightarrow> if t = [] then None else Some t), e) \<and>
           held {} P e \<and> bpm_view e = bpm_view b \<and> bpm_pages e = bpm_pages b) \<and>
        (\<exists>e. heap_delete r b = (Inr (heap_row (bpm_view b) ps r \<noteq> None), e) \<and> held {} P e \<and>
           heap_pages (bpm_view e) (bpm_pages e) p ps \<and> heap_row (bpm_view e) ps = (heap_row (bpm_view b) ps)(r := None) \<and>
           (\<forall>q. q \<notin> set ps \<longrightarrow> bpm_view e q = bpm_view b q)))"
proof (intro conjI impI)
  assume t: "length t \<le> 8180" and st: "\<forall>x\<in>set (butlast ps). settled (bpm_view b x) t"
    and room: "disk_room (bdisk b) \<or> (\<exists>x\<in>set ps. takes (bpm_view b x) t)"
  from heap_insert_ok [OF h hp P t room st] obtain r qs e where
    e: "heap_insert p t b = (Inr (Some r), e)" "inserted P b p ps t r qs e" by blast
  have "fst (heap_get r e) = Inr (Some t)" if "t \<noteq> []" using inserted_get [OF e(2) P that] .
  then show "\<exists>r qs e. heap_insert p t b = (Inr (Some r), e) \<and> inserted P b p ps t r qs e \<and>
      (t \<noteq> [] \<longrightarrow> fst (heap_get r e) = Inr (Some t))" using e by blast
next
  assume "8180 < length t"
  then show "heap_insert p t b = (Inl (Runtime_error ''TableHeap::insert_tuple: tuple exceeds maximum page capacity''), b)"
    by (simp add: heap_insert_def kPAGE_SIZE_def)
next
  assume r: "rid_page r \<in> set ps"
  note G = heap_page_in [OF hp r]
  have P': "size P < pool_capacity b" using P by simp
  show "\<exists>e. heap_get r b = (Inr (case heap_row (bpm_view b) ps r of None \<Rightarrow> None | Some t \<Rightarrow> if t = [] then None else Some t), e) \<and>
      held {} P e \<and> bpm_view e = bpm_view b \<and> bpm_pages e = bpm_pages b"
    using heap_get_ok [OF h G(1) P' G(2)] r by (auto simp: heap_row_def page_changed_def)
  show "\<exists>e. heap_delete r b = (Inr (heap_row (bpm_view b) ps r \<noteq> None), e) \<and> held {} P e \<and>
      heap_pages (bpm_view e) (bpm_pages e) p ps \<and> heap_row (bpm_view e) ps = (heap_row (bpm_view b) ps)(r := None) \<and>
      (\<forall>q. q \<notin> set ps \<longrightarrow> bpm_view e q = bpm_view b q)"
    using heap_delete_row [OF h hp P' r] .
qed

theorem heap_is_map_witness:
  "\<exists>r e. heap_insert (fst sample_heap) [1, 2, 3] (snd sample_heap) = (Inr (Some r), e) \<and>
     fst (heap_get r e) = Inr (Some [1, 2, 3])"
proof -
  have "takes (bpm_view (snd sample_heap) (fst sample_heap)) [1, 2, 3]" by (simp add: sample_heap_view takes_new_page)
  then show ?thesis
    using heap_is_map [OF sample_heap_ok(2,1), of "[1, 2, 3]"] sample_heap_ok(3) by fastforce
qed

text \<open>
  C14: A scan of a heap ends and gives every row of the heap exactly once, in the order of the pages and
  slots: the loop that calls \<open>next\<close> until it answers nothing returns after one call more than there are
  rows, whatever other pages are pinned meanwhile, and leaves no pin and no change.
\<close>

theorem heap_scan_complete:
  assumes h: "held {} P b" and hp: "heap_pages (bpm_view b) (bpm_pages b) p ps" and P: "size P < pool_capacity b"
    and n: "length (rows_from (bpm_view b) ps 0) < n"
  shows "(\<exists>c. and_then (heap_scan_open p) (scan_rest n) b = (Inr (rows_from (bpm_view b) ps 0), c) \<and>
      held {} P c \<and> bpm_view c = bpm_view b) \<and>
    distinct (map fst (rows_from (bpm_view b) ps 0)) \<and>
    (\<forall>r t. (r, t) \<in> set (rows_from (bpm_view b) ps 0) \<longleftrightarrow> heap_row (bpm_view b) ps r = Some t)"
proof (intro conjI allI)
  obtain qs where ps: "ps = p # qs" using hp by (cases ps) (auto simp: heap_pages_def)
  have wf: "distinct ps" "\<forall>q\<in>set ps. wf_page (bpm_view b q)" using hp chain_in by (auto simp: heap_pages_def)
  obtain sc a where a: "heap_scan_open p b = (Inr sc, a)" "scan_pid sc = p" "pin_moved P b p a" "scan_ready a sc qs"
    "scan_rows a sc qs = rows_from (bpm_view b) ps 0"
    using heap_scan_open_ok [OF h P, of p qs] hp ps by auto
  have "held {} (add_mset (scan_pid sc) P) a" "bpm_view a = bpm_view b" using a(2,3) by (simp_all add: pin_moved_def)
  with scan_rest_ok [of sc P a qs n] a(4,5) n show "\<exists>c. and_then (heap_scan_open p) (scan_rest n) b =
      (Inr (rows_from (bpm_view b) ps 0), c) \<and> held {} P c \<and> bpm_view c = bpm_view b"
    by (simp add: and_then_Inr [of "heap_scan_open p" b, OF a(1)])
  show "distinct (map fst (rows_from (bpm_view b) ps 0))" by (rule rows_distinct [OF wf])
  show "(r, t) \<in> set (rows_from (bpm_view b) ps 0) \<longleftrightarrow> heap_row (bpm_view b) ps r = Some t" for r t by (rule rows_in [OF wf(2)])
qed

theorem heap_scan_complete_witness:
  "\<exists>r e c. heap_insert (fst sample_heap) [1, 2, 3] (snd sample_heap) = (Inr (Some r), e) \<and>
     and_then (heap_scan_open (fst sample_heap)) (scan_rest 2) e = (Inr [(r, [1, 2, 3])], c)"
proof -
  let ?p = "fst sample_heap" and ?b = "snd sample_heap"
  have "takes (bpm_view ?b ?p) [1, 2, 3]" by (simp add: sample_heap_view takes_new_page)
  then obtain r qs e where e: "heap_insert ?p [1, 2, 3] ?b = (Inr (Some r), e)" "inserted {#} ?b ?p [?p] [1, 2, 3] r qs e"
    using heap_insert_ok [OF sample_heap_ok(2,1), of "[1, 2, 3]"] sample_heap_ok(3) by auto
  have E: "held {} {#} e" "heap_pages (bpm_view e) (bpm_pages e) ?p qs" "size {#} < pool_capacity e"
    using e(2) sample_heap_ok(3) by (auto simp: inserted_def)
  have rows: "rows_from (bpm_view e) qs 0 = [(r, [1, 2, 3])]" by (rule inserted_only_row [OF e(2) sample_heap_view])
  then show ?thesis using heap_scan_complete [OF E(1-3), of 2] e(1) by auto
qed

end
