(* ===== verification/Table.thy ===== *)
theory Table
  imports Table_Heap Tuple_Codec Transactions
begin

text \<open>
  \<open>Table\<close> (\<open>include/duck/table/table.hpp\<close>, \<open>src/table/table.cpp\<close>): rows of a schema in a heap, under the
  locks of a transaction. A table is its name, the first page of its heap and its schema, none of which
  change; the state it works on (buffer pool, lock table, transactions, catalog entries) is \<open>world\<close>, and
  \<open>Transaction*\<close> is an optional transaction number. The undo records of
  \<open>include/duck/transaction/undo.hpp\<close> name the table they act on.
\<close>

section \<open>State\<close>

record table =
  table_name :: string
  table_first_page :: page_id
  table_schema :: schema

datatype undo_record =
    DeleteUndoRecord table rid
  | RestoreUndoRecord table rid "byte list"
  | DropTableUndoRecord string

record table_entry =
  entry_rid :: rid
  entry_table :: table

text \<open>The pool, the catalog's own table, and the tables by name (\<open>Catalog::tables_\<close>, in iteration order).\<close>

record store =
  pool :: bpm
  catalog_table :: table
  tables :: "(string \<times> table_entry) list"

type_synonym world = "(undo_record, store) tx_manager"

definition put_pool :: "bpm \<Rightarrow> world \<Rightarrow> world" where
  "put_pool b w = w\<lparr>tx_data := (tx_data w)\<lparr>pool := b\<rparr>\<rparr>"

definition on_pool :: "(bpm, 'a) proc \<Rightarrow> (world, 'a) proc" where
  "on_pool = zoom (\<lambda>w. pool (tx_data w)) put_pool"

text \<open>\<open>tx == nullptr || lock_manager_.lock_...(tx, rid)\<close>\<close>

definition tx_lock :: "(transaction_id \<Rightarrow> rid \<Rightarrow> undo_record lock_state \<Rightarrow> bool \<times> undo_record lock_state)
    \<Rightarrow> transaction_id option \<Rightarrow> rid \<Rightarrow> (world, bool) proc" where
  "tx_lock lock tx r w = (case tx of
       None \<Rightarrow> (Inr True, w)
     | Some t \<Rightarrow> (case lock t r (locks w) of (ok, l) \<Rightarrow> (Inr ok, w\<lparr>locks := l\<rparr>)))"

definition tx_push :: "transaction_id option \<Rightarrow> undo_record \<Rightarrow> (world, unit) proc" where
  "tx_push tx u = (case tx of None \<Rightarrow> ret () | Some t \<Rightarrow> modify (push_undo t u))"

section \<open>Rows\<close>

definition table_insert :: "table \<Rightarrow> tuple \<Rightarrow> transaction_id option \<Rightarrow> (world, rid option) proc" where
  "table_insert tb t tx =
     (if \<not> compatible_with (table_schema tb) (tschema t)
      then throw (Runtime_error ''Table::insert_tuple: schemas not compatible'')
      else and_then (lift (tuple_serialize t)) (\<lambda>bytes.
        and_then (on_pool (heap_insert (table_first_page tb) bytes)) (\<lambda>m. case m of
          None \<Rightarrow> ret None
        | Some r \<Rightarrow>
            and_then (tx_lock lock_exclusive tx r) (\<lambda>locked.
            if \<not> locked then and_then (on_pool (heap_delete r)) (\<lambda>_. ret None)
            else and_then (tx_push tx (DeleteUndoRecord tb r)) (\<lambda>_. ret (Some r))))))"

definition table_get :: "table \<Rightarrow> rid \<Rightarrow> transaction_id option \<Rightarrow> (world, tuple option) proc" where
  "table_get tb r tx =
     and_then (tx_lock lock_shared tx r) (\<lambda>locked.
     if \<not> locked then ret None
     else and_then (on_pool (heap_get r)) (\<lambda>m. case m of
         None \<Rightarrow> ret None
       | Some bytes \<Rightarrow> and_then (lift (tuple_deserialize bytes (table_schema tb))) (\<lambda>t. ret (Some t))))"

definition table_delete :: "table \<Rightarrow> rid \<Rightarrow> transaction_id option \<Rightarrow> (world, bool) proc" where
  "table_delete tb r tx =
     and_then (tx_lock lock_exclusive tx r) (\<lambda>locked.
     if \<not> locked then ret False
     else and_then (on_pool (heap_get r)) (\<lambda>m. case m of
         None \<Rightarrow> ret False
       | Some bytes \<Rightarrow>
           and_then (on_pool (heap_delete r)) (\<lambda>deleted.
           if \<not> deleted then ret False
           else and_then (tx_push tx (RestoreUndoRecord tb r bytes)) (\<lambda>_. ret True))))"

definition table_update :: "table \<Rightarrow> rid \<Rightarrow> tuple \<Rightarrow> transaction_id option \<Rightarrow> (world, rid option) proc" where
  "table_update tb r t tx =
     (if \<not> compatible_with (table_schema tb) (tschema t)
      then throw (Runtime_error ''Table::update_tuple: schemas not compatible'')
      else and_then (tx_lock lock_exclusive tx r) (\<lambda>locked.
        if \<not> locked then ret None
        else and_then (on_pool (heap_get r)) (\<lambda>m. case m of
            None \<Rightarrow> ret None
          | Some old_bytes \<Rightarrow>
              and_then (lift (tuple_serialize t)) (\<lambda>bytes.
              and_then (on_pool (heap_update (table_first_page tb) r bytes)) (\<lambda>m. case m of
                None \<Rightarrow> ret None
              | Some q \<Rightarrow>
                  and_then (if q \<noteq> r then tx_lock lock_exclusive tx q else ret True) (\<lambda>locked.
                  if \<not> locked then ret None
                  else and_then (tx_push tx (RestoreUndoRecord tb r old_bytes)) (\<lambda>_.
                    and_then (tx_push tx (if q \<noteq> r then DeleteUndoRecord tb q else DeleteUndoRecord tb r)) (\<lambda>_.
                    ret (Some q)))))))))"

section \<open>Dropping the pages\<close>

datatype drop_table_status = READ_PAGES_FAILED | DROP_SUCCESS

fun drop_each :: "page_id list \<Rightarrow> (bpm, nat) proc" where
  "drop_each [] = ret 0"
| "drop_each (p # ps) = and_then (heap_drop_page p) (\<lambda>dropped.
     and_then (drop_each ps) (\<lambda>failed. ret (if dropped then failed else Suc failed)))"

definition table_drop_pages :: "table \<Rightarrow> (bpm, nat \<times> drop_table_status) proc" where
  "table_drop_pages tb = and_then (heap_all_pages (table_first_page tb)) (\<lambda>(ps, status).
     if status = FAILED then ret (0, READ_PAGES_FAILED)
     else and_then (drop_each ps) (\<lambda>failed. ret (failed, DROP_SUCCESS)))"

section \<open>Scanning\<close>

record table_scan =
  ts_heap :: heap_scan
  ts_schema :: schema
  ts_tx :: "transaction_id option"

definition table_scan_open :: "table \<Rightarrow> transaction_id option \<Rightarrow> (world, table_scan) proc" where
  "table_scan_open tb tx = and_then (on_pool (heap_scan_open (table_first_page tb))) (\<lambda>h.
     ret \<lparr>ts_heap = h, ts_schema = table_schema tb, ts_tx = tx\<rparr>)"

definition table_scan_close :: "table_scan \<Rightarrow> (world, unit) proc" where
  "table_scan_close sc = on_pool (heap_scan_close (ts_heap sc))"

text \<open>The row locked is the one the scan looks at next, which need not be the row it then finds.\<close>

definition table_scan_next :: "table_scan \<Rightarrow> (world, (rid \<times> tuple) option \<times> table_scan) proc" where
  "table_scan_next sc =
     and_then (tx_lock lock_shared (ts_tx sc) (scan_rid (ts_heap sc))) (\<lambda>locked.
     if \<not> locked then ret (None, sc)
     else and_then (on_pool (heap_scan_next (ts_heap sc))) (\<lambda>(m, h). case m of
         None \<Rightarrow> ret (None, sc\<lparr>ts_heap := h\<rparr>)
       | Some (r, bytes) \<Rightarrow>
           and_then (lift (tuple_deserialize bytes (ts_schema sc))) (\<lambda>t.
           ret (Some (r, t), sc\<lparr>ts_heap := h\<rparr>))))"

section \<open>Running pool operations and locks in the world\<close>

lemma put_pool_simps [simp]:
  "pool (tx_data (put_pool b w)) = b" "locks (put_pool b w) = locks w"
  "put_pool c (put_pool b w) = put_pool c w" "put_pool (pool (tx_data w)) w = w"
  "tables (tx_data (put_pool b w)) = tables (tx_data w)" "catalog_table (tx_data (put_pool b w)) = catalog_table (tx_data w)"
  "put_pool b (w\<lparr>locks := l\<rparr>) = (put_pool b w)\<lparr>locks := l\<rparr>"
  by (simp_all add: put_pool_def)

lemma on_pool_run: "m (pool (tx_data w)) = (x, b) \<Longrightarrow> on_pool m w = (x, put_pool b w)"
  by (simp add: on_pool_def zoom_def)

lemma tx_lock_None [simp]: "tx_lock f None r w = (Inr True, w)"
  by (simp add: tx_lock_def)

text \<open>No other transaction holds a row exclusively: every shared lock is granted at once.\<close>

definition lockable :: "transaction_id option \<Rightarrow> world \<Rightarrow> bool" where
  "lockable tx w \<longleftrightarrow> (\<forall>t. tx = Some t \<longrightarrow>
     (\<exists>x. txs (locks w) t = Some x \<and> tx_state x = GROWING) \<and> (\<forall>r. can_grant (lock_table (locks w) r) t SHARED))"

lemma lockable_None [simp]: "lockable None w"
  by (simp add: lockable_def)

lemma can_grant_own: "can_grant (mark_granted t qs) t m = can_grant qs t m"
  by (induction qs) (auto simp: mark_granted_def)

lemma can_grant_enqueued: "can_grant (qs @ [\<lparr>req_tx = t, req_mode = k, req_granted = False\<rparr>]) t m = can_grant qs t m"
  by (induction qs) auto

lemma tx_lock_shared_ok:
  assumes "lockable tx w"
  shows "\<exists>l. tx_lock lock_shared tx r w = (Inr True, w\<lparr>locks := l\<rparr>) \<and> lockable tx (w\<lparr>locks := l\<rparr>)"
proof (cases tx)
  case None
  then show ?thesis by (intro exI [of _ "locks w"]) simp
next
  case (Some t)
  obtain x where x: "txs (locks w) t = Some x" "tx_state x = GROWING" and g: "\<And>r. can_grant (lock_table (locks w) r) t SHARED"
    using assms Some by (auto simp: lockable_def)
  show ?thesis
  proof (cases "r \<in> shared_locks x \<or> r \<in> exclusive_locks x")
    case True
    then show ?thesis using assms Some x
      by (intro exI [of _ "locks w"]) (simp add: tx_lock_def lock_shared_def request_shared_def await_def)
  next
    case False
    let ?s = "grant t r SHARED (enqueue t r SHARED (locks w))"
    have "lock_shared t r (locks w) = (True, ?s)"
      using False x g [of r]
      by (simp add: lock_shared_def request_shared_def await_def enqueue_def set_queue_def can_grant_enqueued)
    moreover have "lockable tx (w\<lparr>locks := ?s\<rparr>)"
      using x g Some
      by (simp add: lockable_def grant_def enqueue_def set_queue_def set_tx_def add_lock_def can_grant_own can_grant_enqueued)
    ultimately show ?thesis using Some by (intro exI [of _ ?s]) (simp add: tx_lock_def)
  qed
qed

end
