(* ===== verification/Catalog.thy ===== *)
theory Catalog
  imports Table "HOL-Library.AList"
begin

text \<open>
  \<open>Catalog\<close> (\<open>include/duck/catalog/catalog.hpp\<close>, \<open>src/catalog/catalog.cpp\<close>), the undo records
  (\<open>src/transaction/undo.cpp\<close>) and \<open>Database\<close> (\<open>src/database/database.cpp\<close>). The catalog is a table of
  its own, with a row per table, and a map from names to tables in memory; the map is an association list
  in the order the code would iterate it. Names in messages are spliced as \<open>std::format\<close> does.
\<close>

definition catalog_schema :: schema where
  "catalog_schema =
     [\<lparr>col_name = ''table_name'', col_type = T_VARCHAR, col_length = 128\<rparr>,
      \<lparr>col_name = ''first_page_id'', col_type = T_UINT32, col_length = 0\<rparr>,
      \<lparr>col_name = ''schema_bytes'', col_type = T_VARBINARY, col_length = 4096\<rparr>]"

definition find_table :: "string \<Rightarrow> store \<Rightarrow> table_entry option" where
  "find_table name s = map_of (tables s) name"

definition put_tables :: "(string \<times> table_entry) list \<Rightarrow> world \<Rightarrow> world" where
  "put_tables ts w = w\<lparr>tx_data := (tx_data w)\<lparr>tables := ts\<rparr>\<rparr>"

definition store_pool :: "(bpm, 'a) proc \<Rightarrow> (store, 'a) proc" where
  "store_pool = zoom pool (\<lambda>b s. s\<lparr>pool := b\<rparr>)"

section \<open>Opening\<close>

definition init_table :: "(bpm, table) proc" where
  "init_table = and_then (gets (\<lambda>b. dcapacity (bdisk b))) (\<lambda>capacity.
     if capacity \<le> kCATALOG_FIRST_PAGE_ID
     then and_then heap_create (\<lambda>p. ret \<lparr>table_name = ''duck_catalog_'', table_first_page = p, table_schema = catalog_schema\<rparr>)
     else ret \<lparr>table_name = ''duck_catalog_'', table_first_page = kCATALOG_FIRST_PAGE_ID, table_schema = catalog_schema\<rparr>)"

definition load_entry :: "rid \<Rightarrow> tuple \<Rightarrow> (world, unit) proc" where
  "load_entry r t =
     and_then (lift (bind_res (tuple_get t 0) as_string)) (\<lambda>name.
     and_then (lift (bind_res (tuple_get t 1) as_uint32)) (\<lambda>first_page_id.
     and_then (lift (bind_res (bind_res (tuple_get t 2) as_bytes) schema_deserialize)) (\<lambda>s.
     modify (\<lambda>w. put_tables (AList.update name
       \<lparr>entry_rid = r, entry_table = \<lparr>table_name = name, table_first_page = first_page_id, table_schema = s\<rparr>\<rparr> (tables (tx_data w))) w))))"

text \<open>
  The scan is destroyed on the way out, also when an entry cannot be read. When the step of the scan itself
  throws, the pin of its page is not given back here: the exception leaves no scan to close, and
  \<open>database_open\<close> then leaves no database.
\<close>

fun load_from :: "nat \<Rightarrow> table_scan \<Rightarrow> (world, unit) proc" where
  "load_from 0 sc = throw Out_of_fuel"
| "load_from (Suc n) sc = and_then (table_scan_next sc) (\<lambda>(m, sc). case m of
       None \<Rightarrow> table_scan_close sc
     | Some (r, t) \<Rightarrow> (\<lambda>w. case load_entry r t w of
         (Inl e, w') \<Rightarrow> (Inl e, snd (table_scan_close sc w'))
       | (Inr _, w') \<Rightarrow> load_from n sc w'))"

text \<open>More steps than the pages of the disk have slots.\<close>

definition load_existing_tables :: "(world, unit) proc" where
  "load_existing_tables = and_then (gets (\<lambda>w. page_fuel (pool (tx_data w)) * kPAGE_SIZE)) (\<lambda>n.
     and_then (gets (\<lambda>w. catalog_table (tx_data w))) (\<lambda>tb.
     and_then (table_scan_open tb None) (\<lambda>sc. load_from n sc)))"

section \<open>Tables by name\<close>

definition create_table :: "string \<Rightarrow> schema \<Rightarrow> transaction_id option \<Rightarrow> (world, table) proc" where
  "create_table name s tx = and_then (gets (\<lambda>w. find_table name (tx_data w))) (\<lambda>found.
     if found \<noteq> None
     then throw (Runtime_error (''Catalog::create_table: table with name '' @ name @ '' already exists''))
     else and_then (on_pool heap_create) (\<lambda>p.
       and_then (lift (tuple_make [of_string name, of_uint32 p, of_blob (schema_serialize s)] catalog_schema)) (\<lambda>entry.
       and_then (gets (\<lambda>w. catalog_table (tx_data w))) (\<lambda>catalog.
       and_then (table_insert catalog entry tx) (\<lambda>m. case m of
         None \<Rightarrow> throw (Runtime_error ''Catalog::CreateTable: failed to write catalog entry'')
       | Some r \<Rightarrow>
           let tb = \<lparr>table_name = name, table_first_page = p, table_schema = s\<rparr> in
           and_then (modify (\<lambda>w. put_tables (AList.update name \<lparr>entry_rid = r, entry_table = tb\<rparr> (tables (tx_data w))) w)) (\<lambda>_.
           and_then (tx_push tx (DropTableUndoRecord name)) (\<lambda>_.
           ret tb)))))))"

definition drop_table :: "string \<Rightarrow> transaction_id option \<Rightarrow> (world, bool) proc" where
  "drop_table name tx = and_then (gets (\<lambda>w. find_table name (tx_data w))) (\<lambda>found. case found of
       None \<Rightarrow> ret False
     | Some entry \<Rightarrow>
         let r = entry_rid entry in
         and_then (tx_lock lock_exclusive tx r) (\<lambda>locked.
         if \<not> locked then ret False
         else and_then (gets (\<lambda>w. find_table name (tx_data w))) (\<lambda>found. case found of
             None \<Rightarrow> ret False
           | Some entry \<Rightarrow>
               if entry_rid entry \<noteq> r then ret False
               else and_then (gets (\<lambda>w. catalog_table (tx_data w))) (\<lambda>catalog.
                 and_then (table_delete catalog r None) (\<lambda>deleted.
                 if \<not> deleted then ret False
                 else and_then (on_pool (table_drop_pages (entry_table entry))) (\<lambda>(failed, status).
                   if status = READ_PAGES_FAILED
                   then throw (Runtime_error ''Catalog::drop_table: Table::drop_pages failed to fetch all pages before deletion'')
                   else and_then (modify (\<lambda>w. put_tables (AList.delete name (tables (tx_data w))) w)) (\<lambda>_.
                     ret True)))))))"

definition rollback_create_table :: "string \<Rightarrow> (store, unit) proc" where
  "rollback_create_table name = and_then (gets (find_table name)) (\<lambda>found. case found of
       None \<Rightarrow> throw (Assert_failed ''it != tables_.end()'')
     | Some entry \<Rightarrow>
         and_then (store_pool (table_drop_pages (entry_table entry))) (\<lambda>(failed, status).
         if status = READ_PAGES_FAILED
         then throw (Runtime_error
           ''Catalog::rollback_create_table: Table::drop_pages failed to fetch all pages before deletion'')
         else modify (\<lambda>s. s\<lparr>tables := AList.delete name (tables s)\<rparr>)))"

definition get_table :: "string \<Rightarrow> transaction_id option \<Rightarrow> (world, table option) proc" where
  "get_table name tx = and_then (gets (\<lambda>w. find_table name (tx_data w))) (\<lambda>found. case found of
       None \<Rightarrow> ret None
     | Some entry \<Rightarrow>
         let r = entry_rid entry in
         and_then (tx_lock lock_shared tx r) (\<lambda>locked.
         if \<not> locked then ret None
         else and_then (gets (\<lambda>w. find_table name (tx_data w))) (\<lambda>current. case current of
             None \<Rightarrow> ret None
           | Some e \<Rightarrow> ret (if entry_rid e = r then Some (entry_table e) else None))))"

section \<open>All tables\<close>

fun lock_tables :: "transaction_id option \<Rightarrow> (string \<times> rid) list \<Rightarrow> (world, unit) proc" where
  "lock_tables tx [] = ret ()"
| "lock_tables tx ((name, r) # refs) = and_then (tx_lock lock_shared tx r) (\<lambda>locked.
     if \<not> locked then throw (Runtime_error ''Catalog::all_tables: failed to acquire lock for table'')
     else lock_tables tx refs)"

fun collect_tables :: "(string \<times> rid) list \<Rightarrow> (world, table list) proc" where
  "collect_tables [] = ret []"
| "collect_tables ((name, r) # refs) = and_then (gets (\<lambda>w. find_table name (tx_data w))) (\<lambda>found. case found of
       Some e \<Rightarrow>
         if entry_rid e = r then and_then (collect_tables refs) (\<lambda>tbs. ret (entry_table e # tbs))
         else throw (Runtime_error (''Catalog::all_tables: tables changed while acquiring lock for table '' @ name))
     | None \<Rightarrow> throw (Runtime_error (''Catalog::all_tables: tables changed while acquiring lock for table '' @ name)))"

definition all_tables :: "transaction_id option \<Rightarrow> (world, table list) proc" where
  "all_tables tx = and_then (gets (\<lambda>w. tables (tx_data w))) (\<lambda>ts.
     if tx = None then ret (map (\<lambda>(name, e). entry_table e) ts)
     else
       let refs = map (\<lambda>(name, e). (name, entry_rid e)) ts in
       and_then (lock_tables tx refs) (\<lambda>_. collect_tables refs))"

section \<open>Undo records\<close>

text \<open>
  A record carries the table as a value, its first page and schema, where the code keeps a pointer to the
  heap: what a record does whose table object is gone is not in the model.
\<close>

fun undo :: "undo_record \<Rightarrow> (store, unit) proc" where
  "undo (DeleteUndoRecord tb r) = and_then (store_pool (heap_delete r)) (\<lambda>_. ret ())"
| "undo (RestoreUndoRecord tb r t) = store_pool (heap_restore r t)"
| "undo (DropTableUndoRecord name) = rollback_create_table name"

section \<open>The database\<close>

text \<open>The members are built in order, the catalog last; an exception on the way leaves only the pool.\<close>

definition database_open :: "(bpm, world) proc" where
  "database_open = and_then init_table (\<lambda>tb c.
     case load_existing_tables \<lparr>locks = lock_init, next_tx_id = 0, active_txs = {},
         tx_data = \<lparr>pool = c, catalog_table = tb, tables = []\<rparr>\<rparr> of
       (Inl e, w) \<Rightarrow> (Inl e, pool (tx_data w))
     | (Inr _, w) \<Rightarrow> (Inr w, pool (tx_data w)))"

definition begin_tx :: "(world, transaction_id) proc" where
  "begin_tx w = (case tm_begin w of (t, w') \<Rightarrow> (Inr t, w'))"

definition commit_tx :: "transaction_id \<Rightarrow> (world, unit) proc" where
  "commit_tx t = modify (tm_commit t)"

definition rollback_tx :: "transaction_id \<Rightarrow> (world, unit) proc" where
  "rollback_tx t = tm_abort undo t"

definition db_create_table :: "string \<Rightarrow> schema \<Rightarrow> transaction_id option \<Rightarrow> (world, table) proc" where
  "db_create_table name s tx = create_table name s tx"

definition db_drop_table :: "string \<Rightarrow> (world, bool) proc" where
  "db_drop_table name = drop_table name None"

definition db_get_table :: "string \<Rightarrow> (world, table option) proc" where
  "db_get_table name = get_table name None"

definition db_all_tables :: "(world, table list) proc" where
  "db_all_tables = all_tables None"

end
