(* ===== verification/Operators.thy ===== *)
theory Operators
  imports Table Expression
begin

text \<open>
  The operators of the execution engine (\<open>include/duck/execution/operator\<close>,
  \<open>src/execution/operator\<close>): a tree of pull iterators, each answering one record per \<open>next\<close>. A virtual
  call to a child is an argument of the loops, so that the same definition runs over any child.
  \<open>op_next\<close> gets the depth of the tree and a bound \<open>k\<close> on the rounds of every loop.
\<close>

section \<open>State\<close>

datatype oper =
    SequentialScanOperator table "transaction_id option" table_scan
  | FilterOperator oper expression
  | NestedLoopJoin oper oper expression schema "row list" "row list" nat nat
  | ProjectionOperator oper "nat list" schema
  | LimitOperator oper nat nat

text \<open>The members of a join that its \<open>next\<close> changes: the children, the two blocks and the two positions.\<close>

record 'o join_state =
  js_left :: 'o
  js_right :: 'o
  left_block :: "row list"
  right_block :: "row list"
  left_it :: nat
  right_it :: nat

definition kBLOCK_SIZE :: nat where
  "kBLOCK_SIZE = 24"

section \<open>Schema, init, reset, destruction\<close>

fun output_schema :: "oper \<Rightarrow> schema" where
  "output_schema (SequentialScanOperator tb tx sc) = table_schema tb"
| "output_schema (FilterOperator c e) = output_schema c"
| "output_schema (NestedLoopJoin l r e s lb rb li ri) = s"
| "output_schema (ProjectionOperator c cols s) = s"
| "output_schema (LimitOperator c limit produced) = output_schema c"

fun op_init :: "oper \<Rightarrow> (world, oper) proc" where
  "op_init (SequentialScanOperator tb tx sc) = ret (SequentialScanOperator tb tx sc)"
| "op_init (FilterOperator c e) = and_then (op_init c) (\<lambda>c. ret (FilterOperator c e))"
| "op_init (NestedLoopJoin l r e s lb rb li ri) =
     and_then (op_init l) (\<lambda>l. and_then (op_init r) (\<lambda>r. ret (NestedLoopJoin l r e s lb rb li ri)))"
| "op_init (ProjectionOperator c cols s) = and_then (op_init c) (\<lambda>c. ret (ProjectionOperator c cols s))"
| "op_init (LimitOperator c limit produced) = and_then (op_init c) (\<lambda>c. ret (LimitOperator c limit produced))"

text \<open>The new scan is open before the old one is destroyed.\<close>

fun op_reset :: "oper \<Rightarrow> (world, oper) proc" where
  "op_reset (SequentialScanOperator tb tx sc) =
     and_then (table_scan_open tb tx) (\<lambda>fresh.
     and_then (table_scan_close sc) (\<lambda>_. ret (SequentialScanOperator tb tx fresh)))"
| "op_reset (FilterOperator c e) = and_then (op_reset c) (\<lambda>c. ret (FilterOperator c e))"
| "op_reset (NestedLoopJoin l r e s lb rb li ri) =
     and_then (op_reset l) (\<lambda>l. and_then (op_reset r) (\<lambda>r. ret (NestedLoopJoin l r e s [] [] 0 0)))"
| "op_reset (ProjectionOperator c cols s) = and_then (op_reset c) (\<lambda>c. ret (ProjectionOperator c cols s))"
| "op_reset (LimitOperator c limit produced) = and_then (op_reset c) (\<lambda>c. ret (LimitOperator c limit 0))"

fun op_close :: "oper \<Rightarrow> (world, unit) proc" where
  "op_close (SequentialScanOperator tb tx sc) = table_scan_close sc"
| "op_close (FilterOperator c e) = op_close c"
| "op_close (NestedLoopJoin l r e s lb rb li ri) = and_then (op_close r) (\<lambda>_. op_close l)"
| "op_close (ProjectionOperator c cols s) = op_close c"
| "op_close (LimitOperator c limit produced) = op_close c"

section \<open>Filter\<close>

text \<open>\<open>assert(comp.type() == BOOL)\<close>, then \<open>!comp.is_null() && comp.as_bool()\<close>.\<close>

definition predicate_holds :: "expression \<Rightarrow> row \<Rightarrow> bool res" where
  "predicate_holds e rec = bind_res (evaluate e rec) (\<lambda>comp.
     if vtype comp \<noteq> BOOL then Inl (Assert_failed ''comp.type() == ValueType::BOOL'')
     else if is_null comp then Inr False
     else as_bool comp)"

fun filter_next :: "nat \<Rightarrow> expression \<Rightarrow> ('o \<Rightarrow> ('w, row option \<times> 'o) proc) \<Rightarrow> 'o \<Rightarrow> ('w, row option \<times> 'o) proc" where
  "filter_next 0 e nxt c = throw Out_of_fuel"
| "filter_next (Suc n) e nxt c = and_then (nxt c) (\<lambda>(m, c). case m of
       None \<Rightarrow> ret (None, c)
     | Some rec \<Rightarrow> and_then (lift (predicate_holds e rec)) (\<lambda>holds.
         if holds then ret (Some rec, c) else filter_next n e nxt c))"

section \<open>Projection and limit\<close>

definition projection_next :: "nat list \<Rightarrow> ('o \<Rightarrow> ('w, row option \<times> 'o) proc) \<Rightarrow> 'o \<Rightarrow> ('w, row option \<times> 'o) proc" where
  "projection_next cols nxt c = and_then (nxt c) (\<lambda>(m, c). case m of
       None \<Rightarrow> ret (None, c)
     | Some rec \<Rightarrow> and_then (lift (map_res (record_get rec) cols)) (\<lambda>values. ret (Some values, c)))"

definition limit_next :: "nat \<Rightarrow> nat \<Rightarrow> ('o \<Rightarrow> ('w, row option \<times> 'o) proc) \<Rightarrow> 'o \<Rightarrow> ('w, row option \<times> 'o \<times> nat) proc" where
  "limit_next limit produced nxt c =
     (if produced \<ge> limit then ret (None, c, produced)
      else and_then (nxt c) (\<lambda>(m, c). ret (m, c, Suc produced)))"

section \<open>Nested loop join\<close>

fun fetch_block :: "nat \<Rightarrow> ('o \<Rightarrow> ('w, row option \<times> 'o) proc) \<Rightarrow> 'o \<Rightarrow> ('w, row list \<times> 'o) proc" where
  "fetch_block 0 nxt c = ret ([], c)"
| "fetch_block (Suc i) nxt c = and_then (nxt c) (\<lambda>(m, c). case m of
       None \<Rightarrow> ret ([], c)
     | Some rec \<Rightarrow> and_then (fetch_block i nxt c) (\<lambda>(block, c). ret (rec # block, c)))"

text \<open>The two loads at the head of the loop; the answer tells whether there is a block.\<close>

definition load_left :: "('o \<Rightarrow> ('w, row option \<times> 'o) proc) \<Rightarrow> ('o \<Rightarrow> ('w, 'o) proc) \<Rightarrow> 'o join_state
    \<Rightarrow> ('w, bool \<times> 'o join_state) proc" where
  "load_left nxt rst js =
     (if left_block js \<noteq> [] then ret (True, js)
      else and_then (fetch_block kBLOCK_SIZE nxt (js_left js)) (\<lambda>(block, l).
        if block = [] then ret (False, js\<lparr>js_left := l, left_block := []\<rparr>)
        else and_then (rst (js_right js)) (\<lambda>r.
          ret (True, js\<lparr>js_left := l, js_right := r, left_block := block, right_block := [], left_it := 0, right_it := 0\<rparr>))))"

definition load_right :: "('o \<Rightarrow> ('w, row option \<times> 'o) proc) \<Rightarrow> 'o join_state \<Rightarrow> ('w, bool \<times> 'o join_state) proc" where
  "load_right nxt js =
     (if right_it js < length (right_block js) then ret (True, js)
      else and_then (fetch_block kBLOCK_SIZE nxt (js_right js)) (\<lambda>(block, r).
        if block = []
        then ret (False, js\<lparr>js_right := r, right_block := [], right_it := 0, left_block := []\<rparr>)
        else ret (True, js\<lparr>js_right := r, right_block := block, right_it := 0\<rparr>)))"

fun join_next :: "nat \<Rightarrow> expression \<Rightarrow> ('o \<Rightarrow> ('w, row option \<times> 'o) proc) \<Rightarrow> ('o \<Rightarrow> ('w, 'o) proc) \<Rightarrow> 'o join_state
    \<Rightarrow> ('w, row option \<times> 'o join_state) proc" where
  "join_next 0 e nxt rst js = throw Out_of_fuel"
| "join_next (Suc n) e nxt rst js =
     and_then (load_left nxt rst js) (\<lambda>(more, js).
     if \<not> more then ret (None, js)
     else and_then (load_right nxt js) (\<lambda>(more, js).
     if \<not> more then join_next n e nxt rst js
     else if left_it js < length (left_block js) then
       let rec = record_plus (left_block js ! left_it js) (right_block js ! right_it js);
           js = js\<lparr>left_it := Suc (left_it js)\<rparr>
       in and_then (lift (predicate_holds e rec)) (\<lambda>holds.
          if holds then ret (Some rec, js) else join_next n e nxt rst js)
     else join_next n e nxt rst (js\<lparr>left_it := 0, right_it := Suc (right_it js)\<rparr>)))"

section \<open>The virtual next\<close>

fun op_depth :: "oper \<Rightarrow> nat" where
  "op_depth (SequentialScanOperator tb tx sc) = 1"
| "op_depth (FilterOperator c e) = Suc (op_depth c)"
| "op_depth (NestedLoopJoin l r e s lb rb li ri) = Suc (max (op_depth l) (op_depth r))"
| "op_depth (ProjectionOperator c cols s) = Suc (op_depth c)"
| "op_depth (LimitOperator c limit produced) = Suc (op_depth c)"

definition seq_scan_next :: "table_scan \<Rightarrow> (world, row option \<times> table_scan) proc" where
  "seq_scan_next sc = and_then (table_scan_next sc) (\<lambda>(m, sc). case m of
       None \<Rightarrow> ret (None, sc)
     | Some (r, t) \<Rightarrow> ret (Some (tvalues t), sc))"

fun op_next :: "nat \<Rightarrow> nat \<Rightarrow> oper \<Rightarrow> (world, row option \<times> oper) proc" where
  "op_next k 0 op = throw Out_of_fuel"
| "op_next k (Suc d) (SequentialScanOperator tb tx sc) =
     and_then (seq_scan_next sc) (\<lambda>(m, sc). ret (m, SequentialScanOperator tb tx sc))"
| "op_next k (Suc d) (FilterOperator c e) =
     and_then (filter_next k e (\<lambda>c. op_next k d c) c) (\<lambda>(m, c). ret (m, FilterOperator c e))"
| "op_next k (Suc d) (NestedLoopJoin l r e s lb rb li ri) =
     and_then (join_next k e (\<lambda>c. op_next k d c) op_reset
        \<lparr>js_left = l, js_right = r, left_block = lb, right_block = rb, left_it = li, right_it = ri\<rparr>) (\<lambda>(m, js).
     ret (m, NestedLoopJoin (js_left js) (js_right js) e s (left_block js) (right_block js) (left_it js) (right_it js)))"
| "op_next k (Suc d) (ProjectionOperator c cols s) =
     and_then (projection_next cols (\<lambda>c. op_next k d c) c) (\<lambda>(m, c). ret (m, ProjectionOperator c cols s))"
| "op_next k (Suc d) (LimitOperator c limit produced) =
     and_then (limit_next limit produced (\<lambda>c. op_next k d c) c) (\<lambda>(m, c, produced). ret (m, LimitOperator c limit produced))"

end
