(* ===== verification/Plan.thy ===== *)
theory Plan
  imports Operators
begin

text \<open>
  Logical and physical plans (\<open>include/duck/plan\<close>, \<open>src/plan\<close>), the optimizer, which translates one
  into the other, and the executor (\<open>src/execution/executor.cpp\<close>), which builds the operators of a
  physical plan. Moving a child out of a node is reading it: every node is used once.
\<close>

section \<open>Logical plans\<close>

datatype logical_plan =
    LogicalScan table
  | LogicalJoin logical_plan logical_plan expression schema
  | LogicalFilterPlan logical_plan expression
  | LogicalProjection logical_plan "nat list" schema
  | LogicalLimit logical_plan nat

fun logical_schema :: "logical_plan \<Rightarrow> schema" where
  "logical_schema (LogicalScan tb) = table_schema tb"
| "logical_schema (LogicalJoin l r e s) = s"
| "logical_schema (LogicalFilterPlan c e) = logical_schema c"
| "logical_schema (LogicalProjection c cols s) = s"
| "logical_schema (LogicalLimit c limit) = logical_schema c"

text \<open>The constructors that compute a schema.\<close>

definition logical_join :: "logical_plan \<Rightarrow> logical_plan \<Rightarrow> expression \<Rightarrow> logical_plan res" where
  "logical_join l r e = bind_res (schema_plus (logical_schema l) (logical_schema r)) (\<lambda>s. Inr (LogicalJoin l r e s))"

definition logical_projection :: "logical_plan \<Rightarrow> nat list \<Rightarrow> logical_plan res" where
  "logical_projection c cols = bind_res (schema_projected (logical_schema c) cols) (\<lambda>s. Inr (LogicalProjection c cols s))"

section \<open>Physical plans and the optimizer\<close>

datatype physical_plan =
    SequentialScanPlan table
  | NestedLoopJoinPlan physical_plan physical_plan expression schema
  | PhysicalFilterPlan physical_plan expression
  | PhysicalProjectionPlan physical_plan "nat list" schema
  | PhysicalLimitPlan physical_plan nat

fun physical_schema :: "physical_plan \<Rightarrow> schema" where
  "physical_schema (SequentialScanPlan tb) = table_schema tb"
| "physical_schema (NestedLoopJoinPlan l r e s) = s"
| "physical_schema (PhysicalFilterPlan c e) = physical_schema c"
| "physical_schema (PhysicalProjectionPlan c cols s) = s"
| "physical_schema (PhysicalLimitPlan c limit) = physical_schema c"

fun optimize :: "logical_plan \<Rightarrow> physical_plan" where
  "optimize (LogicalScan tb) = SequentialScanPlan tb"
| "optimize (LogicalJoin l r e s) = NestedLoopJoinPlan (optimize l) (optimize r) e s"
| "optimize (LogicalFilterPlan c e) = PhysicalFilterPlan (optimize c) e"
| "optimize (LogicalProjection c cols s) = PhysicalProjectionPlan (optimize c) cols s"
| "optimize (LogicalLimit c limit) = PhysicalLimitPlan (optimize c) limit"

lemma optimize_schema [simp]: "physical_schema (optimize p) = logical_schema p"
  by (induction p) simp_all

section \<open>The executor\<close>

text \<open>When the right side of a join cannot be built, the operator of the left side is destroyed.\<close>

definition or_close :: "oper \<Rightarrow> (world, 'a) proc \<Rightarrow> (world, 'a) proc" where
  "or_close c m w = (case m w of (Inl e, w') \<Rightarrow> (Inl e, snd (op_close c w')) | (Inr x, w') \<Rightarrow> (Inr x, w'))"

fun build :: "transaction_id option \<Rightarrow> physical_plan \<Rightarrow> (world, oper) proc" where
  "build tx (SequentialScanPlan tb) = and_then (table_scan_open tb tx) (\<lambda>sc. ret (SequentialScanOperator tb tx sc))"
| "build tx (NestedLoopJoinPlan l r e s) =
     and_then (build tx l) (\<lambda>left. and_then (or_close left (build tx r)) (\<lambda>right. ret (NestedLoopJoin left right e s [] [] 0 0)))"
| "build tx (PhysicalFilterPlan c e) = and_then (build tx c) (\<lambda>child. ret (FilterOperator child e))"
| "build tx (PhysicalProjectionPlan c cols s) = and_then (build tx c) (\<lambda>child. ret (ProjectionOperator child cols s))"
| "build tx (PhysicalLimitPlan c limit) = and_then (build tx c) (\<lambda>child. ret (LimitOperator child limit 0))"

definition executor_execute :: "transaction_id option \<Rightarrow> physical_plan \<Rightarrow> (world, oper) proc" where
  "executor_execute tx plan = and_then (build tx plan) op_init"

text \<open>\<open>QueryResult\<close> is the root operator.\<close>

definition query_result_next :: "nat \<Rightarrow> oper \<Rightarrow> (world, row option \<times> oper) proc" where
  "query_result_next k root = op_next k (op_depth root) root"

definition query_result_schema :: "oper \<Rightarrow> schema" where
  "query_result_schema root = output_schema root"

end
