(* ===== verification/Query.thy ===== *)
theory Query
  imports Catalog Plan
begin

text \<open>
  Select queries (\<open>include/duck/query\<close>, \<open>src/query/select_query.cpp\<close>), the binder, which resolves the
  names of a query against the catalog (\<open>src/query/binder.cpp\<close>), and the query engine
  (\<open>src/query/query_engine.cpp\<close>).
\<close>

section \<open>Queries\<close>

record column_ref =
  cr_qualifier :: "string option"
  cr_name :: string

record table_ref =
  tr_name :: string
  tr_alias :: "string option"

text \<open>\<open>UnboundNull\<close> is an empty \<open>unique_ptr\<close>.\<close>

datatype unbound_expression =
    UnboundNull
  | UnboundColumnExpression column_ref
  | UnboundConstantExpression sql_value
  | UnboundComparisonExpression unbound_expression comparison_operator unbound_expression
  | UnboundBinaryExpression unbound_expression binary_operator unbound_expression
  | UnboundUnaryExpression unbound_expression unary_operator

datatype join_type = INNER

record join_clause =
  jc_table :: table_ref
  jc_on :: unbound_expression
  jc_type :: join_type

record select_query =
  sq_columns :: "column_ref list option"
  sq_table :: "table_ref option"
  sq_predicate :: unbound_expression
  sq_limit :: "nat option"
  sq_joins :: "join_clause list"

definition empty_query :: select_query where
  "empty_query = \<lparr>sq_columns = None, sq_table = None, sq_predicate = UnboundNull, sq_limit = None, sq_joins = []\<rparr>"

text \<open>A single unqualified \<open>*\<close> means no projection.\<close>

definition query_columns :: "column_ref list \<Rightarrow> select_query \<Rightarrow> select_query" where
  "query_columns cols q =
     (if length cols = 1 \<and> cr_qualifier (hd cols) = None \<and> cr_name (hd cols) = ''*''
      then q\<lparr>sq_columns := None\<rparr>
      else q\<lparr>sq_columns := Some cols\<rparr>)"

definition query_select :: "column_ref list \<Rightarrow> select_query" where
  "query_select cols = query_columns cols empty_query"

definition query_from :: "table_ref \<Rightarrow> select_query \<Rightarrow> select_query" where
  "query_from tr q = q\<lparr>sq_table := Some tr\<rparr>"

definition query_where :: "unbound_expression \<Rightarrow> select_query \<Rightarrow> select_query" where
  "query_where e q = q\<lparr>sq_predicate := e\<rparr>"

definition query_limit :: "nat \<Rightarrow> select_query \<Rightarrow> select_query" where
  "query_limit n q = q\<lparr>sq_limit := Some n\<rparr>"

definition query_join :: "join_clause \<Rightarrow> select_query \<Rightarrow> select_query" where
  "query_join c q = q\<lparr>sq_joins := sq_joins q @ [c]\<rparr>"

section \<open>Resolving columns\<close>

record table_binding =
  tb_name :: string
  tb_schema :: schema
  tb_offset :: nat

definition ref_name :: "table_ref \<Rightarrow> string" where
  "ref_name tr = (case tr_alias tr of Some a \<Rightarrow> a | None \<Rightarrow> tr_name tr)"

text \<open>The loop over the bindings; \<open>found\<close> is \<open>match\<close> once \<open>matches > 0\<close>.\<close>

fun resolve_from :: "column_ref \<Rightarrow> nat option \<Rightarrow> table_binding list \<Rightarrow> nat option res" where
  "resolve_from c found [] = Inr found"
| "resolve_from c found (b # bs) =
     (if cr_qualifier c \<noteq> None \<and> cr_qualifier c \<noteq> Some (tb_name b) then resolve_from c found bs
      else case column_index (tb_schema b) (cr_name c) of
        None \<Rightarrow> Inl (Runtime_error (''Binder::resolve_column: table '' @ tb_name b @ '' has no column named '' @ cr_name c))
      | Some i \<Rightarrow>
          if found \<noteq> None then Inl (Runtime_error (''Binder::resolve_column: ambiguous column named '' @ cr_name c))
          else resolve_from c (Some (tb_offset b + i)) bs)"

definition resolve_column :: "column_ref \<Rightarrow> table_binding list \<Rightarrow> nat res" where
  "resolve_column c ctx =
     (if cr_qualifier c = None \<and> length ctx > 1
      then Inl (Runtime_error ''Binder::resolve_column: column in multiple table query must have qualifer'')
      else bind_res (resolve_from c None ctx) (\<lambda>found. case found of
          Some i \<Rightarrow> Inr i
        | None \<Rightarrow> (case cr_qualifier c of
              Some q \<Rightarrow> Inl (Runtime_error (''Binder: table '' @ q @ '' is not in the FROM clause''))
            | None \<Rightarrow> Inl (Runtime_error (''Binder: column '' @ cr_name c @ '' doesn't exist'')))))"

fun bind_expression :: "unbound_expression \<Rightarrow> table_binding list \<Rightarrow> expression res" where
  "bind_expression UnboundNull ctx = Inl (Runtime_error ''Binder::bind_expression: null expression'')"
| "bind_expression (UnboundColumnExpression c) ctx = bind_res (resolve_column c ctx) (\<lambda>i. Inr (ColumnExpression i))"
| "bind_expression (UnboundConstantExpression v) ctx = Inr (ConstantExpression v)"
| "bind_expression (UnboundComparisonExpression l op r) ctx =
     bind_res (bind_expression l ctx) (\<lambda>l. bind_res (bind_expression r ctx) (\<lambda>r. Inr (ComparisonExpression l op r)))"
| "bind_expression (UnboundBinaryExpression l op r) ctx =
     bind_res (bind_expression l ctx) (\<lambda>l. bind_res (bind_expression r ctx) (\<lambda>r. Inr (BinaryExpression l op r)))"
| "bind_expression (UnboundUnaryExpression e op) ctx = bind_res (bind_expression e ctx) (\<lambda>e. Inr (UnaryExpression e op))"

section \<open>Binding a query\<close>

definition lookup_table :: "string \<Rightarrow> string \<Rightarrow> transaction_id option \<Rightarrow> (world, table) proc" where
  "lookup_table what name tx = and_then (get_table name tx) (\<lambda>m. case m of
       None \<Rightarrow> throw (Runtime_error (what @ name @ '' doesn't exist''))
     | Some tb \<Rightarrow> ret tb)"

fun bind_joins :: "join_clause list \<Rightarrow> transaction_id option \<Rightarrow> logical_plan \<times> table_binding list
    \<Rightarrow> (world, logical_plan \<times> table_binding list) proc" where
  "bind_joins [] tx (plan, ctx) = ret (plan, ctx)"
| "bind_joins (clause # joins) tx (plan, ctx) =
     and_then (lookup_table ''Binder::bind: join table '' (tr_name (jc_table clause)) tx) (\<lambda>tb.
     let ctx = ctx @ [\<lparr>tb_name = ref_name (jc_table clause), tb_schema = table_schema tb, tb_offset = length (logical_schema plan)\<rparr>] in
     and_then (lift (bind_expression (jc_on clause) ctx)) (\<lambda>e.
     and_then (lift (logical_join plan (LogicalScan tb) e)) (\<lambda>plan.
     bind_joins joins tx (plan, ctx))))"

definition bind_filter :: "unbound_expression \<Rightarrow> table_binding list \<Rightarrow> logical_plan \<Rightarrow> logical_plan res" where
  "bind_filter pred ctx plan =
     (if pred = UnboundNull then Inr plan
      else bind_res (bind_expression pred ctx) (\<lambda>e. Inr (LogicalFilterPlan plan e)))"

definition bind_projection :: "column_ref list option \<Rightarrow> table_binding list \<Rightarrow> logical_plan \<Rightarrow> logical_plan res" where
  "bind_projection cols ctx plan = (case cols of
       None \<Rightarrow> Inr plan
     | Some cs \<Rightarrow>
         if cs = [] then Inl (Runtime_error ''Binder::bind: columns not specified'')
         else bind_res (map_res (\<lambda>c. resolve_column c ctx) cs) (\<lambda>idxs. logical_projection plan idxs))"

text \<open>Binding takes the joins and the predicate out of the query.\<close>

definition query_taken :: "select_query \<Rightarrow> select_query" where
  "query_taken q = q\<lparr>sq_joins := [], sq_predicate := UnboundNull\<rparr>"

definition bind_query :: "select_query \<Rightarrow> transaction_id option \<Rightarrow> (world, logical_plan \<times> select_query) proc" where
  "bind_query q tx = (case sq_table q of
       None \<Rightarrow> throw (Runtime_error ''Binder::bind: FROM table not provided in select query'')
     | Some tr \<Rightarrow>
         and_then (lookup_table ''Binder::bind: table '' (tr_name tr) tx) (\<lambda>tb.
         and_then (bind_joins (sq_joins q) tx
           (LogicalScan tb, [\<lparr>tb_name = ref_name tr, tb_schema = table_schema tb, tb_offset = 0\<rparr>])) (\<lambda>(plan, ctx).
         and_then (lift (bind_filter (sq_predicate q) ctx plan)) (\<lambda>plan.
         and_then (lift (bind_projection (sq_columns q) ctx plan)) (\<lambda>plan.
         ret (case sq_limit q of None \<Rightarrow> plan | Some n \<Rightarrow> LogicalLimit plan n, query_taken q))))))"

section \<open>The query engine\<close>

definition engine_execute :: "select_query \<Rightarrow> transaction_id option \<Rightarrow> (world, oper \<times> select_query) proc" where
  "engine_execute q tx = and_then (bind_query q tx) (\<lambda>(plan, q).
     and_then (executor_execute tx (optimize plan)) (\<lambda>result. ret (result, q)))"

end
