(* ===== verification/Row_Source.thy ===== *)
theory Row_Source
  imports Operators "HOL-Library.Multiset"
begin

text \<open>
  The contract of a row source, a pull iterator over shared state: it answers the rows it has left, one
  per call, then nothing; a reset makes it answer all its rows again; what other sources hold stays as
  it is. Inside the contract the loops of filter, projection, limit and nested loop join are shown to
  answer what they should over any sources. The operators of the engine are an instance
  (\<open>Operator_Rows\<close>).
\<close>

section \<open>What the operators compute\<close>

definition holds :: "expression \<Rightarrow> row \<Rightarrow> bool" where
  "holds e rec \<longleftrightarrow> predicate_holds e rec = Inr True"

definition decides :: "expression \<Rightarrow> row \<Rightarrow> bool" where
  "decides e rec \<longleftrightarrow> (\<exists>b. predicate_holds e rec = Inr b)"

lemma decidesD: "decides e rec \<Longrightarrow> predicate_holds e rec = Inr (holds e rec)"
  by (auto simp: decides_def holds_def)

text \<open>One record of the right against a block of the left, a block against records, and all blocks.\<close>

definition block_rows :: "expression \<Rightarrow> row list \<Rightarrow> row \<Rightarrow> row list" where
  "block_rows e ls r = filter (holds e) (map (\<lambda>l. record_plus l r) ls)"

definition block_all :: "expression \<Rightarrow> row list \<Rightarrow> row list \<Rightarrow> row list" where
  "block_all e ls rs = concat (map (block_rows e ls) rs)"

function join_rows :: "expression \<Rightarrow> row list \<Rightarrow> row list \<Rightarrow> row list" where
  "join_rows e ls rs = (if ls = [] then [] else block_all e (take kBLOCK_SIZE ls) rs @ join_rows e (drop kBLOCK_SIZE ls) rs)"
  by pat_completeness auto
termination
  by (relation "measure (\<lambda>(e, ls, rs). length ls)") (auto simp: kBLOCK_SIZE_def)

declare join_rows.simps [simp del]

lemma join_rows_Nil [simp]: "join_rows e [] rs = []"
  by (simp add: join_rows.simps)

lemma join_rows_step: "ls \<noteq> [] \<Longrightarrow> join_rows e ls rs = block_all e (take kBLOCK_SIZE ls) rs @ join_rows e (drop kBLOCK_SIZE ls) rs"
  by (simp add: join_rows.simps)

lemma block_all_simps [simp]: "block_all e ls [] = []" "block_all e ls (r # rs) = block_rows e ls r @ block_all e ls rs"
  "block_all e ls (rs @ rs') = block_all e ls rs @ block_all e ls rs'"
  by (simp_all add: block_all_def)

text \<open>The join as a relation: the pairs that satisfy the predicate, each as often as it occurs.\<close>

lemma mset_block_all: "mset (block_all e ls rs) = mset (filter (holds e) (concat (map (\<lambda>l. map (record_plus l) rs) ls)))"
proof (induction ls)
  case Nil
  then show ?case by (induction rs) (simp_all add: block_rows_def)
next
  case (Cons l ls)
  have "mset (block_all e (l # ls) rs) = mset (filter (holds e) (map (record_plus l) rs)) + mset (block_all e ls rs)"
    by (induction rs) (simp_all add: block_rows_def)
  then show ?case using Cons by simp
qed

lemma mset_join_rows: "mset (join_rows e ls rs) = mset (filter (holds e) (concat (map (\<lambda>l. map (record_plus l) rs) ls)))"
proof (induction e ls rs rule: join_rows.induct)
  case (1 e ls rs)
  show ?case
  proof (cases "ls = []")
    case False
    have "concat (map (\<lambda>l. map (record_plus l) rs) ls) =
        concat (map (\<lambda>l. map (record_plus l) rs) (take kBLOCK_SIZE ls)) @ concat (map (\<lambda>l. map (record_plus l) rs) (drop kBLOCK_SIZE ls))"
      by (simp flip: concat_append map_append)
    then show ?thesis using 1 [OF False] False by (simp add: join_rows_step mset_block_all)
  qed simp
qed

section \<open>The contract\<close>

text \<open>\<open>first rs\<close> is what \<open>next\<close> answers when \<open>rs\<close> is left.\<close>

definition first :: "'a list \<Rightarrow> 'a option" where
  "first rs = (case rs of [] \<Rightarrow> None | r # _ \<Rightarrow> Some r)"

lemma first_simps [simp]: "first [] = None" "first (r # rs) = Some r"
  by (simp_all add: first_def)

lemma first_map: "first (map f rs) = map_option f (first rs)"
  by (cases rs) simp_all

text \<open>A call answered \<open>x\<close>, left the object \<open>s\<close> and a state with \<open>Q\<close>; what holders of \<open>P\<close> see is kept.\<close>

definition served :: "('p multiset \<Rightarrow> 'w \<Rightarrow> bool) \<Rightarrow> ('p multiset \<Rightarrow> 'w \<Rightarrow> 'w \<Rightarrow> bool) \<Rightarrow> ('s \<Rightarrow> 'p multiset) \<Rightarrow>
    'p multiset \<Rightarrow> 'w \<Rightarrow> 'a \<Rightarrow> ('w \<Rightarrow> 's \<Rightarrow> bool) \<Rightarrow> ('a \<times> 's) res \<times> 'w \<Rightarrow> bool" where
  "served W kept pins P w x Q r \<longleftrightarrow> (\<exists>s w'. r = (Inr (x, s), w') \<and> W (P + pins s) w' \<and> kept P w w' \<and> Q w' s)"

lemma servedI: "r = (Inr (x, s), w') \<Longrightarrow> W (P + pins s) w' \<Longrightarrow> kept P w w' \<Longrightarrow> Q w' s \<Longrightarrow> served W kept pins P w x Q r"
  by (auto simp: served_def)

lemma served_mono: "served W kept pins P w x Q r \<Longrightarrow> (\<And>w' s. Q w' s \<Longrightarrow> R w' s) \<Longrightarrow> served W kept pins P w x R r"
  by (auto simp: served_def)

locale row_source =
  fixes nxt :: "'o \<Rightarrow> ('w, row option \<times> 'o) proc"
    and rst :: "'o \<Rightarrow> ('w, 'o) proc"
    and pins :: "'o \<Rightarrow> 'p multiset"
    and W :: "'p multiset \<Rightarrow> 'w \<Rightarrow> bool"
    and kept :: "'p multiset \<Rightarrow> 'w \<Rightarrow> 'w \<Rightarrow> bool"
    and yields :: "'w \<Rightarrow> 'o \<Rightarrow> row list \<Rightarrow> row list \<Rightarrow> bool"
  assumes kept_refl: "kept P w w"
    and kept_trans: "kept P w w' \<Longrightarrow> kept P w' w'' \<Longrightarrow> kept P w w''"
    and kept_mono: "P \<subseteq># Q \<Longrightarrow> kept Q w w' \<Longrightarrow> kept P w w'"
    and yields_kept: "kept (pins c) w w' \<Longrightarrow> yields w c rs all \<Longrightarrow> yields w' c rs all"
    and next_ok: "W (P + pins c) w \<Longrightarrow> yields w c rs all \<Longrightarrow>
      served W kept pins P w (first rs) (\<lambda>w' c'. yields w' c' (tl rs) all) (nxt c w)"
    and reset_ok: "W (P + pins c) w \<Longrightarrow> yields w c rs all \<Longrightarrow>
      \<exists>c' w'. rst c w = (Inr c', w') \<and> W (P + pins c') w' \<and> kept P w w' \<and> yields w' c' all all"
begin

lemma next_run:
  assumes "W (P + pins c) w" and "yields w c rs all"
  obtains c' w' where "nxt c w = (Inr (first rs, c'), w')" "W (P + pins c') w'" "kept P w w'" "yields w' c' (tl rs) all"
  using next_ok [OF assms] by (auto simp: served_def)

lemma served_trans: "kept P w w' \<Longrightarrow> served W kept pin P w' x Q r \<Longrightarrow> served W kept pin P w x Q r"
  unfolding served_def using kept_trans by blast

lemma fetch_block_ok:
  "W (P + pins c) w \<Longrightarrow> yields w c rs all \<Longrightarrow>
   served W kept pins P w (take n rs) (\<lambda>w' c'. yields w' c' (drop n rs) all) (fetch_block n nxt c w)"
proof (induction n arbitrary: c w rs)
  case 0
  then show ?case by (intro servedI) (auto intro: kept_refl)
next
  case (Suc n)
  obtain c1 w1 where c1: "nxt c w = (Inr (first rs, c1), w1)" "W (P + pins c1) w1" "kept P w w1" "yields w1 c1 (tl rs) all"
    using next_run [OF Suc.prems] .
  show ?case
  proof (cases rs)
    case Nil
    then show ?thesis using c1 by (intro servedI [of _ _ c1 w1]) (simp_all add: and_then_Inr [of "nxt c" w, OF c1(1)])
  next
    case (Cons r rest)
    then obtain c2 w2 where c2: "fetch_block n nxt c1 w1 = (Inr (take n rest, c2), w2)" "W (P + pins c2) w2" "kept P w1 w2"
      "yields w2 c2 (drop n rest) all"
      using Suc.IH [OF c1(2,4)] by (auto simp: served_def)
    show ?thesis
      by (rule servedI [of _ _ c2 w2])
         (use Cons c2 kept_trans [OF c1(3) c2(3)] in
          \<open>simp_all add: and_then_Inr [of "nxt c" w, OF c1(1)] and_then_Inr [of "fetch_block n nxt c1" w1, OF c2(1)]\<close>)
  qed
qed

section \<open>Filter, projection, limit\<close>

lemma filter_next_ok:
  "W (P + pins c) w \<Longrightarrow> yields w c rs all \<Longrightarrow> \<forall>r\<in>set rs. decides e r \<Longrightarrow> length rs < n \<Longrightarrow>
   served W kept pins P w (first (filter (holds e) rs))
     (\<lambda>w' c'. \<exists>rs'. yields w' c' rs' all \<and> filter (holds e) rs' = tl (filter (holds e) rs) \<and> set rs' \<subseteq> set rs \<and> length rs' \<le> length rs)
     (filter_next n e nxt c w)"
proof (induction n arbitrary: c w rs)
  case (Suc n)
  obtain c1 w1 where c1: "nxt c w = (Inr (first rs, c1), w1)" "W (P + pins c1) w1" "kept P w w1" "yields w1 c1 (tl rs) all"
    using next_run [OF Suc.prems(1,2)] .
  show ?case
  proof (cases rs)
    case Nil
    then show ?thesis using c1
      by (intro servedI [of _ _ c1 w1]) (auto simp: and_then_Inr [of "nxt c" w, OF c1(1)])
  next
    case (Cons r rest)
    then have d: "predicate_holds e r = Inr (holds e r)" using Suc.prems(3) by (simp add: decidesD)
    have step: "filter_next (Suc n) e nxt c w = (if holds e r then ret (Some r, c1) else filter_next n e nxt c1) w1"
      using Cons d by (simp add: and_then_Inr [of "nxt c" w, OF c1(1)])
    show ?thesis
    proof (cases "holds e r")
      case True
      then show ?thesis using c1 step Cons by (intro servedI [of _ _ c1 w1]) auto
    next
      case False
      have y: "yields w1 c1 rest all" and dr: "\<forall>r\<in>set rest. decides e r" "length rest < n"
        using c1(4) Cons Suc.prems(3,4) by simp_all
      have "served W kept pins P w (first (filter (holds e) rest))
        (\<lambda>w' c'. \<exists>rs'. yields w' c' rs' all \<and> filter (holds e) rs' = tl (filter (holds e) rest) \<and> set rs' \<subseteq> set rest \<and> length rs' \<le> length rest)
        (filter_next n e nxt c1 w1)"
        using served_trans [OF c1(3) Suc.IH [OF c1(2) y dr]] .
      then show ?thesis using step False Cons by (fastforce elim: served_mono)
    qed
  qed
qed simp

lemma projection_next_ok:
  assumes "W (P + pins c) w" and "yields w c rs all" and "\<forall>r\<in>set rs. \<forall>i\<in>set cols. i < length r"
  shows "served W kept pins P w (first (map (\<lambda>r. map ((!) r) cols) rs)) (\<lambda>w' c'. yields w' c' (tl rs) all) (projection_next cols nxt c w)"
proof -
  obtain c1 w1 where c1: "nxt c w = (Inr (first rs, c1), w1)" "W (P + pins c1) w1" "kept P w w1" "yields w1 c1 (tl rs) all"
    using next_run [OF assms(1,2)] .
  show ?thesis
  proof (cases rs)
    case Nil
    then show ?thesis using c1
      by (intro servedI [of _ _ c1 w1]) (simp_all add: projection_next_def and_then_Inr [of "nxt c" w, OF c1(1)])
  next
    case (Cons r rest)
    then have "map_res (record_get r) cols = Inr (map ((!) r) cols)"
      using assms(3) by (intro map_res_Inr) (simp add: record_get_def)
    then show ?thesis using c1 Cons
      by (intro servedI [of _ _ c1 w1]) (simp_all add: projection_next_def and_then_Inr [of "nxt c" w, OF c1(1)])
  qed
qed

lemma limit_next_ok:
  assumes "W (P + pins c) w" and "yields w c rs all"
  shows "served W kept (\<lambda>(c, p). pins c) P w (first (take (limit - produced) rs))
    (\<lambda>w' (c', p'). \<exists>rs'. yields w' c' rs' all \<and> take (limit - p') rs' = tl (take (limit - produced) rs) \<and> length rs' \<le> length rs)
    (limit_next limit produced nxt c w)"
proof (cases "produced \<ge> limit")
  case True
  then show ?thesis using assms by (intro servedI [of _ _ "(c, produced)" w]) (auto simp: limit_next_def intro: kept_refl)
next
  case False
  obtain c1 w1 where c1: "nxt c w = (Inr (first rs, c1), w1)" "W (P + pins c1) w1" "kept P w w1" "yields w1 c1 (tl rs) all"
    using next_run [OF assms] .
  obtain k where k: "limit - produced = Suc k" "limit - Suc produced = k" using False by (cases "limit - produced") auto
  show ?thesis
    by (rule servedI [of _ _ "(c1, Suc produced)" w1])
       (use c1 False k in \<open>cases rs; auto simp: limit_next_def and_then_Inr [of "nxt c" w, OF c1(1)]\<close>)+
qed

end

end
