(* ===== verification/Join_Source.thy ===== *)
theory Join_Source
  imports Row_Source
begin

text \<open>
  The block nested loop join over two row sources: what is left to answer, how many rounds of its loop
  that takes, and that \<open>join_next\<close> answers it.
\<close>

section \<open>What is left of a join\<close>

text \<open>\<open>l0\<close> and \<open>r0\<close> are left on the two sides, \<open>ra\<close> is all of the right side.\<close>

definition current_rows :: "expression \<Rightarrow> 'o join_state \<Rightarrow> row list" where
  "current_rows e js =
     (if right_it js < length (right_block js)
      then block_rows e (drop (left_it js) (left_block js)) (right_block js ! right_it js) @
           block_all e (left_block js) (drop (Suc (right_it js)) (right_block js))
      else [])"

definition join_rest :: "expression \<Rightarrow> 'o join_state \<Rightarrow> row list \<Rightarrow> row list \<Rightarrow> row list \<Rightarrow> row list" where
  "join_rest e js l0 r0 ra =
     (if left_block js = [] then [] else current_rows e js @ block_all e (left_block js) r0) @ join_rows e l0 ra"

definition current_work :: "'o join_state \<Rightarrow> nat" where
  "current_work js =
     (if right_it js < length (right_block js)
      then Suc (length (left_block js) - left_it js) + (length (right_block js) - Suc (right_it js)) * Suc (length (left_block js))
      else 0)"

definition join_work :: "'o join_state \<Rightarrow> row list \<Rightarrow> row list \<Rightarrow> row list \<Rightarrow> nat" where
  "join_work js l0 r0 ra =
     (if left_block js = [] then 0 else Suc (current_work js + length r0 * Suc (length (left_block js)))) +
     length l0 * Suc (length ra * Suc kBLOCK_SIZE)"

definition join_decides :: "expression \<Rightarrow> row set \<Rightarrow> row set \<Rightarrow> bool" where
  "join_decides e L R \<longleftrightarrow> (\<forall>l\<in>L. \<forall>r\<in>R. decides e (record_plus l r))"

lemma join_decides_mono: "join_decides e L R \<Longrightarrow> L' \<subseteq> L \<Longrightarrow> R' \<subseteq> R \<Longrightarrow> join_decides e L' R'"
  by (auto simp: join_decides_def)

definition js_pins :: "('o \<Rightarrow> 'p multiset) \<Rightarrow> 'o join_state \<Rightarrow> 'p multiset" where
  "js_pins pins js = pins (js_left js) + pins (js_right js)"

text \<open>A fresh block of the left side needs no more rounds than its first row was charged for.\<close>

lemma join_work_block:
  assumes "l0 \<noteq> []"
  shows "Suc (length ra * Suc (length (take kBLOCK_SIZE l0))) + length (drop kBLOCK_SIZE l0) * Suc (length ra * Suc kBLOCK_SIZE)
    \<le> length l0 * Suc (length ra * Suc kBLOCK_SIZE)"
proof -
  have charge: "Suc a + d * Suc A \<le> n * Suc A" if "a \<le> A" and "Suc d \<le> n" for a A d n :: nat
  proof -
    have "Suc a + d * Suc A \<le> Suc d * Suc A" using that(1) by simp
    also have "\<dots> \<le> n * Suc A" using that(2) by (rule mult_le_mono1)
    finally show ?thesis .
  qed
  show ?thesis
    by (rule charge) (use assms in \<open>cases l0; auto simp: kBLOCK_SIZE_def\<close>)+
qed

text \<open>A fresh block of the right side.\<close>

lemma current_fresh:
  assumes "right_block js \<noteq> []" and "right_it js = 0" and "left_it js = 0"
  shows "current_rows e js = block_all e (left_block js) (right_block js)"
    "current_work js = length (right_block js) * Suc (length (left_block js))"
  using assms by (cases "right_block js"; simp add: current_rows_def current_work_def)+

text \<open>One round with a block on both sides: a pair is looked at, or the next record of the right is taken.\<close>

lemma pair_round:
  assumes "left_block js \<noteq> []" and "right_it js < length (right_block js)" and "left_it js < length (left_block js)"
  defines "rec \<equiv> record_plus (left_block js ! left_it js) (right_block js ! right_it js)"
    and "js' \<equiv> js\<lparr>left_it := Suc (left_it js)\<rparr>"
  shows "join_rest e js l0 r0 ra = (if holds e rec then [rec] else []) @ join_rest e js' l0 r0 ra"
    "join_work js' l0 r0 ra < join_work js l0 r0 ra"
  using assms(1-3) unfolding rec_def js'_def
  by (simp_all add: join_rest_def current_rows_def join_work_def current_work_def block_rows_def Cons_nth_drop_Suc [symmetric])

lemma pair_end:
  assumes "left_block js \<noteq> []" and "right_it js < length (right_block js)" and "left_it js = length (left_block js)"
  defines "js' \<equiv> js\<lparr>left_it := 0, right_it := Suc (right_it js)\<rparr>"
  shows "join_rest e js' l0 r0 ra = join_rest e js l0 r0 ra" "join_work js' l0 r0 ra < join_work js l0 r0 ra"
proof -
  let ?n = "length (right_block js)"
  have "current_rows e js' = current_rows e js \<and> Suc (current_work js') = current_work js"
  proof (cases "Suc (right_it js) < ?n")
    case True
    then have d: "drop (Suc (right_it js)) (right_block js) = right_block js ! Suc (right_it js) # drop (Suc (Suc (right_it js))) (right_block js)"
      by (simp add: Cons_nth_drop_Suc)
    have n: "?n - Suc (right_it js) = Suc (?n - Suc (Suc (right_it js)))" using True by simp
    show ?thesis using assms(2,3) True unfolding js'_def current_rows_def current_work_def n d by (simp add: block_rows_def d)
  next
    case False
    then show ?thesis using assms(2,3) unfolding js'_def by (simp add: current_rows_def current_work_def block_rows_def)
  qed
  then show "join_rest e js' l0 r0 ra = join_rest e js l0 r0 ra" "join_work js' l0 r0 ra < join_work js l0 r0 ra"
    using assms(1) unfolding js'_def by (auto simp: join_rest_def join_work_def)
qed

context row_source begin

definition join_inv :: "expression \<Rightarrow> 'w \<Rightarrow> 'o join_state \<Rightarrow> row list \<Rightarrow> row list \<Rightarrow> row list \<Rightarrow> row list \<Rightarrow> bool" where
  "join_inv e w js l0 la r0 ra \<longleftrightarrow>
     yields w (js_left js) l0 la \<and> yields w (js_right js) r0 ra \<and>
     left_it js \<le> length (left_block js) \<and> length (left_block js) \<le> kBLOCK_SIZE \<and>
     (right_it js < length (right_block js) \<or> left_it js = 0) \<and>
     join_decides e (set (left_block js) \<union> set l0) (set (right_block js) \<union> set r0 \<union> set ra)"

text \<open>Stepping one side keeps the other.\<close>

lemma kept_left: "kept (P + pins c) w w' \<Longrightarrow> yields w c rs all \<Longrightarrow> yields w' c rs all \<and> kept P w w'"
  using yields_kept [of c w w' rs all] kept_mono [of "pins c" "P + pins c" w w'] kept_mono [of P "P + pins c" w w'] by auto

lemma load_left_ok:
  assumes W: "W (P + js_pins pins js) w" and inv: "join_inv e w js l0 la r0 ra"
  shows "served W kept (js_pins pins) P w (left_block js \<noteq> [] \<or> l0 \<noteq> [])
    (\<lambda>w' js'. \<exists>l1 r1. join_inv e w' js' l1 la r1 ra \<and> join_rest e js' l1 r1 ra = join_rest e js l0 r0 ra \<and>
       join_work js' l1 r1 ra \<le> join_work js l0 r0 ra \<and>
       (left_block js \<noteq> [] \<or> l0 \<noteq> [] \<longrightarrow> left_block js' \<noteq> []) \<and> (left_block js = [] \<and> l0 = [] \<longrightarrow> left_block js' = [] \<and> l1 = []))
    (load_left nxt rst js w)"
proof (cases "left_block js = []")
  case False
  then show ?thesis using W inv by (intro servedI [of _ _ js w]) (auto simp: load_left_def intro: kept_refl)
next
  case True
  have W1: "W ((P + pins (js_right js)) + pins (js_left js)) w" using W by (simp add: js_pins_def ac_simps)
  have yl: "yields w (js_left js) l0 la" and yr: "yields w (js_right js) r0 ra" using inv by (simp_all add: join_inv_def)
  obtain l w1 where l: "fetch_block kBLOCK_SIZE nxt (js_left js) w = (Inr (take kBLOCK_SIZE l0, l), w1)"
    "W ((P + pins (js_right js)) + pins l) w1" "kept (P + pins (js_right js)) w w1" "yields w1 l (drop kBLOCK_SIZE l0) la"
    using fetch_block_ok [OF W1 yl, of kBLOCK_SIZE] by (auto simp: served_def)
  have k1: "yields w1 (js_right js) r0 ra" "kept P w w1" using kept_left [OF l(3) yr] by simp_all
  have run: "load_left nxt rst js w = (if take kBLOCK_SIZE l0 = [] then ret (False, js\<lparr>js_left := l, left_block := []\<rparr>)
      else and_then (rst (js_right js)) (\<lambda>r. ret (True,
        js\<lparr>js_left := l, js_right := r, left_block := take kBLOCK_SIZE l0, right_block := [], left_it := 0, right_it := 0\<rparr>))) w1"
    using True by (simp add: load_left_def and_then_Inr [of "fetch_block kBLOCK_SIZE nxt (js_left js)" w, OF l(1)])
  show ?thesis
  proof (cases "l0 = []")
    case Nil: True
    have "join_inv e w1 (js\<lparr>js_left := l, left_block := []\<rparr>) [] la r0 ra"
      using inv l(4) k1(1) Nil True by (auto simp: join_inv_def)
    moreover have "W (P + js_pins pins (js\<lparr>js_left := l, left_block := []\<rparr>)) w1" using l(2) by (simp add: js_pins_def ac_simps)
    ultimately show ?thesis using run Nil True k1(2)
      by (intro servedI [of _ _ "js\<lparr>js_left := l, left_block := []\<rparr>" w1]) (auto simp: join_rest_def join_work_def)
  next
    case False
    have W2: "W ((P + pins l) + pins (js_right js)) w1" using l(2) by (simp add: ac_simps)
    obtain r w2 where r: "rst (js_right js) w1 = (Inr r, w2)" "W ((P + pins l) + pins r) w2" "kept (P + pins l) w1 w2"
      "yields w2 r ra ra" using reset_ok [OF W2 k1(1)] by blast
    have k2: "yields w2 l (drop kBLOCK_SIZE l0) la" "kept P w1 w2" using kept_left [OF r(3) l(4)] by simp_all
    let ?js = "js\<lparr>js_left := l, js_right := r, left_block := take kBLOCK_SIZE l0, right_block := [], left_it := 0, right_it := 0\<rparr>"
    have ne: "take kBLOCK_SIZE l0 \<noteq> []" using False by (simp add: kBLOCK_SIZE_def)
    have "load_left nxt rst js w = (Inr (True, ?js), w2)" using run ne by (simp add: and_then_Inr [of "rst (js_right js)" w1, OF r(1)])
    moreover have "W (P + js_pins pins ?js) w2" using r(2) by (simp add: js_pins_def ac_simps)
    moreover have "join_inv e w2 ?js (drop kBLOCK_SIZE l0) la ra ra"
    proof -
      have "join_decides e (set l0) (set ra)" using inv by (auto simp: join_inv_def elim: join_decides_mono)
      then have "join_decides e (set (take kBLOCK_SIZE l0) \<union> set (drop kBLOCK_SIZE l0)) (set ra)"
        by (rule join_decides_mono) (auto dest: in_set_takeD in_set_dropD)
      then show ?thesis using k2(1) r(4) by (simp add: join_inv_def)
    qed
    moreover have "join_rest e ?js (drop kBLOCK_SIZE l0) ra ra = join_rest e js l0 r0 ra"
      using True ne False by (simp add: join_rest_def current_rows_def join_rows_step)
    moreover have "join_work ?js (drop kBLOCK_SIZE l0) ra ra \<le> join_work js l0 r0 ra"
      using join_work_block [OF False, of ra] True ne by (simp add: join_work_def current_work_def)
    ultimately show ?thesis using kept_trans [OF k1(2) k2(2)] False ne
      by (intro servedI [of _ _ ?js w2]) auto
  qed
qed

lemma load_right_ok:
  assumes W: "W (P + js_pins pins js) w" and inv: "join_inv e w js l0 la r0 ra" and ne: "left_block js \<noteq> []"
  shows "served W kept (js_pins pins) P w (right_it js < length (right_block js) \<or> r0 \<noteq> [])
    (\<lambda>w' js'. \<exists>r1. join_inv e w' js' l0 la r1 ra \<and> join_rest e js' l0 r1 ra = join_rest e js l0 r0 ra \<and>
       (if right_it js < length (right_block js) \<or> r0 \<noteq> []
        then left_block js' \<noteq> [] \<and> right_it js' < length (right_block js') \<and> join_work js' l0 r1 ra \<le> join_work js l0 r0 ra
        else join_work js' l0 r1 ra < join_work js l0 r0 ra))
    (load_right nxt js w)"
proof (cases "right_it js < length (right_block js)")
  case True
  then show ?thesis using W inv ne by (intro servedI [of _ _ js w]) (auto simp: load_right_def intro: kept_refl)
next
  case False
  have W1: "W ((P + pins (js_left js)) + pins (js_right js)) w" using W by (simp add: js_pins_def ac_simps)
  have yl: "yields w (js_left js) l0 la" and yr: "yields w (js_right js) r0 ra" using inv by (simp_all add: join_inv_def)
  obtain r w1 where r: "fetch_block kBLOCK_SIZE nxt (js_right js) w = (Inr (take kBLOCK_SIZE r0, r), w1)"
    "W ((P + pins (js_left js)) + pins r) w1" "kept (P + pins (js_left js)) w w1" "yields w1 r (drop kBLOCK_SIZE r0) ra"
    using fetch_block_ok [OF W1 yr, of kBLOCK_SIZE] by (auto simp: served_def)
  have k1: "yields w1 (js_left js) l0 la" "kept P w w1" using kept_left [OF r(3) yl] by simp_all
  have run: "load_right nxt js w = (if take kBLOCK_SIZE r0 = []
      then ret (False, js\<lparr>js_right := r, right_block := [], right_it := 0, left_block := []\<rparr>)
      else ret (True, js\<lparr>js_right := r, right_block := take kBLOCK_SIZE r0, right_it := 0\<rparr>)) w1"
    using False by (simp add: load_right_def and_then_Inr [of "fetch_block kBLOCK_SIZE nxt (js_right js)" w, OF r(1)])
  have dec: "join_decides e (set (left_block js) \<union> set l0) (set r0 \<union> set ra)"
    using inv by (auto simp: join_inv_def elim: join_decides_mono)
  show ?thesis
  proof (cases "r0 = []")
    case True
    let ?js = "js\<lparr>js_right := r, right_block := [], right_it := 0, left_block := []\<rparr>"
    have li: "left_it js = 0" using inv False by (simp add: join_inv_def)
    have "join_inv e w1 ?js l0 la [] ra"
      using r(4) k1(1) True li dec by (auto simp: join_inv_def elim: join_decides_mono)
    moreover have "W (P + js_pins pins ?js) w1" using r(2) by (simp add: js_pins_def ac_simps)
    ultimately show ?thesis using run True False k1(2) ne
      by (intro servedI [of _ _ ?js w1]) (auto simp: join_rest_def join_work_def current_rows_def current_work_def)
  next
    case nonempty: False
    let ?js = "js\<lparr>js_right := r, right_block := take kBLOCK_SIZE r0, right_it := 0\<rparr>"
    have t: "take kBLOCK_SIZE r0 \<noteq> []" using nonempty by (simp add: kBLOCK_SIZE_def)
    have li: "left_it js = 0" using inv False by (simp add: join_inv_def)
    have "join_decides e (set (left_block js) \<union> set l0) (set (take kBLOCK_SIZE r0) \<union> set (drop kBLOCK_SIZE r0) \<union> set ra)"
      using dec by (rule join_decides_mono) (auto dest: in_set_takeD in_set_dropD)
    then have "join_inv e w1 ?js l0 la (drop kBLOCK_SIZE r0) ra" using r(4) k1(1) inv li t by (simp add: join_inv_def)
    moreover have "W (P + js_pins pins ?js) w1" using r(2) by (simp add: js_pins_def ac_simps)
    moreover have "join_rest e ?js l0 (drop kBLOCK_SIZE r0) ra = join_rest e js l0 r0 ra"
      using current_fresh(1) [of ?js e] t li ne False block_all_simps(3) [of e "left_block js" "take kBLOCK_SIZE r0" "drop kBLOCK_SIZE r0"]
      by (simp add: join_rest_def current_rows_def del: block_all_simps(3))
    moreover have "join_work ?js l0 (drop kBLOCK_SIZE r0) ra = join_work js l0 r0 ra"
    proof -
      have "length (take kBLOCK_SIZE r0) * Suc (length (left_block js)) + length (drop kBLOCK_SIZE r0) * Suc (length (left_block js)) =
          length r0 * Suc (length (left_block js))"
        by (simp only: add_mult_distrib [symmetric] length_append [symmetric] append_take_drop_id)
      then show ?thesis using current_fresh(2) [of ?js] t li ne False by (simp add: join_work_def current_work_def)
    qed
    ultimately show ?thesis using run t k1(2) ne nonempty
      by (intro servedI [of _ _ ?js w1]) auto
  qed
qed

lemma join_step_inv:
  assumes "join_inv e w js l0 la r0 ra" and "left_block js \<noteq> []" and "right_it js < length (right_block js)"
  shows "left_it js < length (left_block js) \<Longrightarrow> join_inv e w (js\<lparr>left_it := Suc (left_it js)\<rparr>) l0 la r0 ra"
    "join_inv e w (js\<lparr>left_it := 0, right_it := Suc (right_it js)\<rparr>) l0 la r0 ra"
    "left_it js < length (left_block js) \<Longrightarrow>
      decides e (record_plus (left_block js ! left_it js) (right_block js ! right_it js))"
  using assms by (auto simp: join_inv_def join_decides_def)

text \<open>
  A round of the loop answers \<open>x\<close> (\<open>Some (Some rec)\<close> or the end, \<open>Some None\<close>) or goes on with less work;
  \<open>todo\<close> is what is left to answer before it.
\<close>

definition round_done :: "expression \<Rightarrow> 'p multiset \<Rightarrow> 'w \<Rightarrow> row list \<Rightarrow> row list \<Rightarrow> row list \<Rightarrow> nat
    \<Rightarrow> (nat \<Rightarrow> (row option \<times> 'o join_state) res \<times> 'w) \<Rightarrow> bool" where
  "round_done e P w la ra todo work run \<longleftrightarrow> (\<exists>js w' l1 r1. W (P + js_pins pins js) w' \<and> kept P w w' \<and>
     join_inv e w' js l1 la r1 ra \<and>
     ((\<forall>n. run n = (Inr (first todo, js), w')) \<and> join_rest e js l1 r1 ra = tl todo \<and> join_work js l1 r1 ra \<le> work \<or>
      (\<forall>n. run n = join_next n e nxt rst js w') \<and> join_rest e js l1 r1 ra = todo \<and> join_work js l1 r1 ra < work))"

lemma round_pair:
  assumes W: "W (P + js_pins pins js) w'" and k: "kept P w w'" and inv: "join_inv e w' js l1 la r1 ra"
    and S: "left_block js \<noteq> []" "right_it js < length (right_block js)"
    and todo: "join_rest e js l1 r1 ra = todo" and work: "join_work js l1 r1 ra \<le> work"
  defines "rec \<equiv> record_plus (left_block js ! left_it js) (right_block js ! right_it js)"
  shows "round_done e P w la ra todo work (\<lambda>n.
    (if left_it js < length (left_block js) then
       and_then (lift (predicate_holds e rec)) (\<lambda>holds.
         if holds then ret (Some rec, js\<lparr>left_it := Suc (left_it js)\<rparr>) else join_next n e nxt rst (js\<lparr>left_it := Suc (left_it js)\<rparr>))
    else join_next n e nxt rst (js\<lparr>left_it := 0, right_it := Suc (right_it js)\<rparr>)) w')"
proof (cases "left_it js < length (left_block js)")
  case False
  let ?js = "js\<lparr>left_it := 0, right_it := Suc (right_it js)\<rparr>"
  have eq: "left_it js = length (left_block js)" using inv False by (simp add: join_inv_def)
  note E = pair_end [OF S eq]
  show ?thesis unfolding round_done_def
    by (rule exI [of _ ?js], rule exI [of _ w'], rule exI [of _ l1], rule exI [of _ r1])
       (use False W k join_step_inv(2) [OF inv S] E(1) [of e l1 r1 ra] E(2) [of l1 r1 ra] todo work in \<open>simp add: js_pins_def\<close>)
next
  case True
  let ?js = "js\<lparr>left_it := Suc (left_it js)\<rparr>"
  note R = pair_round [OF S True]
  have "predicate_holds e rec = Inr (holds e rec)" using decidesD join_step_inv(3) [OF inv S True] unfolding rec_def .
  moreover have "todo = (if holds e rec then [rec] else []) @ join_rest e ?js l1 r1 ra"
    using R(1) [of e l1 r1 ra] todo by (simp add: rec_def)
  ultimately show ?thesis unfolding round_done_def
    by (intro exI [of _ ?js] exI [of _ w'] exI [of _ l1] exI [of _ r1])
       (use True W k join_step_inv(1) [OF inv S True] R(2) [of l1 r1 ra] work in \<open>simp add: js_pins_def\<close>)
qed

lemma round_loads:
  assumes W: "W (P + js_pins pins js) w" and inv: "join_inv e w js l0 la r0 ra" and lb: "left_block js \<noteq> [] \<or> l0 \<noteq> []"
  obtains blocks js' w' l1 r1 where
    "\<And>n. join_next (Suc n) e nxt rst js w = (if \<not> blocks then join_next n e nxt rst js'
      else if left_it js' < length (left_block js') then
        and_then (lift (predicate_holds e (record_plus (left_block js' ! left_it js') (right_block js' ! right_it js')))) (\<lambda>holds.
          if holds then ret (Some (record_plus (left_block js' ! left_it js') (right_block js' ! right_it js')), js'\<lparr>left_it := Suc (left_it js')\<rparr>)
          else join_next n e nxt rst (js'\<lparr>left_it := Suc (left_it js')\<rparr>))
      else join_next n e nxt rst (js'\<lparr>left_it := 0, right_it := Suc (right_it js')\<rparr>)) w'"
    "W (P + js_pins pins js') w'" "kept P w w'" "join_inv e w' js' l1 la r1 ra"
    "join_rest e js' l1 r1 ra = join_rest e js l0 r0 ra"
    "if blocks then left_block js' \<noteq> [] \<and> right_it js' < length (right_block js') \<and> join_work js' l1 r1 ra \<le> join_work js l0 r0 ra
      else join_work js' l1 r1 ra < join_work js l0 r0 ra"
proof -
  obtain js1 w1 l1 r1 where j1: "load_left nxt rst js w = (Inr (True, js1), w1)"
    "W (P + js_pins pins js1) w1" "kept P w w1" "join_inv e w1 js1 l1 la r1 ra"
    "join_rest e js1 l1 r1 ra = join_rest e js l0 r0 ra" "join_work js1 l1 r1 ra \<le> join_work js l0 r0 ra" "left_block js1 \<noteq> []"
    using load_left_ok [OF W inv] lb by (auto simp: served_def)
  let ?blocks = "right_it js1 < length (right_block js1) \<or> r1 \<noteq> []"
  obtain js2 w2 r2 where j2: "load_right nxt js1 w1 = (Inr (?blocks, js2), w2)"
    "W (P + js_pins pins js2) w2" "kept P w1 w2" "join_inv e w2 js2 l1 la r2 ra"
    "join_rest e js2 l1 r2 ra = join_rest e js1 l1 r1 ra"
    "if ?blocks then left_block js2 \<noteq> [] \<and> right_it js2 < length (right_block js2) \<and> join_work js2 l1 r2 ra \<le> join_work js1 l1 r1 ra
      else join_work js2 l1 r2 ra < join_work js1 l1 r1 ra"
    using load_right_ok [OF j1(2,4,7)] by (auto simp: served_def)
  show thesis
    by (rule that [of ?blocks js2 w2 l1 r2])
       (use j1 j2 kept_trans [OF j1(3) j2(3)] in
        \<open>auto simp: and_then_Inr [of "load_left nxt rst js" w, OF j1(1)] and_then_Inr [of "load_right nxt js1" w1, OF j2(1)] Let_def split: if_splits\<close>)
qed

lemma join_round:
  assumes W: "W (P + js_pins pins js) w" and inv: "join_inv e w js l0 la r0 ra"
  shows "round_done e P w la ra (join_rest e js l0 r0 ra) (join_work js l0 r0 ra) (\<lambda>n. join_next (Suc n) e nxt rst js w)"
proof (cases "left_block js \<noteq> [] \<or> l0 \<noteq> []")
  case False
  then obtain js1 w1 r1 where j1: "load_left nxt rst js w = (Inr (False, js1), w1)"
    "W (P + js_pins pins js1) w1" "kept P w w1" "join_inv e w1 js1 [] la r1 ra" "left_block js1 = []"
    using load_left_ok [OF W inv] by (auto simp: served_def)
  have "join_rest e js l0 r0 ra = []" using False by (simp add: join_rest_def)
  then show ?thesis unfolding round_done_def
    by (intro exI [of _ js1] exI [of _ w1] exI [of _ "[]"] exI [of _ r1])
       (use j1 in \<open>simp add: join_rest_def join_work_def and_then_Inr [of "load_left nxt rst js" w, OF j1(1)]\<close>)
next
  case True
  obtain blocks js' w' l1 r1 where
    run: "\<And>n. join_next (Suc n) e nxt rst js w = (if \<not> blocks then join_next n e nxt rst js'
      else if left_it js' < length (left_block js') then
        and_then (lift (predicate_holds e (record_plus (left_block js' ! left_it js') (right_block js' ! right_it js')))) (\<lambda>holds.
          if holds then ret (Some (record_plus (left_block js' ! left_it js') (right_block js' ! right_it js')), js'\<lparr>left_it := Suc (left_it js')\<rparr>)
          else join_next n e nxt rst (js'\<lparr>left_it := Suc (left_it js')\<rparr>))
      else join_next n e nxt rst (js'\<lparr>left_it := 0, right_it := Suc (right_it js')\<rparr>)) w'"
    and j: "W (P + js_pins pins js') w'" "kept P w w'" "join_inv e w' js' l1 la r1 ra"
      "join_rest e js' l1 r1 ra = join_rest e js l0 r0 ra"
    and m: "if blocks then left_block js' \<noteq> [] \<and> right_it js' < length (right_block js') \<and> join_work js' l1 r1 ra \<le> join_work js l0 r0 ra
      else join_work js' l1 r1 ra < join_work js l0 r0 ra" by (rule round_loads [OF W inv True]) (rule that, assumption+)
  show ?thesis
  proof (cases blocks)
    case False
    then show ?thesis unfolding round_done_def run
      by (intro exI [of _ js'] exI [of _ w'] exI [of _ l1] exI [of _ r1]) (use j m in simp)
  next
    case True
    with m round_pair [OF j(1-3) _ _ j(4), of "join_work js l0 r0 ra"] show ?thesis unfolding run by (simp split del: if_split cong: if_cong)
  qed
qed

lemma join_next_ok:
  "W (P + js_pins pins js) w \<Longrightarrow> join_inv e w js l0 la r0 ra \<Longrightarrow> join_work js l0 r0 ra < n \<Longrightarrow>
   served W kept (js_pins pins) P w (first (join_rest e js l0 r0 ra))
     (\<lambda>w' js'. \<exists>l1 r1. join_inv e w' js' l1 la r1 ra \<and> join_rest e js' l1 r1 ra = tl (join_rest e js l0 r0 ra) \<and>
        join_work js' l1 r1 ra \<le> join_work js l0 r0 ra)
     (join_next n e nxt rst js w)"
proof (induction n arbitrary: js w l0 r0)
  case (Suc n)
  let ?blocks = "join_rest e js l0 r0 ra" and ?work = "join_work js l0 r0 ra"
  from join_round [OF Suc.prems(1,2)] obtain js' w' l1 r1 where
    j: "W (P + js_pins pins js') w'" "kept P w w'" "join_inv e w' js' l1 la r1 ra" and
    alt: "join_next (Suc n) e nxt rst js w = (Inr (first ?blocks, js'), w') \<and> join_rest e js' l1 r1 ra = tl ?blocks \<and> join_work js' l1 r1 ra \<le> ?work \<or>
      join_next (Suc n) e nxt rst js w = join_next n e nxt rst js' w' \<and> join_rest e js' l1 r1 ra = ?blocks \<and> join_work js' l1 r1 ra < ?work"
    unfolding round_done_def by blast
  from alt show ?case
  proof (elim disjE conjE)
    assume "join_next (Suc n) e nxt rst js w = (Inr (first ?blocks, js'), w')" "join_rest e js' l1 r1 ra = tl ?blocks" "join_work js' l1 r1 ra \<le> ?work"
    then show ?thesis using j by (intro servedI [of _ _ js' w']) auto
  next
    assume a: "join_next (Suc n) e nxt rst js w = join_next n e nxt rst js' w'" "join_rest e js' l1 r1 ra = ?blocks" "join_work js' l1 r1 ra < ?work"
    then have "join_work js' l1 r1 ra < n" using Suc.prems(3) by simp
    from served_trans [OF j(2) Suc.IH [OF j(1,3) this]] show ?thesis
      unfolding a(1,2) by (rule served_mono) (use a(3) in fastforce)
  qed
qed simp

end

end
