(* ===== verification/Operator_Rows.thy ===== *)
theory Operator_Rows
  imports Join_Source Heap_Properties
begin

text \<open>
  The operators of the engine keep the contract of row sources over the world of tables: any number of
  scans may be open on the pool, as long as one frame is free and no other transaction holds a row
  exclusively.
\<close>

section \<open>The world of a query\<close>

abbreviation wpool :: "world \<Rightarrow> bpm" where
  "wpool w \<equiv> pool (tx_data w)"

definition world_ok :: "transaction_id option \<Rightarrow> page_id multiset \<Rightarrow> world \<Rightarrow> bool" where
  "world_ok tx P w \<longleftrightarrow> held {} P (wpool w) \<and> size P < pool_capacity (wpool w) \<and> lockable tx w"

definition pool_kept :: "page_id multiset \<Rightarrow> bpm \<Rightarrow> bpm \<Rightarrow> bool" where
  "pool_kept P b c \<longleftrightarrow> bpm_view c = bpm_view b \<and> bpm_pages c = bpm_pages b \<and> pool_shape c = pool_shape b \<and>
     (\<forall>p\<in>#P. page_table c p = page_table b p)"

definition world_kept :: "page_id multiset \<Rightarrow> world \<Rightarrow> world \<Rightarrow> bool" where
  "world_kept P w w' \<longleftrightarrow> pool_kept P (wpool w) (wpool w') \<and>
     tables (tx_data w') = tables (tx_data w) \<and> catalog_table (tx_data w') = catalog_table (tx_data w)"

lemma pool_kept_basic: "pool_kept P b b" "pool_kept P b c \<Longrightarrow> pool_kept P c d \<Longrightarrow> pool_kept P b d"
  "P \<subseteq># Q \<Longrightarrow> pool_kept Q b c \<Longrightarrow> pool_kept P b c"
  by (auto simp: pool_kept_def dest: mset_subset_eqD)

lemma world_kept_basic: "world_kept P w w" "world_kept P w w' \<Longrightarrow> world_kept P w' w'' \<Longrightarrow> world_kept P w w''"
  "P \<subseteq># Q \<Longrightarrow> world_kept Q w w' \<Longrightarrow> world_kept P w w'"
  using pool_kept_basic by (fastforce simp: world_kept_def)+

lemma pool_kept_capacity: "pool_kept P b c \<Longrightarrow> pool_capacity c = pool_capacity b"
  by (simp add: pool_kept_def pool_shape_def)

lemma pin_moved_kept: "pin_moved P b q c \<longleftrightarrow> held {} (add_mset q P) c \<and> pool_kept P b c"
  by (auto simp: pin_moved_def pool_kept_def)

lemma world_kept_put: "pool_kept P (wpool w) b \<Longrightarrow> world_kept P w (put_pool b w)"
  "world_kept P w (w\<lparr>locks := l\<rparr>)"
  by (simp_all add: world_kept_def pool_kept_basic)

section \<open>Rows of tables\<close>

definition decodes_to :: "schema \<Rightarrow> rid \<times> byte list \<Rightarrow> row \<Rightarrow> bool" where
  "decodes_to s x vs \<longleftrightarrow> (\<exists>t. tuple_deserialize (snd x) s = Inr t \<and> tvalues t = vs)"

definition scan_yields :: "bpm \<Rightarrow> table_scan \<Rightarrow> row list \<Rightarrow> bool" where
  "scan_yields b sc rows \<longleftrightarrow> (\<exists>qs. scan_ready b (ts_heap sc) qs \<and>
     list_all2 (decodes_to (ts_schema sc)) (scan_rows b (ts_heap sc) qs) rows)"

text \<open>The table has the rows \<open>rows\<close>, in scan order.\<close>

definition table_rows :: "bpm \<Rightarrow> table \<Rightarrow> row list \<Rightarrow> bool" where
  "table_rows b tb rows \<longleftrightarrow> (\<exists>ps. heap_pages (bpm_view b) (bpm_pages b) (table_first_page tb) ps \<and>
     list_all2 (decodes_to (table_schema tb)) (rows_from (bpm_view b) ps 0) rows)"

lemma scan_yields_kept: "pool_kept P b c \<Longrightarrow> scan_pid (ts_heap sc) \<in># P \<Longrightarrow> scan_yields b sc rows \<Longrightarrow> scan_yields c sc rows"
  by (auto simp: scan_yields_def pool_kept_def scan_ready_def scan_rows_def)

lemma table_rows_kept: "pool_kept P b c \<Longrightarrow> table_rows b tb rows \<Longrightarrow> table_rows c tb rows"
  by (auto simp: table_rows_def pool_kept_def)

section \<open>Table scans\<close>

lemma table_scan_open_ok:
  assumes W: "world_ok tx P w" and rows: "table_rows (wpool w) tb rows"
  shows "\<exists>sc w'. table_scan_open tb tx w = (Inr sc, w') \<and> held {} (add_mset (scan_pid (ts_heap sc)) P) (wpool w') \<and>
    lockable tx w' \<and> world_kept P w w' \<and> ts_tx sc = tx \<and> ts_schema sc = table_schema tb \<and> scan_yields (wpool w') sc rows"
proof -
  obtain ps where ps: "heap_pages (bpm_view (wpool w)) (bpm_pages (wpool w)) (table_first_page tb) ps"
    "list_all2 (decodes_to (table_schema tb)) (rows_from (bpm_view (wpool w)) ps 0) rows"
    using rows by (auto simp: table_rows_def)
  obtain qs where qs: "ps = table_first_page tb # qs" using ps(1) by (cases ps) (auto simp: heap_pages_def)
  have h: "held {} P (wpool w)" "size P < pool_capacity (wpool w)" using W by (simp_all add: world_ok_def)
  obtain h' c where c: "heap_scan_open (table_first_page tb) (wpool w) = (Inr h', c)" "scan_pid h' = table_first_page tb"
    "pin_moved P (wpool w) (table_first_page tb) c" "scan_ready c h' qs"
    "scan_rows c h' qs = rows_from (bpm_view (wpool w)) ps 0"
    using heap_scan_open_ok [OF h, of "table_first_page tb" qs] ps(1) qs by auto
  let ?sc = "\<lparr>ts_heap = h', ts_schema = table_schema tb, ts_tx = tx\<rparr>"
  have "table_scan_open tb tx w = (Inr ?sc, put_pool c w)"
    using on_pool_run [of "heap_scan_open (table_first_page tb)" w, OF c(1)]
    by (simp add: table_scan_open_def and_then_Inr [of "on_pool (heap_scan_open (table_first_page tb))" w])
  moreover have "lockable tx (put_pool c w)" using W by (simp add: world_ok_def lockable_def)
  moreover have "scan_yields c ?sc rows" using c(4,5) ps(2) by (auto simp: scan_yields_def)
  ultimately show ?thesis using c(2,3) world_kept_put(1) [of P w c] by (auto simp: pin_moved_kept)
qed

lemma table_scan_close_ok:
  assumes h: "held {} (add_mset (scan_pid (ts_heap sc)) P) (wpool w)" and y: "scan_yields (wpool w) sc rows"
  shows "\<exists>w'. table_scan_close sc w = (Inr (), w') \<and> held {} P (wpool w') \<and> world_kept Q w w' \<and> locks w' = locks w"
proof -
  obtain qs where "scan_ready (wpool w) (ts_heap sc) qs" using y by (auto simp: scan_yields_def)
  from heap_scan_close_ok [OF h this] obtain c where c: "heap_scan_close (ts_heap sc) (wpool w) = (Inr (), c)"
    "held {} P c" "bpm_view c = bpm_view (wpool w)" "same_pool (wpool w) c" by blast
  have "pool_kept Q (wpool w) c" using c(3,4) by (simp add: pool_kept_def same_pool_def pool_shape_def)
  then show ?thesis using c(1,2) world_kept_put(1) by (simp add: table_scan_close_def on_pool_run)
qed

definition scan_pins :: "table_scan \<Rightarrow> page_id multiset" where
  "scan_pins sc = {#scan_pid (ts_heap sc)#}"

lemma seq_scan_next_ok:
  assumes W: "world_ok tx (P + scan_pins sc) w" and y: "scan_yields (wpool w) sc rows" and t: "ts_tx sc = tx"
  shows "served (world_ok tx) world_kept scan_pins P w (first rows)
    (\<lambda>w' sc'. scan_yields (wpool w') sc' (tl rows) \<and> ts_tx sc' = tx \<and> ts_schema sc' = ts_schema sc) (seq_scan_next sc w)"
proof -
  let ?h = "ts_heap sc"
  obtain l where l: "tx_lock lock_shared (ts_tx sc) (scan_rid ?h) w = (Inr True, w\<lparr>locks := l\<rparr>)" "lockable tx (w\<lparr>locks := l\<rparr>)"
    using tx_lock_shared_ok [of tx w "scan_rid ?h"] W t by (auto simp: world_ok_def)
  obtain qs where qs: "scan_ready (wpool w) ?h qs" "list_all2 (decodes_to (ts_schema sc)) (scan_rows (wpool w) ?h qs) rows"
    using y by (auto simp: scan_yields_def)
  have h: "held {} (add_mset (scan_pid ?h) P) (wpool w)" using W by (simp add: world_ok_def scan_pins_def)
  obtain h' c qs' where c: "heap_scan_next ?h (wpool w) = (Inr (first (scan_rows (wpool w) ?h qs), h'), c)"
    "pin_moved P (wpool w) (scan_pid h') c" "scan_ready c h' qs'" "scan_rows c h' qs' = tl (scan_rows (wpool w) ?h qs)"
    using heap_scan_next_ok [OF h qs(1)] unfolding stepped_def first_def by blast
  let ?sc = "sc\<lparr>ts_heap := h'\<rparr>" and ?w = "put_pool c (w\<lparr>locks := l\<rparr>)"
  have kept: "pool_kept P (wpool w) c" and h': "held {} (add_mset (scan_pid h') P) c" using c(2) by (simp_all add: pin_moved_kept)
  have op: "on_pool (heap_scan_next ?h) (w\<lparr>locks := l\<rparr>) = (Inr (first (scan_rows (wpool w) ?h qs), h'), ?w)"
    using c(1) by (intro on_pool_run) simp
  have run: "seq_scan_next sc w = (Inr (first rows, ?sc), ?w)"
  proof (cases "scan_rows (wpool w) ?h qs")
    case Nil
    then show ?thesis using qs(2) op
      by (simp add: seq_scan_next_def table_scan_next_def and_then_Inr [of "tx_lock _ _ _" w, OF l(1)] and_then_assoc
          and_then_Inr [of "on_pool _"])
  next
    case (Cons x xs)
    then obtain r bytes t ys where x: "x = (r, bytes)" "tuple_deserialize bytes (ts_schema sc) = Inr t" "rows = tvalues t # ys"
      using qs(2) by (cases x) (auto simp: decodes_to_def list_all2_Cons1)
    then show ?thesis using op Cons
      by (simp add: seq_scan_next_def table_scan_next_def and_then_Inr [of "tx_lock _ _ _" w, OF l(1)] and_then_assoc
          and_then_Inr [of "on_pool _"])
  qed
  have "list_all2 (decodes_to (ts_schema sc)) (tl (scan_rows (wpool w) ?h qs)) (tl rows)"
    using qs(2) by (cases rule: list.rel_cases) simp_all
  then have "scan_yields c ?sc (tl rows)" using c(3,4) by (auto simp: scan_yields_def)
  moreover have "world_ok tx (P + scan_pins ?sc) ?w"
    using W h' l(2) pool_kept_capacity [OF kept] by (simp add: world_ok_def scan_pins_def lockable_def)
  moreover have "world_kept P w ?w"
    using kept by (simp add: world_kept_def)
  ultimately show ?thesis using run t by (intro servedI [of _ _ ?sc ?w]) simp_all
qed

section \<open>Operators\<close>

fun op_pins :: "oper \<Rightarrow> page_id multiset" where
  "op_pins (SequentialScanOperator tb tx sc) = scan_pins sc"
| "op_pins (FilterOperator c e) = op_pins c"
| "op_pins (NestedLoopJoin l r e s lb rb li ri) = op_pins l + op_pins r"
| "op_pins (ProjectionOperator c cols s) = op_pins c"
| "op_pins (LimitOperator c limit produced) = op_pins c"

text \<open>
  \<open>yields k tx w c rs all\<close>: the operator answers \<open>rs\<close> from now on, and \<open>all\<close> after a reset; no predicate
  fails on a record it meets, and \<open>k\<close> rounds are enough for each of its loops.
\<close>

fun yields :: "nat \<Rightarrow> transaction_id option \<Rightarrow> world \<Rightarrow> oper \<Rightarrow> row list \<Rightarrow> row list \<Rightarrow> bool" where
  "yields k tx w (SequentialScanOperator tb tx' sc) rs all \<longleftrightarrow>
     tx' = tx \<and> ts_tx sc = tx \<and> ts_schema sc = table_schema tb \<and> scan_yields (wpool w) sc rs \<and> table_rows (wpool w) tb all"
| "yields k tx w (FilterOperator c e) rs all \<longleftrightarrow>
     (\<exists>r0 a0. yields k tx w c r0 a0 \<and> rs = filter (holds e) r0 \<and> all = filter (holds e) a0 \<and>
        (\<forall>r\<in>set r0 \<union> set a0. decides e r) \<and> length r0 < k \<and> length a0 < k)"
| "yields k tx w (NestedLoopJoin l r e s lb rb li ri) rs all \<longleftrightarrow>
     (\<exists>l0 la r0 ra. yields k tx w l l0 la \<and> yields k tx w r r0 ra \<and>
        li \<le> length lb \<and> length lb \<le> kBLOCK_SIZE \<and> (ri < length rb \<or> li = 0) \<and>
        join_decides e (set lb \<union> set l0) (set rb \<union> set r0 \<union> set ra) \<and> join_decides e (set la) (set ra) \<and>
        rs = join_rest e \<lparr>js_left = l, js_right = r, left_block = lb, right_block = rb, left_it = li, right_it = ri\<rparr> l0 r0 ra \<and>
        all = join_rows e la ra \<and>
        join_work \<lparr>js_left = l, js_right = r, left_block = lb, right_block = rb, left_it = li, right_it = ri\<rparr> l0 r0 ra < k \<and>
        length la * Suc (length ra * Suc kBLOCK_SIZE) < k)"
| "yields k tx w (ProjectionOperator c cols s) rs all \<longleftrightarrow>
     (\<exists>r0 a0. yields k tx w c r0 a0 \<and> rs = map (\<lambda>r. map ((!) r) cols) r0 \<and> all = map (\<lambda>r. map ((!) r) cols) a0 \<and>
        (\<forall>r\<in>set r0 \<union> set a0. \<forall>i\<in>set cols. i < length r))"
| "yields k tx w (LimitOperator c limit produced) rs all \<longleftrightarrow>
     (\<exists>r0 a0. yields k tx w c r0 a0 \<and> rs = take (limit - produced) r0 \<and> all = take limit a0)"

lemma yields_kept: "world_kept (op_pins c) w w' \<Longrightarrow> yields k tx w c rs all \<Longrightarrow> yields k tx w' c rs all"
proof (induction c arbitrary: rs all)
  case (SequentialScanOperator tb tx' sc)
  then have "pool_kept (scan_pins sc) (wpool w) (wpool w')" by (simp add: world_kept_def)
  with SequentialScanOperator.prems(2) show ?case
    by (auto simp: scan_pins_def intro: scan_yields_kept table_rows_kept)
next
  case (NestedLoopJoin l r e s lb rb li ri)
  have "world_kept (op_pins l) w w'" "world_kept (op_pins r) w w'"
    using NestedLoopJoin.prems(1) world_kept_basic(3) [of "op_pins l" "op_pins l + op_pins r"]
      world_kept_basic(3) [of "op_pins r" "op_pins l + op_pins r"] by simp_all
  with NestedLoopJoin.IH NestedLoopJoin.prems(2) show ?case by (simp only: yields.simps) blast
qed (simp only: yields.simps op_pins.simps; blast)+

lemma yields_beside:
  assumes "world_kept (P + op_pins c) w w'" and "yields k tx w c rs all"
  shows "yields k tx w' c rs all" "world_kept P w w'"
  using assms yields_kept [of c w w'] world_kept_basic(3) [of "op_pins c" "P + op_pins c" w w']
    world_kept_basic(3) [of P "P + op_pins c" w w'] by auto

section \<open>Reset\<close>

definition reset_done :: "nat \<Rightarrow> transaction_id option \<Rightarrow> page_id multiset \<Rightarrow> world \<Rightarrow> oper \<Rightarrow> row list \<Rightarrow> bool" where
  "reset_done k tx P w c all \<longleftrightarrow> (\<exists>c' w'. op_reset c w = (Inr c', w') \<and> world_ok tx (P + op_pins c') w' \<and> world_kept P w w' \<and>
     op_depth c' = op_depth c \<and> yields k tx w' c' all all)"

lemma scan_reset_ok:
  assumes W: "world_ok tx (P + scan_pins sc) w" and y: "yields k tx w (SequentialScanOperator tb tx' sc) rs all"
  shows "reset_done k tx P w (SequentialScanOperator tb tx' sc) all"
proof -
  have tx: "tx' = tx" and sy: "scan_yields (wpool w) sc rs" and tr: "table_rows (wpool w) tb all" using y by simp_all
  obtain fresh w1 where o: "table_scan_open tb tx w = (Inr fresh, w1)"
    "held {} (add_mset (scan_pid (ts_heap fresh)) (P + scan_pins sc)) (wpool w1)" "lockable tx w1" "world_kept (P + scan_pins sc) w w1"
    "ts_tx fresh = tx" "ts_schema fresh = table_schema tb" "scan_yields (wpool w1) fresh all"
    using table_scan_open_ok [OF W tr] by blast
  have k1: "pool_kept (P + scan_pins sc) (wpool w) (wpool w1)" using o(4) by (simp add: world_kept_def)
  have sy1: "scan_yields (wpool w1) sc rs" using scan_yields_kept [OF k1 _ sy] by (simp add: scan_pins_def)
  have "held {} (add_mset (scan_pid (ts_heap sc)) (add_mset (scan_pid (ts_heap fresh)) P)) (wpool w1)"
    using o(2) by (simp add: scan_pins_def add_mset_commute)
  from table_scan_close_ok [OF this sy1, of "P + scan_pins fresh"] obtain w2 where
    c: "table_scan_close sc w1 = (Inr (), w2)" "held {} (add_mset (scan_pid (ts_heap fresh)) P) (wpool w2)"
    "world_kept (P + scan_pins fresh) w1 w2" "locks w2 = locks w1" by blast
  have k2: "pool_kept (P + scan_pins fresh) (wpool w1) (wpool w2)" using c(3) by (simp add: world_kept_def)
  have run: "op_reset (SequentialScanOperator tb tx' sc) w = (Inr (SequentialScanOperator tb tx fresh), w2)"
    using tx by (simp add: and_then_Inr [of "table_scan_open tb tx" w, OF o(1)] and_then_Inr [of "table_scan_close sc" w1, OF c(1)])
  have "world_ok tx (P + op_pins (SequentialScanOperator tb tx fresh)) w2"
    using W c(2,4) o(3) pool_kept_capacity [OF k1] pool_kept_capacity [OF k2] by (simp add: world_ok_def scan_pins_def lockable_def)
  moreover have "world_kept P w w2"
    using world_kept_basic(3) [OF _ o(4), of P] world_kept_basic(3) [OF _ c(3), of P] world_kept_basic(2) by fastforce
  moreover have "yields k tx w2 (SequentialScanOperator tb tx fresh) all all"
    using o(5,6) scan_yields_kept [OF k2 _ o(7)] table_rows_kept [OF k2 table_rows_kept [OF k1 tr]] by (simp add: scan_pins_def)
  ultimately show ?thesis using run unfolding reset_done_def by auto
qed

lemma op_reset_ok:
  "world_ok tx (P + op_pins c) w \<Longrightarrow> yields k tx w c rs all \<Longrightarrow> reset_done k tx P w c all"
proof (induction c arbitrary: P w rs all)
  case (SequentialScanOperator tb tx' sc)
  have "world_ok tx (P + scan_pins sc) w" using SequentialScanOperator.prems(1) by simp
  from scan_reset_ok [OF this SequentialScanOperator.prems(2)] show ?case .
next
  case (FilterOperator c e)
  then obtain r0 a0 where c: "yields k tx w c r0 a0" "all = filter (holds e) a0" "\<forall>r\<in>set a0. decides e r" "length a0 < k" by auto
  have "world_ok tx (P + op_pins c) w" using FilterOperator.prems(1) by simp
  from FilterOperator.IH [OF this c(1)] obtain c' w' where "op_reset c w = (Inr c', w')" "world_ok tx (P + op_pins c') w'"
    "world_kept P w w'" "op_depth c' = op_depth c" "yields k tx w' c' a0 a0" unfolding reset_done_def by blast
  then show ?case using c unfolding reset_done_def by (auto simp: and_then_Inr [of "op_reset c" w])
next
  case (NestedLoopJoin l r e s lb rb li ri)
  then obtain l0 la r0 ra where y: "yields k tx w l l0 la" "yields k tx w r r0 ra" "join_decides e (set la) (set ra)"
    "all = join_rows e la ra" "length la * Suc (length ra * Suc kBLOCK_SIZE) < k" by auto
  have "world_ok tx ((P + op_pins r) + op_pins l) w" using NestedLoopJoin.prems(1) by (simp add: ac_simps)
  from NestedLoopJoin.IH(1) [OF this y(1)] obtain l' w1 where l: "op_reset l w = (Inr l', w1)"
    "world_ok tx ((P + op_pins r) + op_pins l') w1" "world_kept (P + op_pins r) w w1" "op_depth l' = op_depth l"
    "yields k tx w1 l' la la" unfolding reset_done_def by blast
  have yr: "yields k tx w1 r r0 ra" "world_kept P w w1" using yields_beside [OF l(3) y(2)] .
  have "world_ok tx ((P + op_pins l') + op_pins r) w1" using l(2) by (simp add: ac_simps)
  from NestedLoopJoin.IH(2) [OF this yr(1)] obtain r' w2 where r: "op_reset r w1 = (Inr r', w2)"
    "world_ok tx ((P + op_pins l') + op_pins r') w2" "world_kept (P + op_pins l') w1 w2" "op_depth r' = op_depth r"
    "yields k tx w2 r' ra ra" unfolding reset_done_def by blast
  have yl: "yields k tx w2 l' la la" "world_kept P w1 w2" using yields_beside [OF r(3) l(5)] .
  let ?j = "NestedLoopJoin l' r' e s [] [] 0 0"
  have "op_reset (NestedLoopJoin l r e s lb rb li ri) w = (Inr ?j, w2)"
    by (simp add: and_then_Inr [of "op_reset l" w, OF l(1)] and_then_Inr [of "op_reset r" w1, OF r(1)])
  moreover have "yields k tx w2 ?j all all"
    unfolding yields.simps
    by (rule exI [of _ la], rule exI [of _ la], rule exI [of _ ra], rule exI [of _ ra])
       (use yl(1) r(5) y in \<open>simp add: join_rest_def join_work_def\<close>)
  moreover have "world_ok tx (P + op_pins ?j) w2" using r(2) by (simp add: ac_simps)
  moreover have "op_depth ?j = op_depth (NestedLoopJoin l r e s lb rb li ri)" using r(4) l(4) by simp
  ultimately show ?case using world_kept_basic(2) [OF yr(2) yl(2)] unfolding reset_done_def by blast
next
  case (ProjectionOperator c cols s)
  then obtain r0 a0 where c: "yields k tx w c r0 a0" "all = map (\<lambda>r. map ((!) r) cols) a0" "\<forall>r\<in>set a0. \<forall>i\<in>set cols. i < length r" by auto
  have "world_ok tx (P + op_pins c) w" using ProjectionOperator.prems(1) by simp
  from ProjectionOperator.IH [OF this c(1)] obtain c' w' where "op_reset c w = (Inr c', w')" "world_ok tx (P + op_pins c') w'"
    "world_kept P w w'" "op_depth c' = op_depth c" "yields k tx w' c' a0 a0" unfolding reset_done_def by blast
  then show ?case using c unfolding reset_done_def by (auto simp: and_then_Inr [of "op_reset c" w])
next
  case (LimitOperator c limit produced)
  then obtain r0 a0 where c: "yields k tx w c r0 a0" "all = take limit a0" by auto
  have "world_ok tx (P + op_pins c) w" using LimitOperator.prems(1) by simp
  from LimitOperator.IH [OF this c(1)] obtain c' w' where "op_reset c w = (Inr c', w')" "world_ok tx (P + op_pins c') w'"
    "world_kept P w w'" "op_depth c' = op_depth c" "yields k tx w' c' a0 a0" unfolding reset_done_def by blast
  then show ?case using c unfolding reset_done_def by (auto simp: and_then_Inr [of "op_reset c" w])
qed

section \<open>Next\<close>

abbreviation op_source :: "nat \<Rightarrow> transaction_id option \<Rightarrow> nat \<Rightarrow> bool" where
  "op_source k tx d \<equiv> row_source (\<lambda>c. op_next k d c) op_reset op_pins (world_ok tx) world_kept
     (\<lambda>w c rs all. op_depth c \<le> d \<and> yields k tx w c rs all)"

definition next_done :: "nat \<Rightarrow> transaction_id option \<Rightarrow> nat \<Rightarrow> page_id multiset \<Rightarrow> world \<Rightarrow> oper \<Rightarrow> row list \<Rightarrow> row list \<Rightarrow> bool" where
  "next_done k tx d P w c rs all \<longleftrightarrow> served (world_ok tx) world_kept op_pins P w (first rs)
     (\<lambda>w' c'. op_depth c' \<le> d \<and> yields k tx w' c' (tl rs) all) (op_next k d c w)"

lemma next_doneI:
  "op_next k d c w = (Inr (first rs, c'), w') \<Longrightarrow> world_ok tx (P + op_pins c') w' \<Longrightarrow> world_kept P w w' \<Longrightarrow>
   op_depth c' \<le> d \<Longrightarrow> yields k tx w' c' (tl rs) all \<Longrightarrow> next_done k tx d P w c rs all"
  unfolding next_done_def by (rule servedI) auto

lemma op_depth_pos [simp]: "0 < op_depth c" "op_depth c \<noteq> 0"
  by (cases c; simp)+

lemma next_scan:
  assumes W: "world_ok tx (P + op_pins (SequentialScanOperator tb tx' sc)) w"
    and y: "yields k tx w (SequentialScanOperator tb tx' sc) rs all"
  shows "next_done k tx (Suc d) P w (SequentialScanOperator tb tx' sc) rs all"
proof -
  have tx: "tx' = tx" "ts_tx sc = tx" "ts_schema sc = table_schema tb" and sy: "scan_yields (wpool w) sc rs"
    and tr: "table_rows (wpool w) tb all" using y by simp_all
  have "world_ok tx (P + scan_pins sc) w" using W by simp
  from seq_scan_next_ok [OF this sy tx(2)] obtain sc' w' where s: "seq_scan_next sc w = (Inr (first rs, sc'), w')"
    "world_ok tx (P + scan_pins sc') w'" "world_kept P w w'" "scan_yields (wpool w') sc' (tl rs)" "ts_tx sc' = tx" "ts_schema sc' = ts_schema sc"
    by (auto simp: served_def)
  have "pool_kept P (wpool w) (wpool w')" using s(3) by (simp add: world_kept_def)
  from table_rows_kept [OF this tr] show ?thesis
    using s tx by (intro next_doneI [of _ _ _ _ _ "SequentialScanOperator tb tx' sc'" w']) (simp_all add: and_then_Inr [of "seq_scan_next sc" w, OF s(1)])
qed

lemma next_filter:
  assumes S: "op_source k tx d" and W: "world_ok tx (P + op_pins (FilterOperator c e)) w"
    and d: "op_depth (FilterOperator c e) \<le> Suc d" and y: "yields k tx w (FilterOperator c e) rs all"
  shows "next_done k tx (Suc d) P w (FilterOperator c e) rs all"
proof -
  obtain r0 a0 where c: "yields k tx w c r0 a0" "rs = filter (holds e) r0" "all = filter (holds e) a0"
    "\<forall>r\<in>set r0 \<union> set a0. decides e r" "length r0 < k" "length a0 < k" using y by auto
  have "world_ok tx (P + op_pins c) w" "op_depth c \<le> d \<and> yields k tx w c r0 a0" "\<forall>r\<in>set r0. decides e r"
    using W d c by simp_all
  from row_source.filter_next_ok [OF S this c(5)] obtain c' w' r1 where
    f: "filter_next k e (\<lambda>c. op_next k d c) c w = (Inr (first (filter (holds e) r0), c'), w')" "world_ok tx (P + op_pins c') w'"
      "world_kept P w w'" "op_depth c' \<le> d" "yields k tx w' c' r1 a0" "filter (holds e) r1 = tl (filter (holds e) r0)"
      "set r1 \<subseteq> set r0" "length r1 \<le> length r0"
    unfolding served_def by blast
  have "yields k tx w' (FilterOperator c' e) (tl rs) all"
    unfolding yields.simps by (rule exI [of _ r1], rule exI [of _ a0]) (use f(5-8) c in auto)
  then show ?thesis
    using f c(2) by (intro next_doneI [of _ _ _ _ _ "FilterOperator c' e" w'])
      (simp_all add: and_then_Inr [of "filter_next k e (\<lambda>c. op_next k d c) c" w, OF f(1)])
qed

lemma next_projection:
  assumes S: "op_source k tx d" and W: "world_ok tx (P + op_pins (ProjectionOperator c cols s)) w"
    and d: "op_depth (ProjectionOperator c cols s) \<le> Suc d" and y: "yields k tx w (ProjectionOperator c cols s) rs all"
  shows "next_done k tx (Suc d) P w (ProjectionOperator c cols s) rs all"
proof -
  obtain r0 a0 where c: "yields k tx w c r0 a0" "rs = map (\<lambda>r. map ((!) r) cols) r0" "all = map (\<lambda>r. map ((!) r) cols) a0"
    "\<forall>r\<in>set r0 \<union> set a0. \<forall>i\<in>set cols. i < length r" using y by auto
  have "world_ok tx (P + op_pins c) w" "op_depth c \<le> d \<and> yields k tx w c r0 a0" "\<forall>r\<in>set r0. \<forall>i\<in>set cols. i < length r"
    using W d c by simp_all
  from row_source.projection_next_ok [OF S this] obtain c' w' where
    f: "projection_next cols (\<lambda>c. op_next k d c) c w = (Inr (first rs, c'), w')" "world_ok tx (P + op_pins c') w'"
      "world_kept P w w'" "op_depth c' \<le> d" "yields k tx w' c' (tl r0) a0"
    unfolding served_def c(2) by blast
  have "yields k tx w' (ProjectionOperator c' cols s) (tl rs) all"
    unfolding yields.simps
    by (rule exI [of _ "tl r0"], rule exI [of _ a0]) (use f(5) c(2-4) in \<open>cases r0; auto\<close>)
  then show ?thesis
    using f by (intro next_doneI [of _ _ _ _ _ "ProjectionOperator c' cols s" w'])
      (simp_all add: and_then_Inr [of "projection_next cols (\<lambda>c. op_next k d c) c" w, OF f(1)])
qed

lemma next_limit:
  assumes S: "op_source k tx d" and W: "world_ok tx (P + op_pins (LimitOperator c limit p)) w"
    and d: "op_depth (LimitOperator c limit p) \<le> Suc d" and y: "yields k tx w (LimitOperator c limit p) rs all"
  shows "next_done k tx (Suc d) P w (LimitOperator c limit p) rs all"
proof -
  obtain r0 a0 where c: "yields k tx w c r0 a0" "rs = take (limit - p) r0" "all = take limit a0" using y by auto
  have "world_ok tx (P + op_pins c) w" "op_depth c \<le> d \<and> yields k tx w c r0 a0" using W d c by simp_all
  from row_source.limit_next_ok [OF S this, of limit p] obtain c' p' w' r1 where
    f: "limit_next limit p (\<lambda>c. op_next k d c) c w = (Inr (first rs, (c', p')), w')" "world_ok tx (P + op_pins c') w'"
      "world_kept P w w'" "op_depth c' \<le> d" "yields k tx w' c' r1 a0" "take (limit - p') r1 = tl rs"
    unfolding served_def c(2) by fastforce
  moreover have "yields k tx w' (LimitOperator c' limit p') (tl rs) all"
    unfolding yields.simps by (rule exI [of _ r1], rule exI [of _ a0]) (use f(5,6) c(3) in simp)
  ultimately show ?thesis
    by (intro next_doneI [of _ _ _ _ _ "LimitOperator c' limit p'" w'])
      (simp_all add: and_then_Inr [of "limit_next limit p (\<lambda>c. op_next k d c) c" w, OF f(1)])
qed

lemma next_join:
  assumes S: "op_source k tx d" and W: "world_ok tx (P + op_pins (NestedLoopJoin l r e s lb rb li ri)) w"
    and d: "op_depth (NestedLoopJoin l r e s lb rb li ri) \<le> Suc d" and y: "yields k tx w (NestedLoopJoin l r e s lb rb li ri) rs all"
  shows "next_done k tx (Suc d) P w (NestedLoopJoin l r e s lb rb li ri) rs all"
proof -
  let ?js = "\<lparr>js_left = l, js_right = r, left_block = lb, right_block = rb, left_it = li, right_it = ri\<rparr>"
  let ?Y = "\<lambda>w c rs all. op_depth c \<le> d \<and> yields k tx w c rs all"
  note J = row_source.join_inv_def [OF S]
  obtain l0 la r0 ra where c: "yields k tx w l l0 la" "yields k tx w r r0 ra" "rs = join_rest e ?js l0 r0 ra" "all = join_rows e la ra"
    "join_decides e (set la) (set ra)" "join_work ?js l0 r0 ra < k" "length la * Suc (length ra * Suc kBLOCK_SIZE) < k"
    and inv: "row_source.join_inv ?Y e w ?js l0 la r0 ra"
    using y d unfolding J by auto
  have "world_ok tx (P + js_pins op_pins ?js) w" using W by (simp add: js_pins_def ac_simps)
  from row_source.join_next_ok [OF S this inv c(6)] obtain js' w' l1 r1 where
    f: "join_next k e (\<lambda>c. op_next k d c) op_reset ?js w = (Inr (first rs, js'), w')" "world_ok tx (P + js_pins op_pins js') w'"
      "world_kept P w w'" "row_source.join_inv ?Y e w' js' l1 la r1 ra" "join_rest e js' l1 r1 ra = tl rs"
      "join_work js' l1 r1 ra \<le> join_work ?js l0 r0 ra"
    unfolding served_def c(3) [symmetric] by blast
  let ?j = "NestedLoopJoin (js_left js') (js_right js') e s (left_block js') (right_block js') (left_it js') (right_it js')"
  have js: "\<lparr>js_left = js_left js', js_right = js_right js', left_block = left_block js', right_block = right_block js',
      left_it = left_it js', right_it = right_it js'\<rparr> = js'" by (cases js') simp
  have "op_depth ?j \<le> Suc d" using f(4) unfolding J by simp
  moreover have "yields k tx w' ?j (tl rs) all"
    unfolding yields.simps js
    by (rule exI [of _ l1], rule exI [of _ la], rule exI [of _ r1], rule exI [of _ ra]) (use f(4-6) c(4-7) in \<open>simp add: J\<close>)
  ultimately show ?thesis
    using f(1-3) by (intro next_doneI [of _ _ _ _ _ ?j w'])
      (simp_all add: and_then_Inr [of "join_next k e (\<lambda>c. op_next k d c) op_reset ?js" w, OF f(1)] js_pins_def ac_simps)
qed

lemma op_source_ok: "op_source k tx d"
proof (induction d)
  case 0
  show ?case
    by (rule row_source.intro)
       (auto intro: world_kept_basic)
next
  case (Suc d)
  show ?case
  proof (rule row_source.intro)
    fix P c w rs all
    assume W: "world_ok tx (P + op_pins c) w" and y: "op_depth c \<le> Suc d \<and> yields k tx w c rs all"
    have dep: "op_depth c \<le> Suc d" and yc: "yields k tx w c rs all" using y by simp_all
    have "next_done k tx (Suc d) P w c rs all"
    proof (cases c)
      case C: (SequentialScanOperator tb tx' sc)
      from next_scan [OF W [unfolded C] yc [unfolded C]] show ?thesis unfolding C .
    next
      case C: (FilterOperator c e)
      from next_filter [OF Suc W [unfolded C] dep [unfolded C] yc [unfolded C]] show ?thesis unfolding C .
    next
      case C: (NestedLoopJoin l r e s lb rb li ri)
      from next_join [OF Suc W [unfolded C] dep [unfolded C] yc [unfolded C]] show ?thesis unfolding C .
    next
      case C: (ProjectionOperator c cols s)
      from next_projection [OF Suc W [unfolded C] dep [unfolded C] yc [unfolded C]] show ?thesis unfolding C .
    next
      case C: (LimitOperator c limit p)
      from next_limit [OF Suc W [unfolded C] dep [unfolded C] yc [unfolded C]] show ?thesis unfolding C .
    qed
    then show "served (world_ok tx) world_kept op_pins P w (first rs)
       (\<lambda>w' c'. op_depth c' \<le> Suc d \<and> yields k tx w' c' (tl rs) all) (op_next k (Suc d) c w)" by (simp add: next_done_def)
    show "\<exists>c' w'. op_reset c w = (Inr c', w') \<and> world_ok tx (P + op_pins c') w' \<and> world_kept P w w' \<and>
       op_depth c' \<le> Suc d \<and> yields k tx w' c' all all"
      using op_reset_ok [OF W] y unfolding reset_done_def by fastforce
  next
    show "world_kept P w w" for P w by (rule world_kept_basic(1))
    show "world_kept P w w''" if "world_kept P w w'" "world_kept P w' w''" for P w w' w''
      using that by (rule world_kept_basic(2))
    show "world_kept P w w'" if "P \<subseteq># Q" "world_kept Q w w'" for P Q w w'
      using that by (rule world_kept_basic(3))
    show "op_depth c \<le> Suc d \<and> yields k tx w' c rs all"
      if "world_kept (op_pins c) w w'" "op_depth c \<le> Suc d \<and> yields k tx w c rs all" for c w w' rs all
      using that(2) yields_kept [OF that(1)] by blast
  qed
qed

text \<open>The operators of the engine are row sources.\<close>

interpretation ops: row_source "\<lambda>c. op_next k d c" op_reset op_pins "world_ok tx" world_kept
    "\<lambda>w c rs all. op_depth c \<le> d \<and> yields k tx w c rs all" for k tx d
  by (rule op_source_ok)

end
