(* ===== verification/Plan_Rows.thy ===== *)
theory Plan_Rows
  imports Operator_Rows Plan
begin

text \<open>
  What a plan means, as a function of the rows of its tables; well-typed plans; and that the operators
  the executor builds for the optimized plan answer the meaning of the logical plan.
\<close>

section \<open>The meaning of a plan\<close>

text \<open>The rows in the order the engine gives them, and as a multiset in relational algebra.\<close>

fun plan_rows :: "(table \<Rightarrow> row list) \<Rightarrow> logical_plan \<Rightarrow> row list" where
  "plan_rows R (LogicalScan tb) = R tb"
| "plan_rows R (LogicalJoin l r e s) = join_rows e (plan_rows R l) (plan_rows R r)"
| "plan_rows R (LogicalFilterPlan c e) = filter (holds e) (plan_rows R c)"
| "plan_rows R (LogicalProjection c cols s) = map (\<lambda>r. map ((!) r) cols) (plan_rows R c)"
| "plan_rows R (LogicalLimit c limit) = take limit (plan_rows R c)"

definition product :: "row multiset \<Rightarrow> row multiset \<Rightarrow> row multiset" where
  "product A B = \<Sum>\<^sub># (image_mset (\<lambda>l. image_mset (\<lambda>r. l @ r) B) A)"

fun relation :: "(table \<Rightarrow> row list) \<Rightarrow> logical_plan \<Rightarrow> row multiset" where
  "relation R (LogicalScan tb) = mset (R tb)"
| "relation R (LogicalJoin l r e s) = filter_mset (holds e) (product (relation R l) (relation R r))"
| "relation R (LogicalFilterPlan c e) = filter_mset (holds e) (relation R c)"
| "relation R (LogicalProjection c cols s) = image_mset (\<lambda>r. map ((!) r) cols) (relation R c)"
| "relation R (LogicalLimit c limit) = mset (take limit (plan_rows R c))"

lemma mset_product: "mset (concat (map (\<lambda>l. map (record_plus l) rs) ls)) = product (mset ls) (mset rs)"
  by (induction ls) (simp_all add: product_def record_plus_def [abs_def])

lemma mset_plan_rows: "mset (plan_rows R p) = relation R p"
  by (induction p) (simp_all add: mset_join_rows mset_product)

section \<open>Well-typed plans\<close>

definition column_type :: "column \<Rightarrow> value_type" where
  "column_type c = (case type_id_to_value_type (col_type c) of Inr t \<Rightarrow> t | Inl _ \<Rightarrow> BYTES)"

abbreviation row_of_schema :: "schema \<Rightarrow> row \<Rightarrow> bool" where
  "row_of_schema s \<equiv> row_of_type (map column_type s)"

fun plan_typed :: "logical_plan \<Rightarrow> bool" where
  "plan_typed (LogicalScan tb) = True"
| "plan_typed (LogicalJoin l r e s) \<longleftrightarrow> plan_typed l \<and> plan_typed r \<and> s = logical_schema l @ logical_schema r \<and>
     expression_type (map column_type s) e = Some BOOL"
| "plan_typed (LogicalFilterPlan c e) \<longleftrightarrow> plan_typed c \<and> expression_type (map column_type (logical_schema c)) e = Some BOOL"
| "plan_typed (LogicalProjection c cols s) \<longleftrightarrow> plan_typed c \<and> (\<forall>i\<in>set cols. i < length (logical_schema c)) \<and>
     s = map ((!) (logical_schema c)) cols"
| "plan_typed (LogicalLimit c limit) \<longleftrightarrow> plan_typed c"

fun plan_tables :: "logical_plan \<Rightarrow> table list" where
  "plan_tables (LogicalScan tb) = [tb]"
| "plan_tables (LogicalJoin l r e s) = plan_tables l @ plan_tables r"
| "plan_tables (LogicalFilterPlan c e) = plan_tables c"
| "plan_tables (LogicalProjection c cols s) = plan_tables c"
| "plan_tables (LogicalLimit c limit) = plan_tables c"

lemma row_of_schema_append: "row_of_schema s l \<Longrightarrow> row_of_schema t r \<Longrightarrow> row_of_schema (s @ t) (l @ r)"
  by (simp add: row_of_type_def list_all2_appendI)

lemma row_of_schema_length: "row_of_schema s r \<Longrightarrow> length r = length s"
  by (auto simp: row_of_type_def dest: list_all2_lengthD)

lemma row_of_schema_project:
  "row_of_schema s r \<Longrightarrow> \<forall>i\<in>set cols. i < length s \<Longrightarrow> row_of_schema (map ((!) s) cols) (map ((!) r) cols)"
  by (auto simp: row_of_type_def list_all2_conv_all_nth)

lemma typed_decides:
  assumes "row_of_schema s r" and "expression_type (map column_type s) e = Some BOOL"
  shows "decides e r"
proof -
  obtain v where v: "evaluate e r = Inr v" "wf_value v" "vtype v = BOOL" using evaluate_typed [OF assms] by blast
  from v(2,3) show ?thesis
    by (rule bool_value_cases) (auto simp: v(1) decides_def predicate_holds_def)
qed

lemma join_rows_from: "set (join_rows e ls rs) \<subseteq> {l @ r |l r. l \<in> set ls \<and> r \<in> set rs}"
proof -
  have "set (join_rows e ls rs) = set_mset (filter_mset (holds e) (product (mset ls) (mset rs)))"
    by (simp flip: mset_join_rows mset_product set_mset_mset mset_filter)
  then show ?thesis by (auto simp: product_def)
qed

definition tables_typed :: "(table \<Rightarrow> row list) \<Rightarrow> logical_plan \<Rightarrow> bool" where
  "tables_typed R p \<longleftrightarrow> (\<forall>tb\<in>set (plan_tables p). \<forall>r\<in>set (R tb). row_of_schema (table_schema tb) r)"

lemma plan_rows_typed:
  "plan_typed p \<Longrightarrow> tables_typed R p \<Longrightarrow> r \<in> set (plan_rows R p) \<Longrightarrow> row_of_schema (logical_schema p) r"
proof (induction p arbitrary: r)
  case (LogicalJoin p1 p2 e s)
  then have "r \<in> {l @ r |l r. l \<in> set (plan_rows R p1) \<and> r \<in> set (plan_rows R p2)}"
    using join_rows_from [of e "plan_rows R p1" "plan_rows R p2"] by (simp only: plan_rows.simps) (rule subsetD)
  then obtain a b where ab: "r = a @ b" "a \<in> set (plan_rows R p1)" "b \<in> set (plan_rows R p2)" by blast
  have "row_of_schema (logical_schema p1) a" "row_of_schema (logical_schema p2) b"
    using LogicalJoin.IH(1) [OF _ _ ab(2)] LogicalJoin.IH(2) [OF _ _ ab(3)] LogicalJoin.prems(1,2) by (simp_all add: tables_typed_def)
  then have "row_of_schema (logical_schema p1 @ logical_schema p2) (a @ b)" by (rule row_of_schema_append)
  then show ?case using LogicalJoin.prems(1) ab(1) by simp
next
  case (LogicalLimit p n)
  then show ?case using in_set_takeD [of r n "plan_rows R p"] by (simp add: tables_typed_def)
next
  case (LogicalProjection p cols s)
  then obtain r0 where "r = map ((!) r0) cols" "r0 \<in> set (plan_rows R p)" by auto
  with LogicalProjection show ?case using row_of_schema_project [of "logical_schema p" r0 cols] by (simp add: tables_typed_def)
qed (simp_all add: tables_typed_def)

section \<open>Rounds that are enough\<close>

fun plan_fuel :: "(table \<Rightarrow> row list) \<Rightarrow> logical_plan \<Rightarrow> nat" where
  "plan_fuel R (LogicalScan tb) = 0"
| "plan_fuel R (LogicalJoin l r e s) = max (max (plan_fuel R l) (plan_fuel R r))
     (Suc (length (plan_rows R l) * Suc (length (plan_rows R r) * Suc kBLOCK_SIZE)))"
| "plan_fuel R (LogicalFilterPlan c e) = max (plan_fuel R c) (Suc (length (plan_rows R c)))"
| "plan_fuel R (LogicalProjection c cols s) = plan_fuel R c"
| "plan_fuel R (LogicalLimit c limit) = plan_fuel R c"

section \<open>Building the operators\<close>

definition built :: "nat \<Rightarrow> transaction_id option \<Rightarrow> (table \<Rightarrow> row list) \<Rightarrow> page_id multiset \<Rightarrow> world \<Rightarrow> logical_plan \<Rightarrow> bool" where
  "built k tx R P w p \<longleftrightarrow> (\<exists>c w'. build tx (optimize p) w = (Inr c, w') \<and> world_ok tx (P + op_pins c) w' \<and> world_kept P w w' \<and>
     yields k tx w' c (plan_rows R p) (plan_rows R p) \<and> output_schema c = logical_schema p \<and>
     size (op_pins c) = length (plan_tables p))"

lemma world_ok_less: "world_ok tx P w \<Longrightarrow> size Q < pool_capacity (wpool w) \<Longrightarrow> held {} Q (wpool w) \<Longrightarrow> world_ok tx Q w"
  by (simp add: world_ok_def)

lemma build_scan:
  assumes W: "world_ok tx P w" and room: "Suc (size P) < pool_capacity (wpool w)" and rows: "table_rows (wpool w) tb (R tb)"
  shows "built k tx R P w (LogicalScan tb)"
proof -
  obtain sc w' where o: "table_scan_open tb tx w = (Inr sc, w')" "held {} (add_mset (scan_pid (ts_heap sc)) P) (wpool w')"
    "lockable tx w'" "world_kept P w w'" "ts_tx sc = tx" "ts_schema sc = table_schema tb" "scan_yields (wpool w') sc (R tb)"
    using table_scan_open_ok [OF W rows] by blast
  have k: "pool_kept P (wpool w) (wpool w')" using o(4) by (simp add: world_kept_def)
  then have "table_rows (wpool w') tb (R tb)" using rows by (rule table_rows_kept)
  then show ?thesis
    using o room pool_kept_capacity [OF k] by (simp add: built_def and_then_Inr [of "table_scan_open tb tx" w, OF o(1)] world_ok_def scan_pins_def)
qed

lemma build_ok:
  "world_ok tx P w \<Longrightarrow> size P + length (plan_tables p) < pool_capacity (wpool w) \<Longrightarrow> plan_typed p \<Longrightarrow> tables_typed R p \<Longrightarrow>
   \<forall>tb\<in>set (plan_tables p). table_rows (wpool w) tb (R tb) \<Longrightarrow> plan_fuel R p \<le> k \<Longrightarrow> built k tx R P w p"
proof (induction p arbitrary: P w)
  case (LogicalScan tb)
  then show ?case by (intro build_scan) simp_all
next
  case (LogicalJoin p1 p2 e s)
  have "built k tx R P w p1" by (rule LogicalJoin.IH(1)) (use LogicalJoin.prems in \<open>simp_all add: tables_typed_def\<close>)
  then obtain l w1 where l: "build tx (optimize p1) w = (Inr l, w1)" "world_ok tx (P + op_pins l) w1" "world_kept P w w1"
    "yields k tx w1 l (plan_rows R p1) (plan_rows R p1)" "size (op_pins l) = length (plan_tables p1)" unfolding built_def by blast
  have k1: "pool_kept P (wpool w) (wpool w1)" using l(3) by (simp add: world_kept_def)
  have "built k tx R (P + op_pins l) w1 p2"
    by (rule LogicalJoin.IH(2))
       (use LogicalJoin.prems l(2,5) pool_kept_capacity [OF k1] table_rows_kept [OF k1] in \<open>simp_all add: tables_typed_def\<close>)
  then obtain r w2 where r: "build tx (optimize p2) w1 = (Inr r, w2)" "world_ok tx ((P + op_pins l) + op_pins r) w2"
    "world_kept (P + op_pins l) w1 w2" "yields k tx w2 r (plan_rows R p2) (plan_rows R p2)"
    "size (op_pins r) = length (plan_tables p2)" unfolding built_def by blast
  have yl: "yields k tx w2 l (plan_rows R p1) (plan_rows R p1)" "world_kept P w1 w2" using yields_beside [OF r(3) l(4)] .
  let ?j = "NestedLoopJoin l r e s [] [] 0 0"
  have "join_decides e (set (plan_rows R p1)) (set (plan_rows R p2))"
    unfolding join_decides_def record_plus_def
  proof (intro ballI)
    fix a b assume "a \<in> set (plan_rows R p1)" "b \<in> set (plan_rows R p2)"
    then have "row_of_schema (logical_schema p1 @ logical_schema p2) (a @ b)"
      using LogicalJoin.prems(3,4) by (intro row_of_schema_append plan_rows_typed) (simp_all add: tables_typed_def)
    then show "decides e (a @ b)" using LogicalJoin.prems(3) by (intro typed_decides) auto
  qed
  then have "yields k tx w2 ?j (plan_rows R (LogicalJoin p1 p2 e s)) (plan_rows R (LogicalJoin p1 p2 e s))"
    unfolding yields.simps
    by (intro exI [of _ "plan_rows R p1"] exI [of _ "plan_rows R p2"])
       (use yl(1) r(4) LogicalJoin.prems(6) in \<open>simp add: join_rest_def join_work_def\<close>)
  moreover have "build tx (optimize (LogicalJoin p1 p2 e s)) w = (Inr ?j, w2)"
    by (simp add: and_then_Inr [of "build tx (optimize p1)" w, OF l(1)] and_then_Inr [of "or_close l _" w1] or_close_def r(1))
  moreover have "world_ok tx (P + op_pins ?j) w2" using r(2) by (simp add: ac_simps)
  moreover have "output_schema ?j = logical_schema (LogicalJoin p1 p2 e s)"
    "size (op_pins ?j) = length (plan_tables (LogicalJoin p1 p2 e s))" using l(5) r(5) by simp_all
  ultimately show ?case using world_kept_basic(2) [OF l(3) yl(2)] unfolding built_def by blast
next
  case (LogicalFilterPlan p e)
  have "built k tx R P w p" by (rule LogicalFilterPlan.IH) (use LogicalFilterPlan.prems in \<open>simp_all add: tables_typed_def\<close>)
  then obtain c w' where c: "build tx (optimize p) w = (Inr c, w')" "world_ok tx (P + op_pins c) w'" "world_kept P w w'"
    "yields k tx w' c (plan_rows R p) (plan_rows R p)" "output_schema c = logical_schema p" "size (op_pins c) = length (plan_tables p)"
    unfolding built_def by blast
  have "\<forall>r\<in>set (plan_rows R p). decides e r"
  proof
    fix r assume "r \<in> set (plan_rows R p)"
    then have "row_of_schema (logical_schema p) r"
      using LogicalFilterPlan.prems(3,4) by (intro plan_rows_typed) (simp_all add: tables_typed_def)
    then show "decides e r" by (rule typed_decides) (use LogicalFilterPlan.prems(3) in \<open>simp only: plan_typed.simps simp_thms\<close>)
  qed
  then have "yields k tx w' (FilterOperator c e) (plan_rows R (LogicalFilterPlan p e)) (plan_rows R (LogicalFilterPlan p e))"
    unfolding yields.simps by (intro exI [of _ "plan_rows R p"]) (use c(4) LogicalFilterPlan.prems(6) in simp)
  then show ?case using c unfolding built_def by (intro exI [of _ "FilterOperator c e"] exI [of _ w'])
    (simp del: yields.simps add: and_then_Inr [of "build tx (optimize p)" w, OF c(1)])
next
  case (LogicalProjection p cols s)
  have "built k tx R P w p" by (rule LogicalProjection.IH) (use LogicalProjection.prems in \<open>simp_all add: tables_typed_def\<close>)
  then obtain c w' where c: "build tx (optimize p) w = (Inr c, w')" "world_ok tx (P + op_pins c) w'" "world_kept P w w'"
    "yields k tx w' c (plan_rows R p) (plan_rows R p)" "size (op_pins c) = length (plan_tables p)"
    unfolding built_def by blast
  have "\<forall>r\<in>set (plan_rows R p). \<forall>i\<in>set cols. i < length r"
  proof
    fix r assume "r \<in> set (plan_rows R p)"
    then have "row_of_schema (logical_schema p) r"
      using LogicalProjection.prems(3,4) by (intro plan_rows_typed) (simp_all add: tables_typed_def)
    then show "\<forall>i\<in>set cols. i < length r" using LogicalProjection.prems(3) row_of_schema_length by fastforce
  qed
  then have "yields k tx w' (ProjectionOperator c cols s) (plan_rows R (LogicalProjection p cols s)) (plan_rows R (LogicalProjection p cols s))"
    unfolding yields.simps by (intro exI [of _ "plan_rows R p"]) (use c(4) in simp)
  then show ?case using c unfolding built_def by (intro exI [of _ "ProjectionOperator c cols s"] exI [of _ w'])
    (simp del: yields.simps add: and_then_Inr [of "build tx (optimize p)" w, OF c(1)])
next
  case (LogicalLimit p n)
  have "built k tx R P w p" by (rule LogicalLimit.IH) (use LogicalLimit.prems in \<open>simp_all add: tables_typed_def\<close>)
  then obtain c w' where c: "build tx (optimize p) w = (Inr c, w')" "world_ok tx (P + op_pins c) w'" "world_kept P w w'"
    "yields k tx w' c (plan_rows R p) (plan_rows R p)" "output_schema c = logical_schema p" "size (op_pins c) = length (plan_tables p)"
    unfolding built_def by blast
  have "yields k tx w' (LimitOperator c n 0) (plan_rows R (LogicalLimit p n)) (plan_rows R (LogicalLimit p n))"
    unfolding yields.simps by (intro exI [of _ "plan_rows R p"]) (use c(4) in simp)
  then show ?case using c unfolding built_def by (intro exI [of _ "LimitOperator c n 0"] exI [of _ w'])
    (simp del: yields.simps add: and_then_Inr [of "build tx (optimize p)" w, OF c(1)])
qed

section \<open>Draining a query\<close>

text \<open>The client's loop: \<open>next\<close> until it answers nothing, then the destructor of the result.\<close>

fun query_rows :: "nat \<Rightarrow> nat \<Rightarrow> oper \<Rightarrow> (world, row list) proc" where
  "query_rows k 0 root = throw Out_of_fuel"
| "query_rows k (Suc n) root = and_then (query_result_next k root) (\<lambda>(m, root). case m of
       None \<Rightarrow> and_then (op_close root) (\<lambda>_. ret [])
     | Some r \<Rightarrow> and_then (query_rows k n root) (\<lambda>rs. ret (r # rs)))"

lemma op_init_id: "op_init c w = (Inr c, w)"
  by (induction c arbitrary: w) (simp_all add: and_then_Inr [of "op_init _"])

lemma op_close_ok:
  "world_ok tx (P + op_pins c) w \<Longrightarrow> yields k tx w c rs all \<Longrightarrow>
   \<exists>w'. op_close c w = (Inr (), w') \<and> world_ok tx P w' \<and> world_kept P w w'"
proof (induction c arbitrary: P w rs all)
  case (SequentialScanOperator tb tx' sc)
  then have h: "held {} (add_mset (scan_pid (ts_heap sc)) P) (wpool w)" "scan_yields (wpool w) sc rs" "lockable tx w"
    "Suc (size P) < pool_capacity (wpool w)" by (simp_all add: world_ok_def scan_pins_def)
  from table_scan_close_ok [OF h(1,2), of P] obtain w' where "table_scan_close sc w = (Inr (), w')" "held {} P (wpool w')"
    "world_kept P w w'" "locks w' = locks w" by blast
  then show ?case using h pool_kept_capacity [of P "wpool w" "wpool w'"] by (simp add: world_ok_def lockable_def world_kept_def)
next
  case (NestedLoopJoin l r e s lb rb li ri)
  then obtain l0 la r0 ra where y: "yields k tx w l l0 la" "yields k tx w r r0 ra" by auto
  have "world_ok tx ((P + op_pins l) + op_pins r) w" using NestedLoopJoin.prems(1) by (simp add: ac_simps)
  from NestedLoopJoin.IH(2) [OF this y(2)] obtain w1 where w1: "op_close r w = (Inr (), w1)" "world_ok tx (P + op_pins l) w1"
    "world_kept (P + op_pins l) w w1" by blast
  have "yields k tx w1 l l0 la" "world_kept P w w1" using yields_beside [OF w1(3) y(1)] .
  with NestedLoopJoin.IH(1) [OF w1(2)] world_kept_basic(2) [of P w w1] show ?case
    by (fastforce simp: and_then_Inr [of "op_close r" w, OF w1(1)])
qed auto

lemma query_rows_ok:
  "world_ok tx (P + op_pins c) w \<Longrightarrow> yields k tx w c rs all \<Longrightarrow> length rs < n \<Longrightarrow>
   \<exists>w'. query_rows k n c w = (Inr rs, w') \<and> world_ok tx P w' \<and> world_kept P w w'"
proof (induction n arbitrary: c w rs)
  case (Suc n)
  obtain c1 w1 where c1: "query_result_next k c w = (Inr (first rs, c1), w1)" "world_ok tx (P + op_pins c1) w1" "world_kept P w w1"
    "yields k tx w1 c1 (tl rs) all"
    using ops.next_ok [where d = "op_depth c", OF Suc.prems(1)] Suc.prems(2) unfolding served_def query_result_next_def by blast
  show ?case
  proof (cases rs)
    case Nil
    obtain w2 where w2: "op_close c1 w1 = (Inr (), w2)" "world_ok tx P w2" "world_kept P w1 w2" using op_close_ok [OF c1(2,4)] by blast
    then show ?thesis using Nil world_kept_basic(2) [OF c1(3) w2(3)]
      by (simp add: and_then_Inr [of "query_result_next k c" w, OF c1(1)] and_then_Inr [of "op_close c1" w1, OF w2(1)])
  next
    case (Cons r rest)
    then obtain w2 where w2: "query_rows k n c1 w1 = (Inr rest, w2)" "world_ok tx P w2" "world_kept P w1 w2"
      using Suc.IH [OF c1(2), of rest] c1(4) Suc.prems(3) by auto
    then show ?thesis using Cons world_kept_basic(2) [OF c1(3) w2(3)]
      by (simp add: and_then_Inr [of "query_result_next k c" w, OF c1(1)] and_then_Inr [of "query_rows k n c1" w1, OF w2(1)])
  qed
qed simp

end
