(* ===== verification/Query_Binding.thy ===== *)
theory Query_Binding
  imports Query Plan_Rows
begin

text \<open>
  What a bound query looks like: every column reference of its plan is the column that the query names,
  every schema is the one of the rows below, and binding changes nothing but locks.
\<close>

section \<open>Closed plans\<close>

fun columns_below :: "nat \<Rightarrow> expression \<Rightarrow> bool" where
  "columns_below n (ColumnExpression i) \<longleftrightarrow> i < n"
| "columns_below n (ConstantExpression v) \<longleftrightarrow> True"
| "columns_below n (ComparisonExpression l op r) \<longleftrightarrow> columns_below n l \<and> columns_below n r"
| "columns_below n (BinaryExpression l op r) \<longleftrightarrow> columns_below n l \<and> columns_below n r"
| "columns_below n (UnaryExpression e op) \<longleftrightarrow> columns_below n e"

fun plan_closed :: "logical_plan \<Rightarrow> bool" where
  "plan_closed (LogicalScan tb) = True"
| "plan_closed (LogicalJoin l r e s) \<longleftrightarrow> plan_closed l \<and> plan_closed r \<and> s = logical_schema l @ logical_schema r \<and>
     columns_below (length s) e"
| "plan_closed (LogicalFilterPlan c e) \<longleftrightarrow> plan_closed c \<and> columns_below (length (logical_schema c)) e"
| "plan_closed (LogicalProjection c cols s) \<longleftrightarrow> plan_closed c \<and> (\<forall>i\<in>set cols. i < length (logical_schema c)) \<and>
     s = map ((!) (logical_schema c)) cols"
| "plan_closed (LogicalLimit c limit) \<longleftrightarrow> plan_closed c"

section \<open>Contexts and columns\<close>

text \<open>The bindings lie one behind the other in the columns \<open>s\<close>.\<close>

fun bindings_at :: "nat \<Rightarrow> table_binding list \<Rightarrow> schema \<Rightarrow> bool" where
  "bindings_at n [] s \<longleftrightarrow> s = []"
| "bindings_at n (b # bs) s \<longleftrightarrow> tb_offset b = n \<and> (\<exists>t. s = tb_schema b @ t \<and> bindings_at (n + length (tb_schema b)) bs t)"

lemma bindings_at_snoc:
  "bindings_at n (bs @ [b]) s \<longleftrightarrow> (\<exists>t. s = t @ tb_schema b \<and> bindings_at n bs t \<and> tb_offset b = n + length t)"
proof (induction bs arbitrary: n s)
  case (Cons a bs)
  then show ?case by (auto simp: add.assoc)
qed auto

definition names_column :: "column_ref \<Rightarrow> table_binding list \<Rightarrow> nat \<Rightarrow> bool" where
  "names_column c ctx i \<longleftrightarrow> (\<exists>b\<in>set ctx. (cr_qualifier c = None \<or> cr_qualifier c = Some (tb_name b)) \<and>
     (\<exists>j. column_index (tb_schema b) (cr_name c) = Some j \<and> i = tb_offset b + j))"

lemma column_index_found: "column_index s name = Some i \<Longrightarrow> i < length s \<and> col_name (s ! i) = name"
  using column_index_Some [of s name i] by auto

lemma resolve_from_names:
  "resolve_from c found bs = Inr (Some i) \<Longrightarrow> found = Some i \<or> found = None \<and> names_column c bs i"
proof (induction bs arbitrary: found)
  case (Cons b bs)
  then show ?case by (auto simp: names_column_def split: if_splits option.splits)
qed simp

lemma names_column_at: "bindings_at n bs s \<Longrightarrow> names_column c bs i \<Longrightarrow> n \<le> i \<and> i < n + length s \<and> col_name (s ! (i - n)) = cr_name c"
proof (induction bs arbitrary: n s)
  case (Cons b bs)
  obtain t where t: "s = tb_schema b @ t" "bindings_at (n + length (tb_schema b)) bs t" "tb_offset b = n" using Cons.prems(1) by auto
  from Cons.prems(2) consider j where "column_index (tb_schema b) (cr_name c) = Some j" "i = n + j" | "names_column c bs i"
    using t(3) by (auto simp: names_column_def)
  then show ?case
  proof cases
    case 1
    then show ?thesis using column_index_found [OF 1(1)] t(1) by (simp add: nth_append)
  next
    case 2
    from Cons.IH [OF t(2) this] show ?thesis using t(1) by (auto simp: nth_append)
  qed
qed (simp add: names_column_def)

lemma resolve_column_ok:
  assumes "resolve_column c ctx = Inr i"
  shows "names_column c ctx i"
  using assms resolve_from_names [of c None ctx i]
  by (auto simp: resolve_column_def bind_res_eq_Inr split: if_splits option.splits)

lemma bind_expression_below:
  "bind_expression e ctx = Inr b \<Longrightarrow> bindings_at 0 ctx s \<Longrightarrow> columns_below (length s) b"
proof (induction e arbitrary: b)
  case (UnboundColumnExpression c)
  then obtain i where i: "resolve_column c ctx = Inr i" "b = ColumnExpression i" by (auto simp: bind_res_eq_Inr)
  then show ?case using names_column_at [OF UnboundColumnExpression.prems(2) resolve_column_ok [OF i(1)]] by simp
qed (auto simp: bind_res_eq_Inr)

lemma map_res_eq_Inr: "map_res f xs = Inr ys \<longleftrightarrow> list_all2 (\<lambda>x y. f x = Inr y) xs ys"
  by (induction xs arbitrary: ys) (auto simp: bind_res_eq_Inr list_all2_Cons1)

lemma schema_projected_ok:
  assumes "schema_projected s idxs = Inr t"
  shows "t = map ((!) s) idxs" "\<forall>i\<in>set idxs. i < length s"
proof -
  have l: "list_all2 (\<lambda>i c. i < length s \<and> c = s ! i) idxs t"
    using assms by (auto simp: schema_projected_def bind_res_eq_Inr map_res_eq_Inr schema_column_def schema_make_def
        elim!: list_all2_mono split: if_splits)
  then show "t = map ((!) s) idxs" "\<forall>i\<in>set idxs. i < length s"
    by (auto simp: list_all2_conv_all_nth in_set_conv_nth intro: nth_equalityI)
qed

section \<open>Binding step by step\<close>

definition only_locks :: "world \<Rightarrow> world \<Rightarrow> bool" where
  "only_locks w w' \<longleftrightarrow> (\<exists>l. w' = w\<lparr>locks := l\<rparr>)"

lemma only_locks_basic: "only_locks w w" "only_locks w w' \<Longrightarrow> only_locks w' w'' \<Longrightarrow> only_locks w w''"
  by (auto simp: only_locks_def intro: exI [of _ "locks w"])

lemma only_locks_data: "only_locks w w' \<Longrightarrow> tx_data w' = tx_data w"
  by (auto simp: only_locks_def)

lemma tx_lock_only: "tx_lock f tx r w = (x, w') \<Longrightarrow> only_locks w w'"
  by (auto simp: tx_lock_def only_locks_basic(1) split: option.splits prod.splits) (auto simp: only_locks_def)

definition named_table :: "world \<Rightarrow> string \<Rightarrow> table \<Rightarrow> bool" where
  "named_table w name tb \<longleftrightarrow> (\<exists>e. find_table name (tx_data w) = Some e \<and> entry_table e = tb)"

lemma lookup_table_ok:
  assumes "lookup_table what name tx w = (Inr tb, w')"
  shows "only_locks w w'" "named_table w name tb"
proof -
  obtain x where g: "get_table name tx w = (Inr (Some tb), x)" "w' = x"
    using assms by (auto simp: lookup_table_def and_then_eq_Inr split: option.splits)
  then obtain e where e: "find_table name (tx_data w) = Some e"
    by (auto simp: get_table_def split: option.splits)
  obtain ok y where l: "tx_lock lock_shared tx (entry_rid e) w = (Inr ok, y)"
    by (cases tx; cases "lock_shared (the tx) (entry_rid e) (locks w)") (auto simp: tx_lock_def)
  have "only_locks w y" using tx_lock_only [OF l] .
  then show "only_locks w w'" "named_table w name tb"
    using g e by (auto simp: get_table_def and_then_Inr [of "tx_lock lock_shared tx (entry_rid e)" w, OF l] Let_def
        only_locks_data named_table_def split: if_splits option.splits)
qed

definition binding_ok :: "logical_plan \<times> table_binding list \<Rightarrow> bool" where
  "binding_ok pc \<longleftrightarrow> (case pc of (plan, ctx) \<Rightarrow> plan_closed plan \<and> bindings_at 0 ctx (logical_schema plan) \<and>
     logical_schema plan = concat (map table_schema (plan_tables plan)))"

lemma bind_joins_ok:
  "bind_joins js tx (plan, ctx) w = (Inr (plan', ctx'), w') \<Longrightarrow> binding_ok (plan, ctx) \<Longrightarrow>
   binding_ok (plan', ctx') \<and> only_locks w w' \<and>
   (\<exists>tbs. plan_tables plan' = plan_tables plan @ tbs \<and> list_all2 (named_table w) (map (tr_name \<circ> jc_table) js) tbs)"
proof (induction js arbitrary: plan ctx w)
  case Nil
  then show ?case by (auto simp: only_locks_basic)
next
  case (Cons j js)
  let ?b = "\<lambda>tb. \<lparr>tb_name = ref_name (jc_table j), tb_schema = table_schema tb, tb_offset = length (logical_schema plan)\<rparr>"
  obtain tb w1 e p1 where s: "lookup_table ''Binder::bind: join table '' (tr_name (jc_table j)) tx w = (Inr tb, w1)"
    "bind_expression (jc_on j) (ctx @ [?b tb]) = Inr e" "logical_join plan (LogicalScan tb) e = Inr p1"
    "bind_joins js tx (p1, ctx @ [?b tb]) w1 = (Inr (plan', ctx'), w')"
    using Cons.prems(1) by (auto simp: and_then_eq_Inr Let_def)
  have p1: "p1 = LogicalJoin plan (LogicalScan tb) e (logical_schema plan @ table_schema tb)"
    using s(3) by (auto simp: logical_join_def bind_res_eq_Inr schema_plus_def schema_make_def split: if_splits)
  have b1: "bindings_at 0 (ctx @ [?b tb]) (logical_schema plan @ table_schema tb)"
    using Cons.prems(2) by (auto simp: binding_ok_def bindings_at_snoc)
  have "binding_ok (p1, ctx @ [?b tb])"
    using Cons.prems(2) b1 bind_expression_below [OF s(2) b1] by (simp add: binding_ok_def p1)
  from Cons.IH [OF s(4) this] obtain tbs where i: "binding_ok (plan', ctx')" "only_locks w1 w'"
    "plan_tables plan' = plan_tables p1 @ tbs" "list_all2 (named_table w1) (map (tr_name \<circ> jc_table) js) tbs" by blast
  have "plan_tables plan' = plan_tables plan @ tb # tbs" using i(3) by (simp add: p1)
  have "named_table w1 = named_table w" using only_locks_data [OF lookup_table_ok(1) [OF s(1)]] by (simp add: named_table_def [abs_def])
  then show ?case
    using i(1,4) \<open>plan_tables plan' = plan_tables plan @ tb # tbs\<close> only_locks_basic(2) [OF lookup_table_ok(1) [OF s(1)] i(2)]
      lookup_table_ok(2) [OF s(1)] by (auto simp: comp_def)
qed

lemma bind_filter_ok:
  assumes "bind_filter e ctx plan = Inr plan'" and "binding_ok (plan, ctx)"
  shows "binding_ok (plan', ctx) \<and> plan_tables plan' = plan_tables plan"
  using assms bind_expression_below [of e ctx _ "logical_schema plan"]
  by (auto simp: bind_filter_def binding_ok_def bind_res_eq_Inr split: if_splits)

lemma bind_projection_ok:
  assumes p: "bind_projection cols ctx plan = Inr plan'" and b: "binding_ok (plan, ctx)"
  shows "plan_closed plan' \<and> plan_tables plan' = plan_tables plan \<and>
    (case cols of None \<Rightarrow> logical_schema plan' = concat (map table_schema (plan_tables plan))
     | Some cs \<Rightarrow> map col_name (logical_schema plan') = map cr_name cs)"
proof (cases cols)
  case None
  then show ?thesis using assms by (simp add: bind_projection_def binding_ok_def)
next
  case (Some cs)
  then obtain idxs s where r: "list_all2 (\<lambda>c i. resolve_column c ctx = Inr i) cs idxs"
    "schema_projected (logical_schema plan) idxs = Inr s" "plan' = LogicalProjection plan idxs s"
    using p by (auto simp: bind_projection_def bind_res_eq_Inr map_res_eq_Inr logical_projection_def split: if_splits)
  note P = schema_projected_ok [OF r(2)]
  have "list_all2 (\<lambda>c i. col_name (logical_schema plan ! i) = cr_name c) cs idxs"
    using r(1) b names_column_at [of 0 ctx "logical_schema plan"] resolve_column_ok
    by (auto simp: binding_ok_def elim!: list_all2_mono)
  then have "map (col_name \<circ> (!) (logical_schema plan)) idxs = map cr_name cs"
    by (auto simp: list_all2_conv_all_nth intro: nth_equalityI)
  then show ?thesis using r(3) P b Some by (simp add: binding_ok_def)
qed

definition query_tables :: "select_query \<Rightarrow> string list" where
  "query_tables q = (case sq_table q of None \<Rightarrow> [] | Some tr \<Rightarrow> [tr_name tr]) @ map (tr_name \<circ> jc_table) (sq_joins q)"

lemma bind_query_ok:
  assumes "bind_query q tx w = (Inr (plan, q'), w')"
  shows "plan_closed plan \<and> only_locks w w' \<and> list_all2 (named_table w) (query_tables q) (plan_tables plan) \<and> q' = query_taken q \<and>
    (case sq_columns q of None \<Rightarrow> logical_schema plan = concat (map table_schema (plan_tables plan))
     | Some cs \<Rightarrow> map col_name (logical_schema plan) = map cr_name cs)"
proof -
  obtain tr where tr: "sq_table q = Some tr" using assms by (auto simp: bind_query_def split: option.splits)
  obtain tb w1 p1 ctx p2 p3 where s: "lookup_table ''Binder::bind: table '' (tr_name tr) tx w = (Inr tb, w1)"
    "bind_joins (sq_joins q) tx (LogicalScan tb, [\<lparr>tb_name = ref_name tr, tb_schema = table_schema tb, tb_offset = 0\<rparr>]) w1 = (Inr (p1, ctx), w')"
    "bind_filter (sq_predicate q) ctx p1 = Inr p2" "bind_projection (sq_columns q) ctx p2 = Inr p3" "q' = query_taken q"
    "plan = (case sq_limit q of None \<Rightarrow> p3 | Some n \<Rightarrow> LogicalLimit p3 n)"
    using assms tr by (auto simp: bind_query_def and_then_eq_Inr)
  have "binding_ok (LogicalScan tb, [\<lparr>tb_name = ref_name tr, tb_schema = table_schema tb, tb_offset = 0\<rparr>])"
    by (simp add: binding_ok_def)
  from bind_joins_ok [OF s(2) this] obtain tbs where j: "binding_ok (p1, ctx)" "only_locks w1 w'" "plan_tables p1 = tb # tbs"
    "list_all2 (named_table w1) (map (tr_name \<circ> jc_table) (sq_joins q)) tbs" by auto
  have n: "named_table w1 = named_table w" using only_locks_data [OF lookup_table_ok(1) [OF s(1)]] by (simp add: named_table_def [abs_def])
  have f: "binding_ok (p2, ctx)" "plan_tables p2 = tb # tbs" using bind_filter_ok [OF s(3) j(1)] j(3) by simp_all
  note P = bind_projection_ok [OF s(4) f(1)]
  have p: "plan_closed plan = plan_closed p3" "logical_schema plan = logical_schema p3" "plan_tables plan = plan_tables p3"
    using s(6) by (simp_all split: option.splits)
  show ?thesis
    using P f(2) j(4) n lookup_table_ok(2) [OF s(1)] only_locks_basic(2) [OF lookup_table_ok(1) [OF s(1)] j(2)] s(5)
    unfolding p by (simp add: query_tables_def tr split: option.splits)
qed

end
