(* ===== verification/Query_Meaning.thy ===== *)
theory Query_Meaning
  imports Query_Binding
begin

text \<open>
  What a query means by its names alone: a predicate is evaluated on one row per table, found under the
  table's alias, and the answer is the multiset of all combinations of rows that the predicates select.
  The plan the binder makes has this meaning.
\<close>

section \<open>Expressions over named rows\<close>

text \<open>One entry per table of the query: its alias or name, its columns and a row.\<close>

type_synonym named_row = "string \<times> schema \<times> row"

definition matches :: "column_ref \<Rightarrow> named_row \<Rightarrow> bool" where
  "matches c r \<longleftrightarrow> cr_qualifier c = None \<or> cr_qualifier c = Some (fst r)"

definition named_value :: "column_ref \<Rightarrow> named_row list \<Rightarrow> sql_value res" where
  "named_value c env = (case filter (matches c) env of
       [(name, s, row)] \<Rightarrow> (case column_index s (cr_name c) of Some i \<Rightarrow> Inr (row ! i) | None \<Rightarrow> Inl (Runtime_error ''no column''))
     | _ \<Rightarrow> Inl (Runtime_error ''no table''))"

fun named_evaluate :: "unbound_expression \<Rightarrow> named_row list \<Rightarrow> sql_value res" where
  "named_evaluate UnboundNull env = Inl (Runtime_error ''no expression'')"
| "named_evaluate (UnboundColumnExpression c) env = named_value c env"
| "named_evaluate (UnboundConstantExpression v) env = Inr v"
| "named_evaluate (UnboundComparisonExpression l op r) env =
     bind_res (named_evaluate l env) (\<lambda>x. bind_res (named_evaluate r env) (\<lambda>y.
     bind_res (compare x y) (\<lambda>cmp. Inr (comparison_value op cmp))))"
| "named_evaluate (UnboundBinaryExpression l op r) env =
     bind_res (named_evaluate l env) (\<lambda>x. bind_res (named_evaluate r env) (\<lambda>y. binary_value op x y))"
| "named_evaluate (UnboundUnaryExpression e op) env = bind_res (named_evaluate e env) (\<lambda>v. unary_value op v)"

definition is_true :: "unbound_expression \<Rightarrow> named_row list \<Rightarrow> bool" where
  "is_true e env \<longleftrightarrow> named_evaluate e env = Inr (of_boolean True)"

section \<open>Queries over named rows\<close>

text \<open>A database as the query sees it: the columns and the rows of a table by its name.\<close>

type_synonym contents = "string \<Rightarrow> schema \<times> row multiset"

definition with_table :: "contents \<Rightarrow> table_ref \<Rightarrow> named_row list multiset \<Rightarrow> named_row list multiset" where
  "with_table T tr envs = (case T (tr_name tr) of (s, rows) \<Rightarrow>
     \<Sum>\<^sub># (image_mset (\<lambda>env. image_mset (\<lambda>r. env @ [(ref_name tr, s, r)]) rows) envs))"

fun joined :: "contents \<Rightarrow> join_clause list \<Rightarrow> named_row list multiset \<Rightarrow> named_row list multiset" where
  "joined T [] envs = envs"
| "joined T (j # js) envs = joined T js (filter_mset (is_true (jc_on j)) (with_table T (jc_table j) envs))"

definition selected :: "unbound_expression \<Rightarrow> named_row list \<Rightarrow> bool" where
  "selected e env \<longleftrightarrow> e = UnboundNull \<or> is_true e env"

definition whole_row :: "named_row list \<Rightarrow> row" where
  "whole_row env = concat (map (\<lambda>(name, s, r). r) env)"

definition projected :: "column_ref list option \<Rightarrow> named_row list \<Rightarrow> row" where
  "projected cols env = (case cols of None \<Rightarrow> whole_row env | Some cs \<Rightarrow> map (\<lambda>c. projr (named_value c env)) cs)"

definition query_meaning :: "contents \<Rightarrow> select_query \<Rightarrow> row multiset" where
  "query_meaning T q = image_mset (projected (sq_columns q)) (filter_mset (selected (sq_predicate q))
     (joined T (sq_joins q) (with_table T (the (sq_table q)) {#[]#})))"

text \<open>A limit keeps some of the rows: all, or as many as it says.\<close>

definition answers :: "contents \<Rightarrow> select_query \<Rightarrow> row multiset \<Rightarrow> bool" where
  "answers T q rows \<longleftrightarrow> (case sq_limit q of
       None \<Rightarrow> rows = query_meaning T q
     | Some n \<Rightarrow> rows \<subseteq># query_meaning T q \<and> size rows = min n (size (query_meaning T q)))"

section \<open>Bound expressions\<close>

definition env_for :: "table_binding list \<Rightarrow> named_row list \<Rightarrow> bool" where
  "env_for = list_all2 (\<lambda>b (name, s, r). name = tb_name b \<and> s = tb_schema b \<and> length r = length s)"

lemma resolve_from_once: "resolve_from c (Some i) bs = Inr m \<Longrightarrow> env_for bs env \<Longrightarrow> filter (matches c) env = []"
proof (induction bs arbitrary: env)
  case (Cons b bs)
  then show ?case by (cases env) (auto simp: env_for_def matches_def split: if_splits option.splits prod.splits)
qed (simp add: env_for_def)

lemma resolve_from_Some: "resolve_from c (Some i) bs = Inr m \<Longrightarrow> m = Some i"
  by (induction bs) (auto split: if_splits option.splits)

lemma resolve_from_value:
  "resolve_from c None bs = Inr (Some i) \<Longrightarrow> bindings_at n bs s \<Longrightarrow> env_for bs env \<Longrightarrow>
   named_value c env = Inr (whole_row env ! (i - n)) \<and> n \<le> i \<and> i < n + length s"
proof (induction bs arbitrary: env n s)
  case (Cons b bs)
  obtain r env' where e: "env = (tb_name b, tb_schema b, r) # env'" "length r = length (tb_schema b)" "env_for bs env'"
    using Cons.prems(3) by (cases env) (auto simp: env_for_def)
  obtain t where t: "s = tb_schema b @ t" "bindings_at (n + length (tb_schema b)) bs t" "tb_offset b = n"
    using Cons.prems(2) by auto
  show ?case
  proof (cases "matches c (tb_name b, tb_schema b, r)")
    case True
    then obtain j where j: "column_index (tb_schema b) (cr_name c) = Some j" "resolve_from c (Some (n + j)) bs = Inr (Some i)"
      using Cons.prems(1) t(3) by (auto simp: matches_def split: if_splits option.splits)
    have i: "i = n + j" using resolve_from_Some [OF j(2)] by simp
    have "filter (matches c) env' = []" using resolve_from_once [OF j(2) e(3)] .
    then show ?thesis
      using True e(1,2) j(1) i t(1) column_index_found [OF j(1)] by (simp add: named_value_def whole_row_def nth_append)
  next
    case False
    then have r: "resolve_from c None bs = Inr (Some i)" using Cons.prems(1) by (auto simp: matches_def split: if_splits)
    have "named_value c env = named_value c env'" using False e(1) by (simp add: named_value_def)
    then show ?thesis using Cons.IH [OF r t(2) e(3)] e(1,2) t(1) by (auto simp: whole_row_def nth_append)
  qed
qed simp

lemma resolve_column_value:
  assumes "resolve_column c ctx = Inr i" and "bindings_at 0 ctx s" and "env_for ctx env"
  shows "named_value c env = Inr (whole_row env ! i)" "i < length s"
proof -
  have "resolve_from c None ctx = Inr (Some i)"
    using assms(1) by (auto simp: resolve_column_def bind_res_eq_Inr split: if_splits option.splits)
  from resolve_from_value [OF this assms(2,3)]
  show "named_value c env = Inr (whole_row env ! i)" "i < length s" by simp_all
qed

lemma whole_row_length: "bindings_at n ctx s \<Longrightarrow> env_for ctx env \<Longrightarrow> length (whole_row env) = length s"
proof (induction ctx arbitrary: n s env)
  case (Cons b bs)
  then show ?case by (cases env) (auto simp: env_for_def whole_row_def)
qed (simp add: env_for_def whole_row_def)

lemma bind_expression_value:
  "bind_expression e ctx = Inr b \<Longrightarrow> bindings_at 0 ctx s \<Longrightarrow> env_for ctx env \<Longrightarrow>
   evaluate b (whole_row env) = named_evaluate e env"
proof (induction e arbitrary: b)
  case (UnboundColumnExpression c)
  then obtain i where i: "resolve_column c ctx = Inr i" "b = ColumnExpression i" by (auto simp: bind_res_eq_Inr)
  show ?case
    using resolve_column_value [OF i(1) UnboundColumnExpression.prems(2,3)] whole_row_length [OF UnboundColumnExpression.prems(2,3)]
    by (simp add: i(2) record_get_def)
qed (auto simp: bind_res_eq_Inr)

section \<open>Bound queries\<close>

definition contents_of :: "(table \<Rightarrow> row list) \<Rightarrow> world \<Rightarrow> contents" where
  "contents_of R w name = (case find_table name (tx_data w) of
       Some e \<Rightarrow> (table_schema (entry_table e), mset (R (entry_table e))) | None \<Rightarrow> ([], {#}))"

lemma contents_of_named: "named_table w name tb \<Longrightarrow> contents_of R w name = (table_schema tb, mset (R tb))"
  by (auto simp: named_table_def contents_of_def)

lemma contents_of_locks: "only_locks w w' \<Longrightarrow> contents_of R w' = contents_of R w"
  by (simp add: contents_of_def [abs_def] only_locks_data)

definition rows_fit :: "(table \<Rightarrow> row list) \<Rightarrow> table list \<Rightarrow> bool" where
  "rows_fit R tbs \<longleftrightarrow> (\<forall>tb\<in>set tbs. \<forall>r\<in>set (R tb). length r = length (table_schema tb))"

text \<open>The plan so far answers the rows of the combinations \<open>envs\<close>.\<close>

definition means :: "(table \<Rightarrow> row list) \<Rightarrow> logical_plan \<times> table_binding list \<Rightarrow> named_row list multiset \<Rightarrow> bool" where
  "means R pc envs \<longleftrightarrow> (case pc of (plan, ctx) \<Rightarrow> relation R plan = image_mset whole_row envs \<and> (\<forall>env\<in>#envs. env_for ctx env))"

lemma with_table_rows:
  assumes T: "T (tr_name tr) = (table_schema tb, mset (R tb))" and fit: "rows_fit R [tb]" and E: "\<forall>env\<in>#envs. env_for ctx env"
  shows "image_mset whole_row (with_table T tr envs) = product (image_mset whole_row envs) (mset (R tb))"
    and "\<forall>env\<in>#with_table T tr envs. env_for (ctx @ [\<lparr>tb_name = ref_name tr, tb_schema = table_schema tb, tb_offset = n\<rparr>]) env"
proof -
  show "image_mset whole_row (with_table T tr envs) = product (image_mset whole_row envs) (mset (R tb))"
    by (induction envs) (simp_all add: with_table_def T product_def whole_row_def multiset.map_comp comp_def)
  show "\<forall>env\<in>#with_table T tr envs. env_for (ctx @ [\<lparr>tb_name = ref_name tr, tb_schema = table_schema tb, tb_offset = n\<rparr>]) env"
    using fit E by (auto simp: with_table_def T rows_fit_def env_for_def intro!: list_all2_appendI)
qed

lemma holds_is_true:
  assumes "bind_expression e ctx = Inr b" and "bindings_at 0 ctx s" and "env_for ctx env"
  shows "holds b (whole_row env) \<longleftrightarrow> is_true e env"
proof -
  have "v = of_boolean True" if "vtype v = BOOL" "\<not> is_null v" "as_bool v = Inr True" for v
    using that by (cases v) (auto simp: as_bool_def get_bool_def of_boolean_def split: variant.splits)
  then have "(case named_evaluate e env of Inl x \<Rightarrow> False | Inr v \<Rightarrow> vtype v = BOOL \<and> \<not> is_null v \<and> as_bool v = Inr True) \<longleftrightarrow>
      named_evaluate e env = Inr (of_boolean True)"
    by (cases "named_evaluate e env") (auto simp: of_boolean_def as_bool_def get_bool_def)
  then show ?thesis
    unfolding holds_def is_true_def predicate_holds_def bind_expression_value [OF assms]
    by (cases "named_evaluate e env") auto
qed

lemma filter_rows:
  assumes "\<forall>env\<in>#envs. holds b (whole_row env) = Q env"
  shows "filter_mset (holds b) (image_mset whole_row envs) = image_mset whole_row (filter_mset Q envs)"
  using assms by (induction envs) auto

lemma bind_joins_meaning:
  "bind_joins js tx (plan, ctx) w = (Inr (plan', ctx'), w') \<Longrightarrow> binding_ok (plan, ctx) \<Longrightarrow> means R (plan, ctx) envs \<Longrightarrow>
   rows_fit R (plan_tables plan') \<Longrightarrow> means R (plan', ctx') (joined (contents_of R w) js envs)"
proof (induction js arbitrary: plan ctx w envs)
  case (Cons j js)
  let ?b = "\<lambda>tb. \<lparr>tb_name = ref_name (jc_table j), tb_schema = table_schema tb, tb_offset = length (logical_schema plan)\<rparr>"
  obtain tb w1 e p1 where s: "lookup_table ''Binder::bind: join table '' (tr_name (jc_table j)) tx w = (Inr tb, w1)"
    "bind_expression (jc_on j) (ctx @ [?b tb]) = Inr e" "logical_join plan (LogicalScan tb) e = Inr p1"
    "bind_joins js tx (p1, ctx @ [?b tb]) w1 = (Inr (plan', ctx'), w')"
    using Cons.prems(1) by (auto simp: and_then_eq_Inr Let_def)
  have p1: "p1 = LogicalJoin plan (LogicalScan tb) e (logical_schema plan @ table_schema tb)"
    using s(3) by (auto simp: logical_join_def bind_res_eq_Inr schema_plus_def schema_make_def split: if_splits)
  have b1: "bindings_at 0 (ctx @ [?b tb]) (logical_schema plan @ table_schema tb)"
    using Cons.prems(2) by (auto simp: binding_ok_def bindings_at_snoc)
  have ok: "binding_ok (p1, ctx @ [?b tb])"
    using Cons.prems(2) b1 bind_expression_below [OF s(2) b1] by (simp add: binding_ok_def p1)
  from bind_joins_ok [OF s(4) ok] have "tb \<in> set (plan_tables plan')" by (auto simp: p1)
  then have fit: "rows_fit R [tb]" using Cons.prems(4) by (simp add: rows_fit_def)
  let ?T = "contents_of R w"
  note L = lookup_table_ok [OF s(1)]
  have E: "\<forall>env\<in>#envs. env_for ctx env" "relation R plan = image_mset whole_row envs" using Cons.prems(3) by (simp_all add: means_def)
  note W = with_table_rows [where T = ?T and tr = "jc_table j", OF contents_of_named [OF L(2)] fit E(1)]
  have "filter_mset (holds e) (image_mset whole_row (with_table ?T (jc_table j) envs)) =
      image_mset whole_row (filter_mset (is_true (jc_on j)) (with_table ?T (jc_table j) envs))"
    using W(2) holds_is_true [OF s(2) b1] by (intro filter_rows) blast
  then have "means R (p1, ctx @ [?b tb]) (filter_mset (is_true (jc_on j)) (with_table ?T (jc_table j) envs))"
    using W(2) E(2) by (simp add: means_def p1 W(1))
  from Cons.IH [OF s(4) ok this Cons.prems(4)] show ?case using contents_of_locks [OF L(1)] by simp
qed simp

lemma bind_projection_meaning:
  assumes p: "bind_projection cols ctx plan = Inr plan'" and b: "bindings_at 0 ctx s" and m: "means R (plan, ctx) envs"
  shows "relation R plan' = image_mset (projected cols) envs"
proof (cases cols)
  case None
  then show ?thesis using p m by (simp add: bind_projection_def means_def projected_def [abs_def])
next
  case (Some cs)
  then obtain idxs t where r: "list_all2 (\<lambda>c i. resolve_column c ctx = Inr i) cs idxs" "plan' = LogicalProjection plan idxs t"
    using p by (auto simp: bind_projection_def bind_res_eq_Inr map_res_eq_Inr logical_projection_def split: if_splits)
  have "map ((!) (whole_row env)) idxs = projected cols env" if "env_for ctx env" for env
  proof -
    have "list_all2 (\<lambda>c i. whole_row env ! i = projr (named_value c env)) cs idxs"
      using r(1) by (rule list_all2_mono) (simp add: resolve_column_value [OF _ b that])
    then show ?thesis
      by (auto simp: projected_def Some list_all2_conv_all_nth intro: nth_equalityI)
  qed
  then have "image_mset (\<lambda>env. map ((!) (whole_row env)) idxs) envs = image_mset (projected cols) envs"
    using m by (intro image_mset_cong) (simp add: means_def)
  then show ?thesis using m r(2) by (simp add: means_def multiset.map_comp comp_def)
qed

lemma bind_query_meaning:
  assumes q: "bind_query q tx w = (Inr (plan, q'), w')" and fit: "rows_fit R (plan_tables plan)"
  shows "answers (contents_of R w) q (relation R plan)"
proof -
  obtain tr where tr: "sq_table q = Some tr" using q by (auto simp: bind_query_def split: option.splits)
  obtain tb w1 p1 ctx p2 p3 where s: "lookup_table ''Binder::bind: table '' (tr_name tr) tx w = (Inr tb, w1)"
    "bind_joins (sq_joins q) tx (LogicalScan tb, [\<lparr>tb_name = ref_name tr, tb_schema = table_schema tb, tb_offset = 0\<rparr>]) w1 = (Inr (p1, ctx), w')"
    "bind_filter (sq_predicate q) ctx p1 = Inr p2" "bind_projection (sq_columns q) ctx p2 = Inr p3"
    "plan = (case sq_limit q of None \<Rightarrow> p3 | Some n \<Rightarrow> LogicalLimit p3 n)"
    using q tr by (auto simp: bind_query_def and_then_eq_Inr)
  note L = lookup_table_ok [OF s(1)]
  have ok0: "binding_ok (LogicalScan tb, [\<lparr>tb_name = ref_name tr, tb_schema = table_schema tb, tb_offset = 0\<rparr>])"
    by (simp add: binding_ok_def)
  note J = bind_joins_ok [OF s(2) ok0]
  have ok1: "binding_ok (p1, ctx)" and tbs: "set (plan_tables p1) = set (plan_tables plan)" "tb \<in> set (plan_tables p1)"
    using J bind_filter_ok [OF s(3)] bind_projection_ok [OF s(4)] s(5) by (auto split: option.splits)
  have fit1: "rows_fit R (plan_tables p1)" "rows_fit R [tb]" using fit tbs by (simp_all add: rows_fit_def)
  let ?T = "contents_of R w"
  have T: "contents_of R w1 = ?T" using contents_of_locks [OF L(1)] .
  note W = with_table_rows [where T = ?T and tr = tr and envs = "{#[]#}" and ctx = "[]", OF contents_of_named [OF L(2)] fit1(2)]
  have "means R (LogicalScan tb, [\<lparr>tb_name = ref_name tr, tb_schema = table_schema tb, tb_offset = 0\<rparr>]) (with_table ?T tr {#[]#})"
    using W by (simp add: means_def env_for_def product_def append_Nil [abs_def]) (simp add: whole_row_def append_Nil [abs_def])
  from bind_joins_meaning [OF s(2) ok0 this fit1(1)]
  have m1: "means R (p1, ctx) (joined ?T (sq_joins q) (with_table ?T tr {#[]#}))" unfolding T .
  have b1: "bindings_at 0 ctx (logical_schema p1)" using ok1 unfolding binding_ok_def prod.case by (elim conjE)
  have m2: "means R (p2, ctx) (filter_mset (selected (sq_predicate q)) (joined ?T (sq_joins q) (with_table ?T tr {#[]#})))"
  proof (cases "sq_predicate q = UnboundNull")
    case True
    then show ?thesis using s(3) m1 by (simp add: bind_filter_def selected_def [abs_def])
  next
    case False
    then obtain e where e: "bind_expression (sq_predicate q) ctx = Inr e" "p2 = LogicalFilterPlan p1 e"
      using s(3) by (auto simp: bind_filter_def bind_res_eq_Inr)
    have E: "\<forall>env\<in>#joined ?T (sq_joins q) (with_table ?T tr {#[]#}). holds e (whole_row env) = selected (sq_predicate q) env"
      using m1 holds_is_true [OF e(1) b1] False by (simp add: means_def selected_def)
    show ?thesis using m1 filter_rows [OF E] by (simp add: means_def e(2))
  qed
  have r3: "relation R p3 = query_meaning ?T q"
    using bind_projection_meaning [OF s(4) b1 m2] by (simp add: query_meaning_def tr)
  have "mset (take n (plan_rows R p3)) \<subseteq># relation R p3" "size (mset (take n (plan_rows R p3))) = min n (size (relation R p3))" for n
  proof -
    have "mset (plan_rows R p3) = mset (take n (plan_rows R p3)) + mset (drop n (plan_rows R p3))"
      by (simp flip: mset_append)
    then show "mset (take n (plan_rows R p3)) \<subseteq># relation R p3" by (simp flip: mset_plan_rows)
    show "size (mset (take n (plan_rows R p3))) = min n (size (relation R p3))" by (simp flip: mset_plan_rows)
  qed
  then show ?thesis using s(5) r3 by (simp add: answers_def split: option.splits)
qed

section \<open>Binding only takes locks\<close>

lemma world_ok_locks: "only_locks w w' \<Longrightarrow> world_ok tx P w' \<longleftrightarrow> held {} P (wpool w) \<and> size P < pool_capacity (wpool w) \<and> lockable tx w'"
  by (auto simp: world_ok_def only_locks_data)

lemma only_locks_kept: "only_locks w w' \<Longrightarrow> world_kept P w w'"
  by (simp add: world_kept_def only_locks_data pool_kept_basic(1))

lemma lookup_table_lockable:
  assumes "lookup_table what name tx w = (Inr tb, w')" and "lockable tx w"
  shows "lockable tx w'"
proof -
  obtain e where e: "find_table name (tx_data w) = Some e"
    using lookup_table_ok(2) [OF assms(1)] by (auto simp: named_table_def)
  obtain l where l: "tx_lock lock_shared tx (entry_rid e) w = (Inr True, w\<lparr>locks := l\<rparr>)" "lockable tx (w\<lparr>locks := l\<rparr>)"
    using tx_lock_shared_ok [OF assms(2)] by blast
  have "w' = w\<lparr>locks := l\<rparr>"
    using assms(1) e by (auto simp: lookup_table_def get_table_def and_then_eq_Inr l(1) Let_def split: option.splits if_splits)
  then show ?thesis using l(2) by simp
qed

lemma bind_joins_lockable:
  "bind_joins js tx pc w = (Inr pc', w') \<Longrightarrow> lockable tx w \<Longrightarrow> lockable tx w'"
proof (induction js arbitrary: pc w)
  case Nil
  then show ?case by (cases pc) simp
next
  case (Cons j js)
  obtain plan ctx where pc: "pc = (plan, ctx)" by fastforce
  from Cons.prems(1) obtain tb w1 p1 ctx1 where s: "lookup_table ''Binder::bind: join table '' (tr_name (jc_table j)) tx w = (Inr tb, w1)"
    "bind_joins js tx (p1, ctx1) w1 = (Inr pc', w')"
    by (auto simp: pc and_then_eq_Inr Let_def)
  show ?case using Cons.IH [OF s(2) lookup_table_lockable [OF s(1) Cons.prems(2)]] .
qed

lemma bind_query_world_ok:
  assumes q: "bind_query q tx w = (Inr (plan, q'), w')" and W: "world_ok tx P w"
  shows "world_ok tx P w'"
proof -
  obtain tr where "sq_table q = Some tr" using q by (auto simp: bind_query_def split: option.splits)
  with q obtain tb w1 pc pc' where s: "lookup_table ''Binder::bind: table '' (tr_name tr) tx w = (Inr tb, w1)"
    "bind_joins (sq_joins q) tx pc w1 = (Inr pc', w')"
    by (auto simp: bind_query_def and_then_eq_Inr)
  have "lockable tx w" using W by (simp add: world_ok_def)
  then have "lockable tx w'" by (rule bind_joins_lockable [OF s(2) lookup_table_lockable [OF s(1)]])
  moreover have "only_locks w w'" using bind_query_ok [OF q] by blast
  ultimately show ?thesis using W world_ok_locks [of w w' tx P] by (auto simp: world_ok_def)
qed

end
