(* ===== verification/Query_Properties.thy ===== *)
theory Query_Properties
  imports Query_Meaning Row_Properties
begin

text \<open>
  What a query promises from its names to its rows: the properties of the binder, the optimizer, the
  executor and the operators together, and two ways in which a query answers fewer or other rows than
  it was asked for without an error.
\<close>

section \<open>A table with one row\<close>

definition sample_row :: row where
  "sample_row = [of_int32 7, null_value STRING, of_string ''ab'']"

lemma sample_row_ok: "list_all2 storable sample_schema sample_row" "length (row_bytes sample_schema sample_row) \<le> 8180"
  "row_of_schema sample_schema sample_row"
  by (simp_all add: sample_schema_def sample_row_def storable_def of_value_defs null_value_def wf_value_def strip_nul_def
      row_bytes_def row_fields_def field_bytes_def payload_def bitmap_size_def is_fixed_size_def bitmap_set_null_def
      row_of_type_def column_type_def)

definition sample_table :: table where
  "sample_table = \<lparr>table_name = ''t'', table_first_page = fst sample_heap, table_schema = sample_schema\<rparr>"

definition sample_world :: "bpm \<Rightarrow> world" where
  "sample_world b = \<lparr>locks = lock_init, next_tx_id = 0, active_txs = {}, tx_data = \<lparr>pool = b, catalog_table = sample_table,
     tables = [(''t'', \<lparr>entry_rid = \<lparr>rid_page = 1, rid_slot = 0\<rparr>, entry_table = sample_table\<rparr>)]\<rparr>\<rparr>"

definition sample_filled :: bpm where
  "sample_filled = snd (heap_insert (fst sample_heap) (row_bytes sample_schema sample_row) (snd sample_heap))"

lemma sample_filled_ok: "held {} {#} sample_filled" "pool_capacity sample_filled = 4" "table_rows sample_filled sample_table [sample_row]"
proof -
  let ?p = "fst sample_heap" and ?b = "snd sample_heap" and ?t = "row_bytes sample_schema sample_row"
  have "takes (bpm_view ?b ?p) ?t" by (simp add: sample_heap_view takes_new_page sample_row_ok)
  then obtain r qs e where e: "heap_insert ?p ?t ?b = (Inr (Some r), e)" "inserted {#} ?b ?p [?p] ?t r qs e"
    using heap_insert_ok [OF sample_heap_ok(2,1) _ sample_row_ok(2)] sample_heap_ok(3) by auto
  have f: "sample_filled = e" using e(1) by (simp add: sample_filled_def)
  have E: "held {} {#} e" "heap_pages (bpm_view e) (bpm_pages e) ?p qs" "pool_capacity e = 4"
    using e(2) sample_heap_ok(3) by (auto simp: inserted_def)
  have rows: "rows_from (bpm_view e) qs 0 = [(r, ?t)]" by (rule inserted_only_row [OF e(2) sample_heap_view])
  have "tuple_deserialize ?t sample_schema = Inr \<lparr>tvalues = sample_row, tschema = sample_schema\<rparr>"
    using tuple_deserialize_row [OF sample_row_ok(1)] sample_row_ok(2) by simp
  then show "held {} {#} sample_filled" "pool_capacity sample_filled = 4" "table_rows sample_filled sample_table [sample_row]"
    using E rows unfolding f table_rows_def by (auto simp: sample_table_def decodes_to_def intro!: exI [of _ qs])
qed

lemma sample_world_ok: "world_ok None {#} (sample_world sample_filled)" "table_rows (wpool (sample_world sample_filled)) sample_table [sample_row]"
  "pool_capacity (wpool (sample_world sample_filled)) = 4"
  using sample_filled_ok by (simp_all add: world_ok_def sample_world_def)

section \<open>A bare query\<close>

text \<open>The binding of the FROM table, and a plan under the limit of a query.\<close>

definition from_binding :: "table_ref \<Rightarrow> table \<Rightarrow> table_binding list" where
  "from_binding tr tb = [\<lparr>tb_name = ref_name tr, tb_schema = table_schema tb, tb_offset = 0\<rparr>]"

definition limited :: "nat option \<Rightarrow> logical_plan \<Rightarrow> logical_plan" where
  "limited m plan = (case m of None \<Rightarrow> plan | Some n \<Rightarrow> LogicalLimit plan n)"

lemma bind_query_bare:
  assumes "named_table w (tr_name tr) tb" and "sq_table q = Some tr" and "sq_joins q = []" and "sq_predicate q = UnboundNull"
  shows "bind_query q None w =
    (bind_res (bind_projection (sq_columns q) (from_binding tr tb) (LogicalScan tb)) (\<lambda>p. Inr (limited (sq_limit q) p, query_taken q)), w)"
  using assms
  by (cases "bind_projection (sq_columns q) (from_binding tr tb) (LogicalScan tb)")
    (auto simp: bind_query_def lookup_table_def get_table_def named_table_def Let_def and_then_def bind_filter_def from_binding_def limited_def)

lemma execute_plan_ok:
  assumes p: "plan_typed p" and R: "tables_typed R p" "\<forall>tb\<in>set (plan_tables p). table_rows (wpool w) tb (R tb)"
    and W: "world_ok tx P w" and room: "size P + length (plan_tables p) < pool_capacity (wpool w)"
    and k: "plan_fuel R p \<le> k" and n: "length (plan_rows R p) < n"
  obtains root w1 w2 where "executor_execute tx (optimize p) w = (Inr root, w1)" "query_result_schema root = logical_schema p"
    "query_rows k n root w1 = (Inr (plan_rows R p), w2)" "world_ok tx P w2" "world_kept P w w2"
proof -
  obtain c w1 where b: "build tx (optimize p) w = (Inr c, w1)" "world_ok tx (P + op_pins c) w1" "world_kept P w w1"
    "yields k tx w1 c (plan_rows R p) (plan_rows R p)" "output_schema c = logical_schema p"
    using build_ok [OF W room p R k] unfolding built_def by blast
  obtain w2 where q: "query_rows k n c w1 = (Inr (plan_rows R p), w2)" "world_ok tx P w2" "world_kept P w1 w2"
    using query_rows_ok [OF b(2,4) n] by blast
  have "executor_execute tx (optimize p) w = (Inr c, w1)"
    by (simp add: executor_execute_def and_then_Inr [of "build tx (optimize p)" w, OF b(1)] op_init_id)
  then show thesis using that b(5) q(1,2) world_kept_basic(2) [OF b(3) q(3)] by (simp add: query_result_schema_def)
qed

section \<open>The properties\<close>

text \<open>
  C6: A query plan is answered as relational algebra says. For a well-typed logical plan over tables that
  hold the rows \<open>R\<close>, in a pool with a frame to spare beyond one per scan and with no foreign exclusive
  lock, the executor builds the operators of the optimized plan, their output schema is the plan's, and
  calling \<open>next\<close> until it answers nothing gives the rows of the plan, as a multiset those of scan,
  selection, projection, product and limit, each row of the plan's schema; then the pool holds no pin of
  the query and no page has changed. \<open>plan_fuel\<close> rounds are enough for every loop of the operators.
\<close>

theorem plan_answers_relation:
  assumes p: "plan_typed p" and R: "tables_typed R p" "\<forall>tb\<in>set (plan_tables p). table_rows (wpool w) tb (R tb)"
    and W: "world_ok tx P w" and room: "size P + length (plan_tables p) < pool_capacity (wpool w)"
    and k: "plan_fuel R p \<le> k" and n: "length (plan_rows R p) < n"
  shows "\<exists>root w1 w2 rows. executor_execute tx (optimize p) w = (Inr root, w1) \<and> query_result_schema root = logical_schema p \<and>
    query_rows k n root w1 = (Inr rows, w2) \<and> rows = plan_rows R p \<and> mset rows = relation R p \<and>
    (\<forall>r\<in>set rows. row_of_schema (logical_schema p) r) \<and> world_ok tx P w2 \<and> world_kept P w w2"
proof -
  obtain root w1 w2 where "executor_execute tx (optimize p) w = (Inr root, w1)" "query_result_schema root = logical_schema p"
    "query_rows k n root w1 = (Inr (plan_rows R p), w2)" "world_ok tx P w2" "world_kept P w w2"
    by (rule execute_plan_ok [OF assms])
  then show ?thesis using plan_rows_typed [OF p R(1)] mset_plan_rows by fastforce
qed

definition sample_plan :: logical_plan where
  "sample_plan = LogicalJoin (LogicalScan sample_table) (LogicalScan sample_table)
     (ComparisonExpression (ColumnExpression 0) EQUAL (ColumnExpression 3)) (sample_schema @ sample_schema)"

theorem plan_answers_relation_witness:
  "\<exists>root w1 w2. executor_execute None (optimize sample_plan) (sample_world sample_filled) = (Inr root, w1) \<and>
     query_rows 100 2 root w1 = (Inr [sample_row @ sample_row], w2)"
proof -
  let ?R = "\<lambda>_. [sample_row]"
  let ?e = "ComparisonExpression (ColumnExpression 0) EQUAL (ColumnExpression 3)"
  have h: "holds ?e (sample_row @ sample_row)"
    by (simp add: holds_def predicate_holds_def sample_row_def record_get_def of_value_defs compare_def is_floating_def is_integral_def
        is_numeric_def compare_integral_def as_integral_def as_defs get_defs compare_generic_def comparison_value_def)
  then have rows: "plan_rows ?R sample_plan = [sample_row @ sample_row]"
    by (simp add: sample_plan_def join_rows_step kBLOCK_SIZE_def block_rows_def record_plus_def)
  have "plan_typed sample_plan" by (simp add: sample_plan_def sample_table_def) (simp add: sample_schema_def column_type_def)
  moreover have "tables_typed ?R sample_plan" using sample_row_ok(3) by (simp add: tables_typed_def sample_plan_def sample_table_def)
  moreover have "\<forall>tb\<in>set (plan_tables sample_plan). table_rows (wpool (sample_world sample_filled)) tb (?R tb)"
    using sample_world_ok(2) by (simp add: sample_plan_def)
  moreover have "plan_fuel ?R sample_plan \<le> 100" by (simp add: sample_plan_def kBLOCK_SIZE_def)
  moreover have "size {#} + length (plan_tables sample_plan) < pool_capacity (wpool (sample_world sample_filled))"
    using sample_world_ok(3) by (simp add: sample_plan_def)
  moreover have "length (plan_rows ?R sample_plan) < 2" using rows by simp
  ultimately have "\<exists>root w1 w2 rows. executor_execute None (optimize sample_plan) (sample_world sample_filled) = (Inr root, w1) \<and>
      query_rows 100 2 root w1 = (Inr rows, w2) \<and> rows = plan_rows ?R sample_plan"
    using plan_answers_relation [of sample_plan ?R "sample_world sample_filled" None "{#}" 100 2] sample_world_ok(1) by blast
  then show ?thesis unfolding rows by blast
qed

text \<open>A bound query answers the rows of its plan, in their order.\<close>

lemma engine_plan_rows:
  assumes q: "bind_query q tx w = (Inr (plan, q'), wb)" and p: "plan_typed plan"
    and R: "tables_typed R plan" "\<forall>tb\<in>set (plan_tables plan). table_rows (wpool w) tb (R tb)"
    and W: "world_ok tx P w" and room: "size P + length (query_tables q) < pool_capacity (wpool w)"
    and k: "plan_fuel R plan \<le> k" and n: "length (plan_rows R plan) < n"
  obtains root w1 w2 where "engine_execute q tx w = (Inr (root, q'), w1)" "query_result_schema root = logical_schema plan"
    "query_rows k n root w1 = (Inr (plan_rows R plan), w2)" "world_ok tx P w2" "world_kept P w w2"
proof -
  have o: "only_locks w wb" and tbs: "length (query_tables q) = length (plan_tables plan)"
    using bind_query_ok [OF q] by (auto dest: list_all2_lengthD)
  have pool: "wpool wb = wpool w" using o by (simp add: only_locks_data)
  have Wb: "world_ok tx P wb" using bind_query_world_ok [OF q W] .
  have rows: "\<forall>tb\<in>set (plan_tables plan). table_rows (wpool wb) tb (R tb)" and fits: "size P + length (plan_tables plan) < pool_capacity (wpool wb)"
    using R(2) room tbs by (simp_all add: pool)
  obtain root w1 w2 where e: "executor_execute tx (optimize plan) wb = (Inr root, w1)" "query_result_schema root = logical_schema plan"
    "query_rows k n root w1 = (Inr (plan_rows R plan), w2)" "world_ok tx P w2" "world_kept P wb w2"
    by (rule execute_plan_ok [OF p R(1) rows Wb fits k n])
  have "engine_execute q tx w = (Inr (root, q'), w1)"
    by (simp add: engine_execute_def and_then_Inr [of "bind_query q tx" w, OF q] and_then_Inr [of "executor_execute tx (optimize plan)" wb, OF e(1)])
  then show thesis using that e(2-4) world_kept_basic(2) [OF only_locks_kept [OF o] e(5)] by blast
qed

lemma engine_run:
  assumes q: "bind_query q tx w = (Inr (plan, q'), wb)" and p: "plan_typed plan"
    and R: "tables_typed R plan" "\<forall>tb\<in>set (plan_tables plan). table_rows (wpool w) tb (R tb)"
    and W: "world_ok tx P w" and room: "size P + length (query_tables q) < pool_capacity (wpool w)"
    and k: "plan_fuel R plan \<le> k" and n: "length (plan_rows R plan) < n"
  shows "\<exists>root w1 w2 rows. engine_execute q tx w = (Inr (root, q'), w1) \<and> query_rows k n root w1 = (Inr rows, w2) \<and>
    answers (contents_of R w) q (mset rows) \<and>
    (\<forall>cs. sq_columns q = Some cs \<longrightarrow> map col_name (query_result_schema root) = map cr_name cs) \<and>
    world_ok tx P w2 \<and> world_kept P w w2"
proof -
  have fit: "rows_fit R (plan_tables plan)" using R(1) row_of_schema_length by (auto simp: tables_typed_def rows_fit_def)
  have "answers (contents_of R w) q (mset (plan_rows R plan))" using bind_query_meaning [OF q fit] by (simp add: mset_plan_rows)
  moreover have "\<forall>cs. sq_columns q = Some cs \<longrightarrow> map col_name (logical_schema plan) = map cr_name cs" using bind_query_ok [OF q] by (auto split: option.splits)
  moreover obtain root w1 w2 where "engine_execute q tx w = (Inr (root, q'), w1)" "query_result_schema root = logical_schema plan"
    "query_rows k n root w1 = (Inr (plan_rows R plan), w2)" "world_ok tx P w2" "world_kept P w w2"
    by (rule engine_plan_rows [OF assms])
  ultimately show ?thesis by fastforce
qed

text \<open>
  C3: A query answers what its names say. When a query binds to a well-typed plan over tables that hold
  the rows \<open>R\<close>, under the conditions of plans above, executing it and reading the result to its end gives,
  as a multiset, the meaning of the query by names alone: of all combinations of a row per table of FROM
  and JOIN those that every ON and WHERE makes true, each projected on the requested columns; with a
  limit, that many of them, or all. The result's columns have the requested names, no page has changed,
  no pin is left, and the catalog is as before.
\<close>

theorem engine_answers_query:
  assumes q: "bind_query q tx w = (Inr (plan, q'), wb)" and p: "plan_typed plan"
    and R: "tables_typed R plan" "\<forall>tb\<in>set (plan_tables plan). table_rows (wpool w) tb (R tb)"
    and W: "world_ok tx P w" and room: "size P + length (query_tables q) < pool_capacity (wpool w)"
    and k: "plan_fuel R plan \<le> k" and n: "length (plan_rows R plan) < n"
  shows "\<exists>root w1 w2 rows. engine_execute q tx w = (Inr (root, q'), w1) \<and> query_rows k n root w1 = (Inr rows, w2) \<and>
    answers (contents_of R w) q (mset rows) \<and>
    (\<forall>cs. sq_columns q = Some cs \<longrightarrow> map col_name (query_result_schema root) = map cr_name cs) \<and>
    world_ok tx P w2 \<and> world_kept P w w2"
  by (rule engine_run [OF assms])

definition sample_query :: select_query where
  "sample_query = query_where (UnboundComparisonExpression (UnboundColumnExpression \<lparr>cr_qualifier = None, cr_name = ''id''\<rparr>) GREATER
       (UnboundConstantExpression (of_int32 3)))
     (query_from \<lparr>tr_name = ''t'', tr_alias = None\<rparr> (query_select [\<lparr>cr_qualifier = None, cr_name = ''*''\<rparr>]))"

lemma sample_query_binds:
  "bind_query sample_query None (sample_world b) = (Inr (LogicalFilterPlan (LogicalScan sample_table)
     (ComparisonExpression (ColumnExpression 0) GREATER (ConstantExpression (of_int32 3))), query_taken sample_query), sample_world b)"
  by (simp add: sample_query_def query_where_def query_from_def query_select_def query_columns_def empty_query_def bind_query_def
      lookup_table_def get_table_def find_table_def sample_world_def Let_def and_then_assoc bind_filter_def bind_projection_def
      resolve_column_def sample_table_def sample_schema_def column_index_def
      and_then_def)

theorem engine_answers_query_witness:
  "\<exists>root q' w1 w2. engine_execute sample_query None (sample_world sample_filled) = (Inr (root, q'), w1) \<and>
     query_rows 100 2 root w1 = (Inr [sample_row], w2)"
proof -
  let ?R = "\<lambda>_. [sample_row]" and ?w = "sample_world sample_filled"
  let ?e = "ComparisonExpression (ColumnExpression 0) GREATER (ConstantExpression (of_int32 3))"
  let ?p = "LogicalFilterPlan (LogicalScan sample_table) ?e"
  have h: "holds ?e sample_row"
    by (simp add: holds_def predicate_holds_def sample_row_def record_get_def of_value_defs compare_def is_floating_def is_integral_def
        is_numeric_def compare_integral_def as_integral_def as_defs get_defs compare_generic_def comparison_value_def)
  have "plan_typed ?p" by (simp add: sample_table_def) (simp add: sample_schema_def column_type_def of_value_defs wf_value_def)
  moreover have "tables_typed ?R ?p" using sample_row_ok(3) by (simp add: tables_typed_def sample_table_def)
  moreover have "\<forall>tb\<in>set (plan_tables ?p). table_rows (wpool ?w) tb (?R tb)" using sample_world_ok(2) by simp
  moreover have "size {#} + length (query_tables sample_query) < pool_capacity (wpool ?w)"
    using sample_world_ok(3)
    by (simp add: query_tables_def sample_query_def query_where_def query_from_def query_select_def query_columns_def empty_query_def)
  moreover have "plan_fuel ?R ?p \<le> 100" "length (plan_rows ?R ?p) < 2" using h by simp_all
  ultimately obtain root w1 w2 rows where r: "engine_execute sample_query None ?w = (Inr (root, query_taken sample_query), w1)"
    "query_rows 100 2 root w1 = (Inr rows, w2)" "answers (contents_of ?R ?w) sample_query (mset rows)"
    using engine_answers_query [OF sample_query_binds [of sample_filled], of ?R "{#}" 100 2] sample_world_ok(1) by blast
  have "relation ?R ?p = {#sample_row#}" using h by simp
  moreover have "answers (contents_of ?R ?w) sample_query (relation ?R ?p)"
    using bind_query_meaning [OF sample_query_binds [of sample_filled], of ?R] sample_row_ok(3)
    by (simp add: rows_fit_def sample_table_def sample_schema_def sample_row_def)
  ultimately have "mset rows = {#sample_row#}"
    using r(3) by (simp add: answers_def sample_query_def query_where_def query_from_def query_select_def query_columns_def empty_query_def)
  then have "rows = [sample_row]" by (cases rows) auto
  then show ?thesis using r(1,2) by blast
qed

text \<open>
  C37: A scan that cannot lock its next row ends as if the table had no more rows. When another transaction
  holds the row a sequential scan looks at next exclusively, the query under transaction \<open>t\<close> answers no
  row although rows are left, without an error; the transaction is aborted by the lock manager, and a
  commit nevertheless succeeds.
\<close>

theorem scan_lock_timeout_ends_query:
  assumes x: "txs (locks w) t = Some x" "tx_state x = GROWING"
    and r: "r = scan_rid (ts_heap sc)" "r \<notin> shared_locks x" "r \<notin> exclusive_locks x" "\<not> can_grant (lock_table (locks w) r) t SHARED"
    and sc: "ts_tx sc = Some t" "scan_yields (wpool w) sc rows" "rows \<noteq> []" and h: "held {} (add_mset (scan_pid (ts_heap sc)) P) (wpool w)"
  shows "\<exists>w1 y z. query_rows k (Suc n) (SequentialScanOperator tb (Some t) sc) w = (Inr [], w1) \<and>
    txs (locks w1) t = Some y \<and> tx_state y = ABORTED \<and>
    txs (locks (tm_commit t w1)) t = Some z \<and> tx_state z = COMMITTED"
proof -
  let ?l = "time_out t r (enqueue t r SHARED (locks w))"
  have l: "lock_shared t r (locks w) = (False, ?l)"
    using x r(2-4) by (simp add: lock_shared_def request_shared_def await_def enqueue_def set_queue_def can_grant_enqueued)
  have tl: "txs ?l t = Some (x\<lparr>tx_state := ABORTED\<rparr>)" using x by (simp add: time_out_def enqueue_def set_queue_def set_tx_def)
  let ?w = "w\<lparr>locks := ?l\<rparr>"
  have tl2: "tx_lock lock_shared (ts_tx sc) (scan_rid (ts_heap sc)) w = (Inr False, ?w)" using sc(1) l r(1) by (simp add: tx_lock_def)
  have tn: "table_scan_next sc w = (Inr (None, sc), ?w)"
    by (simp add: table_scan_next_def and_then_Inr [of "tx_lock lock_shared (ts_tx sc) (scan_rid (ts_heap sc))" w, OF tl2])
  have nx: "query_result_next k (SequentialScanOperator tb (Some t) sc) w = (Inr (None, SequentialScanOperator tb (Some t) sc), ?w)"
    by (simp add: query_result_next_def seq_scan_next_def and_then_assoc and_then_Inr [of "table_scan_next sc" w, OF tn])
  have "held {} (add_mset (scan_pid (ts_heap sc)) P) (wpool ?w)" "scan_yields (wpool ?w) sc rows" using h sc(2) by simp_all
  from table_scan_close_ok [OF this] obtain w1 where c: "table_scan_close sc ?w = (Inr (), w1)" "locks w1 = ?l" by auto
  have "query_rows k (Suc n) (SequentialScanOperator tb (Some t) sc) w = (Inr [], w1)"
    by (simp add: and_then_Inr [of "query_result_next k (SequentialScanOperator tb (Some t) sc)" w, OF nx]
        and_then_Inr [of "table_scan_close sc" ?w, OF c(1)])
  then show ?thesis using tl c(2) commit_locks [of w1 t] by auto
qed

theorem scan_lock_timeout_ends_query_witness:
  "\<exists>w sc w1. table_rows (wpool w) sample_table [sample_row] \<and> scan_yields (wpool w) sc [sample_row] \<and>
     query_rows 1 1 (SequentialScanOperator sample_table (Some 0) sc) w = (Inr [], w1)"
proof -
  let ?w0 = "sample_world sample_filled"
  obtain sc w where o: "held {} (add_mset (scan_pid (ts_heap sc)) {#}) (wpool w)" "scan_yields (wpool w) sc [sample_row]"
    "world_kept {#} ?w0 w"
    using table_scan_open_ok [OF sample_world_ok(1,2)] by blast
  let ?l = "\<lparr>lock_table = \<lambda>_. [\<lparr>req_tx = 1, req_mode = EXCLUSIVE, req_granted = True\<rparr>], txs = [0 \<mapsto> tx_object], waiting = Map.empty\<rparr>"
  let ?w = "w\<lparr>locks := ?l\<rparr>" and ?sc = "sc\<lparr>ts_tx := Some 0\<rparr>"
  have y: "scan_yields (wpool ?w) ?sc [sample_row]" using o(2) by (simp add: scan_yields_def)
  have t: "table_rows (wpool ?w) sample_table [sample_row]"
    using o(3) sample_world_ok(2) table_rows_kept by (auto simp: world_kept_def)
  have "\<exists>w1. query_rows 1 (Suc 0) (SequentialScanOperator sample_table (Some 0) ?sc) ?w = (Inr [], w1)"
    using scan_lock_timeout_ends_query [of ?w 0 tx_object "scan_rid (ts_heap ?sc)" ?sc "[sample_row]" "{#}" 1 0 sample_table] y o(1)
    by (auto simp: tx_object_def)
  then show ?thesis unfolding One_nat_def using y t by blast
qed

text \<open>
  C40: A query object can be executed once. Binding takes the joins and the predicate out of the query
  object: when the same object is bound again, without a transaction, the second plan is the scan of the
  FROM table under the column list and the limit of the query alone; WHERE and JOIN are gone. The first
  plan of a query with a predicate and no join had the filter between the scan and the column list.
\<close>

theorem query_loses_where:
  assumes "sq_table q = Some tr" and "bind_query q None w = (Inr (plan, q'), w')"
  shows "\<exists>tb. named_table w (tr_name tr) tb \<and>
    bind_query q' None w' =
      (bind_res (bind_projection (sq_columns q) (from_binding tr tb) (LogicalScan tb)) (\<lambda>p. Inr (limited (sq_limit q) p, q')), w') \<and>
    (sq_joins q = [] \<and> sq_predicate q \<noteq> UnboundNull \<longrightarrow>
      (\<exists>e p. bind_projection (sq_columns q) (from_binding tr tb) (LogicalFilterPlan (LogicalScan tb) e) = Inr p \<and>
         plan = limited (sq_limit q) p))"
proof -
  note B = bind_query_ok [OF assms(2)]
  obtain tb w1 where l: "lookup_table ''Binder::bind: table '' (tr_name tr) None w = (Inr tb, w1)"
    using assms by (auto simp: bind_query_def and_then_eq_Inr)
  have n: "named_table w (tr_name tr) tb" using lookup_table_ok(2) [OF l] .
  have w': "named_table w' (tr_name tr) tb" using n B only_locks_data [of w w'] by (simp add: named_table_def)
  have "bind_query q' None w' =
      (bind_res (bind_projection (sq_columns q) (from_binding tr tb) (LogicalScan tb)) (\<lambda>p. Inr (limited (sq_limit q) p, q')), w')"
    using B assms(1) bind_query_bare [OF w', of q'] by (simp add: query_taken_def)
  moreover have "\<exists>e p. bind_projection (sq_columns q) (from_binding tr tb) (LogicalFilterPlan (LogicalScan tb) e) = Inr p \<and>
      plan = limited (sq_limit q) p" if "sq_joins q = []" "sq_predicate q \<noteq> UnboundNull"
    using assms l that
    by (auto simp: bind_query_def and_then_eq_Inr bind_filter_def bind_res_eq_Inr from_binding_def limited_def)
  ultimately show ?thesis using n by blast
qed

theorem query_loses_where_witness:
  "\<exists>e plan q'. bind_query sample_query None (sample_world sample_filled) = (Inr (LogicalFilterPlan (LogicalScan sample_table) e, q'), sample_world sample_filled) \<and>
     bind_query q' None (sample_world sample_filled) = (Inr (LogicalScan sample_table, q'), sample_world sample_filled)"
proof -
  have q: "sq_columns sample_query = None" "sq_limit sample_query = None" "sq_table sample_query = Some \<lparr>tr_name = ''t'', tr_alias = None\<rparr>"
    by (simp_all add: sample_query_def query_where_def query_from_def query_select_def query_columns_def empty_query_def)
  from query_loses_where [OF q(3) sample_query_binds [of sample_filled]] sample_query_binds [of sample_filled] show ?thesis
    by (auto simp: q(1,2) bind_projection_def limited_def named_table_def find_table_def sample_world_def)
qed

end
