(* ===== verification/Catalog_Rows.thy ===== *)
theory Catalog_Rows
  imports Catalog Operator_Rows Heap_Properties Row_Properties
begin

text \<open>
  The catalog table holds one row per table of the map in memory, and loading it builds this map again.
\<close>

section \<open>Catalog entries as rows\<close>

definition entry_row :: "table \<Rightarrow> row" where
  "entry_row tb = [of_string (table_name tb), of_uint32 (table_first_page tb), of_blob (schema_serialize (table_schema tb))]"

definition entry_bytes :: "table \<Rightarrow> byte list" where
  "entry_bytes tb = row_bytes catalog_schema (entry_row tb)"

text \<open>A table that fits a catalog row: a name of up to 128 bytes and a schema that fits a page with it.\<close>

definition entry_fits :: "string \<Rightarrow> schema \<Rightarrow> bool" where
  "entry_fits name s \<longleftrightarrow> length name \<le> 128 \<and> (\<forall>c\<in>set s. known_type (col_type c)) \<and> length s < 2 ^ 16 \<and>
     length name + length (schema_serialize s) \<le> 8171"

abbreviation fits_entry :: "table \<Rightarrow> bool" where
  "fits_entry tb \<equiv> entry_fits (table_name tb) (table_schema tb)"

lemma entry_row_storable: "fits_entry tb \<Longrightarrow> list_all2 storable catalog_schema (entry_row tb)"
  by (simp add: catalog_schema_def entry_row_def storable_def of_value_defs wf_value_def entry_fits_def)

lemma entry_bytes_length: "length (entry_bytes tb) = 9 + length (table_name tb) + length (schema_serialize (table_schema tb))"
  by (simp add: entry_bytes_def row_bytes_def catalog_schema_def entry_row_def row_fields_def field_bytes_def payload_def of_value_defs
      bitmap_size_def is_fixed_size_def)

lemma entry_bytes_read:
  assumes "fits_entry tb"
  shows "tuple_deserialize (entry_bytes tb) catalog_schema = Inr \<lparr>tvalues = entry_row tb, tschema = catalog_schema\<rparr>"
proof -
  have "length (row_bytes catalog_schema (entry_row tb)) < 2 ^ 16"
    using assms entry_bytes_length [of tb] by (simp add: entry_fits_def entry_bytes_def)
  from tuple_deserialize_row [OF entry_row_storable [OF assms] this] show ?thesis by (simp add: entry_bytes_def)
qed

lemma entry_schema_read: "fits_entry tb \<Longrightarrow> schema_deserialize (schema_serialize (table_schema tb)) = Inr (table_schema tb)"
  using schema_deserialize_serialize [of "table_schema tb" "[]"] by (simp add: entry_fits_def)

section \<open>The catalog table and the map in memory\<close>

definition catalog_rows :: "(string \<times> table_entry) list \<Rightarrow> (rid \<times> byte list) list" where
  "catalog_rows ts = map (\<lambda>(name, e). (entry_rid e, entry_bytes (entry_table e))) ts"

text \<open>The heap pages \<open>ps\<close> of the catalog table hold exactly the rows of the entries.\<close>

definition catalog_holds :: "bpm \<Rightarrow> table \<Rightarrow> page_id list \<Rightarrow> (string \<times> table_entry) list \<Rightarrow> bool" where
  "catalog_holds b ct ps ts \<longleftrightarrow> table_schema ct = catalog_schema \<and>
     heap_pages (bpm_view b) (bpm_pages b) (table_first_page ct) ps \<and>
     distinct (map fst ts) \<and> distinct (map fst (catalog_rows ts)) \<and>
     (\<forall>(name, e)\<in>set ts. table_name (entry_table e) = name \<and> fits_entry (entry_table e)) \<and>
     heap_row (bpm_view b) ps = map_of (catalog_rows ts)"

abbreviation catalog_ok :: "page_id list \<Rightarrow> world \<Rightarrow> bool" where
  "catalog_ok ps w \<equiv> catalog_holds (wpool w) (catalog_table (tx_data w)) ps (tables (tx_data w))"

text \<open>A row of the catalog table read as an entry.\<close>

definition entry_read :: "rid \<times> byte list \<Rightarrow> table_entry \<Rightarrow> bool" where
  "entry_read x e \<longleftrightarrow> entry_rid e = fst x \<and> snd x = entry_bytes (entry_table e) \<and> fits_entry (entry_table e)"

section \<open>Loading\<close>

definition add_entry :: "table_entry \<Rightarrow> (string \<times> table_entry) list \<Rightarrow> (string \<times> table_entry) list" where
  "add_entry e ts = AList.update (table_name (entry_table e)) e ts"

definition add_world :: "table_entry \<Rightarrow> world \<Rightarrow> world" where
  "add_world e w = put_tables (add_entry e (tables (tx_data w))) w"

lemma add_world_simps [simp]:
  "pool (tx_data (add_world e w)) = wpool w" "locks (add_world e w) = locks w"
  "catalog_table (tx_data (add_world e w)) = catalog_table (tx_data w)"
  "tables (tx_data (add_world e w)) = add_entry e (tables (tx_data w))"
  by (simp_all add: add_world_def put_tables_def)

lemma load_entry_ok:
  assumes "entry_read (r, t) e"
  shows "load_entry r \<lparr>tvalues = entry_row (entry_table e), tschema = catalog_schema\<rparr> w = (Inr (), add_world e w)"
  using assms entry_schema_read [of "entry_table e"]
  by (cases e; cases "entry_table e") (simp add: load_entry_def entry_read_def tuple_get_def entry_row_def of_value_defs as_string_def as_uint32_def as_bytes_def
      get_string_def get_uint32_def get_bytes_def add_world_def add_entry_def)

lemma table_scan_next_heap:
  assumes h: "held {} (add_mset (scan_pid (ts_heap sc)) P) (wpool w)" and r: "scan_ready (wpool w) (ts_heap sc) qs"
    and tx: "ts_tx sc = None" and d: "\<forall>x\<in>set (scan_rows (wpool w) (ts_heap sc) qs). tuple_deserialize (snd x) (ts_schema sc) = Inr (g x)"
  shows "\<exists>h' c qs'. table_scan_next sc w =
      (Inr (map_option (\<lambda>x. (fst x, g x)) (first (scan_rows (wpool w) (ts_heap sc) qs)), sc\<lparr>ts_heap := h'\<rparr>), put_pool c w) \<and>
    held {} (add_mset (scan_pid h') P) c \<and> pool_kept P (wpool w) c \<and> scan_ready c h' qs' \<and>
    scan_rows c h' qs' = tl (scan_rows (wpool w) (ts_heap sc) qs)"
proof -
  let ?h = "ts_heap sc"
  obtain h' c qs' where c: "heap_scan_next ?h (wpool w) = (Inr (first (scan_rows (wpool w) ?h qs), h'), c)"
    "pin_moved P (wpool w) (scan_pid h') c" "scan_ready c h' qs'" "scan_rows c h' qs' = tl (scan_rows (wpool w) ?h qs)"
    using heap_scan_next_ok [OF h r] unfolding stepped_def first_def by blast
  have op: "on_pool (heap_scan_next ?h) w = (Inr (first (scan_rows (wpool w) ?h qs), h'), put_pool c w)"
    using c(1) by (intro on_pool_run) simp
  have "table_scan_next sc w =
      (Inr (map_option (\<lambda>x. (fst x, g x)) (first (scan_rows (wpool w) ?h qs)), sc\<lparr>ts_heap := h'\<rparr>), put_pool c w)"
    using d op tx
    by (cases "scan_rows (wpool w) ?h qs")
      (auto simp: table_scan_next_def and_then_Inr [of "tx_lock lock_shared None (scan_rid ?h)" w] and_then_Inr [of "on_pool (heap_scan_next ?h)" w])
  then show ?thesis using c by (auto simp: pin_moved_kept)
qed

lemma list_all2_left: "list_all2 P xs ys \<Longrightarrow> x \<in> set xs \<Longrightarrow> \<exists>y. P x y"
  by (induction rule: list_all2_induct) auto

definition entry_tuple :: "table_entry \<Rightarrow> tuple" where
  "entry_tuple e = \<lparr>tvalues = entry_row (entry_table e), tschema = catalog_schema\<rparr>"

lemma load_from_ok:
  "list_all2 entry_read (scan_rows (wpool w) (ts_heap sc) qs) es \<Longrightarrow> held {} (add_mset (scan_pid (ts_heap sc)) P) (wpool w) \<Longrightarrow>
   scan_ready (wpool w) (ts_heap sc) qs \<Longrightarrow> ts_tx sc = None \<Longrightarrow> ts_schema sc = catalog_schema \<Longrightarrow> length es < n \<Longrightarrow>
   \<exists>w'. load_from n sc w = (Inr (), w') \<and> held {} P (wpool w') \<and> pool_kept P (wpool w) (wpool w') \<and> locks w' = locks w \<and>
     catalog_table (tx_data w') = catalog_table (tx_data w) \<and> tables (tx_data w') = fold add_entry es (tables (tx_data w))"
proof (induction es arbitrary: n sc w qs)
  case Nil
  then obtain m where n: "n = Suc m" by (cases n) auto
  have none: "scan_rows (wpool w) (ts_heap sc) qs = []" using Nil.prems(1) by simp
  with table_scan_next_heap [OF Nil.prems(2-4)] obtain h' c qs' where c: "table_scan_next sc w = (Inr (None, sc\<lparr>ts_heap := h'\<rparr>), put_pool c w)"
    "held {} (add_mset (scan_pid h') P) c" "pool_kept P (wpool w) c" "scan_ready c h' qs'" by force
  let ?sc = "sc\<lparr>ts_heap := h'\<rparr>"
  obtain d where d: "heap_scan_close h' c = (Inr (), d)" "held {} P d" "bpm_view d = bpm_view c" "same_pool c d"
    using heap_scan_close_ok [OF c(2,4)] by blast
  have "table_scan_close ?sc (put_pool c w) = (Inr (), put_pool d w)"
    using on_pool_run [of "heap_scan_close h'" "put_pool c w", simplified, OF d(1)] by (simp add: table_scan_close_def)
  moreover have "pool_kept P c d" using d(3,4) by (simp add: pool_kept_def same_pool_def pool_shape_def)
  ultimately show ?case
    using d(2) pool_kept_basic(2) [OF c(3)] by (simp add: n and_then_Inr [of "table_scan_next sc" w, OF c(1)])
next
  case (Cons e es)
  then obtain m where n: "n = Suc m" by (cases n) auto
  obtain r t xs where x: "scan_rows (wpool w) (ts_heap sc) qs = (r, t) # xs" "entry_read (r, t) e" "list_all2 entry_read xs es"
    using Cons.prems(1) by (cases "scan_rows (wpool w) (ts_heap sc) qs") auto
  let ?g = "\<lambda>x. projr (tuple_deserialize (snd x) catalog_schema)"
  have g: "tuple_deserialize (snd x) catalog_schema = Inr (entry_tuple e)" if "entry_read x e" for x e
    using that entry_bytes_read [of "entry_table e"] by (simp add: entry_read_def entry_tuple_def)
  have "\<forall>x\<in>set (scan_rows (wpool w) (ts_heap sc) qs). tuple_deserialize (snd x) (ts_schema sc) = Inr (?g x)"
    using list_all2_left [OF Cons.prems(1)] g Cons.prems(5) by fastforce
  from table_scan_next_heap [OF Cons.prems(2-4) this] x(1) obtain h' c qs' where c:
    "table_scan_next sc w = (Inr (Some (r, ?g (r, t)), sc\<lparr>ts_heap := h'\<rparr>), put_pool c w)"
    "held {} (add_mset (scan_pid h') P) c" "pool_kept P (wpool w) c" "scan_ready c h' qs'" "scan_rows c h' qs' = xs" by force
  have eg: "projr (tuple_deserialize t catalog_schema) = entry_tuple e" using g [OF x(2)] by simp
  let ?sc = "sc\<lparr>ts_heap := h'\<rparr>" and ?w = "add_world e (put_pool c w)"
  have l: "load_entry r (entry_tuple e) (put_pool c w) = (Inr (), ?w)" using load_entry_ok [OF x(2)] by (simp add: entry_tuple_def)
  obtain w' where w': "load_from m ?sc ?w = (Inr (), w')" "held {} P (wpool w')" "pool_kept P (wpool ?w) (wpool w')" "locks w' = locks ?w"
    "catalog_table (tx_data w') = catalog_table (tx_data ?w)" "tables (tx_data w') = fold add_entry es (tables (tx_data ?w))"
    using Cons.IH [of ?w ?sc qs' m] x(3) c(2,4,5) Cons.prems(4-6) by (auto simp: n)
  have "load_from n sc w = (Inr (), w')"
    using w'(1) l eg by (simp add: n and_then_Inr [of "table_scan_next sc" w, OF c(1)])
  moreover have "pool_kept P (wpool w) (wpool w')" using pool_kept_basic(2) [OF c(3)] w'(3) by simp
  ultimately show ?case using w'(2,4-6) by simp
qed

lemma update_new: "k \<notin> fst ` set ts \<Longrightarrow> AList.update k v ts = ts @ [(k, v)]"
  by (induction ts) auto

lemma fold_add_entry:
  "distinct (map fst (ts @ map (\<lambda>e. (table_name (entry_table e), e)) es)) \<Longrightarrow>
   fold add_entry es ts = ts @ map (\<lambda>e. (table_name (entry_table e), e)) es"
  by (induction es arbitrary: ts) (simp_all add: add_entry_def update_new)

text \<open>The rows in scan order are the entries in some order.\<close>

lemma catalog_holds_set:
  assumes c: "catalog_holds b ct ps ts" and d: "distinct ts'" and st: "set ts' = set ts"
  shows "catalog_holds b ct ps ts'" "map_of ts' = map_of ts"
proof -
  let ?f = "\<lambda>(name, e). (entry_rid e, entry_bytes (entry_table e))"
  have dn: "distinct (map fst ts)" and dr: "distinct (map fst (catalog_rows ts))" using c by (simp_all add: catalog_holds_def)
  have d1: "distinct (map fst ts')" using dn st d by (simp add: distinct_map)
  have "distinct (map (fst \<circ> ?f) ts)" using dr by (simp add: catalog_rows_def)
  then have "distinct (map (fst \<circ> ?f) ts')" using st d unfolding distinct_map by simp
  then have d2: "distinct (map fst (catalog_rows ts'))" by (simp add: catalog_rows_def)
  have "map_of (catalog_rows ts') = map_of (catalog_rows ts)"
    using map_of_inject_set [OF d2 dr] st by (simp add: catalog_rows_def)
  then show "catalog_holds b ct ps ts'" using c d1 d2 st by (simp add: catalog_holds_def)
  show "map_of ts' = map_of ts" using map_of_inject_set [OF d1 dn] st by blast
qed

lemma entries_of_rows:
  assumes c: "catalog_holds b ct ps ts"
  shows "\<exists>ts'. catalog_rows ts' = rows_from (bpm_view b) ps 0 \<and> catalog_holds b ct ps ts' \<and> map_of ts' = map_of ts"
proof -
  let ?f = "\<lambda>(name, e). (entry_rid e, entry_bytes (entry_table e))" and ?rows = "rows_from (bpm_view b) ps 0"
  have dr: "distinct (map fst (catalog_rows ts))"
    and hp: "chain (bpm_view b) (bpm_pages b) (table_first_page ct) ps" "distinct ps"
    and rows: "heap_row (bpm_view b) ps = map_of (catalog_rows ts)"
    using c by (auto simp: catalog_holds_def heap_pages_def)
  have wf: "\<forall>q\<in>set ps. wf_page (bpm_view b q)" using chain_in [OF hp(1)] by blast
  have set: "set ?rows = ?f ` set ts"
    using rows_in [OF wf] rows dr map_of_eq_Some_iff [OF dr] by (auto simp: catalog_rows_def)
  have "inj_on (fst \<circ> ?f) (set ts)" using dr by (simp add: catalog_rows_def distinct_map)
  then have inj: "inj_on ?f (set ts)" by (rule inj_on_imageI2)
  define ts' where "ts' = map (inv_into (set ts) ?f) ?rows"
  have fts: "map ?f ts' = ?rows" unfolding ts'_def map_map using set by (intro map_idI) (simp add: f_inv_into_f)
  have st: "set ts' = set ts" using set inj by (force simp: ts'_def)
  have "distinct ?rows" using rows_distinct [OF hp(2) wf, of 0] by (simp add: distinct_map)
  then have "distinct (map ?f ts')" unfolding fts .
  then have "distinct ts'" unfolding distinct_map by (rule conjunct1)
  from catalog_holds_set [OF c this st] show ?thesis using fts by (auto simp: catalog_rows_def)
qed

lemma catalog_entries_read:
  assumes "catalog_holds b ct ps ts"
  shows "list_all2 entry_read (catalog_rows ts) (map snd ts)" "map (\<lambda>e. (table_name (entry_table e), e)) (map snd ts) = ts"
  using assms
  by (auto simp: catalog_holds_def catalog_rows_def list.rel_map entry_read_def intro!: list.rel_refl_strong map_idI)

lemma page_rows_length: "wf_page d \<Longrightarrow> length (page_rows p d 0) < kPAGE_SIZE"
proof -
  assume wf: "wf_page d"
  have "length (page_rows p d 0) \<le> page_slots d"
    using length_filter_le [of "live d" "[0..<page_slots d]"] by (simp add: page_rows_def)
  moreover have "8 + 4 * page_slots d \<le> page_free d" "used d (page_slots d) + page_free d \<le> kPAGE_SIZE"
    using wf_pageD(2) [OF wf] used_bound [OF wf] by simp_all
  ultimately show ?thesis by linarith
qed

lemma rows_from_length: "\<forall>q\<in>set ps. wf_page (v q) \<Longrightarrow> length (rows_from v ps 0) \<le> length ps * kPAGE_SIZE"
proof (induction ps)
  case (Cons a ps)
  then show ?case using page_rows_length [of "v a" a] by simp
qed simp

lemma load_existing_tables_ok:
  assumes c: "catalog_holds (wpool w) (catalog_table (tx_data w)) ps ts" and h: "held {} P (wpool w)" and P: "size P < pool_capacity (wpool w)"
    and none: "tables (tx_data w) = []"
  shows "\<exists>w'. load_existing_tables w = (Inr (), w') \<and> held {} P (wpool w') \<and> pool_kept P (wpool w) (wpool w') \<and> locks w' = locks w \<and>
    catalog_table (tx_data w') = catalog_table (tx_data w) \<and> map_of (tables (tx_data w')) = map_of ts \<and> catalog_ok ps w'"
proof -
  let ?ct = "catalog_table (tx_data w)"
  have hp: "heap_pages (bpm_view (wpool w)) (bpm_pages (wpool w)) (table_first_page ?ct) ps" and sch: "table_schema ?ct = catalog_schema"
    using c by (simp_all add: catalog_holds_def)
  obtain qs where qs: "ps = table_first_page ?ct # qs" using hp by (cases ps) (auto simp: heap_pages_def)
  obtain ts' where ts': "catalog_rows ts' = rows_from (bpm_view (wpool w)) ps 0" "catalog_holds (wpool w) ?ct ps ts'" "map_of ts' = map_of ts"
    using entries_of_rows [OF c] by blast
  let ?es = "map snd ts'"
  note es = catalog_entries_read [OF ts'(2)]
  obtain h' b where o: "heap_scan_open (table_first_page ?ct) (wpool w) = (Inr h', b)" "scan_pid h' = table_first_page ?ct"
    "pin_moved P (wpool w) (table_first_page ?ct) b" "scan_ready b h' qs" "scan_rows b h' qs = rows_from (bpm_view (wpool w)) ps 0"
    using heap_scan_open_ok [OF h P, of "table_first_page ?ct" qs] hp qs by auto
  let ?sc = "\<lparr>ts_heap = h', ts_schema = catalog_schema, ts_tx = None\<rparr>"
  have so: "table_scan_open ?ct None w = (Inr ?sc, put_pool b w)"
    using on_pool_run [of "heap_scan_open (table_first_page ?ct)" w, OF o(1)] sch
    by (simp add: table_scan_open_def and_then_Inr [of "on_pool (heap_scan_open (table_first_page ?ct))" w])
  have wf: "\<forall>q\<in>set ps. wf_page (bpm_view (wpool w) q)" using hp chain_in by (auto simp: heap_pages_def)
  have "length ?es = length (rows_from (bpm_view (wpool w)) ps 0)" using ts'(1) by (simp add: catalog_rows_def flip: ts'(1))
  also have "\<dots> \<le> length ps * kPAGE_SIZE" by (rule rows_from_length [OF wf])
  also have "\<dots> < page_fuel (wpool w) * kPAGE_SIZE" using heap_fuel [OF hp] by (simp add: kPAGE_SIZE_def)
  finally have n: "length ?es < page_fuel (wpool w) * kPAGE_SIZE" .
  have p: "held {} (add_mset (scan_pid h') P) b" "pool_kept P (wpool w) b" using o(2,3) by (simp_all add: pin_moved_kept)
  obtain w' where w': "load_from (page_fuel (wpool w) * kPAGE_SIZE) ?sc (put_pool b w) = (Inr (), w')" "held {} P (wpool w')"
    "pool_kept P b (wpool w')" "locks w' = locks w" "catalog_table (tx_data w') = ?ct" "tables (tx_data w') = fold add_entry ?es []"
    using load_from_ok [of "put_pool b w" ?sc qs ?es P "page_fuel (wpool w) * kPAGE_SIZE"] es(1) ts'(1) o(4,5) p n none by auto
  have "distinct (map fst ([] @ map (\<lambda>e. (table_name (entry_table e), e)) ?es))"
    unfolding es(2) using ts'(2) by (simp add: catalog_holds_def)
  from fold_add_entry [OF this] have "fold add_entry ?es [] = ts'" unfolding es(2) by simp
  then have t: "tables (tx_data w') = ts'" using w'(6) by simp
  have k: "pool_kept P (wpool w) (wpool w')" using pool_kept_basic(2) [OF p(2) w'(3)] .
  have "catalog_ok ps w'" using ts'(2) k by (simp add: t w'(5) catalog_holds_def pool_kept_def)
  moreover have "load_existing_tables w = (Inr (), w')"
    using w'(1) so by (simp add: load_existing_tables_def and_then_Inr [of "table_scan_open ?ct None" w])
  ultimately show ?thesis using w'(2,4,5) k t ts'(3) by blast
qed

section \<open>Opening a database\<close>

definition catalog_object :: table where
  "catalog_object = \<lparr>table_name = ''duck_catalog_'', table_first_page = kCATALOG_FIRST_PAGE_ID, table_schema = catalog_schema\<rparr>"

lemma database_open_ok:
  assumes cap: "kCATALOG_FIRST_PAGE_ID < dcapacity (bdisk c)" and h: "held {} {#} c" and n: "0 < pool_capacity c"
    and k: "catalog_holds c catalog_object ps ts"
  shows "\<exists>w. database_open c = (Inr w, wpool w) \<and> world_ok None {#} w \<and> pool_kept {#} c (wpool w) \<and> locks w = lock_init \<and>
    catalog_table (tx_data w) = catalog_object \<and> map_of (tables (tx_data w)) = map_of ts \<and> catalog_ok ps w"
proof -
  let ?w = "\<lparr>locks = lock_init, next_tx_id = 0, active_txs = {}, tx_data = \<lparr>pool = c, catalog_table = catalog_object, tables = []\<rparr>\<rparr>"
  obtain w where w: "load_existing_tables ?w = (Inr (), w)" "held {} {#} (wpool w)" "pool_kept {#} c (wpool w)" "locks w = lock_init"
    "catalog_table (tx_data w) = catalog_object" "map_of (tables (tx_data w)) = map_of ts" "catalog_ok ps w"
    using load_existing_tables_ok [of ?w ps ts "{#}"] k h n by auto
  have "init_table c = (Inr catalog_object, c)"
    using cap by (auto simp: init_table_def catalog_object_def and_then_def gets_def ret_def)
  then have "database_open c = (Inr w, wpool w)"
    using w(1) by (simp add: database_open_def and_then_Inr [of init_table c])
  moreover have "world_ok None {#} w" using w(2,3) n pool_kept_capacity by (simp add: world_ok_def)
  ultimately show ?thesis using w by blast
qed

section \<open>Creating a table\<close>

lemma catalog_holds_view:
  assumes "catalog_holds b ct ps ts" and "\<And>q. q \<in> bpm_pages b \<Longrightarrow> bpm_view c q = bpm_view b q" and "bpm_pages b \<subseteq> bpm_pages c"
  shows "catalog_holds c ct ps ts"
proof -
  have hp: "chain (bpm_view b) (bpm_pages b) (table_first_page ct) ps" using assms(1) by (simp add: catalog_holds_def heap_pages_def)
  have v: "bpm_view b q = bpm_view c q" if "q \<in> set ps" for q using assms(2) chain_in [OF hp that] by simp
  have "chain (bpm_view c) (bpm_pages c) (table_first_page ct) ps" using chain_cong [OF v assms(3) hp] .
  moreover have "heap_row (bpm_view c) ps = heap_row (bpm_view b) ps" using v by (auto simp: heap_row_def fun_eq_iff)
  ultimately show ?thesis using assms(1) by (simp add: catalog_holds_def heap_pages_def)
qed

lemma map_of_snoc: "k \<notin> fst ` set xs \<Longrightarrow> map_of (xs @ [(k, v)]) = (map_of xs)(k \<mapsto> v)"
  by (induction xs) (auto simp: fun_eq_iff)

lemma catalog_holds_add:
  assumes c: "catalog_holds c ct ps ts" and r: "heap_row (bpm_view c) ps r = None"
    and hp: "heap_pages (bpm_view e) (bpm_pages e) (table_first_page ct) qs"
    and row: "heap_row (bpm_view e) qs = (heap_row (bpm_view c) ps)(r \<mapsto> entry_bytes tb)"
    and new: "table_name tb \<notin> fst ` set ts" and fits: "fits_entry tb"
  shows "catalog_holds e ct qs (ts @ [(table_name tb, \<lparr>entry_rid = r, entry_table = tb\<rparr>)])"
proof -
  have rn: "r \<notin> fst ` set (catalog_rows ts)" using c r by (simp add: catalog_holds_def map_of_eq_None_iff)
  have rows: "catalog_rows (ts @ [(table_name tb, \<lparr>entry_rid = r, entry_table = tb\<rparr>)]) = catalog_rows ts @ [(r, entry_bytes tb)]"
    by (simp add: catalog_rows_def)
  have "heap_row (bpm_view e) qs = map_of (catalog_rows ts @ [(r, entry_bytes tb)])"
    using c row unfolding map_of_snoc [OF rn] by (simp add: catalog_holds_def)
  then show ?thesis unfolding catalog_holds_def rows using c hp rn new fits by (auto simp: catalog_holds_def)
qed

lemma table_insert_ok:
  assumes st: "list_all2 storable (table_schema tb) vs" and h: "held {} P (wpool w)"
    and hp: "heap_pages (bpm_view (wpool w)) (bpm_pages (wpool w)) (table_first_page tb) ps" and P: "size P + 1 < pool_capacity (wpool w)"
    and len: "length (row_bytes (table_schema tb) vs) \<le> 8180"
    and room: "disk_room (bdisk (wpool w)) \<or> (\<exists>x\<in>set ps. takes (bpm_view (wpool w) x) (row_bytes (table_schema tb) vs))"
    and settled: "\<forall>x\<in>set (butlast ps). settled (bpm_view (wpool w) x) (row_bytes (table_schema tb) vs)"
  shows "\<exists>r qs e. table_insert tb \<lparr>tvalues = vs, tschema = table_schema tb\<rparr> None w = (Inr (Some r), put_pool e w) \<and>
    inserted P (wpool w) (table_first_page tb) ps (row_bytes (table_schema tb) vs) r qs e"
proof -
  obtain r qs e where e: "heap_insert (table_first_page tb) (row_bytes (table_schema tb) vs) (wpool w) = (Inr (Some r), e)"
    "inserted P (wpool w) (table_first_page tb) ps (row_bytes (table_schema tb) vs) r qs e"
    using heap_insert_ok [OF h hp P len room settled] by blast
  have op: "on_pool (heap_insert (table_first_page tb) (row_bytes (table_schema tb) vs)) w = (Inr (Some r), put_pool e w)"
    by (rule on_pool_run) (rule e(1))
  have "table_insert tb \<lparr>tvalues = vs, tschema = table_schema tb\<rparr> None w = (Inr (Some r), put_pool e w)"
    by (simp add: table_insert_def tuple_serialize_storable [OF st] compatible_with_def tx_push_def
        and_then_Inr [of "on_pool _" w, OF op] and_then_Inr [of "tx_lock lock_exclusive None r" "put_pool e w"])
  then show ?thesis using e(2) by blast
qed

text \<open>
  The first half of \<open>create_table\<close> makes the heap of the new table \<open>tb\<close>, in a pool \<open>c\<close>; the second half
  writes the entry, enters the table into the map and pushes the undo record.
\<close>

definition write_entry :: "table \<Rightarrow> table \<Rightarrow> transaction_id option \<Rightarrow> (world, table) proc" where
  "write_entry ct tb tx =
     and_then (table_insert ct \<lparr>tvalues = entry_row tb, tschema = catalog_schema\<rparr> tx) (\<lambda>m. case m of
         None \<Rightarrow> throw (Runtime_error ''Catalog::CreateTable: failed to write catalog entry'')
       | Some r \<Rightarrow>
           and_then (modify (\<lambda>w. put_tables (AList.update (table_name tb) \<lparr>entry_rid = r, entry_table = tb\<rparr> (tables (tx_data w))) w)) (\<lambda>_.
           and_then (tx_push tx (DropTableUndoRecord (table_name tb))) (\<lambda>_. ret tb)))"

definition heap_made :: "page_id multiset \<Rightarrow> world \<Rightarrow> page_id list \<Rightarrow> table \<Rightarrow> bpm \<Rightarrow> bool" where
  "heap_made P w ps tb c \<longleftrightarrow> (let p = table_first_page tb in
     fits_entry tb \<and> held {} P c \<and> pool_capacity c = pool_capacity (wpool w) \<and> p \<notin> bpm_pages (wpool w) \<and> p \<notin> set ps \<and>
     heap_pages (bpm_view c) (bpm_pages c) p [p] \<and> bpm_view c = (bpm_view (wpool w))(p := sp_init zero_page) \<and>
     bpm_pages c = insert p (bpm_pages (wpool w)) \<and> catalog_holds c (catalog_table (tx_data w)) ps (tables (tx_data w)) \<and>
     length (entry_bytes tb) \<le> 8180 \<and> disk_room (bdisk c) \<and> (\<forall>x\<in>set (butlast ps). settled (bpm_view c x) (entry_bytes tb)))"

lemma heap_madeD:
  assumes "heap_made P w ps tb c"
  shows "held {} P c" "pool_capacity c = pool_capacity (wpool w)" "table_first_page tb \<notin> bpm_pages (wpool w)"
    "heap_pages (bpm_view c) (bpm_pages c) (table_first_page tb) [table_first_page tb]"
    "bpm_view c = (bpm_view (wpool w))(table_first_page tb := sp_init zero_page)" "table_first_page tb \<notin> set ps"
    "bpm_pages c = insert (table_first_page tb) (bpm_pages (wpool w))" "catalog_holds c (catalog_table (tx_data w)) ps (tables (tx_data w))"
    "length (entry_bytes tb) \<le> 8180" "disk_room (bdisk c)" "\<forall>x\<in>set (butlast ps). settled (bpm_view c x) (entry_bytes tb)" "fits_entry tb"
  using assms unfolding heap_made_def Let_def by blast+

lemma create_table_heap:
  assumes C: "catalog_ok ps w" and h: "held {} P (wpool w)" and P: "size P + 1 < pool_capacity (wpool w)"
    and new: "find_table name (tx_data w) = None" and fits: "entry_fits name s" and room: "1 < page_budget (bdisk (wpool w))"
    and settled: "\<forall>x\<in>set (butlast ps). \<forall>t. length t = 9 + length name + length (schema_serialize s) \<longrightarrow> settled (bpm_view (wpool w) x) t"
  obtains p c where "heap_made P w ps \<lparr>table_name = name, table_first_page = p, table_schema = s\<rparr> c"
    "\<And>tx. create_table name s tx w =
      write_entry (catalog_table (tx_data w)) \<lparr>table_name = name, table_first_page = p, table_schema = s\<rparr> tx (put_pool c w)"
proof -
  let ?b = "wpool w" and ?ct = "catalog_table (tx_data w)" and ?ts = "tables (tx_data w)"
  have dr: "disk_room (bdisk ?b)" using room by (simp add: disk_room_budget)
  have P1: "size P < pool_capacity ?b" using P by simp
  obtain p c where c: "heap_create ?b = (Inr p, c)" "held {} P c" "p \<notin> bpm_pages ?b" "heap_pages (bpm_view c) (bpm_pages c) p [p]"
    "bpm_view c = (bpm_view ?b)(p := sp_init zero_page)" "pool_capacity c = pool_capacity ?b" "bpm_pages c = insert p (bpm_pages ?b)"
    using heap_create_ok [OF h dr P1] by blast
  let ?tb = "\<lparr>table_name = name, table_first_page = p, table_schema = s\<rparr>"
  have hold: "catalog_holds c ?ct ps ?ts" using C by (rule catalog_holds_view) (use c(3,5,7) in auto)
  have "set ps \<subseteq> bpm_pages ?b" using C chain_in by (auto simp: catalog_holds_def heap_pages_def)
  then have pps: "p \<notin> set ps" using c(3) by blast
  have ft: "fits_entry ?tb" using fits by simp
  note st = entry_row_storable [OF ft]
  have len: "length (entry_bytes ?tb) = 9 + length name + length (schema_serialize s)" by (simp add: entry_bytes_length)
  have "page_budget (bdisk ?b) = Suc (page_budget (bdisk c))" using heap_create_budget [OF h dr P1 c(1)] by simp
  then have dr': "disk_room (bdisk c)" using room by (simp add: disk_room_budget)
  have set: "\<forall>x\<in>set (butlast ps). settled (bpm_view c x) (entry_bytes ?tb)"
    using settled len pps by (auto simp: c(5) dest: in_set_butlastD)
  have mk: "tuple_make [of_string name, of_uint32 p, of_blob (schema_serialize s)] catalog_schema =
      Inr \<lparr>tvalues = entry_row ?tb, tschema = catalog_schema\<rparr>"
    using storable_tuple_make [OF st] by (simp add: entry_row_def)
  have op: "on_pool heap_create w = (Inr p, put_pool c w)" by (rule on_pool_run) (rule c(1))
  have run: "create_table name s tx w = write_entry ?ct ?tb tx (put_pool c w)" for tx
    using new by (simp add: create_table_def write_entry_def and_then_Inr [of "on_pool heap_create" w, OF op] mk Let_def cong: option.case_cong)
  have "length (entry_bytes ?tb) \<le> 8180" using fits len by (simp add: entry_fits_def)
  then have "heap_made P w ps ?tb c" using ft c(2-7) pps hold dr' set unfolding heap_made_def Let_def by simp
  then show thesis using run by (rule that)
qed

lemma create_table_ok:
  assumes C: "catalog_ok ps w" and h: "held {} P (wpool w)" and P: "size P + 1 < pool_capacity (wpool w)"
    and new: "find_table name (tx_data w) = None" and fits: "entry_fits name s" and room: "1 < page_budget (bdisk (wpool w))"
    and settled: "\<forall>x\<in>set (butlast ps). \<forall>t. length t = 9 + length name + length (schema_serialize s) \<longrightarrow> settled (bpm_view (wpool w) x) t"
  shows "\<exists>p r w' qs e. let tb = \<lparr>table_name = name, table_first_page = p, table_schema = s\<rparr> in
    create_table name s None w = (Inr tb, w') \<and> w' = put_tables (tables (tx_data w) @ [(name, \<lparr>entry_rid = r, entry_table = tb\<rparr>)]) (put_pool e w) \<and>
    catalog_ok qs w' \<and> held {} P e \<and> pool_capacity e = pool_capacity (wpool w) \<and> p \<notin> bpm_pages (wpool w) \<and> p \<notin> set qs \<and>
    heap_pages (bpm_view e) (bpm_pages e) p [p] \<and> bpm_view e p = sp_init zero_page \<and>
    bpm_pages (wpool w) \<subseteq> bpm_pages e \<and> (\<forall>q\<in>bpm_pages (wpool w). q \<notin> set ps \<longrightarrow> bpm_view e q = bpm_view (wpool w) q) \<and>
    bpm_pages e \<subseteq> insert p (bpm_pages (wpool w) \<union> set qs) \<and> set ps \<subseteq> set qs \<and> set qs \<subseteq> set ps \<union> - bpm_pages (wpool w)"
proof -
  let ?b = "wpool w" and ?ct = "catalog_table (tx_data w)" and ?ts = "tables (tx_data w)"
  obtain p c where hm: "heap_made P w ps \<lparr>table_name = name, table_first_page = p, table_schema = s\<rparr> c"
    and start: "\<And>tx. create_table name s tx w = write_entry ?ct \<lparr>table_name = name, table_first_page = p, table_schema = s\<rparr> tx (put_pool c w)"
    by (rule create_table_heap [OF assms], rule that)
  let ?w = "put_pool c w" and ?tb = "\<lparr>table_name = name, table_first_page = p, table_schema = s\<rparr>"
  note c = heap_madeD [OF hm, unfolded table.select_convs]
  then have ft: "fits_entry ?tb" by simp
  have hp: "heap_pages (bpm_view c) (bpm_pages c) (table_first_page ?ct) ps" and sch: "table_schema ?ct = catalog_schema"
    using c(8) by (simp_all add: catalog_holds_def)
  note st = entry_row_storable [OF ft]
  with table_insert_ok [of ?ct "entry_row ?tb" P ?w ps] obtain r qs e where e:
    "table_insert ?ct \<lparr>tvalues = entry_row ?tb, tschema = catalog_schema\<rparr> None ?w = (Inr (Some r), put_pool e ?w)"
    "inserted P c (table_first_page ?ct) ps (entry_bytes ?tb) r qs e"
    using c(1,2,9-11) hp sch P by (auto simp: entry_bytes_def)
  have nin: "name \<notin> fst ` set ?ts" using new by (simp add: find_table_def map_of_eq_None_iff)
  let ?w' = "put_tables (?ts @ [(name, \<lparr>entry_rid = r, entry_table = ?tb\<rparr>)]) (put_pool e w)"
  have run: "create_table name s None w = (Inr ?tb, ?w')"
    using e(1) by (simp add: start [of None] write_entry_def tx_push_def update_new [OF nin] and_then_Inr [of "table_insert _ _ _" ?w])
  have E: "held {} P e" "pool_capacity e = pool_capacity c" "heap_pages (bpm_view e) (bpm_pages e) (table_first_page ?ct) qs"
    "heap_row (bpm_view c) ps r = None" "heap_row (bpm_view e) qs = (heap_row (bpm_view c) ps)(r \<mapsto> entry_bytes ?tb)"
    "\<forall>q. q \<notin> set qs \<longrightarrow> bpm_view e q = bpm_view c q" "bpm_pages c \<subseteq> bpm_pages e" "set qs \<subseteq> set ps \<union> - bpm_pages c"
    "bpm_pages e \<subseteq> bpm_pages c \<union> set qs" "set ps \<subseteq> set qs"
    using e(2) by (auto simp: inserted_def)
  have pq: "p \<notin> set qs" using E(8) c(6,7) by auto
  have "catalog_holds e ?ct qs (?ts @ [(table_name ?tb, \<lparr>entry_rid = r, entry_table = ?tb\<rparr>)])"
    using catalog_holds_add [OF c(8) E(4,3,5)] nin ft by simp
  then have "catalog_ok qs ?w'" by (simp add: put_tables_def)
  moreover have "heap_pages (bpm_view e) (bpm_pages e) p [p]" "bpm_view e p = sp_init zero_page"
    using c(4,5) E(6,7) pq by (auto simp: heap_pages_def)
  moreover have "\<forall>q\<in>bpm_pages ?b. q \<notin> set ps \<longrightarrow> bpm_view e q = bpm_view ?b q"
    using E(6,8) c(3,5,7) by auto
  moreover have "bpm_pages e \<subseteq> insert p (bpm_pages ?b \<union> set qs)" "set qs \<subseteq> set ps \<union> - bpm_pages ?b"
    using E(8,9) c(7) by auto
  ultimately show ?thesis
    using run E(1,2,7,10) c(2,3,7) pq unfolding Let_def
    by (intro exI [of _ p] exI [of _ r] exI [of _ ?w'] exI [of _ qs] exI [of _ e]) auto
qed

end
