(* ===== verification/Sound_Disk.thy ===== *)
theory Sound_Disk
  imports Heap_Pins Table_Heap Disk_Properties
begin

text \<open>
  What the layers above the disk cannot break: an invariant of the disk that its four operations keep is
  kept by the pool and the table heap, whether they return or throw. The header and the file stay such
  that the database can be opened again.
\<close>

section \<open>Invariants of the disk\<close>

locale disk_invariant =
  fixes I :: "disk \<Rightarrow> bool"
  assumes writes: "keeps I (write_page p bs)"
    and reads: "keeps I (read_page p bs)"
    and allocates: "keeps I allocate_page"
    and deallocates: "keeps I (deallocate_page p)"
begin

abbreviation J :: "bpm \<Rightarrow> bool" where
  "J b \<equiv> I (bdisk b)"

lemma on_disk_keeps: "keeps I m \<Longrightarrow> keeps J (on_disk m)"
  by (auto simp: keeps_def on_disk_def zoom_def split: prod.splits)

lemma pool_steps:
  "keeps J (frame_at f)" "keeps J (set_frame f fr)" "keeps J (change_frame f g)" "keeps J (on_replacer r)" "keeps J find_next_frame"
proof -
  show fr: "keeps J (frame_at f)" for f by (auto simp: frame_at_def)
  show "keeps J (set_frame f fr)" for f fr by (simp add: set_frame_def keeps_modify)
  then show "keeps J (change_frame f g)" using fr by (auto simp: change_frame_def)
  show "keeps J (on_replacer r)" by (auto simp: keeps_def on_replacer_def zoom_def split: prod.splits)
  show "keeps J find_next_frame"
    unfolding find_next_frame_def by (auto intro!: keeps_and_then keeps_modify split: prod.split option.split)
qed

lemma swap_keeps: "keeps J (swap_page p rd)"
  unfolding swap_page_def evict_frame_def install_page_def load_page_def flush_page_def
  by (auto intro!: keeps_and_then keeps_modify pool_steps on_disk_keeps writes reads)

lemma pool_ops:
  "keeps J (fetch_page p)" "keeps J new_page" "keeps J (delete_page p)" "keeps J (unpin_page p d)" "keeps J (unpin h)"
proof -
  show "keeps J (fetch_page p)"
    unfolding fetch_page_def find_cached_page_def
    by (auto intro!: keeps_and_then pool_steps swap_keeps split: option.split)
  show "keeps J new_page"
    unfolding new_page_def by (intro keeps_and_then on_disk_keeps allocates swap_keeps)
  show "keeps J (delete_page p)"
    unfolding delete_page_def
    by (auto intro!: keeps_and_then keeps_modify pool_steps on_disk_keeps deallocates split: option.split)
  show u: "keeps J (unpin_page p d)" for p d
    unfolding unpin_page_def by (auto intro!: keeps_and_then pool_steps split: option.split)
  then show "keeps J (unpin h)"
    unfolding unpin_def by (auto intro!: keeps_and_then pool_steps split: option.split)
qed

lemma flush_keeps: "keeps J bpm_flush_all"
proof -
  have "keeps J (flush_frames fs)" for fs
  proof (induction fs)
    case (Cons fr fs)
    then show ?case by (auto intro!: keeps_and_then on_disk_keeps writes simp: flush_page_def)
  qed (simp add: keeps_def)
  then show ?thesis unfolding bpm_flush_all_def by (intro keeps_and_then) auto
qed

lemma page_steps: "keeps J (pinned_page_id h)" "keeps J (read_page_of h g)" "keeps J (on_page h g')" "keeps J (frame_page_id f)"
proof -
  have d: "keeps J (pinned_data h)" for h
    unfolding pinned_data_def by (auto intro!: keeps_and_then pool_steps split: option.split)
  then show "keeps J (read_page_of h g)" unfolding read_page_of_def by (intro keeps_and_then) auto
  have "keeps J (set_data h x)" for x
    unfolding set_data_def by (auto intro!: pool_steps split: option.split)
  then show "keeps J (on_page h g')" unfolding on_page_def using d by (auto intro!: keeps_and_then split: prod.split)
  show "keeps J (pinned_page_id h)" unfolding pinned_page_id_def by (auto intro!: keeps_and_then pool_steps split: option.split)
  show "keeps J (frame_page_id f)" unfolding frame_page_id_def by (auto intro!: keeps_and_then pool_steps)
qed

lemma keeps_run: "keeps J m \<Longrightarrow> J b \<Longrightarrow> J (snd (m b))"
  by (simp add: keeps_def)

lemma scope_keeps:
  assumes body: "keeps J body"
  shows "keeps J (scope h body)"
proof (rule keepsI)
  fix b assume b: "J b"
  obtain r c where r: "body b = (r, c)" by fastforce
  then have c: "J c" using keepsD [OF body b] by blast
  show "J (snd (scope h body b))"
  proof (cases r)
    case (Inl e)
    then show ?thesis using r keeps_run [OF pool_ops(5) c] by (simp add: scope_def)
  next
    case (Inr x)
    have "keeps J (and_then (unpin (snd x)) (\<lambda>_. ret (fst x)))" by (auto intro!: keeps_and_then pool_ops)
    from keeps_run [OF this c] show ?thesis using r Inr by (cases x) (simp add: scope_def)
  qed
qed

text \<open>The table heap.\<close>

lemma heap_create_keeps: "keeps J heap_create"
  unfolding heap_create_def Let_def
  by (auto intro!: keeps_and_then pool_ops scope_keeps page_steps)

lemma link_new_page_keeps: "keeps J (link_new_page h)"
  unfolding link_new_page_def Let_def
  by (auto intro!: keeps_and_then pool_ops scope_keeps page_steps split: option.split)

lemma insert_on_page_keeps: "keeps J (insert_on_page created t h)"
  unfolding insert_on_page_def inserted_here_def
  by (auto intro!: keeps_and_then link_new_page_keeps page_steps split: option.split)

lemma heap_insert_keeps: "keeps J (heap_insert p t)"
proof -
  have "keeps J (insert_from n created p t)" for n created p
  proof (induction n arbitrary: created p)
    case (Suc n)
    then show ?case
      by (auto intro!: keeps_and_then pool_ops scope_keeps insert_on_page_keeps simp: Let_def split: option.split insert_step.split)
  qed simp
  then show ?thesis unfolding heap_insert_def by (auto intro!: keeps_and_then)
qed

lemma heap_row_keeps: "keeps J (heap_get r)" "keeps J (heap_delete r)" "keeps J (heap_restore r t)"
  unfolding heap_get_def heap_delete_def heap_restore_def Let_def
  by (auto intro!: keeps_and_then pool_ops scope_keeps page_steps split: option.split)

lemma heap_update_keeps: "keeps J (heap_update p r t)"
  unfolding heap_update_def update_on_page_def Let_def
  by (auto intro!: keeps_and_then pool_ops scope_keeps page_steps heap_insert_keeps split: option.split)

lemma heap_drop_keeps: "keeps J (heap_drop_page p)" "keeps J (heap_all_pages p)"
proof -
  show "keeps J (heap_drop_page p)" unfolding heap_drop_page_def by (rule pool_ops)
  have "keeps J (all_pages_from n ps p)" for n ps p
  proof (induction n arbitrary: ps p)
    case (Suc n)
    then show ?case by (auto intro!: keeps_and_then pool_ops scope_keeps page_steps simp: Let_def split: option.split)
  qed simp
  then show "keeps J (heap_all_pages p)" unfolding heap_all_pages_def by (auto intro!: keeps_and_then)
qed

lemma heap_scan_keeps: "keeps J (heap_scan_open p)" "keeps J (heap_scan_close sc)" "keeps J (heap_scan_next sc)"
proof -
  show "keeps J (heap_scan_open p)" unfolding heap_scan_open_def by (auto intro!: keeps_and_then pool_ops)
  show "keeps J (heap_scan_close sc)"
    unfolding heap_scan_close_def by (auto intro!: keeps_and_then pool_ops page_steps split: option.split)
  have np: "keeps J (scan_next_page sc)" for sc
    unfolding scan_next_page_def Let_def by (auto intro!: keeps_and_then pool_ops pool_steps page_steps split: option.split)
  have "keeps J (scan_next_from n sc)" for n sc
  proof (induction n arbitrary: sc)
    case (Suc n)
    then show ?case by (auto intro!: keeps_and_then pool_steps np simp: Let_def split: option.split prod.split)
  qed simp
  then show "keeps J (heap_scan_next sc)" unfolding heap_scan_next_def by (auto intro!: keeps_and_then)
qed

end

section \<open>Files that open again\<close>

definition sound_disk :: "disk \<Rightarrow> bool" where
  "sound_disk d \<longleftrightarrow> sound_header d \<and> freadable (dfile d) \<and> fstat_ok (dfile d) \<and> kPAGE_SIZE \<le> flimit (dfile d) \<and>
     flimit (dfile d) < 2 ^ 63 \<and> length (fcontent (dfile d)) \<le> flimit (dfile d)"

lemma sound_disk_file: "sound_disk d \<Longrightarrow> sound_file (dfile d) \<and> sound_header d"
  by (simp add: sound_disk_def sound_file_def)

lemma pwrite_sound:
  assumes "length (fcontent f) \<le> flimit f" and "pwrite bs off f = (n, g)"
  shows "length (fcontent g) \<le> flimit f" "freadable g = freadable f" "fstat_ok g = fstat_ok f" "flimit g = flimit f"
proof -
  define m where "m = min (length bs) (flimit f - off)"
  have g: "g = (if m = 0 \<and> bs \<noteq> [] then f else f\<lparr>fcontent := overwrite off (take m bs) (fcontent f)\<rparr>)"
    using assms(2) unfolding pwrite_def Let_def m_def [symmetric] by (auto split: if_splits)
  have "length (overwrite off (take m bs) (fcontent f)) \<le> flimit f" if "\<not> (m = 0 \<and> bs \<noteq> [])"
  proof (cases "bs = []")
    case False
    then have "off + m \<le> flimit f" using that m_def by linarith
    then show ?thesis using assms(1) by (auto simp: overwrite_def)
  qed (use assms(1) in \<open>simp add: overwrite_def\<close>)
  then show "length (fcontent g) \<le> flimit f" using assms(1) g by auto
  show "freadable g = freadable f" "fstat_ok g = fstat_ok f" "flimit g = flimit f" using g by (simp_all split: if_splits)
qed

interpretation sound: disk_invariant sound_disk
proof
  show "keeps sound_disk (write_page p bs)" for p bs
  proof (rule keepsI)
    fix d assume d: "sound_disk d"
    obtain n g where w: "pwrite (take kPAGE_SIZE bs) (unat p * kPAGE_SIZE) (dfile d) = (n, g)" by fastforce
    have "length (fcontent (dfile d)) \<le> flimit (dfile d)" using d by (simp add: sound_disk_def)
    note P = pwrite_sound [OF this w]
    show "sound_disk (snd (write_page p bs d))"
      using d by (simp add: write_page_def and_then_def require_def sound_disk_def sound_header_def w P)
  qed
  show "keeps sound_disk (read_page p bs)" for p bs
    by (auto simp: keeps_def read_page_def and_then_def require_def split: prod.split)
  show "keeps sound_disk allocate_page"
    by (auto simp: keeps_def allocate_page_def and_then_def sound_disk_def sound_header_def)
  show "keeps sound_disk (deallocate_page p)" for p
    by (auto simp: keeps_def deallocate_page_def and_then_def require_def sound_disk_def sound_header_def)
qed

text \<open>The file keeps its size limit.\<close>

interpretation limit: disk_invariant "\<lambda>d. flimit (dfile d) = n" for n
proof
  have p: "flimit (snd (pwrite bs off f)) = flimit f" for bs off f by (simp add: pwrite_def Let_def)
  show "keeps (\<lambda>d. flimit (dfile d) = n) (write_page p bs)" for p bs
    by (auto simp: keeps_def write_page_def and_then_def require_def dest: arg_cong [where f = snd] split: prod.split) (metis p snd_conv)
  show "keeps (\<lambda>d. flimit (dfile d) = n) (read_page p bs)" for p bs
    by (auto simp: keeps_def read_page_def and_then_def require_def split: prod.split)
  show "keeps (\<lambda>d. flimit (dfile d) = n) allocate_page"
    by (auto simp: keeps_def allocate_page_def and_then_def)
  show "keeps (\<lambda>d. flimit (dfile d) = n) (deallocate_page p)" for p
    by (auto simp: keeps_def deallocate_page_def and_then_def require_def)
qed

text \<open>Opening a file checks the header and leaves the limits of the file alone.\<close>

definition sound_os_file :: "os_file \<Rightarrow> bool" where
  "sound_os_file f \<longleftrightarrow> freadable f \<and> fstat_ok f \<and> kPAGE_SIZE \<le> flimit f \<and> flimit f < 2 ^ 63 \<and> length (fcontent f) \<le> flimit f"

lemma sound_disk_iff: "sound_disk d \<longleftrightarrow> sound_header d \<and> sound_os_file (dfile d)"
  by (auto simp: sound_disk_def sound_os_file_def)

lemma pwrite_sound_os: "sound_os_file f \<Longrightarrow> sound_os_file (snd (pwrite bs off f))"
proof -
  assume f: "sound_os_file f"
  obtain n g where g: "pwrite bs off f = (n, g)" by fastforce
  have "length (fcontent f) \<le> flimit f" using f by (simp add: sound_os_file_def)
  from pwrite_sound [OF this g] f show ?thesis by (simp add: g sound_os_file_def)
qed

lemma disk_flush_sound_file: "keeps (\<lambda>d. sound_os_file (dfile d)) disk_flush_all"
  unfolding disk_flush_all_def by (rule keeps_modify) (simp add: Let_def pwrite_sound_os)

lemma disk_close_sound: "sound_disk d \<Longrightarrow> sound_os_file (disk_close d)"
  using disk_flush_sound_file by (simp add: disk_close_def keeps_def sound_disk_iff)

lemma disk_open_sound:
  assumes f: "sound_os_file f" and o: "disk_open (Some f) = Inr d"
  shows "sound_disk d"
proof -
  have r: "keeps (\<lambda>d. sound_os_file (dfile d)) (read_page p bs)" for p bs
    by (auto simp: keeps_def read_page_def and_then_def require_def split: prod.split)
  have a: "keeps (\<lambda>d. sound_os_file (dfile d)) allocate_page"
    by (auto simp: keeps_def allocate_page_def and_then_def)
  have "keeps (\<lambda>d. sound_os_file (dfile d)) init_header"
    unfolding init_header_def Let_def by (auto intro!: keeps_and_then r keeps_modify)
  then have k: "keeps (\<lambda>d. sound_os_file (dfile d)) disk_init"
    unfolding disk_init_def by (auto intro!: keeps_and_then keeps_modify a disk_flush_sound_file)
  have i: "disk_init (disk_object f) = (Inr (), d)"
    using o by (auto simp: disk_open_def split: prod.splits sum.splits)
  have "sound_os_file (dfile d)" using keepsD [OF k _ i] f by (simp add: disk_object_def)
  moreover have "sound_header d" using i by (auto simp: disk_init_def and_then_eq_Inr require_def sound_header_def split: if_splits)
  ultimately show ?thesis by (simp add: sound_disk_iff)
qed

end
