(* ===== verification/Catalog_Properties.thy ===== *)
theory Catalog_Properties
  imports Catalog_Rows Sound_Disk Buffer_Properties
begin

text \<open>
  What the catalog promises over a restart: every table and row survives it. The first database in a new
  file.
\<close>

section \<open>Restarting\<close>

lemma zero_page_not_wf: "\<not> wf_page zero_page"
proof
  assume "wf_page zero_page"
  have "slice 6 2 zero_page = [0, 0]" by (simp add: slice_def zero_page_def kPAGE_SIZE_def numeral_2_eq_2)
  then have "sp_free zero_page = 0" by (simp add: sp_free_def of_bytes16_def)
  then show False using wf_pageD(2) [OF \<open>wf_page zero_page\<close>] by simp
qed

lemma written_page_in_file:
  assumes "wf_page (disk_view d p)" and "0 < p"
  shows "kPAGE_SIZE \<le> length (fcontent (dfile d))"
proof (rule ccontr)
  assume "\<not> kPAGE_SIZE \<le> length (fcontent (dfile d))"
  moreover have "kPAGE_SIZE \<le> unat p * kPAGE_SIZE" using assms(2) by (simp add: word_less_nat_alt)
  ultimately have "\<not> unat p * kPAGE_SIZE + i < length (fcontent (dfile d))" for i by linarith
  then have "byte_at (fcontent (dfile d)) (unat p * kPAGE_SIZE + i) = 0" for i unfolding byte_at_def by simp
  then have "disk_view d p = zero_page" by (simp add: disk_view_def page_at_def zero_page_def map_replicate_const)
  then show False using assms(1) zero_page_not_wf by simp
qed

lemma fresh_pool_held: "disk_ok d \<Longrightarrow> free_ok d \<Longrightarrow> n < 2 ^ 32 - 1 \<Longrightarrow> held {} {#} (bpm_object d n)"
  using bpm_object_ok [of d n] by (simp add: held_def tidy_def bpm_object_def)

lemma table_rows_view:
  assumes "table_rows b tb rows" and v: "\<And>q. q \<in> bpm_pages b \<Longrightarrow> bpm_view c q = bpm_view b q" and "bpm_pages b \<subseteq> bpm_pages c"
  shows "table_rows c tb rows"
proof -
  obtain ps where ps: "chain (bpm_view b) (bpm_pages b) (table_first_page tb) ps" "distinct ps" "ps \<noteq> []"
    "list_all2 (decodes_to (table_schema tb)) (rows_from (bpm_view b) ps 0) rows"
    using assms(1) by (auto simp: table_rows_def heap_pages_def)
  have v': "bpm_view b q = bpm_view c q" if "q \<in> set ps" for q using v chain_in [OF ps(1) that] by simp
  have "chain (bpm_view c) (bpm_pages c) (table_first_page tb) ps" by (rule chain_cong [OF v' assms(3) ps(1)])
  moreover have "rows_from (bpm_view b) ps 0 = rows_from (bpm_view c) ps 0" by (rule rows_from_cong [OF v'])
  ultimately show ?thesis using ps(2-4) by (auto simp: table_rows_def heap_pages_def)
qed

lemma reopen_pool:
  assumes h: "held {} {#} b" and p: "p \<in> bpm_pages b" "wf_page (bpm_view b p)" and s: "sound_disk (bdisk b)" and n: "n < 2 ^ 32 - 1"
  shows "\<exists>c e. bpm_flush_all b = (Inr (), c) \<and> disk_open (Some (disk_close (bdisk c))) = Inr e \<and> held {} {#} (bpm_object e n) \<and>
    bpm_pages (bpm_object e n) = bpm_pages b \<and> (\<forall>q\<in>bpm_pages b. bpm_view (bpm_object e n) q = bpm_view b q) \<and> p < dcapacity e"
proof -
  have ok: "bpm_ok b" and quiet: "pins b q = 0" for q using h by (simp_all add: held_def)
  obtain d where d: "bpm_flush_all b = (Inr (), b\<lparr>bdisk := d\<rparr>)" "disk_ok d" "free_ok d" "in_use d = bpm_pages b"
    "\<forall>q. disk_view d q = bpm_view b q" using flush_all_ok [OF ok] quiet by blast
  have "sound_disk d" using keepsD [OF sound.flush_keeps s d(1)] by simp
  note S = sound_disk_file [OF this]
  have p0: "0 < p" "p < dcapacity d" using p(1) d(4) by (auto simp: in_use_def)
  have big: "kPAGE_SIZE \<le> length (fcontent (dfile d))" using written_page_in_file [of d p] p(2) p0(1) d(5) by simp
  obtain e where e: "disk_open (Some (disk_close d)) = Inr e" "dcapacity e = dcapacity d" "free_list e = free_list d"
    "\<forall>q. q \<noteq> 0 \<longrightarrow> disk_view e q = disk_view d q" "freadable (dfile e) = freadable (dfile d)" "flimit (dfile e) = flimit (dfile d)"
    using disk_reopen_lemma [of d] d(3) S big by auto
  have "disk_ok e" "free_ok e" using d(2,3) e(2,3,5,6) by (simp_all add: disk_ok_def free_ok_def)
  moreover have "in_use e = bpm_pages b" using d(4) e(2,3) by (simp add: in_use_def)
  moreover have "q \<noteq> 0" if "q \<in> bpm_pages b" for q using that d(4) by (auto simp: in_use_def)
  ultimately show ?thesis
    using d(1,5) e(1,2,4) fresh_pool_held [of e n] bpm_object_ok(3) [of e n] n p0(2)
    by (intro exI [of _ "b\<lparr>bdisk := d\<rparr>"] exI [of _ e]) (auto simp: bpm_object_def)
qed

section \<open>The file stays sound\<close>

abbreviation sound_world :: "world \<Rightarrow> bool" where
  "sound_world w \<equiv> sound_disk (bdisk (wpool w))"

lemma keeps_Pair: "keeps I (Pair r)"
  by (simp add: keeps_def)

context disk_invariant
begin

abbreviation K :: "world \<Rightarrow> bool" where
  "K w \<equiv> J (wpool w)"

lemma on_pool_keeps: "keeps J m \<Longrightarrow> keeps K (on_pool m)"
  by (auto simp: keeps_def on_pool_def zoom_def split: prod.splits)

lemma tx_steps_keep: "keeps K (tx_lock f tx r)" "keeps K (tx_push tx u)"
  by (auto simp: keeps_def tx_lock_def tx_push_def push_undo_def ret_def modify_def split: option.split prod.split)

lemma table_insert_keeps: "keeps K (table_insert tb t tx)"
  unfolding table_insert_def
  by (auto intro!: keeps_and_then on_pool_keeps tx_steps_keep heap_insert_keeps heap_row_keeps split: option.split)

lemma create_table_keeps: "keeps K (create_table name s tx)"
  unfolding create_table_def Let_def
  by (auto intro!: keeps_and_then keeps_modify on_pool_keeps tx_steps_keep table_insert_keeps heap_create_keeps
      simp: put_tables_def split: option.split)

lemma table_delete_keeps: "keeps K (table_delete tb r tx)"
  unfolding table_delete_def
  by (auto intro!: keeps_and_then on_pool_keeps tx_steps_keep heap_row_keeps split: option.split)

lemma table_update_keeps: "keeps K (table_update tb r t tx)"
  unfolding table_update_def
  by (auto intro!: keeps_and_then on_pool_keeps tx_steps_keep heap_row_keeps heap_update_keeps split: option.split)

lemma drop_pages_keeps: "keeps J (table_drop_pages tb)"
proof -
  have "keeps J (drop_each ps)" for ps
    by (induction ps) (auto intro!: keeps_and_then heap_drop_keeps keeps_Pair)
  then show ?thesis unfolding table_drop_pages_def by (auto intro!: keeps_and_then heap_drop_keeps)
qed

lemma drop_table_keeps: "keeps K (drop_table name tx)"
  unfolding drop_table_def Let_def
  by (auto intro!: keeps_and_then keeps_modify on_pool_keeps tx_steps_keep table_delete_keeps drop_pages_keeps
      simp: put_tables_def split: option.split)

lemma table_scan_keeps: "keeps K (table_scan_open tb tx)" "keeps K (table_scan_close sc)" "keeps K (table_scan_next sc)"
  unfolding table_scan_open_def table_scan_close_def table_scan_next_def
  by (auto intro!: keeps_and_then on_pool_keeps tx_steps_keep heap_scan_keeps split: option.split prod.split)

lemma load_existing_tables_keeps: "keeps K load_existing_tables"
proof -
  have e: "keeps K (load_entry r t)" for r t
    unfolding load_entry_def by (auto intro!: keeps_and_then keeps_modify simp: put_tables_def)
  have "keeps K (load_from n sc)" for n sc
  proof (induction n arbitrary: sc)
    case (Suc n)
    have "keeps K (\<lambda>w. case load_entry r t w of (Inl x, w') \<Rightarrow> (Inl x, snd (table_scan_close sc w')) | (Inr _, w') \<Rightarrow> load_from n sc w')"
      for r t sc
      using e [of r t] Suc table_scan_keeps(2) [of sc]
      by (auto simp: keeps_def split: prod.split sum.split)
    then show ?case by (auto intro!: keeps_and_then table_scan_keeps split: option.split prod.split)
  qed simp
  then show ?thesis unfolding load_existing_tables_def by (auto intro!: keeps_and_then table_scan_keeps)
qed

lemma database_open_keeps:
  assumes s: "J c" and o: "database_open c = (Inr w, b)"
  shows "K w"
proof -
  obtain tb d where i: "init_table c = (Inr tb, d)" "(case load_existing_tables \<lparr>locks = lock_init, next_tx_id = 0, active_txs = {},
         tx_data = \<lparr>pool = d, catalog_table = tb, tables = []\<rparr>\<rparr> of
       (Inl e, w) \<Rightarrow> (Inl e, pool (tx_data w)) | (Inr _, w) \<Rightarrow> (Inr w, pool (tx_data w))) = (Inr w, b)"
    using o unfolding database_open_def and_then_eq_Inr by blast
  have "keeps J init_table" unfolding init_table_def by (auto intro!: keeps_and_then heap_create_keeps)
  from keepsD [OF this s i(1)] have d: "J d" .
  obtain x where "load_existing_tables \<lparr>locks = lock_init, next_tx_id = 0, active_txs = {},
         tx_data = \<lparr>pool = d, catalog_table = tb, tables = []\<rparr>\<rparr> = (Inr x, w)"
    using i(2) by (auto split: prod.splits sum.splits)
  from keepsD [OF load_existing_tables_keeps _ this] d show ?thesis by simp
qed

end

lemmas on_pool_sound = sound.on_pool_keeps
lemmas tx_steps_sound = sound.tx_steps_keep
lemmas table_insert_sound = sound.table_insert_keeps
lemmas create_table_sound = sound.create_table_keeps
lemmas table_delete_sound = sound.table_delete_keeps
lemmas table_update_sound = sound.table_update_keeps
lemmas drop_pages_sound = sound.drop_pages_keeps
lemmas drop_table_sound = sound.drop_table_keeps
lemmas table_scan_sound = sound.table_scan_keeps
lemmas load_existing_tables_sound = sound.load_existing_tables_keeps
lemmas database_open_sound = sound.database_open_keeps

abbreviation sound_store :: "store \<Rightarrow> bool" where
  "sound_store s \<equiv> sound_disk (bdisk (pool s))"

lemma store_pool_sound: "keeps (\<lambda>b. sound_disk (bdisk b)) m \<Longrightarrow> keeps sound_store (store_pool m)"
  by (auto simp: keeps_def store_pool_def zoom_def split: prod.splits)

lemma undo_sound: "keeps sound_store (undo u)"
  by (cases u) (auto simp: rollback_create_table_def intro!: keeps_and_then keeps_modify store_pool_sound sound.heap_row_keeps drop_pages_sound
      split: option.split)

lemma rollback_sound: "keeps sound_world (rollback_tx t)"
proof -
  have "keeps sound_store (run_undo undo us)" for us by (induction us) (auto intro!: keeps_and_then undo_sound keeps_Pair)
  moreover have "keeps sound_world (zoom tx_data (\<lambda>d. tx_data_update (\<lambda>_. d)) m)" if "keeps sound_store m" for m :: "(store, unit) proc"
    using that by (auto simp: keeps_def zoom_def split: prod.splits)
  ultimately have "keeps sound_world (tx_undo undo t)" unfolding tx_undo_def by (intro keeps_and_then) auto
  then show ?thesis
    unfolding rollback_tx_def tm_abort_def by (auto intro!: keeps_and_then keeps_modify simp: tx_set_state_def)
qed

section \<open>A new database\<close>

lemma fresh_heap_page:
  assumes h: "held {} {#} c" and d: "dcapacity (bdisk c) = kCATALOG_FIRST_PAGE_ID" "free_list (bdisk c) = []" "disk_room (bdisk c)"
    and n: "0 < pool_capacity c"
  shows "\<exists>b. heap_create c = (Inr kCATALOG_FIRST_PAGE_ID, b) \<and> held {} {#} b \<and> pool_capacity b = pool_capacity c \<and>
    catalog_holds b catalog_object [kCATALOG_FIRST_PAGE_ID] [] \<and> bpm_pages b = {kCATALOG_FIRST_PAGE_ID}"
proof -
  obtain p b where b: "heap_create c = (Inr p, b)" "held {} {#} b" "heap_pages (bpm_view b) (bpm_pages b) p [p]"
    "heap_row (bpm_view b) [p] = Map.empty" "pool_capacity b = pool_capacity c" "bpm_pages b = insert p (bpm_pages c)"
    "pool_shape b = disk_part (pool_capacity c) (snd (allocate_page (bdisk c)))"
    using heap_create_full [OF h d(3)] n by auto
  have "dcapacity (bdisk b) = 2" "free_list (bdisk b) = []"
    using b(7) d(1,2) by (simp_all add: pool_shape_def disk_part_def allocate_page_def kCATALOG_FIRST_PAGE_ID_def)
  then have "bpm_pages b = {x. 0 < x \<and> x < 2}" by (simp add: in_use_def)
  moreover have "x = 1 \<longleftrightarrow> 0 < x \<and> x < 2" for x :: page_id
    by (auto simp: word_less_nat_alt word_unat_eq_iff)
  ultimately have "bpm_pages b = {kCATALOG_FIRST_PAGE_ID}" "p = kCATALOG_FIRST_PAGE_ID"
    using b(6) by (auto simp: kCATALOG_FIRST_PAGE_ID_def)
  then show ?thesis using b by (simp add: catalog_holds_def catalog_object_def catalog_rows_def)
qed

lemma database_open_new:
  assumes h: "held {} {#} c" and d: "dcapacity (bdisk c) = kCATALOG_FIRST_PAGE_ID" "free_list (bdisk c) = []" "disk_room (bdisk c)"
    and n: "0 < pool_capacity c" and s: "sound_disk (bdisk c)"
  shows "\<exists>w. database_open c = (Inr w, wpool w) \<and> held {} {#} (wpool w) \<and> pool_capacity (wpool w) = pool_capacity c \<and> locks w = lock_init \<and>
    catalog_table (tx_data w) = catalog_object \<and> tables (tx_data w) = [] \<and> catalog_ok [kCATALOG_FIRST_PAGE_ID] w \<and> sound_world w \<and>
    Suc (page_budget (bdisk (wpool w))) = page_budget (bdisk c) \<and> bpm_pages (wpool w) = {kCATALOG_FIRST_PAGE_ID}"
proof -
  obtain b where b: "heap_create c = (Inr kCATALOG_FIRST_PAGE_ID, b)" "held {} {#} b" "pool_capacity b = pool_capacity c"
    "catalog_holds b catalog_object [kCATALOG_FIRST_PAGE_ID] []" "bpm_pages b = {kCATALOG_FIRST_PAGE_ID}" using fresh_heap_page [OF assms(1-5)] by blast
  let ?w = "\<lparr>locks = lock_init, next_tx_id = 0, active_txs = {}, tx_data = \<lparr>pool = b, catalog_table = catalog_object, tables = []\<rparr>\<rparr>"
  obtain w where w: "load_existing_tables ?w = (Inr (), w)" "held {} {#} (wpool w)" "pool_kept {#} b (wpool w)" "locks w = lock_init"
    "catalog_table (tx_data w) = catalog_object" "map_of (tables (tx_data w)) = map_of []" "catalog_ok [kCATALOG_FIRST_PAGE_ID] w"
    using load_existing_tables_ok [of ?w "[kCATALOG_FIRST_PAGE_ID]" "[]" "{#}"] b n by auto
  have t: "tables (tx_data w) = []" using w(6) by (cases "tables (tx_data w)") (auto simp: fun_eq_iff split: if_splits)
  have "init_table c = (Inr catalog_object, b)"
    using d(1) by (simp add: init_table_def and_then_Inr [of heap_create c, OF b(1)] catalog_object_def)
  then have run: "database_open c = (Inr w, wpool w)" using w(1) by (simp add: database_open_def and_then_Inr [of init_table c])
  have sb: "sound_disk (bdisk b)" using keepsD [OF sound.heap_create_keeps s b(1)] .
  have "sound_world ?w" using sb by simp
  from keepsD [OF load_existing_tables_sound this w(1)] have "sound_world w" .
  moreover have "page_budget (bdisk (wpool w)) = page_budget (bdisk b)" "pool_capacity (wpool w) = pool_capacity b"
    using w(3) by (simp_all add: pool_kept_def pool_shape_def page_budget_def)
  moreover have "Suc (page_budget (bdisk b)) = page_budget (bdisk c)" using heap_create_budget [OF h d(3) _ b(1)] n by simp
  moreover have "bpm_pages (wpool w) = {kCATALOG_FIRST_PAGE_ID}" using w(3) b(5) by (simp add: pool_kept_def)
  ultimately show ?thesis using run w(2,4,5,7) t b(3) by auto
qed


text \<open>A database in a new file, with a pool of four frames.\<close>

definition empty_file :: os_file where
  "empty_file = \<lparr>fcontent = [], flimit = 2 ^ 20, freadable = True, fstat_ok = True\<rparr>"

definition new_disk :: disk where
  "new_disk = projr (disk_open (Some empty_file))"

definition new_world :: world where
  "new_world = projr (fst (database_open (bpm_object new_disk 4)))"

lemma header_bytes_length: "length (header_bytes h) = 32"
  by (simp add: header_bytes_def bytes64_def)

lemma empty_file_opens:
  "disk_open (Some empty_file) = Inr new_disk" "dcapacity new_disk = 1" "free_list new_disk = []" "sound_disk new_disk"
  "flimit (dfile new_disk) = 2 ^ 20"
proof -
  let ?h = "\<lparr>hmagic = kDB_MAGIC, hversion = kDB_FORMAT_VERSION, hcapacity = 1, hfree_list_size = 0\<rparr>"
  let ?d = "\<lparr>dfile = empty_file\<lparr>fcontent := header_bytes ?h\<rparr>, dheader = ?h, dcapacity = 1, free_list = []\<rparr>"
  have "disk_init (disk_object empty_file) = (Inr (), ?d)"
    by (simp add: disk_init_def disk_object_def empty_file_def get_size_def and_then_def gets_def modify_def ret_def allocate_page_def
        disk_flush_all_def pwrite_def overwrite_def header_bytes_length require_def Let_def)
  then have o: "disk_open (Some empty_file) = Inr ?d" by (simp add: disk_open_def)
  then have n: "new_disk = ?d" by (simp add: new_disk_def)
  show "disk_open (Some empty_file) = Inr new_disk" "dcapacity new_disk = 1" "free_list new_disk = []" "sound_disk new_disk"
    "flimit (dfile new_disk) = 2 ^ 20"
    using o by (simp_all add: n sound_disk_def sound_header_def empty_file_def header_bytes_length kPAGE_SIZE_def)
qed

lemma new_world_ok:
  "database_open (bpm_object new_disk 4) = (Inr new_world, wpool new_world)" "held {} {#} (wpool new_world)"
  "pool_capacity (wpool new_world) = 4" "catalog_table (tx_data new_world) = catalog_object" "tables (tx_data new_world) = []"
  "catalog_ok [kCATALOG_FIRST_PAGE_ID] new_world" "sound_world new_world" "page_budget (bdisk (wpool new_world)) = 126"
  "bpm_pages (wpool new_world) = {kCATALOG_FIRST_PAGE_ID}" "locks new_world = lock_init" "flimit (dfile (bdisk (wpool new_world))) = 2 ^ 20"
proof -
  let ?c = "bpm_object new_disk 4"
  have d: "disk_ok new_disk" "free_ok new_disk" "page_budget new_disk = 127"
    using empty_file_opens by (simp_all add: disk_ok_def free_ok_def sound_disk_def kPAGE_SIZE_def page_budget_def)
  have "bdisk ?c = new_disk" "pool_capacity ?c = 4" by (simp_all add: bpm_object_def)
  then obtain w where w: "database_open ?c = (Inr w, wpool w)" "held {} {#} (wpool w)" "pool_capacity (wpool w) = 4"
    "catalog_table (tx_data w) = catalog_object" "tables (tx_data w) = []" "catalog_ok [kCATALOG_FIRST_PAGE_ID] w" "sound_world w"
    "Suc (page_budget (bdisk (wpool w))) = 127" "bpm_pages (wpool w) = {kCATALOG_FIRST_PAGE_ID}" "locks w = lock_init"
    using database_open_new [of ?c] fresh_pool_held [OF d(1,2), of 4] empty_file_opens(2-4) d(3)
    by (auto simp: disk_room_budget kCATALOG_FIRST_PAGE_ID_def)
  then have n: "new_world = w" by (simp add: new_world_def)
  show "database_open (bpm_object new_disk 4) = (Inr new_world, wpool new_world)" "held {} {#} (wpool new_world)"
    "pool_capacity (wpool new_world) = 4" "catalog_table (tx_data new_world) = catalog_object" "tables (tx_data new_world) = []"
    "catalog_ok [kCATALOG_FIRST_PAGE_ID] new_world" "sound_world new_world" "page_budget (bdisk (wpool new_world)) = 126"
  "bpm_pages (wpool new_world) = {kCATALOG_FIRST_PAGE_ID}" "locks new_world = lock_init"
    using w unfolding n by simp_all
  show "flimit (dfile (bdisk (wpool new_world))) = 2 ^ 20"
    using limit.database_open_keeps [OF _ w(1)] empty_file_opens(5) unfolding n by (simp add: bpm_object_def)
qed

section \<open>A table per name\<close>

lemma find_added: "find_table name (tx_data (put_tables (tables (tx_data w) @ [(name, e)]) w')) =
    (case find_table name (tx_data w) of None \<Rightarrow> Some e | Some x \<Rightarrow> Some x)"
  by (simp add: find_table_def put_tables_def map_add_def split: option.split)

lemma find_added_other: "other \<noteq> name \<Longrightarrow>
    find_table other (tx_data (put_tables (tables (tx_data w) @ [(name, e)]) w')) = find_table other (tx_data w)"
  by (simp add: find_table_def put_tables_def map_add_def split: option.split)

lemma fresh_rows: "heap_pages (bpm_view e) (bpm_pages e) (table_first_page tb) [p] \<Longrightarrow> bpm_view e p = sp_init zero_page \<Longrightarrow> table_rows e tb []"
  by (auto simp: table_rows_def page_rows_def init_slots intro!: exI [of _ "[p]"])

lemma sample_entry_fits: "entry_fits ''t'' sample_schema" "length (schema_serialize sample_schema) = 29"
  by (simp_all add: entry_fits_def sample_schema_def schema_serialize_def Let_def column_serialize_def bytes16_def)

section \<open>Every table and row survives\<close>

lemma catalog_holds_object:
  assumes "catalog_holds b ct ps ts" and "table_first_page ct = kCATALOG_FIRST_PAGE_ID"
  shows "catalog_holds b catalog_object ps ts"
  using assms by (simp add: catalog_holds_def catalog_object_def)

lemma catalog_first_page:
  assumes "catalog_holds b ct ps ts" and "table_first_page ct = kCATALOG_FIRST_PAGE_ID"
  shows "kCATALOG_FIRST_PAGE_ID \<in> bpm_pages b" "wf_page (bpm_view b kCATALOG_FIRST_PAGE_ID)"
  using assms by (cases ps; simp add: catalog_holds_def heap_pages_def)+

lemma restart_run:
  assumes c: "catalog_ok ps w" and first: "table_first_page (catalog_table (tx_data w)) = kCATALOG_FIRST_PAGE_ID"
    and h: "held {} {#} (wpool w)" and s: "sound_disk (bdisk (wpool w))" and n: "0 < n" "n < 2 ^ 32 - 1"
  shows "\<exists>b e w'. bpm_flush_all (wpool w) = (Inr (), b) \<and> disk_open (Some (disk_close (bdisk b))) = Inr e \<and>
    database_open (bpm_object e n) = (Inr w', wpool w') \<and> world_ok None {#} w' \<and> pool_capacity (wpool w') = n \<and> locks w' = lock_init \<and>
    catalog_table (tx_data w') = catalog_object \<and> sound_world w' \<and> bpm_pages (wpool w') = bpm_pages (wpool w) \<and>
    (\<forall>q\<in>bpm_pages (wpool w). bpm_view (wpool w') q = bpm_view (wpool w) q) \<and>
    map_of (tables (tx_data w')) = map_of (tables (tx_data w)) \<and> catalog_ok ps w' \<and>
    (\<forall>tb rows. table_rows (wpool w) tb rows \<longrightarrow> table_rows (wpool w') tb rows)"
proof -
  note cat = catalog_holds_object [OF c first]
  obtain b e where b: "bpm_flush_all (wpool w) = (Inr (), b)" "disk_open (Some (disk_close (bdisk b))) = Inr e"
    "held {} {#} (bpm_object e n)" "bpm_pages (bpm_object e n) = bpm_pages (wpool w)"
    "\<forall>q\<in>bpm_pages (wpool w). bpm_view (bpm_object e n) q = bpm_view (wpool w) q" "kCATALOG_FIRST_PAGE_ID < dcapacity e"
    using reopen_pool [OF h catalog_first_page [OF c first] s n(2)] by blast
  let ?o = "bpm_object e n"
  have "catalog_holds ?o catalog_object ps (tables (tx_data w))" using cat by (rule catalog_holds_view) (use b(4,5) in auto)
  moreover have "kCATALOG_FIRST_PAGE_ID < dcapacity (bdisk ?o)" "0 < pool_capacity ?o" using b(6) n(1) by (simp_all add: bpm_object_def)
  ultimately obtain w' where w': "database_open ?o = (Inr w', wpool w')" "world_ok None {#} w'"
    "pool_kept {#} ?o (wpool w')" "locks w' = lock_init" "map_of (tables (tx_data w')) = map_of (tables (tx_data w))" "catalog_ok ps w'"
    "catalog_table (tx_data w') = catalog_object"
    using database_open_ok [OF _ b(3)] by blast
  have "table_rows (wpool w') tb rows" if "table_rows (wpool w) tb rows" for tb rows
    using that by (rule table_rows_view) (use w'(3) b(4,5) in \<open>auto simp: pool_kept_def\<close>)
  moreover have "pool_capacity (wpool w') = n" using pool_kept_capacity [OF w'(3)] by (simp add: bpm_object_def)
  moreover have "sound_disk (bdisk b)" using keepsD [OF sound.flush_keeps s b(1)] .
  from disk_open_sound [OF disk_close_sound [OF this] b(2)] have "sound_disk (bdisk ?o)" by (simp add: bpm_object_def)
  from database_open_sound [OF this w'(1)] have "sound_world w'" .
  moreover have "bpm_pages (wpool w') = bpm_pages (wpool w)" "\<forall>q\<in>bpm_pages (wpool w). bpm_view (wpool w') q = bpm_view (wpool w) q"
    using w'(3) b(4,5) by (simp_all add: pool_kept_def)
  ultimately show ?thesis using b(1,2) w'
    by (intro exI [of _ b] exI [of _ e] exI [of _ w'] conjI) (assumption | blast)+
qed




text \<open>
  C2: A restart loses nothing. Flush the pool, close the file, open it again with a pool of any capacity
  and build the database: no step throws, the catalog has every table it had, under its name and with
  its schema and first page, every table has the rows it had in the same order, and no lock is held.
\<close>

theorem database_restart:
  assumes c: "catalog_ok ps w" and first: "table_first_page (catalog_table (tx_data w)) = kCATALOG_FIRST_PAGE_ID"
    and h: "held {} {#} (wpool w)" and s: "sound_disk (bdisk (wpool w))" and n: "0 < n" "n < 2 ^ 32 - 1"
  shows "\<exists>b e w'. bpm_flush_all (wpool w) = (Inr (), b) \<and> disk_open (Some (disk_close (bdisk b))) = Inr e \<and>
    database_open (bpm_object e n) = (Inr w', wpool w') \<and> world_ok None {#} w' \<and> pool_capacity (wpool w') = n \<and> locks w' = lock_init \<and>
    map_of (tables (tx_data w')) = map_of (tables (tx_data w)) \<and> catalog_ok ps w' \<and>
    (\<forall>tb rows. table_rows (wpool w) tb rows \<longrightarrow> table_rows (wpool w') tb rows)"
  using restart_run [OF assms] by blast

theorem database_restart_witness:
  "\<exists>tb w b e w'. create_table ''t'' sample_schema None new_world = (Inr tb, w) \<and> bpm_flush_all (wpool w) = (Inr (), b) \<and>
     disk_open (Some (disk_close (bdisk b))) = Inr e \<and> database_open (bpm_object e 2) = (Inr w', wpool w') \<and>
     find_table ''t'' (tx_data w') = find_table ''t'' (tx_data w) \<and> table_rows (wpool w') tb []"
proof -
  have new: "find_table ''t'' (tx_data new_world) = None" using new_world_ok(5) by (simp add: find_table_def)
  obtain p r w qs c where w: "create_table ''t'' sample_schema None new_world =
      (Inr \<lparr>table_name = ''t'', table_first_page = p, table_schema = sample_schema\<rparr>, w)"
    "w = put_tables (tables (tx_data new_world) @ [(''t'', \<lparr>entry_rid = r,
      entry_table = \<lparr>table_name = ''t'', table_first_page = p, table_schema = sample_schema\<rparr>\<rparr>)]) (put_pool c new_world)"
    "catalog_ok qs w" "held {} {#} c" "heap_pages (bpm_view c) (bpm_pages c) p [p]" "bpm_view c p = sp_init zero_page"
    using create_table_ok [OF new_world_ok(6,2) _ new sample_entry_fits(1)] new_world_ok(3,8) unfolding Let_def by auto
  let ?tb = "\<lparr>table_name = ''t'', table_first_page = p, table_schema = sample_schema\<rparr>"
  have "sound_world w" using keepsD [OF create_table_sound new_world_ok(7) w(1)] .
  moreover have "wpool w = c" "catalog_table (tx_data w) = catalog_object" using w(2) new_world_ok(4) by (simp_all add: put_tables_def)
  moreover have "table_rows c ?tb []" using fresh_rows [of c ?tb p] w(5,6) by simp
  ultimately obtain b e w' where "bpm_flush_all (wpool w) = (Inr (), b)" "disk_open (Some (disk_close (bdisk b))) = Inr e"
    "database_open (bpm_object e 2) = (Inr w', wpool w')" "map_of (tables (tx_data w')) = map_of (tables (tx_data w))"
    "table_rows (wpool w') ?tb []"
    using database_restart [OF w(3), where n = 2] w(4) by (auto simp: catalog_object_def)
  then show ?thesis using w(1) by (auto simp: find_table_def)
qed

end
