(* ===== verification/Table_Rows.thy ===== *)
theory Table_Rows
  imports Catalog_Rows
begin

text \<open>
  The rows of all pages of a pool as one map, and what an insert and a delete do to this map, to the
  pages of every heap and to the rows of every table. Undoing the inserts of a transaction, an instance
  of what undo records promise.
\<close>

section \<open>All rows of a pool\<close>

definition pool_rows :: "bpm \<Rightarrow> rid \<Rightarrow> byte list option" where
  "pool_rows b r = (if rid_page r \<in> bpm_pages b then tuple_at (bpm_view b (rid_page r)) (unat (rid_slot r)) else None)"

lemma pool_rows_cong: "bpm_view c = bpm_view b \<Longrightarrow> bpm_pages c = bpm_pages b \<Longrightarrow> pool_rows c = pool_rows b"
  by (simp add: pool_rows_def fun_eq_iff)

definition pages_wf :: "bpm \<Rightarrow> bool" where
  "pages_wf b \<longleftrightarrow> (\<forall>p\<in>bpm_pages b. wf_page (bpm_view b p))"

text \<open>Every heap keeps its pages and may have got new ones at its end; heaps that share no page share none then.\<close>

definition grown :: "bpm \<Rightarrow> bpm \<Rightarrow> bool" where
  "grown b e \<longleftrightarrow> bpm_pages b \<subseteq> bpm_pages e \<and>
     (\<forall>p ps. heap_pages (bpm_view b) (bpm_pages b) p ps \<longrightarrow>
        (\<exists>xs. heap_pages (bpm_view e) (bpm_pages e) p (ps @ xs) \<and> set xs \<inter> bpm_pages b = {})) \<and>
     (\<forall>p ps q qs ps' qs'. heap_pages (bpm_view b) (bpm_pages b) p ps \<longrightarrow> heap_pages (bpm_view b) (bpm_pages b) q qs \<longrightarrow>
        set ps \<inter> set qs = {} \<longrightarrow> heap_pages (bpm_view e) (bpm_pages e) p ps' \<longrightarrow> heap_pages (bpm_view e) (bpm_pages e) q qs' \<longrightarrow>
        set ps' \<inter> set qs' = {})"

lemma heap_pages_unique: "heap_pages v U p ps \<Longrightarrow> heap_pages v U p qs \<Longrightarrow> qs = ps"
  by (auto simp: heap_pages_def intro: chain_unique)

lemma heap_pages_moved:
  assumes "heap_pages v U p ps" and "\<forall>q\<in>set ps. w q = v q \<and> q \<in> V"
  shows "heap_pages w V p ps"
proof -
  have "chain v U p ps \<Longrightarrow> \<forall>q\<in>set ps. w q = v q \<and> q \<in> V \<Longrightarrow> chain w V p ps" for p by (induction ps arbitrary: p) auto
  with assms show ?thesis by (simp add: heap_pages_def)
qed

text \<open>The last page of every heap is linked to at most one new page, and no two are linked to the same.\<close>

lemma grownI:
  assumes U: "bpm_pages b \<subseteq> bpm_pages e"
    and one: "\<And>p ps. heap_pages (bpm_view b) (bpm_pages b) p ps \<Longrightarrow> heap_pages (bpm_view e) (bpm_pages e) p ps \<or>
      N \<notin> bpm_pages b \<and> last ps = l \<and> heap_pages (bpm_view e) (bpm_pages e) p (ps @ [N])"
  shows "grown b e"
  unfolding grown_def
proof (intro conjI allI impI)
  show "bpm_pages b \<subseteq> bpm_pages e" by (rule U)
  show "\<exists>xs. heap_pages (bpm_view e) (bpm_pages e) p (ps @ xs) \<and> set xs \<inter> bpm_pages b = {}"
    if "heap_pages (bpm_view b) (bpm_pages b) p ps" for p ps
    using one [OF that] by (elim disjE) (intro exI [of _ "[]"] exI [of _ "[N]"]; simp)+
  fix p ps q qs ps' qs'
  assume b: "heap_pages (bpm_view b) (bpm_pages b) p ps" "heap_pages (bpm_view b) (bpm_pages b) q qs" "set ps \<inter> set qs = {}"
    and e: "heap_pages (bpm_view e) (bpm_pages e) p ps'" "heap_pages (bpm_view e) (bpm_pages e) q qs'"
  have "ps \<noteq> []" "qs \<noteq> []" using b(1,2) by (auto simp: heap_pages_def)
  have "set ps \<subseteq> bpm_pages b" "set qs \<subseteq> bpm_pages b"
    using b(1,2) chain_in by (auto simp: heap_pages_def)
  moreover have "ps' = ps \<or> N \<notin> bpm_pages b \<and> last ps = l \<and> ps' = ps @ [N]" using one [OF b(1)] e(1) heap_pages_unique by blast
  moreover have "qs' = qs \<or> N \<notin> bpm_pages b \<and> last qs = l \<and> qs' = qs @ [N]" using one [OF b(2)] e(2) heap_pages_unique by blast
  moreover have "last ps \<noteq> last qs" using b(3) last_in_set [OF \<open>ps \<noteq> []\<close>] last_in_set [OF \<open>qs \<noteq> []\<close>] by (metis disjoint_iff)
  ultimately show "set ps' \<inter> set qs' = {}" using b(3) by auto
qed

lemma grown_heap:
  assumes "grown b e" and "heap_pages (bpm_view b) (bpm_pages b) p ps"
  obtains xs where "heap_pages (bpm_view e) (bpm_pages e) p (ps @ xs)" "set xs \<inter> bpm_pages b = {}"
  using assms unfolding grown_def by blast

lemma grown_pages: "grown b e \<Longrightarrow> bpm_pages b \<subseteq> bpm_pages e"
  unfolding grown_def by (rule conjunct1)

lemma grown_apart:
  assumes "grown b e" and "heap_pages (bpm_view b) (bpm_pages b) p ps" and "heap_pages (bpm_view b) (bpm_pages b) q qs"
    and "set ps \<inter> set qs = {}" and "heap_pages (bpm_view e) (bpm_pages e) p ps'" and "heap_pages (bpm_view e) (bpm_pages e) q qs'"
  shows "set ps' \<inter> set qs' = {}"
  by (rule assms(1) [unfolded grown_def, THEN conjunct2, THEN conjunct2, rule_format, OF assms(2-6)])

lemma grown_refl: "grown b b"
  by (rule grownI [of b b 0 0]) auto

lemma grown_same: "bpm_view e = bpm_view b \<Longrightarrow> bpm_pages e = bpm_pages b \<Longrightarrow> grown b e"
  by (rule grownI [of b e 0 0]) auto

lemma grown_trans:
  assumes bc: "grown b c" and ce: "grown c e"
  shows "grown b e"
  unfolding grown_def
proof (intro conjI allI impI)
  show "bpm_pages b \<subseteq> bpm_pages e" using grown_pages [OF bc] grown_pages [OF ce] by blast
  show "set ps' \<inter> set qs' = {}" if b: "heap_pages (bpm_view b) (bpm_pages b) p ps" "heap_pages (bpm_view b) (bpm_pages b) q qs"
    "set ps \<inter> set qs = {}" and e: "heap_pages (bpm_view e) (bpm_pages e) p ps'" "heap_pages (bpm_view e) (bpm_pages e) q qs'" for p ps q qs ps' qs'
  proof -
    obtain xs where x: "heap_pages (bpm_view c) (bpm_pages c) p (ps @ xs)" by (rule grown_heap [OF bc b(1)])
    obtain ys where y: "heap_pages (bpm_view c) (bpm_pages c) q (qs @ ys)" by (rule grown_heap [OF bc b(2)])
    show ?thesis by (rule grown_apart [OF ce x y grown_apart [OF bc b x y] e])
  qed
  fix p ps assume "heap_pages (bpm_view b) (bpm_pages b) p ps"
  then obtain xs where x: "heap_pages (bpm_view c) (bpm_pages c) p (ps @ xs)" "set xs \<inter> bpm_pages b = {}"
    by (rule grown_heap [OF bc])
  obtain ys where y: "heap_pages (bpm_view e) (bpm_pages e) p ((ps @ xs) @ ys)" "set ys \<inter> bpm_pages c = {}"
    by (rule grown_heap [OF ce x(1)])
  have "set (xs @ ys) \<inter> bpm_pages b = {}" using x(2) y(2) grown_pages [OF bc] by auto
  then show "\<exists>xs. heap_pages (bpm_view e) (bpm_pages e) p (ps @ xs) \<and> set xs \<inter> bpm_pages b = {}"
    using y(1) by (intro exI [of _ "xs @ ys"]) simp
qed

lemma page_rows_cong:
  assumes "tuple_at d = tuple_at e" and "wf_page d" and "wf_page e"
  shows "page_rows p d 0 = page_rows p e 0"
proof -
  have lv: "live d i \<longleftrightarrow> live e i" for i
    using fun_cong [OF assms(1), of i] by (auto simp: tuple_at_def split: if_splits)
  have up: "filter (live x) [0..<page_slots x] = filter (live x) [0..<max (page_slots x) n]" for x n
    using upt_add_eq_append [of 0 "page_slots x" "max (page_slots x) n - page_slots x"] by (simp add: filter_empty_conv live_def)
  have "filter (live d) [0..<page_slots d] = filter (live e) [0..<page_slots e]"
    unfolding up [of d "page_slots e"] up [of e "page_slots d"] by (rule filter_cong) (simp_all add: lv max.commute)
  then show ?thesis using assms(1) by (simp add: page_rows_def)
qed

lemma page_rows_none: "tuple_at d = Map.empty \<Longrightarrow> page_rows p d 0 = []"
  by (auto simp: page_rows_def filter_empty_conv tuple_at_def fun_eq_iff split: if_splits)

lemma slot_numbers: "wf_page d \<Longrightarrow> tuple_at d i \<noteq> None \<Longrightarrow> \<exists>s :: 16 word. unat s = i"
proof -
  assume "wf_page d" "tuple_at d i \<noteq> None"
  then have "i < 2 ^ 16" using page_slots_bound [of d] by (auto simp: tuple_at_def live_def split: if_splits)
  then show ?thesis by (intro exI [of _ "of_nat i"]) (simp add: unat_of_nat)
qed

lemma same_rows_page:
  assumes wf: "wf_page d" "wf_page e" and same: "\<And>s :: 16 word. tuple_at d (unat s) = tuple_at e (unat s)"
  shows "tuple_at d = tuple_at e"
proof (rule ext)
  fix i
  show "tuple_at d i = tuple_at e i"
  proof (cases "tuple_at d i = None \<and> tuple_at e i = None")
    case False
    then obtain s :: "16 word" where "unat s = i" using slot_numbers wf by blast
    then show ?thesis using same [of s] by simp
  qed simp
qed

text \<open>Where the rows of the pages of a heap are the same, the heap has the same rows in the same order.\<close>

lemma grown_rows:
  assumes g: "grown b e" and hb: "heap_pages (bpm_view b) (bpm_pages b) p ps" and he: "heap_pages (bpm_view e) (bpm_pages e) p ps'"
    and same: "\<And>r. rid_page r \<in> set ps' \<Longrightarrow> pool_rows e r = pool_rows b r"
  shows "rows_from (bpm_view e) ps' 0 = rows_from (bpm_view b) ps 0" "heap_row (bpm_view e) ps' = heap_row (bpm_view b) ps"
proof -
  obtain xs where "heap_pages (bpm_view e) (bpm_pages e) p (ps @ xs)" and xs: "set xs \<inter> bpm_pages b = {}"
    by (rule grown_heap [OF g hb])
  then have ps': "ps' = ps @ xs" using he heap_pages_unique by blast
  have in_b: "q \<in> bpm_pages b" "wf_page (bpm_view b q)" if "q \<in> set ps" for q
    using hb that chain_in by (auto simp: heap_pages_def)
  have in_e: "q \<in> bpm_pages e" "wf_page (bpm_view e q)" if "q \<in> set ps'" for q
    using he that chain_in unfolding heap_pages_def by blast+
  have old: "tuple_at (bpm_view b q) = tuple_at (bpm_view e q)" if q: "q \<in> set ps" for q
  proof (rule same_rows_page)
    show "tuple_at (bpm_view b q) (unat s) = tuple_at (bpm_view e q) (unat s)" for s :: "16 word"
      using same [of "\<lparr>rid_page = q, rid_slot = s\<rparr>"] in_b(1) in_e(1) [of q] q by (simp add: pool_rows_def ps')
  qed (use in_b(2) in_e(2) [of q] q in \<open>simp_all add: ps'\<close>)
  have new: "tuple_at (bpm_view e q) = Map.empty" if q: "q \<in> set xs" for q
  proof (rule ext)
    have "tuple_at (bpm_view e q) (unat s) = None" for s :: "16 word"
      using same [of "\<lparr>rid_page = q, rid_slot = s\<rparr>"] in_e(1) [of q] q xs by (auto simp: pool_rows_def ps')
    then show "tuple_at (bpm_view e q) i = None" for i using slot_numbers in_e(2) [of q] q unfolding ps' by (metis UnCI set_append)
  qed
  have "rows_from (bpm_view b) ps 0 = rows_from (bpm_view e) ps 0"
    using old in_b(2) in_e(2) unfolding ps' by (induction ps) (auto intro: page_rows_cong)
  moreover have "rows_from (bpm_view e) xs 0 = []" using new by (induction xs) (auto simp: page_rows_none)
  moreover have "rows_from v (ps @ xs) 0 = rows_from v ps 0 @ rows_from v xs 0" for v by (induction ps) auto
  ultimately show "rows_from (bpm_view e) ps' 0 = rows_from (bpm_view b) ps 0" by (simp add: ps')
  have "set ps \<inter> set xs = {}" using he by (simp add: ps' heap_pages_def)
  then show "heap_row (bpm_view e) ps' = heap_row (bpm_view b) ps" using old new by (auto simp: heap_row_def fun_eq_iff ps')
qed

lemma table_rows_iff:
  assumes "heap_pages (bpm_view b) (bpm_pages b) (table_first_page tb) ps"
  shows "table_rows b tb rows \<longleftrightarrow> list_all2 (decodes_to (table_schema tb)) (rows_from (bpm_view b) ps 0) rows"
  using assms heap_pages_unique unfolding table_rows_def by blast

lemma grown_table_rows:
  assumes g: "grown b e" and t: "table_rows b tb vs" and he: "heap_pages (bpm_view e) (bpm_pages e) (table_first_page tb) ps'"
    and same: "\<And>r. rid_page r \<in> set ps' \<Longrightarrow> pool_rows e r = pool_rows b r"
  shows "table_rows e tb vs"
proof -
  obtain ps where "heap_pages (bpm_view b) (bpm_pages b) (table_first_page tb) ps" using t by (auto simp: table_rows_def)
  then show ?thesis using t table_rows_iff grown_rows(1) [OF g _ he same] he by simp
qed

lemma same_table_rows:
  assumes "grown b e" and "pool_rows e = pool_rows b" and "table_rows b tb vs"
  shows "table_rows e tb vs"
proof -
  obtain ps where "heap_pages (bpm_view b) (bpm_pages b) (table_first_page tb) ps" using assms(3) by (auto simp: table_rows_def)
  from grown_heap [OF assms(1) this] obtain xs where he: "heap_pages (bpm_view e) (bpm_pages e) (table_first_page tb) (ps @ xs)" by blast
  show ?thesis by (rule grown_table_rows [OF assms(1,3) he]) (simp add: assms(2))
qed

lemma grown_catalog:
  assumes g: "grown b e" and c: "catalog_holds b ct ps ts" and he: "heap_pages (bpm_view e) (bpm_pages e) (table_first_page ct) ps'"
    and same: "\<And>r. rid_page r \<in> set ps' \<Longrightarrow> pool_rows e r = pool_rows b r"
  shows "catalog_holds e ct ps' ts"
proof -
  have "heap_pages (bpm_view b) (bpm_pages b) (table_first_page ct) ps" using c by (simp add: catalog_holds_def)
  from grown_rows(2) [OF g this he same] show ?thesis using c he by (simp add: catalog_holds_def)
qed

text \<open>The rows of a table as one function of the rows of its heap.\<close>

definition decoded :: "schema \<Rightarrow> rid \<times> byte list \<Rightarrow> row" where
  "decoded s x = tvalues (projr (tuple_deserialize (snd x) s))"

lemma decodes_iff:
  "list_all2 (decodes_to s) xs rows \<longleftrightarrow> (\<forall>x\<in>set xs. \<exists>t. tuple_deserialize (snd x) s = Inr t) \<and> rows = map (decoded s) xs"
proof -
  have "list_all2 (decodes_to s) xs rows \<Longrightarrow> (\<forall>x\<in>set xs. \<exists>t. tuple_deserialize (snd x) s = Inr t) \<and> rows = map (decoded s) xs"
    by (induction rule: list_all2_induct) (auto simp: decodes_to_def decoded_def)
  moreover have "(\<forall>x\<in>set xs. \<exists>t. tuple_deserialize (snd x) s = Inr t) \<Longrightarrow> list_all2 (decodes_to s) xs (map (decoded s) xs)"
    by (induction xs) (auto simp: decodes_to_def decoded_def)
  ultimately show ?thesis by blast
qed

lemma table_rows_unique: "table_rows b tb rows \<Longrightarrow> table_rows b tb rows' \<Longrightarrow> rows' = rows"
  using table_rows_iff decodes_iff by (metis table_rows_def)

text \<open>The rows of a heap as a multiset; two heaps that differ by one row have the same rows but that one.\<close>

lemma heap_row_pool:
  "heap_pages (bpm_view b) (bpm_pages b) p ps \<Longrightarrow> heap_row (bpm_view b) ps x = (if rid_page x \<in> set ps then pool_rows b x else None)"
  using chain_in [of _ _ _ ps "rid_page x"] by (auto simp: heap_row_def pool_rows_def heap_pages_def)

lemma rows_mset:
  assumes "heap_pages v U p ps"
  shows "mset (rows_from v ps 0) = mset_set (Map.graph (heap_row v ps))" "finite (Map.graph (heap_row v ps))"
proof -
  have wf: "\<forall>q\<in>set ps. wf_page (v q)" "distinct ps" using assms chain_in by (auto simp: heap_pages_def)
  have "distinct (rows_from v ps 0)" using rows_distinct [OF wf(2,1)] by (simp add: distinct_map)
  moreover have s: "set (rows_from v ps 0) = Map.graph (heap_row v ps)" using rows_in [OF wf(1)] by (auto simp: Map.graph_def)
  ultimately show "mset (rows_from v ps 0) = mset_set (Map.graph (heap_row v ps))" using mset_set_set by metis
  show "finite (Map.graph (heap_row v ps))" unfolding s [symmetric] by simp
qed

lemma rows_from_add:
  assumes hb: "heap_pages v U p ps" and he: "heap_pages v' U' p' qs"
    and r: "heap_row v ps r = None" "heap_row v' qs = (heap_row v ps)(r \<mapsto> bs)"
  shows "mset (rows_from v' qs 0) = add_mset (r, bs) (mset (rows_from v ps 0))"
proof -
  have "Map.graph (heap_row v' qs) = insert (r, bs) (Map.graph (heap_row v ps))" "(r, bs) \<notin> Map.graph (heap_row v ps)"
    using r by (auto simp: Map.graph_def split: if_splits)
  then show ?thesis using rows_mset [OF hb] rows_mset [OF he] by simp
qed

section \<open>One insert, one delete\<close>

lemma chain_next:
  "chain v U p ps \<Longrightarrow> i < length ps \<Longrightarrow> sp_next (v (ps ! i)) = (if Suc i < length ps then ps ! Suc i else INVALID_PAGE_ID)"
proof (induction ps arbitrary: p i)
  case (Cons a ps)
  then show ?case by (cases i; cases ps) auto
qed simp

lemma chain_extend:
  assumes "chain v U p ps" and "U \<subseteq> V" and n: "chain w V n [n]"
    and "\<forall>x\<in>set ps. wf_page (w x) \<and> (sp_next (w x) = sp_next (v x) \<or> sp_next (v x) = INVALID_PAGE_ID \<and> sp_next (w x) = n)"
  shows "chain w V p ps \<or> chain w V p (ps @ [n])"
  using assms(1,4)
proof (induction ps arbitrary: p)
  case (Cons a qs)
  have c: "chain v U (sp_next (v a)) qs" and a: "p = a" "a \<in> V" "a \<noteq> INVALID_PAGE_ID" "wf_page (w a)"
    using Cons.prems assms(2) by auto
  show ?case
  proof (cases "sp_next (w a) = sp_next (v a)")
    case True
    then show ?thesis using Cons.IH [OF c] Cons.prems(2) a by auto
  next
    case False
    then have l: "sp_next (v a) = INVALID_PAGE_ID" "sp_next (w a) = n" using Cons.prems(2) by auto
    then have "qs = []" using c by (cases qs) auto
    then show ?thesis using a l n by simp
  qed
qed simp

lemma inserted_in_heap: "inserted P b p ps t r qs e \<Longrightarrow> rid_page r \<in> set qs"
proof -
  assume "inserted P b p ps t r qs e"
  then have "heap_row (bpm_view e) qs r = Some t" by (simp add: inserted_def)
  then show ?thesis by (simp add: heap_row_def split: if_splits)
qed

text \<open>The new row is a new entry of the map; the heap may have got a page, which ends every chain it ends.\<close>

lemma inserted_pages:
  assumes i: "inserted P b p ps t r qs e" and hp: "heap_pages (bpm_view b) (bpm_pages b) p ps"
  shows "grown b e" "pages_wf b \<Longrightarrow> pages_wf e" "pool_rows b r = None" "pool_rows e = (pool_rows b)(r \<mapsto> t)"
proof -
  have E: "heap_pages (bpm_view e) (bpm_pages e) p qs" "heap_row (bpm_view b) ps r = None"
    "heap_row (bpm_view e) qs = (heap_row (bpm_view b) ps)(r \<mapsto> t)" "\<forall>q. q \<notin> set qs \<longrightarrow> bpm_view e q = bpm_view b q"
    and new: "qs = ps \<and> bpm_pages e = bpm_pages b \<or> (\<exists>n. n \<notin> bpm_pages b \<and> qs = ps @ [n] \<and> bpm_pages e = insert n (bpm_pages b))"
    using i by (auto simp: inserted_def)
  have cb: "chain (bpm_view b) (bpm_pages b) p ps" "distinct ps" and ce: "chain (bpm_view e) (bpm_pages e) p qs" "distinct qs"
    using hp E(1) by (simp_all add: heap_pages_def)
  have wfe: "q \<in> bpm_pages e" "wf_page (bpm_view e q)" if "q \<in> set qs" for q using chain_in [OF ce(1) that] by auto
  have psb: "set ps \<subseteq> bpm_pages b" using chain_in [OF cb(1)] by blast
  have U: "bpm_pages b \<subseteq> bpm_pages e" using new by auto
  have link: "sp_next (bpm_view e x) = sp_next (bpm_view b x) \<or>
      (\<exists>n. n \<notin> bpm_pages b \<and> qs = ps @ [n] \<and> sp_next (bpm_view b x) = INVALID_PAGE_ID \<and> sp_next (bpm_view e x) = n)"
    if x: "x \<in> bpm_pages b" for x
  proof (cases "x \<in> set qs")
    case True
    then have "x \<in> set ps" using new x by auto
    then obtain k where k: "k < length ps" "ps ! k = x" by (auto simp: in_set_conv_nth)
    show ?thesis
      using new chain_next [OF cb(1) k(1)] chain_next [OF ce(1), of k] k by (auto simp: nth_append)
  qed (use E(4) in simp)
  have only_last: "x = last ps" if q: "qs = ps @ [n]" and x: "x \<in> bpm_pages b" "sp_next (bpm_view e x) = n" "sp_next (bpm_view b x) = INVALID_PAGE_ID" for x n
  proof (cases "x \<in> set ps")
    case True
    then obtain k where k: "k < length ps" "ps ! k = x" by (auto simp: in_set_conv_nth)
    have "ps ! Suc k = n" if "Suc k < length ps" using chain_next [OF ce(1), of k] k x(2) q that by (simp add: nth_append)
    moreover have "n \<notin> set ps" using ce(2) q by simp
    ultimately have "Suc k = length ps" using k(1) by (metis nth_mem Suc_lessI)
    then show ?thesis using k(2) by (cases ps rule: rev_cases) auto
  next
    case False
    then have "x \<notin> set qs" using x(1) new q by auto
    then have "n = INVALID_PAGE_ID" using E(4) x(2,3) by simp
    moreover have "n \<in> bpm_pages e" using wfe(1) q by simp
    ultimately show ?thesis using pages_valid by blast
  qed
  show "grown b e"
  proof (rule grownI [OF U])
    fix p' ps' assume h: "heap_pages (bpm_view b) (bpm_pages b) p' ps'"
    then have c': "chain (bpm_view b) (bpm_pages b) p' ps'" "distinct ps'" "ps' \<noteq> []" by (simp_all add: heap_pages_def)
    have in': "x \<in> bpm_pages b" "wf_page (bpm_view e x)" if "x \<in> set ps'" for x
      using chain_in [OF c'(1) that] wfe(2) E(4) by (auto, metis)
    show "heap_pages (bpm_view e) (bpm_pages e) p' ps' \<or>
      last qs \<notin> bpm_pages b \<and> last ps' = last ps \<and> heap_pages (bpm_view e) (bpm_pages e) p' (ps' @ [last qs])"
    proof (cases "qs = ps")
      case True
      then have "chain (bpm_view e) (bpm_pages e) p' ps'" using in' link c'(1) U by (induction ps' arbitrary: p') auto
      then show ?thesis using c' by (simp add: heap_pages_def)
    next
      case False
      then obtain n where n: "n \<notin> bpm_pages b" "qs = ps @ [n]" using new by auto
      have ln: "sp_next (bpm_view e n) = INVALID_PAGE_ID" using chain_next [OF ce(1), of "length ps"] n(2) by simp
      moreover have N: "n \<in> bpm_pages e" "wf_page (bpm_view e n)" "n \<noteq> INVALID_PAGE_ID" using wfe n(2) pages_valid by auto
      ultimately have "chain (bpm_view e) (bpm_pages e) n [n]" by simp
      from chain_extend [OF c'(1) U this] in' link n(2) consider
        "chain (bpm_view e) (bpm_pages e) p' ps'" | "chain (bpm_view e) (bpm_pages e) p' (ps' @ [n])" by fastforce
      then show ?thesis
      proof cases
        case 1
        then show ?thesis using c' by (simp add: heap_pages_def)
      next
        case 2
        have lb: "sp_next (bpm_view b (last ps')) = INVALID_PAGE_ID"
          using chain_next [OF c'(1), of "length ps' - 1"] c'(3) by (simp add: last_conv_nth)
        have "sp_next (bpm_view e (last ps')) = n"
          using chain_next [OF 2, of "length ps' - 1"] c'(3) by (simp add: nth_append last_conv_nth)
        then have "last ps' = last ps" using only_last [OF n(2)] in'(1) [of "last ps'"] c'(3) lb by simp
        then show ?thesis using 2 c' n in'(1) by (auto simp: heap_pages_def)
      qed
    qed
  qed
  show "pages_wf e" if "pages_wf b"
    unfolding pages_wf_def
  proof
    fix q assume "q \<in> bpm_pages e"
    then show "wf_page (bpm_view e q)" using that new E(4) wfe(2) by (cases "q \<in> set qs") (auto simp: pages_wf_def)
  qed
  have off: "x \<notin> set qs \<Longrightarrow> x \<in> bpm_pages e \<longleftrightarrow> x \<in> bpm_pages b" for x using new by auto
  have rq: "rid_page r \<in> set qs" by (rule inserted_in_heap [OF i])
  show "pool_rows b r = None"
    using E(2) rq new by (auto simp: pool_rows_def heap_row_def split: if_splits)
  show "pool_rows e = (pool_rows b)(r \<mapsto> t)"
  proof (rule ext)
    fix x
    show "pool_rows e x = ((pool_rows b)(r \<mapsto> t)) x"
    proof (cases "rid_page x \<in> set qs")
      case True
      then have "pool_rows e x = heap_row (bpm_view e) qs x" using wfe(1) by (simp add: pool_rows_def heap_row_def)
      moreover have "heap_row (bpm_view b) ps x = pool_rows b x"
        using True new psb by (auto simp: pool_rows_def heap_row_def)
      ultimately show ?thesis using E(3) by simp
    next
      case False
      then show ?thesis using off [OF False] rq E(4) by (auto simp: pool_rows_def)
    qed
  qed
qed

text \<open>One row of a page changes or goes: every heap keeps its pages.\<close>

lemma row_changed_heap:
  assumes d: "page_changed P b (rid_page r) z e" and wf: "wf_page z" and nx: "sp_next z = sp_next (bpm_view b (rid_page r))"
    and h: "heap_pages (bpm_view b) (bpm_pages b) p ps"
  shows "heap_pages (bpm_view e) (bpm_pages e) p ps"
proof -
  have v: "bpm_view e = (bpm_view b)(rid_page r := z)" "bpm_pages e = bpm_pages b" using d by (simp_all add: page_changed_def)
  have c: "chain (bpm_view b) (bpm_pages b) p ps" "distinct ps" "ps \<noteq> []" using h by (simp_all add: heap_pages_def)
  have "chain (bpm_view e) (bpm_pages e) p ps"
  proof (cases "rid_page r \<in> set ps")
    case True
    then show ?thesis using chain_update [OF c(1,2) True wf nx] v by simp
  next
    case False
    then show ?thesis by (intro chain_cong [OF _ _ c(1)]) (auto simp: v)
  qed
  then show ?thesis using c by (simp add: heap_pages_def)
qed

lemma row_changed_pages:
  assumes d: "page_changed P b (rid_page r) z e" and wf: "wf_page z" and nx: "sp_next z = sp_next (bpm_view b (rid_page r))"
    and row: "tuple_at z = (tuple_at (bpm_view b (rid_page r)))(unat (rid_slot r) := x)" and r: "x = None \<or> rid_page r \<in> bpm_pages b"
  shows "grown b e" "pages_wf b \<Longrightarrow> pages_wf e" "pool_rows e = (pool_rows b)(r := x)"
proof -
  have v: "bpm_view e = (bpm_view b)(rid_page r := z)" "bpm_pages e = bpm_pages b" using d by (simp_all add: page_changed_def)
  show "grown b e" by (rule grownI [of b e 0 0]) (use v(2) row_changed_heap [OF d wf nx] in auto)
  show "pages_wf b \<Longrightarrow> pages_wf e" using v wf by (simp add: pages_wf_def)
  have "y = r \<longleftrightarrow> rid_page y = rid_page r \<and> unat (rid_slot y) = unat (rid_slot r)" for y
    by (cases y; cases r) (auto dest: unsigned_word_eqI)
  then show "pool_rows e = (pool_rows b)(r := x)" using v row r by (auto simp: pool_rows_def fun_eq_iff)
qed

lemmas deleted_pages = row_changed_pages [where x = None, OF _ _ _ _ disjI1 [OF refl]]

section \<open>Inserts of a transaction\<close>

text \<open>What \<open>heap_insert\<close> asks of the heap for a row of these bytes.\<close>

definition insertable :: "bpm \<Rightarrow> page_id \<Rightarrow> page_id list \<Rightarrow> byte list \<Rightarrow> bool" where
  "insertable b p ps t \<longleftrightarrow> heap_pages (bpm_view b) (bpm_pages b) p ps \<and> length t \<le> 8180 \<and>
     (disk_room (bdisk b) \<or> (\<exists>x\<in>set ps. takes (bpm_view b x) t)) \<and> (\<forall>x\<in>set (butlast ps). settled (bpm_view b x) t)"

lemma insertable_insert:
  "insertable b p ps t \<Longrightarrow> held {} P b \<Longrightarrow> size P + 1 < pool_capacity b \<Longrightarrow>
   \<exists>r qs e. heap_insert p t b = (Inr (Some r), e) \<and> inserted P b p ps t r qs e"
  unfolding insertable_def by (elim conjE) (rule heap_insert_ok; assumption)

definition store_ok :: "bpm \<Rightarrow> page_id multiset \<Rightarrow> store \<Rightarrow> bool" where
  "store_ok b P s \<longleftrightarrow> held {} P (pool s) \<and> pages_wf (pool s) \<and> grown b (pool s) \<and> size P + 1 < pool_capacity (pool s)"

inductive insert_change :: "page_id multiset \<Rightarrow> store \<Rightarrow> undo_record \<Rightarrow> store \<Rightarrow> bool" for P where
  "insertable (pool s) (table_first_page tb) ps t \<Longrightarrow> inserted P (pool s) (table_first_page tb) ps t r qs e \<Longrightarrow>
   insert_change P s (DeleteUndoRecord tb r) (s\<lparr>pool := e\<rparr>)"

inductive_cases insert_changeE: "insert_change P s u s'"

definition store_meaning :: "store \<Rightarrow> (rid \<Rightarrow> byte list option) \<times> table \<times> (string \<times> table_entry) list" where
  "store_meaning s = (pool_rows (pool s), catalog_table s, tables s)"

lemma insert_change_ok:
  assumes s: "store_ok b P s" and c: "insert_change P s u s'"
  shows "store_ok b P s'"
proof -
  obtain tb ps t r qs e where 1: "u = DeleteUndoRecord tb r" "s' = s\<lparr>pool := e\<rparr>" "insertable (pool s) (table_first_page tb) ps t"
    "inserted P (pool s) (table_first_page tb) ps t r qs e" using c by (rule insert_changeE)
  have hp: "heap_pages (bpm_view (pool s)) (bpm_pages (pool s)) (table_first_page tb) ps" using 1(3) by (simp add: insertable_def)
  show ?thesis
    using s 1(2,4) inserted_pages(1,2) [OF 1(4) hp] grown_trans by (auto simp: store_ok_def inserted_def)
qed

lemma undo_insert_change:
  assumes s: "store_ok b P s" and c: "insert_change P s u s'" and t: "store_ok b P t" and m: "store_meaning t = store_meaning s'"
  shows "\<exists>t'. undo u t = (Inr (), t') \<and> store_ok b P t' \<and> store_meaning t' = store_meaning s"
proof -
  obtain tb ps bs r qs e where 1: "u = DeleteUndoRecord tb r" "s' = s\<lparr>pool := e\<rparr>" "insertable (pool s) (table_first_page tb) ps bs"
    "inserted P (pool s) (table_first_page tb) ps bs r qs e" using c by (rule insert_changeE)
  have hp: "heap_pages (bpm_view (pool s)) (bpm_pages (pool s)) (table_first_page tb) ps" using 1(3) by (simp add: insertable_def)
  note I = inserted_pages(3,4) [OF 1(4) hp]
  have rows: "pool_rows (pool t) = (pool_rows (pool s))(r \<mapsto> bs)" using m 1(2) I by (simp add: store_meaning_def)
  then have "pool_rows (pool t) r = Some bs" by simp
  then have r: "rid_page r \<in> bpm_pages (pool t)" by (auto simp: pool_rows_def split: if_splits)
  have h: "held {} P (pool t)" "size P < pool_capacity (pool t)" "wf_page (bpm_view (pool t) (rid_page r))"
    using t r by (auto simp: store_ok_def pages_wf_def)
  obtain x z c where z: "heap_delete r (pool t) = (Inr x, c)" "page_changed P (pool t) (rid_page r) z c" "wf_page z"
    "sp_next z = sp_next (bpm_view (pool t) (rid_page r))"
    "tuple_at z = (tuple_at (bpm_view (pool t) (rid_page r)))(unat (rid_slot r) := None)"
    using heap_delete_ok [OF h(1) r h(2,3)] by blast
  note D = deleted_pages [OF z(2-5)]
  have "store_pool (heap_delete r) t = (Inr x, t\<lparr>pool := c\<rparr>)" using z(1) by (simp add: store_pool_def zoom_def)
  then have "undo u t = (Inr (), t\<lparr>pool := c\<rparr>)" by (simp add: 1(1) and_then_Inr [of "store_pool (heap_delete r)" t])
  moreover have "store_ok b P (t\<lparr>pool := c\<rparr>)"
    using t z(2) D(1,2) grown_trans by (auto simp: store_ok_def page_changed_def pool_shape_def)
  moreover have "pool_rows c = pool_rows (pool s)" using D(3) rows I(1) by (simp add: fun_eq_iff)
  then have "store_meaning (t\<lparr>pool := c\<rparr>) = store_meaning s" using m 1(2) by (simp add: store_meaning_def)
  ultimately show ?thesis by blast
qed

interpretation store_undo: undo_records undo "insert_change P" "store_ok b P" store_meaning for b P
  by unfold_locales (auto intro: insert_change_ok undo_insert_change)

end
