(* ===== verification/Heap_Restore.thy ===== *)
theory Heap_Restore
  imports Heap_Rows
begin

text \<open>
  Putting a deleted row back. \<open>restore_tuple\<close> leaves the page unmarked, so its work is safe only while
  the page is still in the pool and marked dirty by the change it undoes.
\<close>

section \<open>Pages that will be written back\<close>

definition dirty_at :: "bpm \<Rightarrow> page_id \<Rightarrow> bool" where
  "dirty_at b p \<longleftrightarrow> (\<exists>f. page_table b p = Some f \<and> unat f < length (frames b) \<and> pg_dirty (frames b ! unat f))"

lemma dirty_at_cong [simp]: "dirty_at (b\<lparr>replacer := r\<rparr>) p = dirty_at b p"
  by (simp add: dirty_at_def)

lemma change_frame_dirty: "(\<And>fr. pg_dirty fr \<Longrightarrow> pg_dirty (g fr)) \<Longrightarrow> keeps (\<lambda>b. dirty_at b p) (change_frame f g)"
  unfolding change_frame_def set_frame_def frame_at_def
  by (intro keepsI) (auto simp: and_then_def require_def dirty_at_def nth_list_update)

text \<open>Fetching a page that is cached evicts nothing; releasing a page never cleans it.\<close>

lemma cached_answer: "page_table b q = Some f \<Longrightarrow> snd (fetch_page q b) = snd (find_cached_page q b)"
proof -
  assume "page_table b q = Some f"
  then have "fst (find_cached_page q b) \<noteq> Inr None"
    by (auto simp: find_cached_page_def and_then_def split: prod.split sum.split)
  then show ?thesis by (auto simp: fetch_page_def and_then_def split: prod.split sum.split)
qed

lemma fetch_dirty: "q \<in> S \<Longrightarrow> keeps (\<lambda>b. \<forall>p\<in>S. dirty_at b p) (fetch_page q)"
proof (rule keepsI)
  fix b assume "q \<in> S" and b: "\<forall>p\<in>S. dirty_at b p"
  then have "dirty_at b q" by blast
  then obtain f where f: "page_table b q = Some f" by (auto simp: dirty_at_def)
  have "keeps (\<lambda>b. dirty_at b p) (on_replacer m)" for p m by (auto simp: keeps_def on_replacer_def zoom_def split: prod.split)
  then have "keeps (\<lambda>b. dirty_at b p) (find_cached_page q)" for p
    unfolding find_cached_page_def by (auto intro!: keeps_and_then change_frame_dirty split: option.split simp: inc_pin_def)
  then have "dirty_at (snd (find_cached_page q b)) p" if "p \<in> S" for p using b that by (simp add: keeps_def)
  then show "\<forall>p\<in>S. dirty_at (snd (fetch_page q b)) p" by (simp add: cached_answer [OF f])
qed

lemma keeps_ball: "(\<And>p. p \<in> S \<Longrightarrow> keeps (\<lambda>b. I b p) m) \<Longrightarrow> keeps (\<lambda>b. \<forall>p\<in>S. I b p) m"
  by (simp add: keeps_def)

lemma unpin_dirty: "keeps (\<lambda>b. dirty_at b p) (unpin u)"
proof -
  have "keeps (\<lambda>b. dirty_at b p) (unpin_page q m)" for q m
    unfolding unpin_page_def
    by (auto intro!: keeps_and_then change_frame_dirty split: option.split simp: dec_pin_def)
  moreover have "keeps (\<lambda>b. dirty_at b p) (frame_at f)" for f by (simp add: keeps_def frame_at_def and_then_def require_def)
  ultimately show ?thesis unfolding unpin_def by (auto split: option.split)
qed

lemma on_page_dirty: "keeps (\<lambda>b. dirty_at b p) (on_page u g)"
proof -
  have "keeps (\<lambda>b. dirty_at b p) (frame_at f)" for f by (simp add: keeps_def frame_at_def and_then_def require_def)
  then have "keeps (\<lambda>b. dirty_at b p) (pinned_data u)" unfolding pinned_data_def by (auto split: option.split)
  moreover have "keeps (\<lambda>b. dirty_at b p) (set_data u d)" for d
    unfolding set_data_def by (auto intro!: change_frame_dirty split: option.split)
  ultimately show ?thesis unfolding on_page_def by (auto intro!: keeps_and_then split: prod.split)
qed

lemma scope_dirty: "keeps (\<lambda>b. dirty_at b p) body \<Longrightarrow> keeps (\<lambda>b. dirty_at b p) (scope u body)"
proof (rule keepsI)
  fix b assume k: "keeps (\<lambda>b. dirty_at b p) body" and b: "dirty_at b p"
  obtain r c where r: "body b = (r, c)" by fastforce
  then have c: "dirty_at c p" using keepsD [OF k b] by blast
  have u: "dirty_at (snd (unpin v c)) p" for v using unpin_dirty c by (simp add: keeps_def)
  show "dirty_at (snd (scope u body b)) p"
  proof (cases r)
    case (Inl e)
    then show ?thesis using r u by (simp add: scope_def)
  next
    case (Inr x)
    then show ?thesis using r u [of "snd x"] by (cases x) (auto simp: scope_def and_then_def split: prod.split sum.split)
  qed
qed

lemma row_op_dirty:
  assumes "rid_page r \<in> S"
  shows "keeps (\<lambda>b. \<forall>p\<in>S. dirty_at b p) (heap_delete r)" "keeps (\<lambda>b. \<forall>p\<in>S. dirty_at b p) (heap_restore r t)"
  unfolding heap_delete_def heap_restore_def Let_def
  by (auto intro!: keeps_and_then fetch_dirty assms keeps_ball [OF scope_dirty] on_page_dirty split: option.split)

section \<open>A deleted row leaves its page marked\<close>

lemma heap_delete_dirty:
  assumes h: "held {} P b" and p: "rid_page r \<in> bpm_pages b" and P: "size P < pool_capacity b"
    and del: "heap_delete r b = (Inr True, e)"
  shows "dirty_at e (rid_page r)"
proof -
  let ?p = "rid_page r"
  from held_fetch [OF h p P] obtain f c where c: "fetch_page ?p b = (Inr (Some f), c)" "held {} (add_mset ?p P) c"
    "page_table c ?p = Some f" by blast
  note M = mappedD(2,5) [OF heldD(1) [OF c(2)] c(3)]
  let ?h = "make_pinned (Some f)"
  let ?body = "and_then (on_page ?h (\<lambda>d. sp_delete_tuple d (rid_slot r))) (\<lambda>deleted. ret (deleted, if deleted then mark_dirty ?h else ?h))"
  have s: "scope ?h ?body c = (Inr True, e)"
    using del by (simp add: heap_delete_def and_then_Inr [of "fetch_page ?p" b, OF c(1)] Let_def)
  obtain x d where d: "?body c = (Inr x, d)" using s by (cases "?body c"; cases "fst (?body c)") (auto simp: scope_def)
  have "and_then (unpin (snd x)) (\<lambda>_. ret (fst x)) d = (Inr True, e)" using s d by (cases x) (simp add: scope_def)
  then have x: "fst x" "unpin (snd x) d = (Inr (), e)" by (auto simp: and_then_eq_Inr)
  then have u: "snd x = mark_dirty ?h" "on_page ?h (\<lambda>d. sp_delete_tuple d (rid_slot r)) c = (Inr True, d)"
    using d by (auto simp: and_then_eq_Inr)
  then obtain z where "set_data ?h z c = (Inr (), d)"
    by (auto simp: on_page_def and_then_Inr [of "pinned_data _" c, OF held_data [OF c(2,3)]] and_then_eq_Inr)
  then have "d = c\<lparr>frames := (frames c)[unat f := (frames c ! unat f)\<lparr>pg_data := z\<rparr>]\<rparr>"
    using M(1) by (simp add: set_data_def change_frame_ok)
  then have D: "page_table d ?p = Some f" "unat f < length (frames d)" "pg_id (frames d ! unat f) = ?p" using M c(3) by simp_all
  from x(2) have "e = d\<lparr>frames := (frames d)[unat f := dec_pin ((frames d ! unat f)\<lparr>pg_dirty := True\<rparr>)]\<rparr>"
    using D by (simp add: u(1) unpin_def and_then_Inr [of "frame_at f" d] unpin_page_def change_frame_ok)
  then show ?thesis using D by (simp add: dirty_at_def dec_pin_def)
qed

section \<open>Restoring a row\<close>

text \<open>A page that is marked is tidy whatever its bytes are.\<close>

lemma held_dirty: "held (insert p X) P b \<Longrightarrow> dirty_at b p \<Longrightarrow> held X P b"
  by (fastforce simp: held_def tidy_def dirty_at_def)

lemma heap_restore_ok:
  assumes h: "held {} P b" and p: "rid_page r \<in> bpm_pages b" and P: "size P < pool_capacity b"
    and wf: "wf_page (bpm_view b (rid_page r))" and t: "restorable (bpm_view b (rid_page r)) (rid_slot r) t"
    and dirty: "dirty_at b (rid_page r)"
  shows "\<exists>z e. heap_restore r t b = (Inr (), e) \<and> page_changed P b (rid_page r) z e \<and> wf_page z \<and>
    sp_next z = sp_next (bpm_view b (rid_page r)) \<and>
    tuple_at z = (tuple_at (bpm_view b (rid_page r)))(unat (rid_slot r) := Some t) \<and>
    page_slots z = page_slots (bpm_view b (rid_page r))"
proof -
  let ?p = "rid_page r"
  let ?body = "\<lambda>h. and_then (on_page h (\<lambda>d. bind_res (sp_restore_tuple d (rid_slot r) t) (\<lambda>d. Inr ((), d)))) (\<lambda>_. ret ((), h))"
  obtain z where z: "sp_restore_tuple (bpm_view b ?p) (rid_slot r) t = Inr z" "wf_page z" "sp_next z = sp_next (bpm_view b ?p)"
    "tuple_at z = (tuple_at (bpm_view b ?p))(unat (rid_slot r) := Some t)" "page_slots z = page_slots (bpm_view b ?p)"
    using restore_as_map [OF wf t] by blast
  have len: "length z = kPAGE_SIZE" using wf_pageD(1) [OF z(2)] .
  have block: "\<exists>x z'. (x = () \<and> z' = z) \<and> block_done P c ?p f z' x (?body (make_pinned (Some f)) c)"
    if c: "fetch_page ?p b = (Inr (Some f), c)" "held {} (add_mset ?p P) c" "page_table c ?p = Some f" "bpm_view c = bpm_view b" for f c
  proof -
    obtain d where d: "on_page (make_pinned (Some f)) (\<lambda>d. bind_res (sp_restore_tuple d (rid_slot r) t) (\<lambda>d. Inr ((), d))) c = (Inr (), d)"
      "held (insert ?p {}) (add_mset ?p P) d" "bpm_view d = (bpm_view c)(?p := z)" "same_pool c d"
      using held_change [OF c(2,3), of "make_pinned (Some f)" "\<lambda>d. bind_res (sp_restore_tuple d (rid_slot r) t) (\<lambda>d. Inr ((), d))" "()" z]
        z(1) c(4) len by (auto simp: bind_res_def)
    have "dirty_at c ?p" using keepsD [OF fetch_dirty [of ?p "{?p}"] _ c(1)] dirty by simp
    then have "dirty_at d ?p" using keepsD [OF on_page_dirty _ d(1)] by simp
    then have "held {} (add_mset ?p P) d" by (rule held_dirty [OF d(2)])
    then show ?thesis using d by (auto simp: block_done_def and_then_Inr [of "on_page _ _" c, OF d(1)])
  qed
  from fetch_scope_run [OF h p P, of "\<lambda>x z'. x = () \<and> z' = z" ?body, OF block] obtain f c x z' e where "x = () \<and> z' = z" and
    e: "fetch_page ?p b = (Inr (Some f), c)" "scope (make_pinned (Some f)) (?body (make_pinned (Some f))) c = (Inr x, e)"
       "page_changed P b ?p z' e" by blast
  then have "heap_restore r t b = (Inr (), e)" "page_changed P b ?p z e"
    by (simp_all add: heap_restore_def and_then_Inr [of "fetch_page ?p" b, OF e(1)] Let_def)
  then show ?thesis using z(2-5) by blast
qed

text \<open>
  Otherwise the restored row is lost: on a page that is cached and clean, \<open>restore_tuple\<close> leaves the
  frame clean and the disk as it was, whatever row it has put into the frame.
\<close>

definition clean_at :: "disk \<Rightarrow> (page_id \<Rightarrow> frame_id option) \<Rightarrow> frame_id \<Rightarrow> bpm \<Rightarrow> bool" where
  "clean_at d m f b \<longleftrightarrow> bdisk b = d \<and> page_table b = m \<and> \<not> pg_dirty (frames b ! unat f)"

lemma change_frame_clean: "(\<And>fr. pg_dirty (g fr) \<Longrightarrow> pg_dirty fr) \<Longrightarrow> keeps (clean_at d m f) (change_frame k g)"
  unfolding change_frame_def set_frame_def frame_at_def
  by (intro keepsI) (auto simp: and_then_def require_def clean_at_def nth_list_update split: if_splits)

lemma unpin_clean: "\<not> pin_dirty u \<Longrightarrow> keeps (clean_at d m f) (unpin u)"
proof -
  assume "\<not> pin_dirty u"
  then have "keeps (clean_at d m f) (unpin_page q (pin_dirty u))" for q
    unfolding unpin_page_def by (auto intro!: keeps_and_then change_frame_clean split: option.split simp: dec_pin_def)
  moreover have "keeps (clean_at d m f) (frame_at k)" for k by (simp add: keeps_def frame_at_def and_then_def require_def)
  ultimately show ?thesis unfolding unpin_def by (auto split: option.split)
qed

lemma on_page_clean: "keeps (clean_at d m f) (on_page u g)"
proof -
  have "keeps (clean_at d m f) (frame_at k)" for k by (simp add: keeps_def frame_at_def and_then_def require_def)
  then have "keeps (clean_at d m f) (pinned_data u)" unfolding pinned_data_def by (auto split: option.split)
  moreover have "keeps (clean_at d m f) (set_data u x)" for x
    unfolding set_data_def by (auto intro!: change_frame_clean split: option.split)
  ultimately show ?thesis unfolding on_page_def by (auto intro!: keeps_and_then split: prod.split)
qed

lemma fetch_clean: "m q \<noteq> None \<Longrightarrow> keeps (clean_at d m f) (fetch_page q)"
proof (rule keepsI)
  fix b assume "m q \<noteq> None" and b: "clean_at d m f b"
  then obtain k where k: "page_table b q = Some k" by (auto simp: clean_at_def)
  have "keeps (clean_at d m f) (on_replacer x)" for x by (auto simp: keeps_def on_replacer_def zoom_def clean_at_def split: prod.split)
  then have "keeps (clean_at d m f) (find_cached_page q)"
    unfolding find_cached_page_def by (auto intro!: keeps_and_then change_frame_clean split: option.split simp: inc_pin_def)
  then have c: "clean_at d m f (snd (find_cached_page q b))" using b by (simp add: keeps_def)
  then show "clean_at d m f (snd (fetch_page q b))" by (simp add: cached_answer [OF k])
qed

lemma heap_restore_unmarked:
  assumes "m (rid_page r) \<noteq> None"
  shows "keeps (clean_at d m f) (heap_restore r t)"
proof -
  let ?g = "\<lambda>x. bind_res (sp_restore_tuple x (rid_slot r) t) (\<lambda>x. Inr ((), x))"
  have "keeps (clean_at d m f) (scope h (and_then (on_page h ?g) (\<lambda>_. ret ((), h))))" if "\<not> pin_dirty h" for h
  proof (rule keepsI)
    fix b assume "clean_at d m f b"
    then have "clean_at d m f (snd (on_page h ?g b))" using on_page_clean [of d m f h ?g] by (simp only: keeps_def)
    then have "clean_at d m f (snd (unpin h (snd (on_page h ?g b))))" using unpin_clean [OF that] by (simp add: keeps_def)
    then show "clean_at d m f (snd (scope h (and_then (on_page h ?g) (\<lambda>_. ret ((), h))) b))"
      by (auto simp: scope_def and_then_def split: prod.split sum.split)
  qed
  then show ?thesis
    unfolding heap_restore_def Let_def by (intro keeps_and_then fetch_clean assms) (auto split: option.split simp: make_pinned_def)
qed

end
