(* ===== verification/Table_Properties.thy ===== *)
theory Table_Properties
  imports Table_Rows Heap_Restore Transaction_Properties Catalog_Properties Query_Properties
begin

text \<open>
  What tables promise: an insert adds one row to its table and no other, a rollback takes the inserts of
  its transaction back, whatever tables they went to.
\<close>

section \<open>Inserting under a transaction\<close>

abbreviation undo_log_of :: "transaction_id \<Rightarrow> world \<Rightarrow> undo_record list option" where
  "undo_log_of t w \<equiv> map_option undo_log (txs (locks w) t)"

abbreviation has_lock :: "world \<Rightarrow> transaction_id \<Rightarrow> lock_mode \<Rightarrow> rid \<Rightarrow> bool" where
  "has_lock w \<equiv> Lock_Safety.holds (locks w)"

lemma await_log: "await t r m a = (b, s) \<Longrightarrow> map_option undo_log (txs s u) = map_option undo_log (txs (snd a) u)"
  by (auto simp: await_def grant_def time_out_def set_tx_def set_queue_def add_lock_def
      split: option.splits if_splits prod.splits lock_mode.splits)

lemma lock_exclusive_log:
  assumes "lock_exclusive t r s = (b, s')"
  shows "map_option undo_log (txs s' u) = map_option undo_log (txs s u)"
proof -
  have "map_option undo_log (txs (snd (request_exclusive t r s)) u) = map_option undo_log (txs s u)"
    by (auto simp: request_exclusive_def enqueue_def set_tx_def set_queue_def Let_def split: option.splits)
  then show ?thesis using await_log [OF assms [unfolded lock_exclusive_def], of u] by simp
qed

lemma tx_lock_exclusive_run:
  "\<exists>ok l. tx_lock lock_exclusive tx r w = (Inr ok, w\<lparr>locks := l\<rparr>) \<and> (\<forall>t. undo_log_of t (w\<lparr>locks := l\<rparr>) = undo_log_of t w) \<and>
    (\<not> ok \<longrightarrow> (\<exists>t. tx = Some t \<and> \<not> fst (lock_exclusive t r (locks w)))) \<and>
    (\<forall>t. tx = Some t \<longrightarrow> ok = fst (lock_exclusive t r (locks w)) \<and> l = snd (lock_exclusive t r (locks w)))"
proof (cases tx)
  case None
  then show ?thesis by (intro exI [of _ True] exI [of _ "locks w"]) simp
next
  case (Some t)
  obtain ok l where "lock_exclusive t r (locks w) = (ok, l)" by fastforce
  then show ?thesis using Some lock_exclusive_log by (intro exI [of _ ok] exI [of _ l]) (auto simp: tx_lock_def)
qed

lemma tx_push_run:
  "\<exists>w'. tx_push tx u w = (Inr (), w') \<and> tx_data w' = tx_data w \<and> has_lock w' = has_lock w \<and>
    (\<forall>t. undo_log_of t w' = (if tx = Some t then map_option (\<lambda>us. us @ [u]) (undo_log_of t w) else undo_log_of t w))"
  by (cases tx)
    (auto simp: tx_push_def push_undo_def set_tx_def modify_def ret_def Lock_Safety.holds_def fun_eq_iff split: option.split lock_mode.split)

text \<open>
  What an insert leaves: the new row, or nothing new when its lock was refused. Then the heap may still
  have grown by the page that was linked for the row.
\<close>

definition after_insert :: "page_id multiset \<Rightarrow> table \<Rightarrow> page_id list \<Rightarrow> byte list \<Rightarrow> transaction_id option \<Rightarrow> world \<Rightarrow> rid option \<Rightarrow> world \<Rightarrow> bool" where
  "after_insert P tb ps bs tx w m w' \<longleftrightarrow> (case m of
       None \<Rightarrow> (\<exists>t r. tx = Some t \<and> \<not> fst (lock_exclusive t r (locks w))) \<and> held {} P (wpool w') \<and> grown (wpool w) (wpool w') \<and>
         pool_rows (wpool w') = pool_rows (wpool w) \<and> pool_capacity (wpool w') = pool_capacity (wpool w) \<and>
         (\<forall>t. undo_log_of t w' = undo_log_of t w) \<and>
         (\<exists>qs. heap_pages (bpm_view (wpool w')) (bpm_pages (wpool w')) (table_first_page tb) qs \<and> set ps \<subseteq> set qs \<and>
           set qs \<subseteq> set ps \<union> - bpm_pages (wpool w) \<and> (\<forall>q. q \<notin> set qs \<longrightarrow> bpm_view (wpool w') q = bpm_view (wpool w) q))
     | Some r \<Rightarrow> (\<exists>qs. inserted P (wpool w) (table_first_page tb) ps bs r qs (wpool w')) \<and>
         (\<forall>t. tx = Some t \<longrightarrow> fst (lock_exclusive t r (locks w)) \<and> has_lock w' = Lock_Safety.holds (snd (lock_exclusive t r (locks w)))) \<and>
         (\<forall>t. undo_log_of t w' = (if tx = Some t then map_option (\<lambda>us. us @ [DeleteUndoRecord tb r]) (undo_log_of t w) else undo_log_of t w))) \<and>
     (pages_wf (wpool w) \<longrightarrow> pages_wf (wpool w')) \<and>
     tables (tx_data w') = tables (tx_data w) \<and> catalog_table (tx_data w') = catalog_table (tx_data w)"

lemma table_insert_run:
  assumes st: "list_all2 storable (table_schema tb) vs" and i: "insertable (wpool w) (table_first_page tb) ps (row_bytes (table_schema tb) vs)"
    and h: "held {} P (wpool w)" and P: "size P + 1 < pool_capacity (wpool w)"
  shows "\<exists>m w'. table_insert tb \<lparr>tvalues = vs, tschema = table_schema tb\<rparr> tx w = (Inr m, w') \<and>
    after_insert P tb ps (row_bytes (table_schema tb) vs) tx w m w'"
proof -
  let ?bs = "row_bytes (table_schema tb) vs" and ?t = "\<lparr>tvalues = vs, tschema = table_schema tb\<rparr>"
  have hp: "heap_pages (bpm_view (wpool w)) (bpm_pages (wpool w)) (table_first_page tb) ps" using i by (simp add: insertable_def)
  obtain r qs e where e: "heap_insert (table_first_page tb) ?bs (wpool w) = (Inr (Some r), e)"
    "inserted P (wpool w) (table_first_page tb) ps ?bs r qs e" using insertable_insert [OF i h P] by blast
  note I = inserted_pages [OF e(2) hp]
  have op: "on_pool (heap_insert (table_first_page tb) ?bs) w = (Inr (Some r), put_pool e w)" by (rule on_pool_run) (rule e(1))
  obtain ok l where l: "tx_lock lock_exclusive tx r (put_pool e w) = (Inr ok, (put_pool e w)\<lparr>locks := l\<rparr>)"
    "\<forall>t. undo_log_of t ((put_pool e w)\<lparr>locks := l\<rparr>) = undo_log_of t (put_pool e w)" "\<not> ok \<longrightarrow> (\<exists>t. tx = Some t \<and> \<not> fst (lock_exclusive t r (locks w)))"
    "\<forall>t. tx = Some t \<longrightarrow> ok = fst (lock_exclusive t r (locks w)) \<and> l = snd (lock_exclusive t r (locks w))"
    using tx_lock_exclusive_run [of tx r "put_pool e w"] by auto
  let ?w = "(put_pool e w)\<lparr>locks := l\<rparr>"
  have run: "table_insert tb ?t tx w = (if ok then and_then (tx_push tx (DeleteUndoRecord tb r)) (\<lambda>_. ret (Some r)) ?w
      else and_then (on_pool (heap_delete r)) (\<lambda>_. ret None) ?w)"
    by (simp add: table_insert_def tuple_serialize_storable [OF st] compatible_with_def and_then_Inr [of "on_pool _" w, OF op]
        and_then_Inr [of "tx_lock lock_exclusive tx r" "put_pool e w", OF l(1)])
  show ?thesis
  proof (cases ok)
    case True
    obtain w' where w': "tx_push tx (DeleteUndoRecord tb r) ?w = (Inr (), w')" "tx_data w' = tx_data ?w"
      "\<forall>t. undo_log_of t w' = (if tx = Some t then map_option (\<lambda>us. us @ [DeleteUndoRecord tb r]) (undo_log_of t ?w) else undo_log_of t ?w)"
      "has_lock w' = has_lock ?w"
      using tx_push_run [of tx "DeleteUndoRecord tb r" ?w] by blast
    have "\<forall>t. tx = Some t \<longrightarrow> fst (lock_exclusive t r (locks w)) \<and> has_lock w' = Lock_Safety.holds (snd (lock_exclusive t r (locks w)))"
      using w'(4) l(4) True by auto
    then show ?thesis
      using run l(2) e(2) True w'(2,3) I(2)
      by (intro exI [of _ "Some r"] exI [of _ w'])
        (auto simp: after_insert_def and_then_Inr [of "tx_push _ _" ?w, OF w'(1)])
  next
    case False
    have rq: "rid_page r \<in> set qs" by (rule inserted_in_heap [OF e(2)])
    have E: "held {} P e" "size P < pool_capacity e" "heap_pages (bpm_view e) (bpm_pages e) (table_first_page tb) qs"
      "set ps \<subseteq> set qs" "set qs \<subseteq> set ps \<union> - bpm_pages (wpool w)" "\<forall>q. q \<notin> set qs \<longrightarrow> bpm_view e q = bpm_view (wpool w) q"
      using e(2) P by (auto simp: inserted_def)
    have r: "rid_page r \<in> bpm_pages e" "wf_page (bpm_view e (rid_page r))" using E(3) rq chain_in by (auto simp: heap_pages_def)
    obtain x z c where z: "heap_delete r e = (Inr x, c)" "page_changed P e (rid_page r) z c" "wf_page z"
      "sp_next z = sp_next (bpm_view e (rid_page r))" "tuple_at z = (tuple_at (bpm_view e (rid_page r)))(unat (rid_slot r) := None)"
      using heap_delete_ok [OF E(1) r(1) E(2) r(2)] by blast
    note D = deleted_pages [OF z(2-5)]
    have c: "heap_pages (bpm_view c) (bpm_pages c) (table_first_page tb) qs" "\<forall>q. q \<notin> set qs \<longrightarrow> bpm_view c q = bpm_view (wpool w) q"
      using z(2) E(6) rq row_changed_heap [OF z(2-4) E(3)] by (auto simp: page_changed_def)
    have "on_pool (heap_delete r) ?w = (Inr x, put_pool c ?w)" by (rule on_pool_run) (simp add: z(1))
    then have "table_insert tb ?t tx w = (Inr None, put_pool c ?w)" using run False by (simp add: and_then_Inr [of "on_pool (heap_delete r)" ?w])
    moreover have "pool_rows c = pool_rows (wpool w)" using D(3) I(3,4) by (simp add: fun_eq_iff)
    moreover have "pool_capacity c = pool_capacity (wpool w)" "held {} P c" using z(2) e(2) by (auto simp: page_changed_def pool_shape_def inserted_def)
    ultimately show ?thesis
      using False l(2,3) grown_trans [OF I(1) D(1)] D(2) I(2) c E(4,5)
      by (intro exI [of _ None] exI [of _ "put_pool c ?w"]) (auto simp: after_insert_def)
  qed
qed

section \<open>Reading and deleting a row\<close>

lemma page_row: "rid_page r \<in> bpm_pages b \<Longrightarrow> tuple_at (bpm_view b (rid_page r)) (unat (rid_slot r)) = pool_rows b r"
  by (simp add: pool_rows_def)

lemma table_get_run:
  assumes h: "held {} P (wpool w)" and P: "size P < pool_capacity (wpool w)" and wf: "pages_wf (wpool w)"
    and r: "rid_page r \<in> bpm_pages (wpool w)" and get: "table_get tb r None w = (Inr (Some t), v)"
  shows "\<exists>bs. pool_rows (wpool w) r = Some bs \<and> bs \<noteq> [] \<and> tuple_deserialize bs (table_schema tb) = Inr t"
proof -
  have wfp: "wf_page (bpm_view (wpool w) (rid_page r))" using wf r by (simp add: pages_wf_def)
  let ?m = "case pool_rows (wpool w) r of None \<Rightarrow> None | Some t \<Rightarrow> if t = [] then None else Some t"
  obtain c where c: "heap_get r (wpool w) = (Inr ?m, c)" using heap_get_ok [OF h r P wfp] unfolding page_row [OF r] by blast
  have "on_pool (heap_get r) w = (Inr ?m, put_pool c w)" by (rule on_pool_run) (rule c)
  with get show ?thesis
    by (auto simp: table_get_def and_then_Inr [of "tx_lock lock_shared None r" w] and_then_Inr [of "on_pool (heap_get r)" w]
        and_then_eq_Inr split: option.splits if_splits)
qed

text \<open>A row that is there is deleted, unless its lock is refused: then nothing is done.\<close>

lemma table_delete_run:
  assumes h: "held {} P (wpool w)" and P: "size P < pool_capacity (wpool w)" and wf: "pages_wf (wpool w)"
    and row: "pool_rows (wpool w) r = Some bs" "bs \<noteq> []"
  shows "\<exists>deleted w'. table_delete tb r tx w = (Inr deleted, w') \<and> (\<not> deleted \<longrightarrow> (\<exists>t. tx = Some t \<and> \<not> fst (lock_exclusive t r (locks w)))) \<and>
    (if deleted then held {} P (wpool w') \<and> grown (wpool w) (wpool w') \<and> pages_wf (wpool w') \<and> bpm_pages (wpool w') = bpm_pages (wpool w) \<and>
       pool_rows (wpool w') = (pool_rows (wpool w))(r := None) \<and> pool_shape (wpool w') = pool_shape (wpool w) \<and>
       tables (tx_data w') = tables (tx_data w) \<and> catalog_table (tx_data w') = catalog_table (tx_data w) \<and>
       (\<forall>p. page_slots (bpm_view (wpool w') p) = page_slots (bpm_view (wpool w) p)) \<and> dirty_at (wpool w') (rid_page r) \<and>
       (\<forall>t. tx = Some t \<longrightarrow> fst (lock_exclusive t r (locks w)) \<and> has_lock w' = Lock_Safety.holds (snd (lock_exclusive t r (locks w)))) \<and>
       (\<forall>t. undo_log_of t w' = (if tx = Some t then map_option (\<lambda>us. us @ [RestoreUndoRecord tb r bs]) (undo_log_of t w) else undo_log_of t w))
     else tx_data w' = tx_data w \<and> (\<forall>t. undo_log_of t w' = undo_log_of t w))"
proof -
  let ?b = "wpool w"
  have r: "rid_page r \<in> bpm_pages ?b" using row(1) by (auto simp: pool_rows_def split: if_splits)
  obtain ok l where l: "tx_lock lock_exclusive tx r w = (Inr ok, w\<lparr>locks := l\<rparr>)" "\<not> ok \<longrightarrow> (\<exists>t. tx = Some t \<and> \<not> fst (lock_exclusive t r (locks w)))"
    "\<forall>t. undo_log_of t (w\<lparr>locks := l\<rparr>) = undo_log_of t w"
    "\<forall>t. tx = Some t \<longrightarrow> ok = fst (lock_exclusive t r (locks w)) \<and> l = snd (lock_exclusive t r (locks w))"
    using tx_lock_exclusive_run [of tx r w] by blast
  let ?w = "w\<lparr>locks := l\<rparr>"
  have wfp: "wf_page (bpm_view ?b (rid_page r))" using wf r by (simp add: pages_wf_def)
  obtain d where "heap_get r ?b = (Inr (case pool_rows ?b r of None \<Rightarrow> None | Some t \<Rightarrow> if t = [] then None else Some t), d)"
    and g: "page_changed P ?b (rid_page r) (bpm_view ?b (rid_page r)) d" using heap_get_ok [OF h r P wfp] unfolding page_row [OF r] by blast
  then have hg: "heap_get r ?b = (Inr (Some bs), d)" using row by simp
  have d: "held {} P d" "bpm_view d = bpm_view ?b" "bpm_pages d = bpm_pages ?b" "pool_shape d = pool_shape ?b" "pool_capacity d = pool_capacity ?b"
    using g by (simp_all add: page_changed_def pool_shape_def)
  have lv: "live (bpm_view ?b (rid_page r)) (unat (rid_slot r))" using row(1) r by (auto simp: pool_rows_def tuple_at_def split: if_splits)
  obtain z k where z: "heap_delete r d = (Inr True, k)" "page_changed P d (rid_page r) z k" "wf_page z"
    "sp_next z = sp_next (bpm_view d (rid_page r))" "tuple_at z = (tuple_at (bpm_view d (rid_page r)))(unat (rid_slot r) := None)"
    "page_slots z = page_slots (bpm_view d (rid_page r))"
    using heap_delete_ok [OF d(1), of r] r wfp P d lv by auto
  have k: "dirty_at k (rid_page r)" using heap_delete_dirty [OF d(1) _ _ z(1)] r P d(3,5) by simp
  note D = deleted_pages [OF z(2-5)]
  have og: "on_pool (heap_get r) ?w = (Inr (Some bs), put_pool d ?w)" by (rule on_pool_run) (simp add: hg)
  have od: "on_pool (heap_delete r) (put_pool d ?w) = (Inr True, put_pool k ?w)"
    using on_pool_run [of "heap_delete r" "put_pool d ?w"] z(1) by simp
  obtain w' where w': "tx_push tx (RestoreUndoRecord tb r bs) (put_pool k ?w) = (Inr (), w')" "tx_data w' = tx_data (put_pool k ?w)"
    "has_lock w' = has_lock ?w"
    "\<forall>t. undo_log_of t w' = (if tx = Some t then map_option (\<lambda>us. us @ [RestoreUndoRecord tb r bs]) (undo_log_of t (put_pool k ?w)) else undo_log_of t (put_pool k ?w))"
    using tx_push_run [of tx "RestoreUndoRecord tb r bs" "put_pool k ?w"] by auto
  have run: "table_delete tb r tx w = (if ok then (Inr True, w') else (Inr False, ?w))"
    by (simp add: table_delete_def and_then_Inr [of "tx_lock lock_exclusive tx r" w, OF l(1)] and_then_Inr [of "on_pool (heap_get r)" ?w, OF og]
        and_then_Inr [of "on_pool (heap_delete r)" "put_pool d ?w", OF od] and_then_Inr [of "tx_push _ _" "put_pool k ?w", OF w'(1)] del: put_pool_simps)
  have g0: "grown ?b d" "pages_wf d" "pool_rows d = pool_rows ?b"
    using grown_same [OF d(2,3)] pool_rows_cong [OF d(2,3)] wf d(2,3) by (simp_all add: pages_wf_def)
  show ?thesis
  proof (cases ok)
    case False
    then show ?thesis using run l(2,3) by (intro exI [of _ False] exI [of _ ?w]) simp
  next
    case True
    have "held {} P k" "bpm_pages k = bpm_pages ?b" "pool_shape k = pool_shape ?b" using z(2) d(3,4) by (simp_all add: page_changed_def)
    moreover have "grown ?b k" "pages_wf k" "pool_rows k = (pool_rows ?b)(r := None)"
      using grown_trans [OF g0(1) D(1)] D(2) [OF g0(2)] D(3) g0(3) by simp_all
    moreover have "wpool w' = k" "tables (tx_data w') = tables (tx_data w)" "catalog_table (tx_data w') = catalog_table (tx_data w)"
      using w'(2) by simp_all
    moreover have "\<forall>p. page_slots (bpm_view k p) = page_slots (bpm_view ?b p)" using z(2,6) d(2) by (simp add: page_changed_def)
    moreover have "\<forall>t. undo_log_of t w' = (if tx = Some t then map_option (\<lambda>us. us @ [RestoreUndoRecord tb r bs]) (undo_log_of t w) else undo_log_of t w)"
      using w'(4) l(3) by simp
    moreover have "\<forall>t. tx = Some t \<longrightarrow> fst (lock_exclusive t r (locks w)) \<and> has_lock w' = Lock_Safety.holds (snd (lock_exclusive t r (locks w)))"
      using w'(3) l(4) True by auto
    ultimately show ?thesis using True run k by (intro exI [of _ True] exI [of _ w']) simp
  qed
qed

section \<open>One row more\<close>

lemma table_rows_untouched:
  assumes t: "table_rows b tb rows" and p: "heap_pages (bpm_view b) (bpm_pages b) (table_first_page tb) ps"
    and v: "\<forall>q\<in>set ps. bpm_view e q = bpm_view b q" and U: "set ps \<subseteq> bpm_pages e"
  shows "table_rows e tb rows"
proof -
  obtain ps' where "heap_pages (bpm_view b) (bpm_pages b) (table_first_page tb) ps'"
    and d: "list_all2 (decodes_to (table_schema tb)) (rows_from (bpm_view b) ps' 0) rows" using t by (auto simp: table_rows_def)
  then have "ps' = ps" using p chain_unique by (auto simp: heap_pages_def)
  have vq: "bpm_view b q = bpm_view e q" if "q \<in> set ps" for q using v that by simp
  have "heap_pages (bpm_view e) (bpm_pages e) (table_first_page tb) ps" by (rule heap_pages_moved [OF p]) (use v U in auto)
  then show ?thesis using d rows_from_cong [OF vq] unfolding \<open>ps' = ps\<close> by (auto simp: table_rows_def)
qed

lemma inserted_elsewhere:
  assumes "inserted P b p ps t r qs e"
  shows "bpm_pages b \<subseteq> bpm_pages e" "q \<in> bpm_pages b \<Longrightarrow> q \<notin> set ps \<Longrightarrow> bpm_view e q = bpm_view b q"
proof -
  have "set qs \<subseteq> set ps \<union> - bpm_pages b" and v: "\<forall>q. q \<notin> set qs \<longrightarrow> bpm_view e q = bpm_view b q"
    using assms by (auto simp: inserted_def)
  then show "q \<in> bpm_pages b \<Longrightarrow> q \<notin> set ps \<Longrightarrow> bpm_view e q = bpm_view b q" by blast
  show "bpm_pages b \<subseteq> bpm_pages e" using assms by (auto simp: inserted_def)
qed

lemma inserted_table_rows:
  assumes i: "inserted P b (table_first_page tb) ps bs r qs e" and hp: "heap_pages (bpm_view b) (bpm_pages b) (table_first_page tb) ps"
    and d: "tuple_deserialize bs (table_schema tb) = Inr \<lparr>tvalues = vs, tschema = table_schema tb\<rparr>" and t: "table_rows b tb rows"
  shows "\<exists>rows'. table_rows e tb rows' \<and> mset rows' = add_mset vs (mset rows)"
proof -
  let ?s = "table_schema tb" and ?old = "rows_from (bpm_view b) ps 0" and ?new = "rows_from (bpm_view e) qs 0"
  have he: "heap_pages (bpm_view e) (bpm_pages e) (table_first_page tb) qs" and r: "heap_row (bpm_view b) ps r = None"
    "heap_row (bpm_view e) qs = (heap_row (bpm_view b) ps)(r \<mapsto> bs)" using i by (simp_all add: inserted_def)
  note m = rows_from_add [OF hp he r]
  have rows: "\<forall>x\<in>set ?old. \<exists>z. tuple_deserialize (snd x) ?s = Inr z" "rows = map (decoded ?s) ?old"
    using t unfolding table_rows_iff [OF hp] decodes_iff by auto
  have "set ?new = insert (r, bs) (set ?old)" using arg_cong [OF m, of set_mset] by simp
  then have "table_rows e tb (map (decoded ?s) ?new)" unfolding table_rows_iff [OF he] decodes_iff using rows(1) d by auto
  moreover have "mset (map (decoded ?s) ?new) = add_mset vs (mset rows)" using m d by (simp add: rows(2) decoded_def)
  ultimately show ?thesis by blast
qed


text \<open>A table on the only page of a new database.\<close>

definition first_table :: table where
  "first_table = \<lparr>table_name = ''t'', table_first_page = kCATALOG_FIRST_PAGE_ID, table_schema = sample_schema\<rparr>"

lemma first_table_ok:
  "heap_pages (bpm_view (wpool new_world)) (bpm_pages (wpool new_world)) (table_first_page first_table) [kCATALOG_FIRST_PAGE_ID]"
  "table_rows (wpool new_world) first_table []" "pages_wf (wpool new_world)"
  "insertable (wpool new_world) (table_first_page first_table) [kCATALOG_FIRST_PAGE_ID] (row_bytes (table_schema first_table) sample_row)"
proof -
  let ?b = "wpool new_world"
  have hp: "heap_pages (bpm_view ?b) (bpm_pages ?b) kCATALOG_FIRST_PAGE_ID [kCATALOG_FIRST_PAGE_ID]"
    and none: "heap_row (bpm_view ?b) [kCATALOG_FIRST_PAGE_ID] = Map.empty"
    using new_world_ok(4-6) by (simp_all add: catalog_holds_def catalog_object_def catalog_rows_def)
  then show "heap_pages (bpm_view ?b) (bpm_pages ?b) (table_first_page first_table) [kCATALOG_FIRST_PAGE_ID]"
    by (simp add: first_table_def)
  have wf: "wf_page (bpm_view ?b kCATALOG_FIRST_PAGE_ID)" using hp by (simp add: heap_pages_def)
  then have "(r, t) \<notin> set (rows_from (bpm_view ?b) [kCATALOG_FIRST_PAGE_ID] 0)" for r t
    using rows_in [of "[kCATALOG_FIRST_PAGE_ID]" "bpm_view ?b"] none by simp
  then have "rows_from (bpm_view ?b) [kCATALOG_FIRST_PAGE_ID] 0 = []"
    by (cases "rows_from (bpm_view ?b) [kCATALOG_FIRST_PAGE_ID] 0") fastforce+
  then show "table_rows ?b first_table []"
    using hp unfolding table_rows_def by (intro exI [of _ "[kCATALOG_FIRST_PAGE_ID]"]) (simp add: first_table_def)
  show "pages_wf ?b" using wf new_world_ok(9) by (simp add: pages_wf_def)
  show "insertable ?b (table_first_page first_table) [kCATALOG_FIRST_PAGE_ID] (row_bytes (table_schema first_table) sample_row)"
    using hp sample_row_ok(2) new_world_ok(8) by (simp add: insertable_def disk_room_budget first_table_def)
qed


section \<open>A table per name\<close>

lemma write_entry_run:
  assumes hm: "heap_made P w ps tb c" and P: "size P + 1 < pool_capacity (wpool w)" and new: "find_table (table_name tb) (tx_data w) = None"
  obtains (Written) r w' qs where "write_entry (catalog_table (tx_data w)) tb tx (put_pool c w) = (Inr tb, w')"
      "tables (tx_data w') = tables (tx_data w) @ [(table_name tb, \<lparr>entry_rid = r, entry_table = tb\<rparr>)]"
      "catalog_table (tx_data w') = catalog_table (tx_data w)"
      "inserted P c (table_first_page (catalog_table (tx_data w))) ps (entry_bytes tb) r qs (wpool w')"
      "\<forall>t. undo_log_of t w' = (if tx = Some t
         then map_option (\<lambda>us. us @ [DeleteUndoRecord (catalog_table (tx_data w)) r, DropTableUndoRecord (table_name tb)]) (undo_log_of t w)
         else undo_log_of t w)"
  | (Refused) w' where "write_entry (catalog_table (tx_data w)) tb tx (put_pool c w) =
        (Inl (Runtime_error ''Catalog::CreateTable: failed to write catalog entry''), w')"
      "after_insert P (catalog_table (tx_data w)) ps (entry_bytes tb) tx (put_pool c w) None w'"
proof -
  let ?ct = "catalog_table (tx_data w)" and ?w = "put_pool c w"
  note c = heap_madeD [OF hm]
  have hp: "heap_pages (bpm_view c) (bpm_pages c) (table_first_page ?ct) ps" and sch: "table_schema ?ct = catalog_schema"
    using c(8) by (simp_all add: catalog_holds_def)
  have bytes: "entry_bytes tb = row_bytes (table_schema ?ct) (entry_row tb)" by (simp add: entry_bytes_def sch)
  have i: "insertable (wpool ?w) (table_first_page ?ct) ps (row_bytes (table_schema ?ct) (entry_row tb))"
    using hp c(9-11) by (simp add: insertable_def bytes)
  obtain m v where m: "table_insert ?ct \<lparr>tvalues = entry_row tb, tschema = catalog_schema\<rparr> tx ?w = (Inr m, v)"
    "after_insert P ?ct ps (entry_bytes tb) tx ?w m v"
    using table_insert_run [of ?ct "entry_row tb" ?w ps P tx] entry_row_storable [OF c(12)] i c(1,2) P unfolding bytes by (auto simp: sch)
  show thesis
  proof (cases m)
    case None
    then have "write_entry ?ct tb tx ?w = (Inl (Runtime_error ''Catalog::CreateTable: failed to write catalog entry''), v)"
      using m(1) by (simp add: write_entry_def and_then_Inr [of "table_insert _ _ _" ?w] throw_def)
    then show thesis using m(2) None by (intro Refused) simp_all
  next
    case (Some r)
    let ?e = "\<lparr>entry_rid = r, entry_table = tb\<rparr>"
    let ?v = "put_tables (AList.update (table_name tb) ?e (tables (tx_data v))) v"
    have a: "tables (tx_data v) = tables (tx_data w)" "catalog_table (tx_data v) = ?ct"
      "\<exists>qs. inserted P c (table_first_page ?ct) ps (entry_bytes tb) r qs (wpool v)"
      "\<forall>t. undo_log_of t v = (if tx = Some t then map_option (\<lambda>us. us @ [DeleteUndoRecord ?ct r]) (undo_log_of t w) else undo_log_of t w)"
      using m(2) by (simp_all add: after_insert_def Some)
    have nin: "table_name tb \<notin> fst ` set (tables (tx_data w))" using new by (simp add: find_table_def map_of_eq_None_iff)
    obtain w' where w': "tx_push tx (DropTableUndoRecord (table_name tb)) ?v = (Inr (), w')" "tx_data w' = tx_data ?v"
      "\<forall>t. undo_log_of t w' = (if tx = Some t then map_option (\<lambda>us. us @ [DropTableUndoRecord (table_name tb)]) (undo_log_of t ?v) else undo_log_of t ?v)"
      using tx_push_run [of tx "DropTableUndoRecord (table_name tb)" ?v] by blast
    have "write_entry ?ct tb tx ?w = (Inr tb, w')"
      using m(1) by (simp add: write_entry_def Some and_then_Inr [of "table_insert _ _ _" ?w] and_then_Inr [of "tx_push _ _" ?v, OF w'(1)])
    moreover have "wpool w' = wpool v" "catalog_table (tx_data w') = ?ct"
      "tables (tx_data w') = tables (tx_data w) @ [(table_name tb, ?e)]"
      using w'(2) a(1,2) update_new [OF nin] by (simp_all add: put_tables_def)
    moreover have "\<forall>t. undo_log_of t ?v = undo_log_of t v" by (simp add: put_tables_def)
    ultimately show thesis using a(3,4) w'(3) by (elim exE, intro Written [of w' r]) (auto simp: option.map_comp comp_def)
  qed
qed



lemma on_pool_locks: "keeps (\<lambda>w. locks w = l) (on_pool m)"
  by (auto simp: keeps_def on_pool_def zoom_def put_pool_def split: prod.splits)

lemma table_insert_locks: "keeps (\<lambda>w. locks w = l) (table_insert tb t None)"
  unfolding table_insert_def tx_lock_def tx_push_def by (auto intro!: keeps_and_then on_pool_locks keeps_Pair split: option.split)

text \<open>The new database with one row in its first table.\<close>

lemma one_row_world:
  obtains r v qs where "table_insert first_table \<lparr>tvalues = sample_row, tschema = sample_schema\<rparr> None new_world = (Inr (Some r), v)"
    "inserted {#} (wpool new_world) (table_first_page first_table) [kCATALOG_FIRST_PAGE_ID] (row_bytes sample_schema sample_row) r qs (wpool v)"
    "locks v = lock_init" "pool_rows (wpool v) r = Some (row_bytes sample_schema sample_row)" "held {} {#} (wpool v)"
    "1 < pool_capacity (wpool v)" "pages_wf (wpool v)" "table_rows (wpool v) first_table [sample_row]"
proof -
  let ?S = "row_bytes sample_schema sample_row" and ?tb = first_table
  have s: "table_schema ?tb = sample_schema" by (simp add: first_table_def)
  have st: "list_all2 storable (table_schema ?tb) sample_row" using sample_row_ok(1) by (simp add: s)
  have P: "size {#} + 1 < pool_capacity (wpool new_world)" using new_world_ok(3) by simp
  obtain m v where m: "table_insert ?tb \<lparr>tvalues = sample_row, tschema = table_schema ?tb\<rparr> None new_world = (Inr m, v)"
    "after_insert {#} ?tb [kCATALOG_FIRST_PAGE_ID] (row_bytes (table_schema ?tb) sample_row) None new_world m v"
    using table_insert_run [OF st first_table_ok(4) new_world_ok(2) P, of None] by blast
  then obtain r where r: "m = Some r" by (cases m) (simp_all add: after_insert_def)
  obtain qs where i: "inserted {#} (wpool new_world) (table_first_page ?tb) [kCATALOG_FIRST_PAGE_ID] ?S r qs (wpool v)"
    using m(2) by (auto simp: after_insert_def r s)
  note I = inserted_pages [OF i first_table_ok(1)]
  have len: "length ?S < 2 ^ 16" using sample_row_ok(2) by simp
  have d: "tuple_deserialize ?S (table_schema ?tb) = Inr \<lparr>tvalues = sample_row, tschema = table_schema ?tb\<rparr>"
    using tuple_deserialize_row [OF sample_row_ok(1) len] by (simp add: s)
  have "locks v = lock_init" using keepsD [OF table_insert_locks _ m(1)] new_world_ok(10) by blast
  moreover obtain rows where "table_rows (wpool v) ?tb rows" "mset rows = {#sample_row#}"
    using inserted_table_rows [of "{#}" "wpool new_world" ?tb, OF _ first_table_ok(1) d first_table_ok(2)] i by auto
  ultimately show thesis
    using that m(1) i I(2) [OF first_table_ok(3)] I(4) new_world_ok(3) by (auto simp: r s inserted_def)
qed

section \<open>Rolling inserts back\<close>

text \<open>Transaction \<open>t\<close> inserts rows into tables, one after the other.\<close>

inductive tx_inserts :: "transaction_id \<Rightarrow> world \<Rightarrow> world \<Rightarrow> bool" for t where
  No_insert: "tx_inserts t w w"
| One_insert: "tx_inserts t w v \<Longrightarrow> list_all2 storable (table_schema tb) vs \<Longrightarrow>
    insertable (wpool v) (table_first_page tb) ps (row_bytes (table_schema tb) vs) \<Longrightarrow>
    table_insert tb \<lparr>tvalues = vs, tschema = table_schema tb\<rparr> (Some t) v = (Inr (Some r), w') \<Longrightarrow> tx_inserts t w w'"

lemma tx_inserts_changes:
  "tx_inserts t w w' \<Longrightarrow> store_ok b P (tx_data w) \<Longrightarrow> undo_log_of t w = Some [] \<Longrightarrow>
   \<exists>us. changes (insert_change P) (tx_data w) us (tx_data w') \<and> undo_log_of t w' = Some us"
proof (induction rule: tx_inserts.induct)
  case (No_insert w)
  then show ?case by (intro exI [of _ "[]"]) (auto intro: changes.intros)
next
  case (One_insert w v tb vs ps r w')
  let ?bs = "row_bytes (table_schema tb) vs"
  obtain us where us: "changes (insert_change P) (tx_data w) us (tx_data v)" "undo_log_of t v = Some us"
    using One_insert.IH One_insert.prems by blast
  have "store_ok b P (tx_data v)" using store_undo.changes_inv [OF us(1) One_insert.prems(1)] .
  then have v: "held {} P (wpool v)" "size P + 1 < pool_capacity (wpool v)" "pages_wf (wpool v)" by (simp_all add: store_ok_def)
  have a: "after_insert P tb ps ?bs (Some t) v (Some r) w'"
    using table_insert_run [OF One_insert.hyps(2,3) v(1,2), of "Some t"] One_insert.hyps(4) by auto
  then obtain qs where q: "inserted P (wpool v) (table_first_page tb) ps ?bs r qs (wpool w')" by (auto simp: after_insert_def)
  have "tx_data w' = (tx_data v)\<lparr>pool := wpool w'\<rparr>" using a by (simp add: after_insert_def)
  with insert_change.intros [OF One_insert.hyps(3) q] have "insert_change P (tx_data v) (DeleteUndoRecord tb r) (tx_data w')" by simp
  with us(1) have "changes (insert_change P) (tx_data w) (us @ [DeleteUndoRecord tb r]) (tx_data w')" by (rule One_more)
  moreover have "undo_log_of t w' = Some (us @ [DeleteUndoRecord tb r])" using a us(2) by (simp add: after_insert_def)
  ultimately show ?case by blast
qed

lemma rollback_run:
  assumes h: "held {} P (wpool w)" and wf: "pages_wf (wpool w)" and P: "size P + 1 < pool_capacity (wpool w)"
    and b: "tm_begin w = (t, v)" and ins: "tx_inserts t v v'"
  shows "\<exists>w'. rollback_tx t v' = (Inr (), w') \<and> store_ok (wpool w) P (tx_data w') \<and> pool_rows (wpool w') = pool_rows (wpool w) \<and>
    tables (tx_data w') = tables (tx_data w) \<and> catalog_table (tx_data w') = catalog_table (tx_data w) \<and> t \<notin> active_txs w' \<and>
    (\<exists>x. txs (locks w') t = Some x \<and> tx_state x = ABORTED \<and> shared_locks x = {} \<and> exclusive_locks x = {})"
proof -
  have v: "tx_data v = tx_data w" "undo_log_of t v = Some []" using b by (auto simp: tm_begin_def Let_def tx_object_def)
  have ok: "store_ok (wpool w) P (tx_data v)" using h wf P v(1) grown_refl by (simp add: store_ok_def)
  obtain us where us: "changes (insert_change P) (tx_data v) us (tx_data v')" "undo_log_of t v' = Some us"
    using tx_inserts_changes [OF ins ok v(2)] by blast
  then obtain x where x: "txs (locks v') t = Some x" "undo_log x = us" by auto
  obtain w' where w': "tm_abort undo t v' = (Inr (), w')" "store_ok (wpool w) P (tx_data w')" "store_meaning (tx_data w') = store_meaning (tx_data v)"
    using store_undo.abort_restores_inv [OF us(1) ok x] by blast
  then show ?thesis
    using v(1) abort_ends [OF w'(1) x(1)] by (auto simp: rollback_tx_def store_meaning_def)
qed

text \<open>
  C4: Rolling inserts back. A transaction that has inserted rows into any tables and is rolled back ends
  without an exception, every table of the database has the rows it had when the transaction began, in
  their order, the catalog is the same, and the transaction holds no lock.
\<close>

theorem rollback_undoes_inserts:
  assumes h: "held {} P (wpool w)" and wf: "pages_wf (wpool w)" and P: "size P + 1 < pool_capacity (wpool w)"
    and b: "tm_begin w = (t, v)" and ins: "tx_inserts t v v'"
  shows "\<exists>w'. rollback_tx t v' = (Inr (), w') \<and> held {} P (wpool w') \<and>
    (\<forall>tb rows. table_rows (wpool w) tb rows \<longrightarrow> table_rows (wpool w') tb rows) \<and>
    tables (tx_data w') = tables (tx_data w) \<and> catalog_table (tx_data w') = catalog_table (tx_data w) \<and> t \<notin> active_txs w' \<and>
    (\<exists>x. txs (locks w') t = Some x \<and> tx_state x = ABORTED \<and> shared_locks x = {} \<and> exclusive_locks x = {})"
proof -
  obtain w' where w': "rollback_tx t v' = (Inr (), w')" "store_ok (wpool w) P (tx_data w')" "pool_rows (wpool w') = pool_rows (wpool w)"
    "tables (tx_data w') = tables (tx_data w)" "catalog_table (tx_data w') = catalog_table (tx_data w)" "t \<notin> active_txs w'"
    "\<exists>x. txs (locks w') t = Some x \<and> tx_state x = ABORTED \<and> shared_locks x = {} \<and> exclusive_locks x = {}"
    using rollback_run [OF assms] by blast
  then have "grown (wpool w) (wpool w')" "held {} P (wpool w')" by (simp_all add: store_ok_def)
  then show ?thesis using w' same_table_rows [OF _ w'(3)] by blast
qed

theorem rollback_undoes_inserts_witness:
  "\<exists>t v r v' w'. tm_begin new_world = (t, v) \<and>
     table_insert first_table \<lparr>tvalues = sample_row, tschema = sample_schema\<rparr> (Some t) v = (Inr (Some r), v') \<and>
     rollback_tx t v' = (Inr (), w') \<and> table_rows (wpool w') first_table []"
proof -
  obtain t v where b: "tm_begin new_world = (t, v)" by fastforce
  then have v: "tx_data v = tx_data new_world" "locks v = \<lparr>lock_table = (\<lambda>_. []), txs = [t \<mapsto> tx_object], waiting = Map.empty\<rparr>"
    using new_world_ok(10) by (auto simp: tm_begin_def Let_def lock_init_def)
  have lock: "fst (lock_exclusive t r (locks v))" for r
    by (simp add: v(2) lock_exclusive_def request_exclusive_def tx_object_def enqueue_def set_queue_def await_def)
  have st: "list_all2 storable (table_schema first_table) sample_row" using sample_row_ok(1) by (simp add: first_table_def)
  have i: "insertable (wpool v) (table_first_page first_table) [kCATALOG_FIRST_PAGE_ID] (row_bytes (table_schema first_table) sample_row)"
    "held {} {#} (wpool v)" "size {#} + 1 < pool_capacity (wpool v)" "pages_wf (wpool v)"
    using first_table_ok(3,4) new_world_ok(2,3) by (simp_all add: v(1))
  obtain m v' where m: "table_insert first_table \<lparr>tvalues = sample_row, tschema = table_schema first_table\<rparr> (Some t) v = (Inr m, v')"
    "after_insert {#} first_table [kCATALOG_FIRST_PAGE_ID] (row_bytes (table_schema first_table) sample_row) (Some t) v m v'"
    using table_insert_run [OF st i(1-3)] by blast
  then obtain r where r: "m = Some r" using lock by (cases m) (auto simp: after_insert_def)
  have "tx_inserts t v v'" using One_insert [OF No_insert st i(1)] m(1) r by blast
  from rollback_undoes_inserts [OF new_world_ok(2) first_table_ok(3) _ b this] new_world_ok(3)
  obtain w' where "rollback_tx t v' = (Inr (), w')" "table_rows (wpool w') first_table []" using first_table_ok(2) by auto
  then show ?thesis using b m(1) r by (auto simp: first_table_def)
qed

end
