(* ===== verification/Heap_Update.thy ===== *)
theory Heap_Update
  imports Table_Rows
begin

text \<open>
  \<open>TableHeap::update_tuple\<close> on the rows of a pool: the row changes in place, in its slot after a
  compaction of its page, or it moves to any page of the heap and gets another number.
\<close>

section \<open>Compacting twice\<close>

text \<open>Compaction looks at the rows of a page only, not at where they are.\<close>

lemma compact_slots_same:
  assumes wf: "wf_page d" "wf_page e" and same: "tuple_at e = tuple_at d" "page_slots e = page_slots d"
    and "set is \<subseteq> {..<page_slots d}"
  shows "compact_slots e is ss c o1 = compact_slots d is ss c o1"
  using assms(5)
proof (induction "is" arbitrary: ss c o1)
  case (Cons i "is")
  then have i: "i < page_slots d" "i < page_slots e" using same(2) by simp_all
  have lv: "live e i \<longleftrightarrow> live d i" using fun_cong [OF same(1), of i] tuple_at_None by metis
  note F = slot_is_free_wf [OF wf(1) i(1)] slot_is_free_wf [OF wf(2) i(2)]
  show ?case
  proof (cases "live d i")
    case False
    then show ?thesis using Cons F lv by simp
  next
    case True
    have t: "slice (slot_off e i) (slot_len e i) e = slice (slot_off d i) (slot_len d i) d"
      using fun_cong [OF same(1), of i] True lv by (simp add: tuple_at_def)
    have "slot_len e i = slot_len d i"
      using fun_cong [OF same(1), of i] tuple_at_length [OF wf(1), of i] tuple_at_length [OF wf(2), of i] True lv
      by (simp add: tuple_at_def)
    then have len: "slot_length e i = slot_length d i" by (rule unsigned_word_eqI)
    have "slot_off e i + slot_len d i \<le> length e" "slot_off d i + slot_len d i \<le> length d"
      using wf_pageD(1) [OF wf(1)] wf_pageD(1) [OF wf(2)] wf_pageD(5) [OF wf(1), of i] wf_pageD(5) [OF wf(2), of i] True lv len by simp_all
    then show ?thesis using Cons F lv t len by (simp add: Let_def check_def)
  qed
qed simp

lemma sp_compact_same:
  assumes wf: "wf_page d" "wf_page e" and same: "tuple_at e = tuple_at d" "page_slots e = page_slots d" "sp_next e = sp_next d"
  shows "sp_compact e = sp_compact d"
proof -
  have "sp_count e = sp_count d" using same(2) unfolding page_slots_def by (rule unsigned_word_eqI)
  moreover have "compact_slots e [0..<page_slots d] ss c o1 = compact_slots d [0..<page_slots d] ss c o1" for ss c o1
    by (rule compact_slots_same [OF wf same(1,2)]) auto
  ultimately show ?thesis
    using same(2,3) wf_pageD(1) [OF wf(1)] wf_pageD(1) [OF wf(2)] by (simp add: sp_compact_def flip: page_slots_def)
qed

lemma compact_settled:
  assumes wf: "wf_page d" and e: "sp_compact d = Inr e"
  shows "sp_compact e = Inr e"
proof -
  have "compacted_page d e" using sp_compact_wf [OF wf] e by auto
  then have "wf_page e" "page_tuples e = page_tuples d" "sp_next e = sp_next d" by (simp_all add: compacted_page_def)
  moreover from this(2) have "page_slots e = page_slots d" "tuple_at e = tuple_at d"
    by (metis length_page_tuples) (rule tuple_at_cong, fact)
  ultimately show ?thesis using sp_compact_same [OF wf] e by simp
qed

section \<open>The page of the row\<close>

text \<open>
  What \<open>update_on_page\<close> leaves on a page \<open>d\<close> with row \<open>i\<close>: the new row in its slot, or the page without
  the row, settled for the new one.
\<close>

definition updated_page :: "page_data \<Rightarrow> nat \<Rightarrow> byte list \<Rightarrow> bool \<Rightarrow> page_data \<Rightarrow> bool" where
  "updated_page d i t stays z \<longleftrightarrow> wf_page z \<and> sp_next z = sp_next d \<and>
     (if stays then tuple_at z = (tuple_at d)(i \<mapsto> t) else tuple_at z = (tuple_at d)(i := None) \<and> settled z t)"

text \<open>The page after the deletion and the compaction, if there is one.\<close>

definition freed_page :: "page_data \<Rightarrow> 16 word \<Rightarrow> page_data \<Rightarrow> page_data \<Rightarrow> bool \<Rightarrow> bool" where
  "freed_page d s y z c \<longleftrightarrow> sp_delete_tuple d s = Inr (True, y) \<and> wf_page y \<and> sp_is_compacted y = Inr c \<and>
     (if c then z = y else sp_compact y = Inr z) \<and> wf_page z \<and> sp_next z = sp_next d \<and> unat s < page_slots z \<and>
     tuple_at z = (tuple_at d)(unat s := None) \<and> (sp_is_compacted z = Inr True \<or> sp_compact z = Inr z)"

lemma freed_page_ex:
  assumes wf: "wf_page d" and lv: "live d (unat s)"
  obtains y z c where "freed_page d s y z c"
proof -
  obtain y where y: "sp_delete_tuple d s = Inr (True, y)" "wf_page y" "tuple_at y = (tuple_at d)(unat s := None)" "sp_next y = sp_next d"
    using delete_as_map [OF wf lv] by blast
  have "page_tuples y = (page_tuples d)[unat s := None]"
    using y(1) lv drop_slot_wf(2) [OF wf live_less [OF lv]] by (simp add: sp_delete_tuple_wf [OF wf])
  then have "page_slots y = page_slots d" by (metis length_list_update length_page_tuples)
  then have sy: "unat s < page_slots y" using live_less [OF lv] by simp
  obtain c where c: "sp_is_compacted y = Inr c" using compacted_total [OF y(2)] by blast
  show thesis
  proof (cases c)
    case True
    then show thesis using that [of y y c] y c sy by (simp add: freed_page_def)
  next
    case False
    obtain z where z: "sp_compact y = Inr z" "compacted_page y z" using sp_compact_wf [OF y(2)] by blast
    have "page_slots z = page_slots y" using z(2) unfolding compacted_page_def by (metis length_page_tuples)
    then show thesis
      using that [of y z c] y c sy False z(1) compact_same [OF y(2) z(1)] compact_settled [OF y(2) z(1)] by (simp add: freed_page_def)
  qed
qed

text \<open>The free slot of the row needs no more bytes, so only the room of the page decides.\<close>

lemma freed_insert:
  assumes f: "freed_page d s y z c" and t: "length t < 65536"
  shows "\<exists>stays x. sp_insert_tuple z t (Some s) = Inr (if stays then Some \<lparr>rid_page = INVALID_PAGE_ID, rid_slot = s\<rparr> else None, x) \<and>
    updated_page d (unat s) t stays x \<and> (\<not> stays \<longrightarrow> x = z)"
proof (cases "length t \<le> page_room z")
  case True
  have z: "wf_page z" "unat s < page_slots z" "\<not> live z (unat s)" using f by (auto simp: freed_page_def simp flip: tuple_at_None)
  from insert_prefered [OF z True] obtain x where x: "sp_insert_tuple z t (Some s) = Inr (Some \<lparr>rid_page = INVALID_PAGE_ID, rid_slot = s\<rparr>, x)"
    "wf_page x" "page_tuples x = (page_tuples z)[unat s := Some t]" "sp_next x = sp_next z" .
  then have "tuple_at x = (tuple_at z)(unat s \<mapsto> t)" using tuple_at_list_update [OF x(3) z(2)] by simp
  then show ?thesis using x f by (intro exI [of _ True] exI [of _ x]) (simp add: updated_page_def freed_page_def)
next
  case False
  then have "\<not> insert_fits z t (Some s)" by (simp add: insert_fits_def)
  moreover have "settled z t" using f by (auto simp: settled_def freed_page_def)
  ultimately show ?thesis
    using f sp_insert_tuple_full [of z t "Some s"] t
    by (intro exI [of _ False] exI [of _ z]) (simp add: updated_page_def freed_page_def)
qed

text \<open>The same through a handle.\<close>

abbreviation update_answer :: "rid \<Rightarrow> bool \<Rightarrow> rid option option" where
  "update_answer r stays \<equiv> if stays then Some (Some r) else None"

lemma update_in_place_block:
  assumes c: "held {} (add_mset (rid_page r) P) c" "page_table c (rid_page r) = Some f" and wf: "wf_page (bpm_view c (rid_page r))"
    and lv: "live (bpm_view c (rid_page r)) (unat (rid_slot r))" and t: "length t \<le> slot_len (bpm_view c (rid_page r)) (unat (rid_slot r))"
  shows "\<exists>z. updated_page (bpm_view c (rid_page r)) (unat (rid_slot r)) t True z \<and>
    block_done P c (rid_page r) f z (Some (Some r)) (update_on_page r t (make_pinned (Some f)) c)"
proof -
  let ?u = "make_pinned (Some f)" and ?p = "rid_page r" and ?g = "\<lambda>d. sp_try_update_in_place d r t"
  obtain z where z: "?g (bpm_view c ?p) = Inr (True, z)" "wf_page z"
    "tuple_at z = (tuple_at (bpm_view c ?p))(unat (rid_slot r) \<mapsto> t)" "sp_next z = sp_next (bpm_view c ?p)"
    using update_as_map [OF wf lv t] by blast
  from change_here [where g = ?g and u = ?u, OF c z(1) wf_pageD(1) [OF z(2)]] obtain d where
    d: "on_page ?u ?g c = (Inr True, d)" "held {?p} (add_mset ?p P) d" "bpm_view d = (bpm_view c)(?p := z)" "same_pool c d" by auto
  have r: "read_page_of ?u (\<lambda>d. sp_has_slot d (rid_slot r)) c = (Inr True, c)"
    using held_read [OF c, of ?u "\<lambda>d. sp_has_slot d (rid_slot r)"] wf lv by (simp add: sp_has_slot_wf)
  have "update_on_page r t ?u c = (Inr (Some (Some r), mark_dirty ?u), d)"
    by (simp add: update_on_page_def and_then_Inr [of "read_page_of ?u _" c, OF r] and_then_Inr [of "on_page ?u ?g" c, OF d(1)])
  then show ?thesis
    using block_write [OF d(2) _ d(4,3), where u = ?u and x = "Some (Some r)"] z by (auto simp: updated_page_def)
qed


lemma update_freed_block:
  assumes c: "held {} (add_mset (rid_page r) P) c" "page_table c (rid_page r) = Some f" and wf: "wf_page (bpm_view c (rid_page r))"
    and lv: "live (bpm_view c (rid_page r)) (unat (rid_slot r))"
    and long: "slot_len (bpm_view c (rid_page r)) (unat (rid_slot r)) < length t" and t: "length t < 65536"
  shows "\<exists>stays z. updated_page (bpm_view c (rid_page r)) (unat (rid_slot r)) t stays z \<and>
    block_done P c (rid_page r) f z (update_answer r stays) (update_on_page r t (make_pinned (Some f)) c)"
proof -
  let ?u = "make_pinned (Some f)" and ?p = "rid_page r" and ?g = "\<lambda>d. sp_try_update_in_place d r t"
  let ?del = "\<lambda>d. sp_delete_tuple d (rid_slot r)" and ?cmp = "\<lambda>d. bind_res (sp_compact d) (\<lambda>d. Inr ((), d))"
  let ?ins = "\<lambda>d. sp_insert_tuple d t (Some (rid_slot r))" and ?v = "mark_dirty (make_pinned (Some f))"
  obtain y z k where F: "freed_page (bpm_view c ?p) (rid_slot r) y z k" using freed_page_ex [OF wf lv] by blast
  obtain stays x where x: "?ins z = Inr (if stays then Some \<lparr>rid_page = INVALID_PAGE_ID, rid_slot = rid_slot r\<rparr> else None, x)"
    "updated_page (bpm_view c ?p) (unat (rid_slot r)) t stays x" "\<not> stays \<longrightarrow> x = z" using freed_insert [OF F t] by blast
  have Y: "?del (bpm_view c ?p) = Inr (True, y)" "wf_page y" "sp_is_compacted y = Inr k" "wf_page z" "if k then z = y else sp_compact y = Inr z"
    using F by (simp_all add: freed_page_def)
  have has: "read_page_of ?u (\<lambda>d. sp_has_slot d (rid_slot r)) c = (Inr True, c)"
    using held_read [OF c, of ?u "\<lambda>d. sp_has_slot d (rid_slot r)"] wf lv by (simp add: sp_has_slot_wf)
  have no: "on_page ?u ?g c = (Inr False, c)"
    by (rule held_rewrite [OF c]) (use long in \<open>simp_all add: sp_try_update_in_place_wf [OF wf t]\<close>)
  from change_here [where g = ?del and u = ?u, OF c Y(1) wf_pageD(1) [OF Y(2)]] obtain d where
    d: "on_page ?u ?del c = (Inr True, d)" "held {?p} (add_mset ?p P) d" "bpm_view d = (bpm_view c)(?p := y)" "same_pool c d"
      "page_table d ?p = Some f" by auto
  have ic: "read_page_of ?v sp_is_compacted d = (Inr k, d)" using held_read [OF d(2,5), of ?v sp_is_compacted] d(3) Y(3) by simp
  obtain a where a: "(if \<not> k then on_page ?v ?cmp else ret ()) d = (Inr (), a)" "held {?p} (add_mset ?p P) a"
    "bpm_view a = (bpm_view c)(?p := z)" "same_pool c a" "page_table a ?p = Some f"
  proof (cases k)
    case True
    then show thesis using that [of d] d Y(5) by simp
  next
    case False
    then have cz: "?cmp (bpm_view d ?p) = Inr ((), z)" using Y(5) d(3) by simp
    from change_here [where g = ?cmp and u = ?v, OF d(2,5) cz wf_pageD(1) [OF Y(4)]] obtain a where
      a: "on_page ?v ?cmp d = (Inr (), a)" "held {?p} (add_mset ?p P) a" "bpm_view a = (bpm_view d)(?p := z)" "same_pool d a"
        "page_table a ?p = Some f" by auto
    then show thesis using that [of a] False d(3) same_pool_trans [OF d(4) a(4)] by simp
  qed
  have X: "?ins (bpm_view a ?p) = Inr (if stays then Some \<lparr>rid_page = INVALID_PAGE_ID, rid_slot = rid_slot r\<rparr> else None, x)"
    using x(1) a(3) by simp
  have "wf_page x" using x(2) by (simp add: updated_page_def)
  from change_here [where g = ?ins and u = ?v, OF a(2,5) X wf_pageD(1) [OF this]] obtain b where
    b: "on_page ?v ?ins a = (Inr (if stays then Some \<lparr>rid_page = INVALID_PAGE_ID, rid_slot = rid_slot r\<rparr> else None), b)"
      "held {?p} (add_mset ?p P) b" "bpm_view b = (bpm_view a)(?p := x)" "same_pool a b" "page_table b ?p = Some f" by auto
  have vb: "bpm_view b = (bpm_view c)(?p := x)" using b(3) a(3) by simp
  have id: "pinned_page_id ?v b = (Inr ?p, b)" using held_page_id [OF b(2,5), of ?v] by simp
  have run: "update_on_page r t ?u c = (Inr (update_answer r stays, if stays then mark_dirty ?v else ?v), b)"
    by (simp add: update_on_page_def and_then_Inr [of "read_page_of ?u _" c, OF has] and_then_Inr [of "on_page ?u ?g" c, OF no]
        and_then_Inr [of "on_page ?u ?del" c, OF d(1)] Let_def and_then_Inr [of "read_page_of ?v _" d, OF ic]
        and_then_Inr [of "if \<not> k then on_page ?v ?cmp else ret ()" d, OF a(1)] and_then_Inr [of "on_page ?v ?ins" a, OF b(1)]
        and_then_Inr [of "pinned_page_id ?v" b, OF id])
  have blk: "block_done P c ?p f x (update_answer r stays) (Inr (update_answer r stays, mark_dirty u'), b)" if "pin_frame u' = Some f" for u'
    by (rule block_write [OF b(2) _ same_pool_trans [OF a(4) b(4)] vb that]) simp
  show ?thesis
    using x(2) blk [of ?u] blk [of ?v] unfolding run by (intro exI [of _ stays] exI [of _ x]) (cases stays; simp)
qed


section \<open>The update\<close>

lemma update_block:
  assumes c: "held {} (add_mset (rid_page r) P) c" "page_table c (rid_page r) = Some f" and wf: "wf_page (bpm_view c (rid_page r))"
    and row: "tuple_at (bpm_view c (rid_page r)) (unat (rid_slot r)) = Some old" and t: "length t < 65536"
  shows "\<exists>stays z. updated_page (bpm_view c (rid_page r)) (unat (rid_slot r)) t stays z \<and> (length t \<le> length old \<longrightarrow> stays) \<and>
    block_done P c (rid_page r) f z (update_answer r stays) (update_on_page r t (make_pinned (Some f)) c)"
proof -
  have lv: "live (bpm_view c (rid_page r)) (unat (rid_slot r))" "length old = slot_len (bpm_view c (rid_page r)) (unat (rid_slot r))"
    using tuple_at_length [OF wf row] by simp_all
  show ?thesis
  proof (cases "length t \<le> length old")
    case True
    then show ?thesis using update_in_place_block [OF c wf lv(1)] lv(2) by (intro exI [of _ True]) simp
  next
    case False
    then show ?thesis using update_freed_block [OF c wf lv(1) _ t] lv(2) by auto
  qed
qed

text \<open>What the heap must offer for an update: its bytes fit where the row is, or it may move to a new page.\<close>

definition updatable :: "bpm \<Rightarrow> page_id \<Rightarrow> page_id list \<Rightarrow> rid \<Rightarrow> byte list \<Rightarrow> bool" where
  "updatable b p ps r t \<longleftrightarrow> heap_pages (bpm_view b) (bpm_pages b) p ps \<and> rid_page r \<in> set ps \<and> length t \<le> 8180 \<and>
     ((\<exists>old. pool_rows b r = Some old \<and> length t \<le> length old) \<or>
      disk_room (bdisk b) \<and> (\<forall>x\<in>set (butlast ps). x \<noteq> rid_page r \<longrightarrow> settled (bpm_view b x) t))"

text \<open>The row of \<open>r\<close> is now the row of \<open>q\<close>, which is \<open>r\<close> or was free, on the pages \<open>qs\<close> of the heap.\<close>

definition updated :: "page_id multiset \<Rightarrow> bpm \<Rightarrow> page_id \<Rightarrow> rid \<Rightarrow> byte list \<Rightarrow> rid \<Rightarrow> page_id list \<Rightarrow> bpm \<Rightarrow> bool" where
  "updated P b p r t q qs e \<longleftrightarrow> held {} P e \<and> grown b e \<and> pages_wf e \<and> pool_capacity e = pool_capacity b \<and>
     pool_rows e = (pool_rows b)(r := None, q := Some t) \<and> (q = r \<or> pool_rows b q = None) \<and>
     heap_pages (bpm_view e) (bpm_pages e) p qs \<and> rid_page r \<in> set qs \<and> rid_page q \<in> set qs"

lemma grown_same_pages: "grown b e \<Longrightarrow> bpm_pages e = bpm_pages b \<Longrightarrow> heap_pages (bpm_view b) (bpm_pages b) p ps \<Longrightarrow>
   heap_pages (bpm_view e) (bpm_pages e) p ps"
proof -
  assume g: "grown b e" and U: "bpm_pages e = bpm_pages b" and h: "heap_pages (bpm_view b) (bpm_pages b) p ps"
  obtain xs where x: "heap_pages (bpm_view e) (bpm_pages e) p (ps @ xs)" "set xs \<inter> bpm_pages b = {}" by (rule grown_heap [OF g h])
  then have "set xs \<subseteq> bpm_pages e" using chain_in [of "bpm_view e" "bpm_pages e" p "ps @ xs"] by (auto simp: heap_pages_def)
  then show ?thesis using x U by (cases xs) auto
qed

lemma heap_update_ok:
  assumes u: "updatable b p ps r t" and row: "pool_rows b r = Some old" and h: "held {} P b" and P: "size P + 1 < pool_capacity b"
    and wf: "pages_wf b"
  shows "\<exists>q qs e. heap_update p r t b = (Inr (Some q), e) \<and> updated P b p r t q qs e"
proof -
  let ?p = "rid_page r" and ?A = "update_answer r"
  let ?Q = "\<lambda>x z. \<exists>stays. x = ?A stays \<and> updated_page (bpm_view b ?p) (unat (rid_slot r)) t stays z \<and> (length t \<le> length old \<longrightarrow> stays)"
  have U: "heap_pages (bpm_view b) (bpm_pages b) p ps" "?p \<in> set ps" "length t \<le> 8180" using u by (simp_all add: updatable_def)
  have r: "?p \<in> bpm_pages b" "tuple_at (bpm_view b ?p) (unat (rid_slot r)) = Some old" "wf_page (bpm_view b ?p)"
    using row wf by (auto simp: pool_rows_def pages_wf_def split: if_splits)
  have body: "\<exists>x z. ?Q x z \<and> block_done P c ?p f z x (update_on_page r t (make_pinned (Some f)) c)"
    if "held {} (add_mset ?p P) c" "page_table c ?p = Some f" "bpm_view c = bpm_view b" for f c
  proof -
    have "length t < 65536" using U(3) by simp
    from update_block [OF that(1,2), unfolded that(3), OF r(3,2) this] show ?thesis by blast
  qed
  have "size P < pool_capacity b" using P by simp
  from fetch_scope_any [OF h r(1) this, of ?Q "update_on_page r t", OF body] obtain f c x z e where
    q: "?Q x z" and e: "fetch_page ?p b = (Inr (Some f), c)" "page_changed P b ?p z e"
      "scope (make_pinned (Some f)) (update_on_page r t (make_pinned (Some f))) c = (Inr x, e)" by blast
  from q obtain stays where z: "updated_page (bpm_view b ?p) (unat (rid_slot r)) t stays z" "length t \<le> length old \<longrightarrow> stays"
    and x: "x = ?A stays" by blast
  have run: "heap_update p r t b = (case ?A stays of Some answer \<Rightarrow> ret answer | None \<Rightarrow> heap_insert p t) e"
    by (simp add: heap_update_def and_then_Inr [of "fetch_page ?p" b, OF e(1)] Let_def and_then_Inr [of "scope _ _" c, OF e(3)] x)
  have Z: "wf_page z" "sp_next z = sp_next (bpm_view b ?p)" "tuple_at z = (tuple_at (bpm_view b ?p))(unat (rid_slot r) := if stays then Some t else None)"
    using z(1) by (simp_all add: updated_page_def split: if_splits)
  note G = row_changed_pages [OF e(2) Z disjI2 [OF r(1)]]
  have E: "held {} P e" "pool_capacity e = pool_capacity b" "bpm_view e = (bpm_view b)(?p := z)" "bpm_pages e = bpm_pages b" "disk_room (bdisk e) = disk_room (bdisk b)"
    using e(2) by (simp_all add: page_changed_def pool_shape_def disk_room_def)
  have he: "heap_pages (bpm_view e) (bpm_pages e) p ps" by (rule grown_same_pages [OF G(1) E(4) U(1)])
  show ?thesis
  proof (cases stays)
    case True
    then show ?thesis using run G E(1,2) wf he U(2) by (intro exI [of _ r] exI [of _ ps] exI [of _ e]) (simp add: updated_def)
  next
    case False
    then have "insertable e p ps t"
      using u he U(3) z E(3,5) row by (auto simp: insertable_def updatable_def updated_page_def)
    from insertable_insert [OF this E(1)] P E(2) obtain q qs k where
      k: "heap_insert p t e = (Inr (Some q), k)" "inserted P e p ps t q qs k" by auto
    note I = inserted_pages [OF k(2) he]
    have "rid_page q \<in> set qs" by (rule inserted_in_heap [OF k(2)])
    moreover have "set ps \<subseteq> set qs" "held {} P k" "pool_capacity k = pool_capacity e" "heap_pages (bpm_view k) (bpm_pages k) p qs"
      using k(2) by (auto simp: inserted_def)
    ultimately show ?thesis
      using run k(1) False G I grown_trans [OF G(1) I(1)] E(2) wf U(2)
      by (intro exI [of _ q] exI [of _ qs] exI [of _ k]) (auto simp: updated_def split: if_splits)
  qed
qed

end
