(* ===== verification/Table_Update.thy ===== *)
theory Table_Update
  imports Table_Properties Heap_Update
begin

text \<open>
  \<open>Table::update_tuple\<close>: the row is replaced where it is or moves to another number, for which a
  transaction needs a second lock.
\<close>

section \<open>Running an update\<close>

lemma updated_cong:
  assumes v: "bpm_view c = bpm_view b" "bpm_pages c = bpm_pages b" "pool_capacity c = pool_capacity b" and u: "updated P c p r t q qs e"
  shows "updated P b p r t q qs e"
proof -
  have "grown b c" by (rule grown_same [OF v(1,2)])
  moreover have "pool_rows c = pool_rows b" by (rule pool_rows_cong [OF v(1,2)])
  ultimately show ?thesis using u v(3) grown_trans [of b c e] unfolding updated_def by simp
qed

text \<open>
  What an update leaves. A lock that is refused can be the one of the row, then nothing has changed, or
  the one of its new number, then the row is changed already and the undo log does not know of it.
\<close>

definition after_update :: "page_id multiset \<Rightarrow> table \<Rightarrow> rid \<Rightarrow> byte list \<Rightarrow> byte list \<Rightarrow> transaction_id option \<Rightarrow> world \<Rightarrow> rid option \<Rightarrow> world \<Rightarrow> bool" where
  "after_update P tb r old bs tx w m w' \<longleftrightarrow> (case m of
       None \<Rightarrow> (\<exists>t. tx = Some t \<and>
           (\<not> fst (lock_exclusive t r (locks w)) \<and> tx_data w' = tx_data w \<or>
            (\<exists>q qs. q \<noteq> r \<and> \<not> fst (lock_exclusive t q (snd (lock_exclusive t r (locks w)))) \<and>
               updated P (wpool w) (table_first_page tb) r bs q qs (wpool w')))) \<and>
         (\<forall>t. undo_log_of t w' = undo_log_of t w)
     | Some q \<Rightarrow> (\<forall>t. tx = Some t \<longrightarrow> fst (lock_exclusive t r (locks w)) \<and> (let l = snd (lock_exclusive t r (locks w)) in
           if q = r then has_lock w' = Lock_Safety.holds l
           else fst (lock_exclusive t q l) \<and> has_lock w' = Lock_Safety.holds (snd (lock_exclusive t q l)))) \<and> (\<exists>qs. updated P (wpool w) (table_first_page tb) r bs q qs (wpool w')) \<and>
         (\<forall>t. undo_log_of t w' =
            (if tx = Some t then map_option (\<lambda>us. us @ [RestoreUndoRecord tb r old, DeleteUndoRecord tb q]) (undo_log_of t w)
             else undo_log_of t w))) \<and>
     tables (tx_data w') = tables (tx_data w) \<and> catalog_table (tx_data w') = catalog_table (tx_data w)"

lemma tx_push_two_run:
  "\<exists>w'. and_then (tx_push tx u) (\<lambda>_. and_then (tx_push tx v) (\<lambda>_. ret x)) w = (Inr x, w') \<and> tx_data w' = tx_data w \<and> has_lock w' = has_lock w \<and>
    (\<forall>t. undo_log_of t w' = (if tx = Some t then map_option (\<lambda>us. us @ [u, v]) (undo_log_of t w) else undo_log_of t w))"
proof -
  obtain w1 where 1: "tx_push tx u w = (Inr (), w1)" "tx_data w1 = tx_data w" "has_lock w1 = has_lock w"
    "\<forall>t. undo_log_of t w1 = (if tx = Some t then map_option (\<lambda>us. us @ [u]) (undo_log_of t w) else undo_log_of t w)"
    using tx_push_run by blast
  obtain w2 where 2: "tx_push tx v w1 = (Inr (), w2)" "tx_data w2 = tx_data w1" "has_lock w2 = has_lock w1"
    "\<forall>t. undo_log_of t w2 = (if tx = Some t then map_option (\<lambda>us. us @ [v]) (undo_log_of t w1) else undo_log_of t w1)"
    using tx_push_run by blast
  show ?thesis
    using 1(2-4) 2(2-4)
    by (intro exI [of _ w2]) (auto simp: and_then_Inr [of "tx_push tx u" w, OF 1(1)] and_then_Inr [of "tx_push tx v" w1, OF 2(1)] option.map_comp o_def)
qed

lemma table_update_run:
  assumes st: "list_all2 storable (table_schema tb) vs" and u: "updatable (wpool w) (table_first_page tb) ps r (row_bytes (table_schema tb) vs)"
    and row: "pool_rows (wpool w) r = Some old" "old \<noteq> []"
    and h: "held {} P (wpool w)" and P: "size P + 1 < pool_capacity (wpool w)" and wf: "pages_wf (wpool w)"
  shows "\<exists>m w'. table_update tb r \<lparr>tvalues = vs, tschema = table_schema tb\<rparr> tx w = (Inr m, w') \<and>
    after_update P tb r old (row_bytes (table_schema tb) vs) tx w m w'"
proof -
  let ?bs = "row_bytes (table_schema tb) vs" and ?t = "\<lparr>tvalues = vs, tschema = table_schema tb\<rparr>" and ?b = "wpool w"
  have r: "rid_page r \<in> bpm_pages ?b" using row(1) by (auto simp: pool_rows_def split: if_splits)
  have wfp: "wf_page (bpm_view ?b (rid_page r))" and P': "size P < pool_capacity ?b" using wf r P by (simp_all add: pages_wf_def)
  obtain ok l where l: "tx_lock lock_exclusive tx r w = (Inr ok, w\<lparr>locks := l\<rparr>)" "\<forall>t. undo_log_of t (w\<lparr>locks := l\<rparr>) = undo_log_of t w"
    "\<not> ok \<longrightarrow> (\<exists>t. tx = Some t \<and> \<not> fst (lock_exclusive t r (locks w)))"
    "\<forall>t. tx = Some t \<longrightarrow> ok = fst (lock_exclusive t r (locks w)) \<and> l = snd (lock_exclusive t r (locks w))" using tx_lock_exclusive_run [of tx r w] by blast
  let ?w = "w\<lparr>locks := l\<rparr>"
  obtain d where "heap_get r ?b = (Inr (case pool_rows ?b r of None \<Rightarrow> None | Some t \<Rightarrow> if t = [] then None else Some t), d)"
    and g: "page_changed P ?b (rid_page r) (bpm_view ?b (rid_page r)) d" using heap_get_ok [OF h r P' wfp] unfolding page_row [OF r] by blast
  then have hg: "heap_get r ?b = (Inr (Some old), d)" using row by simp
  have D: "held {} P d" "bpm_view d = bpm_view ?b" "bpm_pages d = bpm_pages ?b" "pool_capacity d = pool_capacity ?b" "disk_room (bdisk d) = disk_room (bdisk ?b)"
    using g by (simp_all add: page_changed_def pool_shape_def disk_room_def)
  have rows: "pool_rows d = pool_rows ?b" by (rule pool_rows_cong [OF D(2,3)])
  have "updatable d (table_first_page tb) ps r ?bs" using u by (simp add: updatable_def D rows)
  from heap_update_ok [OF this _ D(1)] row(1) P wf obtain q qs e where e: "heap_update (table_first_page tb) r ?bs d = (Inr (Some q), e)"
    "updated P d (table_first_page tb) r ?bs q qs e" by (auto simp: rows D pages_wf_def)
  note U = updated_cong [OF D(2-4) e(2)]
  have og: "on_pool (heap_get r) ?w = (Inr (Some old), put_pool d ?w)" by (rule on_pool_run) (simp add: hg)
  have ou: "on_pool (heap_update (table_first_page tb) r ?bs) (put_pool d ?w) = (Inr (Some q), put_pool e ?w)"
    using on_pool_run [of "heap_update (table_first_page tb) r ?bs" "put_pool d ?w"] e(1) by simp
  obtain ok2 l2 where l2: "(if q \<noteq> r then tx_lock lock_exclusive tx q else ret True) (put_pool e ?w) = (Inr ok2, (put_pool e ?w)\<lparr>locks := l2\<rparr>)"
    "\<forall>t. undo_log_of t ((put_pool e ?w)\<lparr>locks := l2\<rparr>) = undo_log_of t ?w" "\<not> ok2 \<longrightarrow> q \<noteq> r \<and> (\<exists>t. tx = Some t \<and> \<not> fst (lock_exclusive t q l))"
    "\<forall>t. tx = Some t \<longrightarrow> (if q = r then l2 = l else ok2 = fst (lock_exclusive t q l) \<and> l2 = snd (lock_exclusive t q l))"
  proof (cases "q = r")
    case True
    then show thesis using that [of True l] by simp
  next
    case False
    then show thesis using tx_lock_exclusive_run [of tx q "put_pool e ?w"] that by auto
  qed
  let ?v = "(put_pool e ?w)\<lparr>locks := l2\<rparr>"
  let ?push = "and_then (tx_push tx (RestoreUndoRecord tb r old)) (\<lambda>_. and_then (tx_push tx (DeleteUndoRecord tb q)) (\<lambda>_. ret (Some q)))"
  have "(if q \<noteq> r then DeleteUndoRecord tb q else DeleteUndoRecord tb r) = DeleteUndoRecord tb q" by simp
  then have run: "table_update tb r ?t tx w = (if \<not> ok then (Inr None, ?w) else if \<not> ok2 then (Inr None, ?v) else ?push ?v)"
    by (simp add: table_update_def compatible_with_def and_then_Inr [of "tx_lock lock_exclusive tx r" w, OF l(1)]
        and_then_Inr [of "on_pool (heap_get r)" ?w, OF og] tuple_serialize_storable [OF st]
        and_then_Inr [of "on_pool (heap_update (table_first_page tb) r ?bs)" "put_pool d ?w", OF ou]
        and_then_Inr [of "if q \<noteq> r then tx_lock lock_exclusive tx q else ret True" "put_pool e ?w", OF l2(1)] del: put_pool_simps)
  show ?thesis
  proof (cases "ok \<and> ok2")
    case False
    let ?w' = "if ok then ?v else ?w"
    have "table_update tb r ?t tx w = (Inr None, ?w')"
      using False run by auto
    moreover have "after_update P tb r old ?bs tx w None ?w'"
      using False l(2-4) l2(2,3) U by (auto simp: after_update_def)
    ultimately show ?thesis by blast
  next
    case True
    obtain w' where w': "and_then (tx_push tx (RestoreUndoRecord tb r old)) (\<lambda>_. and_then (tx_push tx (DeleteUndoRecord tb q)) (\<lambda>_. ret (Some q))) ?v
        = (Inr (Some q), w')" "tx_data w' = tx_data ?v" "has_lock w' = has_lock ?v"
      "\<forall>t. undo_log_of t w' = (if tx = Some t then map_option (\<lambda>us. us @ [RestoreUndoRecord tb r old, DeleteUndoRecord tb q]) (undo_log_of t ?v)
         else undo_log_of t ?v)"
      using tx_push_two_run [of tx "RestoreUndoRecord tb r old" "DeleteUndoRecord tb q" "Some q" ?v] by (elim exE conjE) (rule that)
    have "table_update tb r ?t tx w = (Inr (Some q), w')" using True w'(1) run by simp
    moreover have "after_update P tb r old ?bs tx w (Some q) w'"
      using w'(2-4) l(2,4) l2(2,4) U True by (auto simp: after_update_def Let_def)
    ultimately show ?thesis by blast
  qed
qed


section \<open>One row replaced\<close>

lemma updated_heap:
  assumes u: "updated P b p r t q qs e" and hb: "heap_pages (bpm_view b) (bpm_pages b) p ps"
  obtains xs where "qs = ps @ xs" "set xs \<inter> bpm_pages b = {}"
proof -
  have "grown b e" "heap_pages (bpm_view e) (bpm_pages e) p qs" using u by (simp_all add: updated_def)
  then show thesis using grown_heap [OF _ hb] heap_pages_unique that by metis
qed

lemma updated_rows_from:
  assumes u: "updated P b p r t q qs e" and hb: "heap_pages (bpm_view b) (bpm_pages b) p ps" and row: "pool_rows b r = Some old" and r: "rid_page r \<in> set ps"
  shows "\<exists>R. mset (rows_from (bpm_view b) ps 0) = add_mset (r, old) R \<and> mset (rows_from (bpm_view e) qs 0) = add_mset (q, t) R"
proof -
  let ?G = "\<lambda>b ps. Map.graph (heap_row (bpm_view b) ps)"
  obtain xs where qs: "qs = ps @ xs" "set xs \<inter> bpm_pages b = {}" by (rule updated_heap [OF u hb])
  have he: "heap_pages (bpm_view e) (bpm_pages e) p qs" and U: "pool_rows e = (pool_rows b)(r := None, q := Some t)" "q = r \<or> pool_rows b q = None" "rid_page q \<in> set qs"
    using u by (simp_all add: updated_def)
  have none: "pool_rows b x = None" if "rid_page x \<in> set xs" for x using qs(2) that by (auto simp: pool_rows_def)
  have "heap_row (bpm_view e) qs = (heap_row (bpm_view b) ps)(r := None, q := Some t)"
    using none r U(3) by (auto simp: fun_eq_iff heap_row_pool [OF hb] heap_row_pool [OF he, unfolded qs(1)] U(1) qs(1))
  then have G: "?G e qs = insert (q, t) (?G b ps - {(r, old)})" "(r, old) \<in> ?G b ps" "(q, t) \<notin> ?G b ps - {(r, old)}"
    using row r U(2) by (auto simp: Map.graph_def heap_row_pool [OF hb] split: if_splits)
  note f = rows_mset [OF hb]
  have "mset_set (?G b ps) = add_mset (r, old) (mset_set (?G b ps - {(r, old)}))" using mset_set.remove [OF f(2) G(2)] .
  then show ?thesis using f G(1,3) rows_mset(1) [OF he] by (intro exI [of _ "mset_set (?G b ps - {(r, old)})"]) simp
qed

lemma updated_table_rows:
  assumes u: "updated P b (table_first_page tb) r bs q qs e" and hb: "heap_pages (bpm_view b) (bpm_pages b) (table_first_page tb) ps"
    and row: "pool_rows b r = Some old" and r: "rid_page r \<in> set ps" and t: "tuple_deserialize old (table_schema tb) = Inr t"
    and d: "tuple_deserialize bs (table_schema tb) = Inr \<lparr>tvalues = vs, tschema = table_schema tb\<rparr>" and rows: "table_rows b tb rows"
  shows "\<exists>rows' rest. table_rows e tb rows' \<and> mset rows = add_mset (tvalues t) rest \<and> mset rows' = add_mset vs rest"
proof -
  let ?s = "table_schema tb" and ?old = "rows_from (bpm_view b) ps 0" and ?new = "rows_from (bpm_view e) qs 0"
  obtain R where m: "mset ?old = add_mset (r, old) R" "mset ?new = add_mset (q, bs) R" using updated_rows_from [OF u hb row r] by blast
  have he: "heap_pages (bpm_view e) (bpm_pages e) (table_first_page tb) qs" using u by (simp add: updated_def)
  have dec: "\<forall>x\<in>set ?old. \<exists>z. tuple_deserialize (snd x) ?s = Inr z" "rows = map (decoded ?s) ?old"
    using rows unfolding table_rows_iff [OF hb] decodes_iff by auto
  have "set ?new \<subseteq> insert (q, bs) (set ?old)" using arg_cong [OF m(1), of set_mset] arg_cong [OF m(2), of set_mset] by auto
  then have "table_rows e tb (map (decoded ?s) ?new)" using dec(1) d unfolding table_rows_iff [OF he] decodes_iff by auto
  then show ?thesis
    using m t d by (intro exI [of _ "map (decoded ?s) ?new"] exI [of _ "image_mset (decoded ?s) R"]) (simp add: dec(2) decoded_def)
qed


lemma updated_elsewhere:
  assumes u: "updated P b p r t q qs e" and hb: "heap_pages (bpm_view b) (bpm_pages b) p ps"
    and o: "heap_pages (bpm_view b) (bpm_pages b) (table_first_page tb) os" "set os \<inter> set ps = {}" and rows: "table_rows b tb rows"
  shows "table_rows e tb rows"
proof -
  have U: "grown b e" "heap_pages (bpm_view e) (bpm_pages e) p qs" "rid_page r \<in> set qs" "rid_page q \<in> set qs" "pool_rows e = (pool_rows b)(r := None, q := Some t)"
    using u by (simp_all add: updated_def)
  obtain xs where x: "heap_pages (bpm_view e) (bpm_pages e) (table_first_page tb) (os @ xs)" using grown_heap [OF U(1) o(1)] by blast
  have "set (os @ xs) \<inter> set qs = {}" by (rule grown_apart [OF U(1) o(1) hb o(2) x U(2)])
  then have "pool_rows e y = pool_rows b y" if "rid_page y \<in> set (os @ xs)" for y using that U(3-5) by auto
  then show ?thesis by (rule grown_table_rows [OF U(1) rows x])
qed

text \<open>One row of a table replaced by another, the other tables untouched.\<close>

definition row_replaced :: "table \<Rightarrow> page_id list \<Rightarrow> rid \<Rightarrow> row \<Rightarrow> rid \<Rightarrow> row \<Rightarrow> bpm \<Rightarrow> bpm \<Rightarrow> bool" where
  "row_replaced tb ps r old q new b e \<longleftrightarrow>
     pool_rows e q = Some (row_bytes (table_schema tb) new) \<and> (q \<noteq> r \<longrightarrow> pool_rows e r = None) \<and>
     (\<forall>rows. table_rows b tb rows \<longrightarrow>
        (\<exists>rows' rest. table_rows e tb rows' \<and> mset rows = add_mset old rest \<and> mset rows' = add_mset new rest)) \<and>
     (\<forall>tb' os rows. heap_pages (bpm_view b) (bpm_pages b) (table_first_page tb') os \<and> set os \<inter> set ps = {} \<and>
        table_rows b tb' rows \<longrightarrow> table_rows e tb' rows)"

lemma updated_replaces:
  assumes u: "updated P b (table_first_page tb) r (row_bytes (table_schema tb) vs) q qs e"
    and hp: "heap_pages (bpm_view b) (bpm_pages b) (table_first_page tb) ps" and r: "rid_page r \<in> set ps"
    and row: "pool_rows b r = Some old" "tuple_deserialize old (table_schema tb) = Inr t"
    and d: "tuple_deserialize (row_bytes (table_schema tb) vs) (table_schema tb) = Inr \<lparr>tvalues = vs, tschema = table_schema tb\<rparr>"
  shows "row_replaced tb ps r (tvalues t) q vs b e"
proof -
  have Q: "pool_rows e = (pool_rows b)(r := None, q := Some (row_bytes (table_schema tb) vs))" using u by (simp add: updated_def)
  show ?thesis
    unfolding row_replaced_def
    using updated_table_rows [OF u hp row(1) r row(2) d] updated_elsewhere [OF u hp] by (auto simp: Q)
qed


text \<open>A row of the same length is replaced in its slot.\<close>

definition other_row :: row where
  "other_row = [of_int32 9, null_value STRING, of_string ''cd'']"

lemma other_row_ok: "list_all2 storable sample_schema other_row"
  "length (row_bytes sample_schema other_row) = length (row_bytes sample_schema sample_row)" "row_bytes sample_schema sample_row \<noteq> []"
  by (simp_all add: sample_schema_def sample_row_def other_row_def storable_def of_value_defs null_value_def wf_value_def strip_nul_def
      row_bytes_def row_fields_def field_bytes_def payload_def bitmap_size_def is_fixed_size_def)


end
