(* ===== verification/Rollback.thy ===== *)
theory Rollback
  imports Table_Update
begin

text \<open>
  Rolling back inserts, deletes and updates. A deleted row goes back into its slot, so two things must
  hold at the rollback: the slot directory of its page has not grown since, as slots are never given
  back, and the page is still marked in the pool, as \<open>restore_tuple\<close> does not mark it.
\<close>

section \<open>Undoing a change of one row\<close>

inductive row_change :: "(store \<Rightarrow> bool) \<Rightarrow> (page_id \<Rightarrow> nat) \<Rightarrow> store \<Rightarrow> undo_record \<Rightarrow> store \<Rightarrow> bool" for ok N where
  Row_put: "pool_rows (pool s) r = None \<Longrightarrow> store_meaning s' = ((pool_rows (pool s))(r \<mapsto> bs), catalog_table s, tables s) \<Longrightarrow>
    ok s' \<Longrightarrow> row_change ok N s (DeleteUndoRecord tb r) s'"
| Row_out: "pool_rows (pool s) r = Some bs \<Longrightarrow> store_meaning s' = ((pool_rows (pool s))(r := None), catalog_table s, tables s) \<Longrightarrow>
    page_slots (bpm_view (pool s) (rid_page r)) = N (rid_page r) \<Longrightarrow> ok s' \<Longrightarrow> row_change ok N s (RestoreUndoRecord tb r bs) s'"

inductive_cases row_changeE: "row_change ok N s u s'"

fun undo_pages :: "undo_record \<Rightarrow> page_id set" where
  "undo_pages (DeleteUndoRecord tb r) = {rid_page r}"
| "undo_pages (RestoreUndoRecord tb r t) = {rid_page r}"
| "undo_pages (DropTableUndoRecord name) = {}"

definition ready_for :: "page_id set \<Rightarrow> (page_id \<Rightarrow> nat) \<Rightarrow> bpm \<Rightarrow> page_id multiset \<Rightarrow> store \<Rightarrow> bool" where
  "ready_for S N b P s \<longleftrightarrow> store_ok b P s \<and> (\<forall>p\<in>S. dirty_at (pool s) p) \<and> (\<forall>p\<in>S. page_slots (bpm_view (pool s) p) = N p)"

lemma ready_changed:
  assumes t: "ready_for S N b P t" and c: "page_changed P (pool t) (rid_page r) z c" and z: "wf_page z"
    "sp_next z = sp_next (bpm_view (pool t) (rid_page r))" "tuple_at z = (tuple_at (bpm_view (pool t) (rid_page r)))(unat (rid_slot r) := x)"
    "page_slots z = page_slots (bpm_view (pool t) (rid_page r))"
    and r: "rid_page r \<in> bpm_pages (pool t)" and d: "\<forall>p\<in>S. dirty_at c p"
  shows "ready_for S N b P (t\<lparr>pool := c\<rparr>)" "store_meaning (t\<lparr>pool := c\<rparr>) = ((pool_rows (pool t))(r := x), catalog_table t, tables t)"
proof -
  note R = row_changed_pages [OF c z(1-3) disjI2 [OF r]]
  have e: "held {} P c" "pool_capacity c = pool_capacity (pool t)" "bpm_view c = (bpm_view (pool t))(rid_page r := z)"
    using c by (simp_all add: page_changed_def pool_shape_def)
  have "store_ok b P (t\<lparr>pool := c\<rparr>)" using t e(1,2) R(1,2) grown_trans by (auto simp: ready_for_def store_ok_def)
  then show "ready_for S N b P (t\<lparr>pool := c\<rparr>)" using t d z(4) by (simp add: ready_for_def e(3))
  show "store_meaning (t\<lparr>pool := c\<rparr>) = ((pool_rows (pool t))(r := x), catalog_table t, tables t)"
    using R(3) by (simp add: store_meaning_def)
qed

lemma undo_row_put:
  assumes t: "ready_for S N b P t" and r: "pool_rows (pool t) r = Some bs" "rid_page r \<in> S"
  shows "\<exists>t'. undo (DeleteUndoRecord tb r) t = (Inr (), t') \<and> ready_for S N b P t' \<and>
    store_meaning t' = ((pool_rows (pool t))(r := None), catalog_table t, tables t)"
proof -
  have rp: "rid_page r \<in> bpm_pages (pool t)" using r(1) by (auto simp: pool_rows_def split: if_splits)
  have h: "held {} P (pool t)" "size P < pool_capacity (pool t)" "wf_page (bpm_view (pool t) (rid_page r))"
    and d: "\<forall>p\<in>S. dirty_at (pool t) p"
    using t rp by (auto simp: ready_for_def store_ok_def pages_wf_def)
  obtain x z c where z: "heap_delete r (pool t) = (Inr x, c)" "page_changed P (pool t) (rid_page r) z c" "wf_page z"
    "sp_next z = sp_next (bpm_view (pool t) (rid_page r))"
    "tuple_at z = (tuple_at (bpm_view (pool t) (rid_page r)))(unat (rid_slot r) := None)"
    "page_slots z = page_slots (bpm_view (pool t) (rid_page r))"
    using heap_delete_ok [OF h(1) rp h(2,3)] by blast
  note R = ready_changed [OF t z(2-6) rp keepsD [OF row_op_dirty(1) [OF r(2)] d z(1)]]
  have "store_pool (heap_delete r) t = (Inr x, t\<lparr>pool := c\<rparr>)" using z(1) by (simp add: store_pool_def zoom_def)
  then have "undo (DeleteUndoRecord tb r) t = (Inr (), t\<lparr>pool := c\<rparr>)" by (simp add: and_then_Inr [of "store_pool (heap_delete r)" t])
  then show ?thesis using R by blast
qed

lemma slots_bounded: "\<not> i < 2 ^ 16 \<Longrightarrow> tuple_at d i = None"
proof -
  have "unat (sp_count d) < 2 ^ 16" using unsigned_less [of "sp_count d"] by simp
  moreover assume "\<not> i < 2 ^ 16"
  ultimately have "\<not> i < page_slots d" unfolding page_slots_def by linarith
  then show "tuple_at d i = None" using live_less [of d i] by (auto simp: tuple_at_None)
qed

lemma undo_row_out:
  assumes t: "ready_for S N b P t" and s: "pages_wf (pool s)" "pool_rows (pool s) r = Some bs"
    "page_slots (bpm_view (pool s) (rid_page r)) = N (rid_page r)"
    and rows: "pool_rows (pool t) = (pool_rows (pool s))(r := None)" and r: "rid_page r \<in> S" "rid_page r \<in> bpm_pages (pool t)"
  shows "\<exists>t'. undo (RestoreUndoRecord tb r bs) t = (Inr (), t') \<and> ready_for S N b P t' \<and>
    store_meaning t' = (pool_rows (pool s), catalog_table t, tables t)"
proof -
  let ?p = "rid_page r"
  have sp: "?p \<in> bpm_pages (pool s)" using s(2) by (auto simp: pool_rows_def split: if_splits)
  have h: "held {} P (pool t)" "size P < pool_capacity (pool t)" "wf_page (bpm_view (pool t) ?p)"
    and d: "\<forall>p\<in>S. dirty_at (pool t) p" and n: "page_slots (bpm_view (pool t) ?p) = N ?p"
    using t r by (auto simp: ready_for_def store_ok_def pages_wf_def)
  have wf: "wf_page (bpm_view (pool s) ?p)" using s(1) sp by (simp add: pages_wf_def)
  have "tuple_at (bpm_view (pool t) ?p) i = ((tuple_at (bpm_view (pool s) ?p))(unat (rid_slot r) := None)) i" for i
  proof (cases "i < 2 ^ 16")
    case True
    let ?x = "\<lparr>rid_page = ?p, rid_slot = of_nat i\<rparr>"
    have i: "unat (rid_slot ?x) = i" using True by (simp add: unat_of_nat)
    then have "?x = r \<longleftrightarrow> i = unat (rid_slot r)" by (cases r) auto
    then show ?thesis using fun_cong [OF rows, of ?x] i sp r(2) by (auto simp: pool_rows_def split: if_splits)
  next
    case False
    then show ?thesis using slots_bounded [of i] by simp
  qed
  then have e: "tuple_at (bpm_view (pool t) ?p) = (tuple_at (bpm_view (pool s) ?p))(unat (rid_slot r) := None)" by (rule ext)
  have "restorable (bpm_view (pool t) ?p) (rid_slot r) bs"
    using restorable_deleted [OF wf h(3) e] s(2,3) n sp by (simp add: pool_rows_def)
  from heap_restore_ok [OF h(1) r(2) h(2,3) this] d r(1) obtain z c where
    z: "heap_restore r bs (pool t) = (Inr (), c)" "page_changed P (pool t) ?p z c" "wf_page z" "sp_next z = sp_next (bpm_view (pool t) ?p)"
    "tuple_at z = (tuple_at (bpm_view (pool t) ?p))(unat (rid_slot r) := Some bs)" "page_slots z = page_slots (bpm_view (pool t) ?p)" by blast
  note R = ready_changed [OF t z(2-6) r(2) keepsD [OF row_op_dirty(2) [OF r(1)] d z(1)]]
  have "undo (RestoreUndoRecord tb r bs) t = (Inr (), t\<lparr>pool := c\<rparr>)" using z(1) by (simp add: store_pool_def zoom_def)
  moreover have "(pool_rows (pool t))(r := Some bs) = pool_rows (pool s)" using s(2) by (simp add: rows fun_eq_iff)
  ultimately show ?thesis using R by auto
qed

interpretation logged_undo: undo_when_ready undo "\<lambda>s u s'. row_change (store_ok b P) N s u s' \<and> undo_pages u \<subseteq> S"
  "store_ok b P" "ready_for S N b P" store_meaning for S N b P
proof (unfold_locales, goal_cases)
  case (1 s u s')
  then show ?case by (auto elim: row_changeE)
next
  case (2 s u s' t)
  have P: "pages_wf (pool s)" using 2(1) by (simp add: store_ok_def)
  from 2(2) have c: "row_change (store_ok b P) N s u s'" and S: "undo_pages u \<subseteq> S" by simp_all
  from c show ?case
  proof (rule row_changeE)
    fix r bs tb
    assume r: "u = DeleteUndoRecord tb r" "pool_rows (pool s) r = None"
      "store_meaning s' = ((pool_rows (pool s))(r \<mapsto> bs), catalog_table s, tables s)"
    then have t: "pool_rows (pool t) = (pool_rows (pool s))(r \<mapsto> bs)" "catalog_table t = catalog_table s" "tables t = tables s"
      using 2(4) by (simp_all add: store_meaning_def)
    then have "pool_rows (pool t) r = Some bs" by simp
    from undo_row_put [OF 2(3) this] S r(1) obtain t' where "undo u t = (Inr (), t')" "ready_for S N b P t'"
      "store_meaning t' = ((pool_rows (pool t))(r := None), catalog_table t, tables t)" by auto
    moreover have "(pool_rows (pool t))(r := None) = pool_rows (pool s)" using r(2) by (simp add: t(1) fun_eq_iff)
    ultimately show ?case using t(2,3) by (simp add: store_meaning_def)
  next
    fix r bs tb
    assume r: "u = RestoreUndoRecord tb r bs" "pool_rows (pool s) r = Some bs"
      "store_meaning s' = ((pool_rows (pool s))(r := None), catalog_table s, tables s)"
      "page_slots (bpm_view (pool s) (rid_page r)) = N (rid_page r)"
    then have t: "pool_rows (pool t) = (pool_rows (pool s))(r := None)" "catalog_table t = catalog_table s" "tables t = tables s"
      using 2(4) by (simp_all add: store_meaning_def)
    have S: "rid_page r \<in> S" using S r(1) by simp
    have "dirty_at (pool t) (rid_page r)" "held {} P (pool t)" using 2(3) S by (auto simp: ready_for_def store_ok_def)
    then have "rid_page r \<in> bpm_pages (pool t)" using mappedD(6) [OF heldD(1)] by (metis dirty_at_def)
    from undo_row_out [OF 2(3) P r(2,4) t(1) S this, of tb] show ?case using r(1) t(2,3) by (simp add: store_meaning_def)
  qed
qed

text \<open>The records of a log are about the pages of the log.\<close>

lemma changes_logged: "changes c s us s' \<Longrightarrow> \<Union> (undo_pages ` set us) \<subseteq> S \<Longrightarrow> changes (\<lambda>s u s'. c s u s' \<and> undo_pages u \<subseteq> S) s us s'"
  by (induction rule: changes.induct) (auto intro: changes.intros)

section \<open>Transactions\<close>

text \<open>
  Transaction \<open>t\<close> inserts, deletes and updates rows of tables, one after the other. \<open>N\<close> is the size of
  the slot directories at its end: it has grown on no page since a row was deleted or updated there.
\<close>

inductive tx_changes :: "(page_id \<Rightarrow> nat) \<Rightarrow> transaction_id \<Rightarrow> world \<Rightarrow> world \<Rightarrow> bool" for N t where
  Tx_nothing: "tx_changes N t w w"
| Tx_insert: "tx_changes N t w v \<Longrightarrow> list_all2 storable (table_schema tb) vs \<Longrightarrow>
    insertable (wpool v) (table_first_page tb) ps (row_bytes (table_schema tb) vs) \<Longrightarrow>
    table_insert tb \<lparr>tvalues = vs, tschema = table_schema tb\<rparr> (Some t) v = (Inr (Some r), w') \<Longrightarrow> tx_changes N t w w'"
| Tx_delete: "tx_changes N t w v \<Longrightarrow> pool_rows (wpool v) r = Some bs \<Longrightarrow> bs \<noteq> [] \<Longrightarrow>
    page_slots (bpm_view (wpool v) (rid_page r)) = N (rid_page r) \<Longrightarrow>
    table_delete tb r (Some t) v = (Inr True, w') \<Longrightarrow> tx_changes N t w w'"
| Tx_update: "tx_changes N t w v \<Longrightarrow> list_all2 storable (table_schema tb) vs \<Longrightarrow>
    updatable (wpool v) (table_first_page tb) ps r (row_bytes (table_schema tb) vs) \<Longrightarrow>
    pool_rows (wpool v) r = Some bs \<Longrightarrow> bs \<noteq> [] \<Longrightarrow> page_slots (bpm_view (wpool v) (rid_page r)) = N (rid_page r) \<Longrightarrow>
    table_update tb r \<lparr>tvalues = vs, tschema = table_schema tb\<rparr> (Some t) v = (Inr (Some q), w') \<Longrightarrow> tx_changes N t w w'"

text \<open>A change of one operation, with the records it has pushed.\<close>

lemma insert_changes:
  assumes v: "store_ok b P (tx_data v)" and st: "list_all2 storable (table_schema tb) vs"
    and i: "insertable (wpool v) (table_first_page tb) ps (row_bytes (table_schema tb) vs)"
    and run: "table_insert tb \<lparr>tvalues = vs, tschema = table_schema tb\<rparr> (Some t) v = (Inr (Some r), w')"
  shows "row_change (store_ok b P) N (tx_data v) (DeleteUndoRecord tb r) (tx_data w')"
    "undo_log_of t w' = map_option (\<lambda>us. us @ [DeleteUndoRecord tb r]) (undo_log_of t v)"
proof -
  let ?bs = "row_bytes (table_schema tb) vs"
  have V: "held {} P (wpool v)" "size P + 1 < pool_capacity (wpool v)" "pages_wf (wpool v)" using v by (simp_all add: store_ok_def)
  have a: "after_insert P tb ps ?bs (Some t) v (Some r) w'" using table_insert_run [OF st i V(1,2), of "Some t"] run by auto
  then obtain qs where q: "inserted P (wpool v) (table_first_page tb) ps ?bs r qs (wpool w')" by (auto simp: after_insert_def)
  have hp: "heap_pages (bpm_view (wpool v)) (bpm_pages (wpool v)) (table_first_page tb) ps" using i by (simp add: insertable_def)
  note I = inserted_pages [OF q hp]
  have "store_ok b P (tx_data w')" using v q I(1,2) grown_trans by (auto simp: store_ok_def inserted_def)
  then show "row_change (store_ok b P) N (tx_data v) (DeleteUndoRecord tb r) (tx_data w')"
    using I(3,4) a by (intro Row_put) (simp_all add: store_meaning_def after_insert_def)
  show "undo_log_of t w' = map_option (\<lambda>us. us @ [DeleteUndoRecord tb r]) (undo_log_of t v)" using a by (simp add: after_insert_def)
qed

lemma delete_changes:
  assumes v: "store_ok b P (tx_data v)" and row: "pool_rows (wpool v) r = Some bs" "bs \<noteq> []"
    and n: "page_slots (bpm_view (wpool v) (rid_page r)) = N (rid_page r)" and run: "table_delete tb r (Some t) v = (Inr True, w')"
  shows "row_change (store_ok b P) N (tx_data v) (RestoreUndoRecord tb r bs) (tx_data w')"
    "undo_log_of t w' = map_option (\<lambda>us. us @ [RestoreUndoRecord tb r bs]) (undo_log_of t v)"
proof -
  have V: "held {} P (wpool v)" "size P < pool_capacity (wpool v)" "pages_wf (wpool v)" using v by (simp_all add: store_ok_def)
  note D = table_delete_run [OF V row, of tb "Some t", unfolded run]
  have "store_ok b P (tx_data w')" using v D grown_trans by (auto simp: store_ok_def pool_shape_def)
  then show "row_change (store_ok b P) N (tx_data v) (RestoreUndoRecord tb r bs) (tx_data w')"
    using D by (intro Row_out [where N = N, OF row(1) _ n]) (auto simp: store_meaning_def)
  show "undo_log_of t w' = map_option (\<lambda>us. us @ [RestoreUndoRecord tb r bs]) (undo_log_of t v)" using D by auto
qed

text \<open>An update is a delete followed by an insert; the store in between is that of a delete of the row.\<close>

lemma update_changes:
  assumes v: "store_ok b P (tx_data v)" and st: "list_all2 storable (table_schema tb) vs"
    and u: "updatable (wpool v) (table_first_page tb) ps r (row_bytes (table_schema tb) vs)"
    and row: "pool_rows (wpool v) r = Some bs" "bs \<noteq> []" and n: "page_slots (bpm_view (wpool v) (rid_page r)) = N (rid_page r)"
    and run: "table_update tb r \<lparr>tvalues = vs, tschema = table_schema tb\<rparr> (Some t) v = (Inr (Some q), w')"
  shows "\<exists>s. row_change (store_ok b P) N (tx_data v) (RestoreUndoRecord tb r bs) s \<and>
      row_change (store_ok b P) N s (DeleteUndoRecord tb q) (tx_data w')"
    "undo_log_of t w' = map_option (\<lambda>us. us @ [RestoreUndoRecord tb r bs, DeleteUndoRecord tb q]) (undo_log_of t v)"
proof -
  let ?new = "row_bytes (table_schema tb) vs" and ?b = "wpool v"
  have V: "held {} P ?b" "size P + 1 < pool_capacity ?b" "pages_wf ?b" using v by (simp_all add: store_ok_def)
  have a: "after_update P tb r bs ?new (Some t) v (Some q) w'" using table_update_run [OF st u row V, of "Some t"] run by auto
  then obtain qs where q: "updated P ?b (table_first_page tb) r ?new q qs (wpool w')" by (auto simp: after_update_def)
  have r: "rid_page r \<in> bpm_pages ?b" "wf_page (bpm_view ?b (rid_page r))" "size P < pool_capacity ?b"
    using row(1) V by (auto simp: pool_rows_def pages_wf_def split: if_splits)
  obtain x z c where z: "heap_delete r ?b = (Inr x, c)" "page_changed P ?b (rid_page r) z c" "wf_page z"
    "sp_next z = sp_next (bpm_view ?b (rid_page r))" "tuple_at z = (tuple_at (bpm_view ?b (rid_page r)))(unat (rid_slot r) := None)"
    using heap_delete_ok [OF V(1) r(1,3,2)] by blast
  note D = deleted_pages [OF z(2-5)]
  let ?s = "(tx_data v)\<lparr>pool := c\<rparr>"
  have "store_ok b P ?s" using v z(2) D(1,2) grown_trans by (auto simp: store_ok_def page_changed_def pool_shape_def)
  then have "row_change (store_ok b P) N (tx_data v) (RestoreUndoRecord tb r bs) ?s"
    using D(3) by (intro Row_out [where N = N, OF row(1) _ n]) (simp_all add: store_meaning_def)
  moreover have "store_ok b P (tx_data w')" using v q grown_trans by (auto simp: store_ok_def updated_def)
  then have "row_change (store_ok b P) N ?s (DeleteUndoRecord tb q) (tx_data w')"
    using q D(3) a by (intro Row_put) (auto simp: store_meaning_def updated_def after_update_def)
  ultimately show "\<exists>s. row_change (store_ok b P) N (tx_data v) (RestoreUndoRecord tb r bs) s \<and>
      row_change (store_ok b P) N s (DeleteUndoRecord tb q) (tx_data w')" by blast
  show "undo_log_of t w' = map_option (\<lambda>us. us @ [RestoreUndoRecord tb r bs, DeleteUndoRecord tb q]) (undo_log_of t v)"
    using a by (simp add: after_update_def)
qed

lemma tx_changes_changes:
  "tx_changes N t w w' \<Longrightarrow> store_ok b P (tx_data w) \<Longrightarrow> undo_log_of t w = Some [] \<Longrightarrow>
   \<exists>us. changes (row_change (store_ok b P) N) (tx_data w) us (tx_data w') \<and> store_ok b P (tx_data w') \<and> undo_log_of t w' = Some us"
proof (induction rule: tx_changes.induct)
  case (Tx_nothing w)
  then show ?case by (intro exI [of _ "[]"]) (auto intro: changes.intros)
next
  case (Tx_insert w v tb vs ps r w')
  then obtain us where us: "changes (row_change (store_ok b P) N) (tx_data w) us (tx_data v)" "store_ok b P (tx_data v)" "undo_log_of t v = Some us"
    by blast
  note C = insert_changes [OF us(2) Tx_insert.hyps(2-4)]
  then show ?case using One_more [OF us(1) C(1)] us(3) by (auto elim: row_changeE)
next
  case (Tx_delete w v r bs tb w')
  then obtain us where us: "changes (row_change (store_ok b P) N) (tx_data w) us (tx_data v)" "store_ok b P (tx_data v)" "undo_log_of t v = Some us"
    by blast
  note C = delete_changes [where N = N, OF us(2) Tx_delete.hyps(2-5)]
  then show ?case using One_more [OF us(1) C(1)] us(3) by (auto elim: row_changeE)
next
  case (Tx_update w v tb vs ps r bs q w')
  then obtain us where us: "changes (row_change (store_ok b P) N) (tx_data w) us (tx_data v)" "store_ok b P (tx_data v)" "undo_log_of t v = Some us"
    by blast
  note C = update_changes [where N = N, OF us(2) Tx_update.hyps(2-7)]
  then obtain s where s: "row_change (store_ok b P) N (tx_data v) (RestoreUndoRecord tb r bs) s"
    "row_change (store_ok b P) N s (DeleteUndoRecord tb q) (tx_data w')" by blast
  then show ?case using One_more [OF One_more [OF us(1) s(1)] s(2)] C(2) us(3) by (auto elim: row_changeE)
qed

lemma rollback_changes_run:
  assumes h: "held {} P (wpool w)" and wf: "pages_wf (wpool w)" and P: "size P + 1 < pool_capacity (wpool w)"
    and b: "tm_begin w = (t, v)" and ch: "tx_changes (\<lambda>p. page_slots (bpm_view (wpool v') p)) t v v'"
    and d: "\<forall>us p. undo_log_of t v' = Some us \<longrightarrow> p \<in> \<Union> (undo_pages ` set us) \<longrightarrow> dirty_at (wpool v') p"
  shows "\<exists>w'. rollback_tx t v' = (Inr (), w') \<and> store_ok (wpool w) P (tx_data w') \<and> pool_rows (wpool w') = pool_rows (wpool w) \<and>
    tables (tx_data w') = tables (tx_data w) \<and> catalog_table (tx_data w') = catalog_table (tx_data w) \<and> t \<notin> active_txs w' \<and>
    (\<exists>x. txs (locks w') t = Some x \<and> tx_state x = ABORTED \<and> shared_locks x = {} \<and> exclusive_locks x = {})"
proof -
  let ?N = "\<lambda>p. page_slots (bpm_view (wpool v') p)"
  have v: "tx_data v = tx_data w" "undo_log_of t v = Some []" using b by (auto simp: tm_begin_def Let_def tx_object_def)
  have ok: "store_ok (wpool w) P (tx_data v)" using h wf P v(1) grown_refl by (simp add: store_ok_def)
  obtain us where us: "changes (row_change (store_ok (wpool w) P) ?N) (tx_data v) us (tx_data v')" "store_ok (wpool w) P (tx_data v')"
    "undo_log_of t v' = Some us" using tx_changes_changes [OF ch ok v(2)] by blast
  then obtain x where x: "txs (locks v') t = Some x" "undo_log x = us" by auto
  let ?S = "\<Union> (undo_pages ` set us)"
  have "ready_for ?S ?N (wpool w) P (tx_data v')" using us(2,3) d by (simp add: ready_for_def)
  from logged_undo.abort_restores [OF changes_logged [OF us(1) subset_refl] ok this x]
  obtain w' where w': "tm_abort undo t v' = (Inr (), w')" "ready_for ?S ?N (wpool w) P (tx_data w')" "store_meaning (tx_data w') = store_meaning (tx_data v)"
    by blast
  then show ?thesis using v(1) abort_ends [OF w'(1) x(1)] by (auto simp: rollback_tx_def store_meaning_def ready_for_def)
qed

text \<open>
  C5: Rolling back. A transaction that has inserted, deleted and updated rows of any tables is rolled
  back without an exception, and every table has the rows it had when the transaction began, in their
  order, the catalog is the same and no lock is left, if the pages its undo log names are still marked
  in the pool and no slot directory has grown since a row was taken out of its page.
\<close>

theorem rollback_undoes_changes:
  assumes h: "held {} P (wpool w)" and wf: "pages_wf (wpool w)" and P: "size P + 1 < pool_capacity (wpool w)"
    and b: "tm_begin w = (t, v)" and ch: "tx_changes (\<lambda>p. page_slots (bpm_view (wpool v') p)) t v v'"
    and d: "\<forall>us p. undo_log_of t v' = Some us \<longrightarrow> p \<in> \<Union> (undo_pages ` set us) \<longrightarrow> dirty_at (wpool v') p"
  shows "\<exists>w'. rollback_tx t v' = (Inr (), w') \<and> held {} P (wpool w') \<and>
    (\<forall>tb rows. table_rows (wpool w) tb rows \<longrightarrow> table_rows (wpool w') tb rows) \<and>
    tables (tx_data w') = tables (tx_data w) \<and> catalog_table (tx_data w') = catalog_table (tx_data w) \<and> t \<notin> active_txs w' \<and>
    (\<exists>x. txs (locks w') t = Some x \<and> tx_state x = ABORTED \<and> shared_locks x = {} \<and> exclusive_locks x = {})"
proof -
  obtain w' where w': "rollback_tx t v' = (Inr (), w')" "store_ok (wpool w) P (tx_data w')" "pool_rows (wpool w') = pool_rows (wpool w)"
    "tables (tx_data w') = tables (tx_data w)" "catalog_table (tx_data w') = catalog_table (tx_data w)" "t \<notin> active_txs w'"
    "\<exists>x. txs (locks w') t = Some x \<and> tx_state x = ABORTED \<and> shared_locks x = {} \<and> exclusive_locks x = {}"
    using rollback_changes_run [OF assms] by blast
  then have "grown (wpool w) (wpool w')" "held {} P (wpool w')" by (simp_all add: store_ok_def)
  then show ?thesis using w' same_table_rows [OF _ w'(3)] by blast
qed

theorem rollback_undoes_changes_witness:
  "\<exists>r w t v v' w'. table_insert first_table \<lparr>tvalues = sample_row, tschema = sample_schema\<rparr> None new_world = (Inr (Some r), w) \<and>
     tm_begin w = (t, v) \<and> table_delete first_table r (Some t) v = (Inr True, v') \<and>
     pool_rows (wpool v') r = None \<and> rollback_tx t v' = (Inr (), w') \<and> table_rows (wpool w') first_table [sample_row]"
proof -
  let ?S = "row_bytes sample_schema sample_row"
  obtain r w qs where w: "table_insert first_table \<lparr>tvalues = sample_row, tschema = sample_schema\<rparr> None new_world = (Inr (Some r), w)"
    "locks w = lock_init" "pool_rows (wpool w) r = Some ?S" "held {} {#} (wpool w)"
    "1 < pool_capacity (wpool w)" "pages_wf (wpool w)" "table_rows (wpool w) first_table [sample_row]" by (rule one_row_world)
  obtain t v where b: "tm_begin w = (t, v)" by fastforce
  then have v: "tx_data v = tx_data w" "locks v = \<lparr>lock_table = (\<lambda>_. []), txs = [t \<mapsto> tx_object], waiting = Map.empty\<rparr>"
    using w(2) by (auto simp: tm_begin_def Let_def lock_init_def)
  have log: "undo_log_of t v = Some []" by (simp add: v(2) tx_object_def)
  have lock: "fst (lock_exclusive t r (locks v))"
    by (simp add: v(2) lock_exclusive_def request_exclusive_def tx_object_def enqueue_def set_queue_def await_def)
  have V: "held {} {#} (wpool v)" "size {#} < pool_capacity (wpool v)" "pages_wf (wpool v)" "pool_rows (wpool v) r = Some ?S"
    using w(3-6) by (simp_all add: v(1))
  note run = table_delete_run [OF V(1-4) other_row_ok(3), of first_table "Some t"]
  from run lock obtain v' where del: "table_delete first_table r (Some t) v = (Inr True, v')" by (metis option.inject)
  have D: "pool_rows (wpool v') r = None \<and> dirty_at (wpool v') (rid_page r) \<and>
    (\<forall>p. page_slots (bpm_view (wpool v') p) = page_slots (bpm_view (wpool v) p)) \<and>
    undo_log_of t v' = map_option (\<lambda>us. us @ [RestoreUndoRecord first_table r ?S]) (undo_log_of t v)"
    using run unfolding del by (elim exE conjE) (simp split: if_splits)
  have n: "page_slots (bpm_view (wpool v) (rid_page r)) = page_slots (bpm_view (wpool v') (rid_page r))" using D by simp
  have ch: "tx_changes (\<lambda>p. page_slots (bpm_view (wpool v') p)) t v v'"
    by (rule Tx_delete [where N = "\<lambda>p. page_slots (bpm_view (wpool v') p)", OF Tx_nothing V(4) other_row_ok(3) n del])
  have "\<forall>us p. undo_log_of t v' = Some us \<longrightarrow> p \<in> \<Union> (undo_pages ` set us) \<longrightarrow> dirty_at (wpool v') p"
    using D log by auto
  from rollback_undoes_changes [OF w(4,6) _ b ch this] w(5) obtain w' where
    "rollback_tx t v' = (Inr (), w')" "table_rows (wpool w') first_table [sample_row]" using w(7) by auto
  moreover have "pool_rows (wpool v') r = None" using D by simp
  ultimately show ?thesis using w(1) b del by blast
qed

section \<open>Creating and dropping a table in one transaction\<close>

text \<open>
  \<open>drop_table\<close> pushes no undo record. When a transaction drops a table that it has created, its log
  still says that the table must be dropped, and the rollback fails on the assertion that it is there.
\<close>

lemma drop_then_rollback_fails:
  assumes x: "txs (locks w) t = Some x" "undo_log x = us @ [DropTableUndoRecord name]" and gone: "find_table name (tx_data w) = None"
  shows "\<exists>w'. rollback_tx t w = (Inl (Assert_failed ''it != tables_.end()''), w')"
proof -
  let ?w = "tx_set_state t SHRINKING w"
  have log: "(case txs (locks ?w) t of None \<Rightarrow> [] | Some x \<Rightarrow> undo_log x) = us @ [DropTableUndoRecord name]" "tx_data ?w = tx_data w"
    using x by (simp_all add: tx_set_state_def set_tx_def)
  have "undo (DropTableUndoRecord name) (tx_data w) = (Inl (Assert_failed ''it != tables_.end()''), tx_data w)"
    using gone by (simp add: rollback_create_table_def)
  then have "run_undo undo (rev (us @ [DropTableUndoRecord name])) (tx_data w) = (Inl (Assert_failed ''it != tables_.end()''), tx_data w)"
    by (simp add: and_then_Inl del: undo.simps)
  then have "tx_undo undo t ?w = (Inl (Assert_failed ''it != tables_.end()''), ?w)"
    using log by (simp add: tx_undo_def zoom_def del: undo.simps)
  then show ?thesis by (simp add: rollback_tx_def tm_abort_def and_then_Inl)
qed

end
