(* ===== verification/Abstract_Database.thy ===== *)
theory Abstract_Database
  imports Query_Meaning
begin

text \<open>
  What the database promises, without pages, locks and logs: a map from table names to a schema and a
  multiset of rows, and for every open transaction the list of the rows it has added and removed, which is
  what a rollback takes back. There are no versions: what an open transaction has done is in the tables
  for everyone, and stays there when the database is closed.
\<close>

section \<open>State\<close>

type_synonym spec = "string \<rightharpoonup> schema \<times> row multiset"

datatype change =
    Added string row
  | Removed string row

fun change_table :: "change \<Rightarrow> string" where
  "change_table (Added name vs) = name"
| "change_table (Removed name vs) = name"

type_synonym open_changes = "transaction_id \<rightharpoonup> change list"

text \<open>A change made in an open transaction is noted; one made outside of transactions is not.\<close>

definition note_changes :: "transaction_id option \<Rightarrow> change list \<Rightarrow> open_changes \<Rightarrow> open_changes" where
  "note_changes tx cs p = (case tx of None \<Rightarrow> p | Some t \<Rightarrow> (case p t of None \<Rightarrow> p | Some old \<Rightarrow> p(t \<mapsto> old @ cs)))"

lemma note_changes_other: "tx \<noteq> Some t \<Longrightarrow> note_changes tx cs p t = p t"
  by (simp add: note_changes_def split: option.split)

lemma note_changes_own: "p t = Some old \<Longrightarrow> note_changes (Some t) cs p t = Some (old @ cs)"
  by (simp add: note_changes_def)

lemma note_changes_dom: "dom (note_changes tx cs p) = dom p"
  by (auto simp: note_changes_def split: option.split)

section \<open>Making changes and taking them back\<close>

fun make_change :: "change \<Rightarrow> spec \<Rightarrow> spec option" where
  "make_change (Added name vs) a = (case a name of None \<Rightarrow> None | Some (s, rows) \<Rightarrow> Some (a(name \<mapsto> (s, add_mset vs rows))))"
| "make_change (Removed name vs) a = (case a name of None \<Rightarrow> None
    | Some (s, rows) \<Rightarrow> if vs \<in># rows then Some (a(name \<mapsto> (s, rows - {#vs#}))) else None)"

fun make_changes :: "change list \<Rightarrow> spec \<Rightarrow> spec option" where
  "make_changes [] a = Some a"
| "make_changes (c # cs) a = Option.bind (make_change c a) (make_changes cs)"

fun opposite :: "change \<Rightarrow> change" where
  "opposite (Added name vs) = Removed name vs"
| "opposite (Removed name vs) = Added name vs"

text \<open>The opposite changes, from the last to the first.\<close>

definition take_back :: "change list \<Rightarrow> spec \<Rightarrow> spec option" where
  "take_back cs = make_changes (map opposite (rev cs))"

lemma make_changes_append: "make_changes (cs @ ds) a = Option.bind (make_changes cs a) (make_changes ds)"
  by (induction cs arbitrary: a) (auto split: Option.bind_split)

lemma opposite_takes_back: "make_change c a = Some b \<Longrightarrow> make_change (opposite c) b = Some a"
  by (cases c) (auto split: option.splits if_splits simp: fun_upd_idem)

text \<open>With nothing in between, taking the changes of a transaction back restores the tables.\<close>

lemma take_back_restores: "make_changes cs a = Some b \<Longrightarrow> take_back cs b = Some a"
proof (induction cs arbitrary: a)
  case (Cons c cs)
  then obtain d where "make_change c a = Some d" "make_changes cs d = Some b" by (auto split: bind_splits)
  with Cons.IH [of d] opposite_takes_back [of c a d] show ?case by (simp add: take_back_def make_changes_append)
qed (simp add: take_back_def)

section \<open>Steps\<close>

datatype db_action =
    Create string schema
  | Insert "transaction_id option" string row
  | Delete "transaction_id option" string row
  | Update "transaction_id option" string row row
  | Drop string
  | Query select_query "row list"
  | Begin transaction_id
  | Commit transaction_id
  | Roll_back transaction_id
  | Restart
  | Nothing

definition contents_in :: "spec \<Rightarrow> contents" where
  "contents_in a name = (case a name of None \<Rightarrow> ([], {#}) | Some x \<Rightarrow> x)"

inductive spec_step :: "spec \<times> open_changes \<Rightarrow> db_action \<Rightarrow> spec \<times> open_changes \<Rightarrow> bool" where
  Spec_create: "a name = None \<Longrightarrow> spec_step (a, p) (Create name s) (a(name \<mapsto> (s, {#})), p)"
| Spec_insert: "make_changes [Added name vs] a = Some a' \<Longrightarrow>
    spec_step (a, p) (Insert tx name vs) (a', note_changes tx [Added name vs] p)"
| Spec_delete: "make_changes [Removed name vs] a = Some a' \<Longrightarrow>
    spec_step (a, p) (Delete tx name vs) (a', note_changes tx [Removed name vs] p)"
| Spec_update: "make_changes [Removed name vs, Added name ws] a = Some a' \<Longrightarrow>
    spec_step (a, p) (Update tx name vs ws) (a', note_changes tx [Removed name vs, Added name ws] p)"
| Spec_drop: "a name = Some x \<Longrightarrow> \<forall>t cs. p t = Some cs \<longrightarrow> name \<notin> change_table ` set cs \<Longrightarrow>
    spec_step (a, p) (Drop name) (a(name := None), p)"
| Spec_query: "answers (contents_in a) q (mset rows) \<Longrightarrow> spec_step (a, p) (Query q rows) (a, p)"
| Spec_begin: "p t = None \<Longrightarrow> spec_step (a, p) (Begin t) (a, p(t \<mapsto> []))"
| Spec_commit: "spec_step (a, p) (Commit t) (a, p(t := None))"
| Spec_roll_back: "p t = Some cs \<Longrightarrow> take_back cs a = Some a' \<Longrightarrow> spec_step (a, p) (Roll_back t) (a', p(t := None))"
| Spec_restart: "spec_step (a, p) Restart (a, Map.empty)"
| Spec_nothing: "spec_step (a, p) Nothing (a, p)"

inductive_simps spec_step_simps:
  "spec_step (a, p) (Create name s) b" "spec_step (a, p) (Insert tx name vs) b" "spec_step (a, p) (Delete tx name vs) b"
  "spec_step (a, p) (Update tx name vs ws) b" "spec_step (a, p) (Drop name) b" "spec_step (a, p) (Query q rows) b"
  "spec_step (a, p) (Begin t) b" "spec_step (a, p) (Commit t) b" "spec_step (a, p) (Roll_back t) b"
  "spec_step (a, p) Restart b" "spec_step (a, p) Nothing b"

inductive spec_run :: "spec \<times> open_changes \<Rightarrow> db_action list \<Rightarrow> spec \<times> open_changes \<Rightarrow> bool" where
  Spec_nil: "spec_run a [] a"
| Spec_one: "spec_step a x b \<Longrightarrow> spec_run b xs a' \<Longrightarrow> spec_run a (x # xs) a'"

inductive_cases spec_runE: "spec_run a (x # xs) a'" "spec_run a [] a'"

end
