(* ===== verification/Database_Rows.thy ===== *)
theory Database_Rows
  imports Rollback Abstract_Database
begin

text \<open>
  The database as a whole. \<open>database_ok\<close> is what every operation keeps: the catalog table and the map in
  memory agree and every table has a heap of its own. \<open>represents\<close> reads a world as an abstract database.
\<close>

section \<open>State and abstraction\<close>

abbreviation heap_in :: "world \<Rightarrow> table \<Rightarrow> page_id list \<Rightarrow> bool" where
  "heap_in w tb \<equiv> heap_pages (bpm_view (wpool w)) (bpm_pages (wpool w)) (table_first_page tb)"

text \<open>The tables of the map have heaps; none shares a page with another or with the catalog, on pages \<open>ps\<close>.\<close>

definition heaps_apart :: "world \<Rightarrow> page_id list \<Rightarrow> bool" where
  "heaps_apart w ps \<longleftrightarrow>
     (\<forall>name e. find_table name (tx_data w) = Some e \<longrightarrow> (\<exists>qs. heap_in w (entry_table e) qs \<and> set qs \<inter> set ps = {})) \<and>
     (\<forall>name e qs name' e' qs'. find_table name (tx_data w) = Some e \<longrightarrow> find_table name' (tx_data w) = Some e' \<longrightarrow> name \<noteq> name' \<longrightarrow>
        heap_in w (entry_table e) qs \<longrightarrow> heap_in w (entry_table e') qs' \<longrightarrow> set qs \<inter> set qs' = {})"

definition pool_ok :: "bpm \<Rightarrow> bool" where
  "pool_ok b \<longleftrightarrow> held {} {#} b \<and> pages_wf b \<and> sound_disk (bdisk b) \<and> 1 < pool_capacity b"

definition database_ok :: "world \<Rightarrow> bool" where
  "database_ok w \<longleftrightarrow> pool_ok (wpool w) \<and> table_first_page (catalog_table (tx_data w)) = kCATALOG_FIRST_PAGE_ID \<and>
     (\<exists>ps. catalog_ok ps w \<and> heaps_apart w ps)"

definition represents :: "world \<Rightarrow> spec \<Rightarrow> bool" where
  "represents w a \<longleftrightarrow> (\<forall>name. case find_table name (tx_data w) of
       None \<Rightarrow> a name = None
     | Some e \<Rightarrow> (\<exists>rows. table_rows (wpool w) (entry_table e) rows \<and> a name = Some (table_schema (entry_table e), mset rows)))"

lemma heaps_apartI:
  assumes "\<And>name e. find_table name (tx_data w) = Some e \<Longrightarrow> \<exists>qs. heap_in w (entry_table e) qs \<and> set qs \<inter> set ps = {}"
    and "\<And>name e qs name' e' qs'. find_table name (tx_data w) = Some e \<Longrightarrow> find_table name' (tx_data w) = Some e' \<Longrightarrow> name \<noteq> name' \<Longrightarrow>
      heap_in w (entry_table e) qs \<Longrightarrow> heap_in w (entry_table e') qs' \<Longrightarrow> set qs \<inter> set qs' = {}"
  shows "heaps_apart w ps"
  unfolding heaps_apart_def using assms by blast

lemma heaps_apart_heap:
  assumes "heaps_apart w ps" and "find_table name (tx_data w) = Some e"
  obtains qs where "heap_in w (entry_table e) qs" "set qs \<inter> set ps = {}"
  using assms unfolding heaps_apart_def by blast

lemma heaps_apart_two:
  assumes "heaps_apart w ps" and "find_table name (tx_data w) = Some e" and "find_table name' (tx_data w) = Some e'" and "name \<noteq> name'"
    and "heap_in w (entry_table e) qs" and "heap_in w (entry_table e') qs'"
  shows "set qs \<inter> set qs' = {}"
  by (rule assms(1) [unfolded heaps_apart_def, THEN conjunct2, rule_format, OF assms(2-6)])

lemma representsI:
  assumes "\<And>name. find_table name (tx_data w) = None \<Longrightarrow> a name = None"
    and "\<And>name e. find_table name (tx_data w) = Some e \<Longrightarrow>
      \<exists>rows. table_rows (wpool w) (entry_table e) rows \<and> a name = Some (table_schema (entry_table e), mset rows)"
  shows "represents w a"
  unfolding represents_def using assms by (auto split: option.split)

lemma representsD:
  assumes "represents w a"
  shows "find_table name (tx_data w) = None \<Longrightarrow> a name = None"
    "find_table name (tx_data w) = Some e \<Longrightarrow> \<exists>rows. table_rows (wpool w) (entry_table e) rows \<and> a name = Some (table_schema (entry_table e), mset rows)"
  using spec [OF assms [unfolded represents_def], of name] by simp_all

lemma find_table_tables: "tables (tx_data w') = tables (tx_data w) \<Longrightarrow> find_table name (tx_data w') = find_table name (tx_data w)"
  by (simp add: find_table_def)

section \<open>Steps that change the rows of one table\<close>

text \<open>Rows changed on the pages of table \<open>name\<close> only: the database is as good as before, the other tables are the same.\<close>

lemma one_table_changes:
  assumes ok: "database_ok w" and p: "pool_ok (wpool w')" and g: "grown (wpool w) (wpool w')"
    and same: "tables (tx_data w') = tables (tx_data w)" "catalog_table (tx_data w') = catalog_table (tx_data w)"
    and change: "\<And>r. pool_rows (wpool w') r \<noteq> pool_rows (wpool w) r \<Longrightarrow>
      \<exists>e qs. find_table name (tx_data w) = Some e \<and> heap_in w' (entry_table e) qs \<and> rid_page r \<in> set qs"
  shows "database_ok w'"
    and "find_table other (tx_data w) = Some e \<Longrightarrow> other \<noteq> name \<Longrightarrow> table_rows (wpool w) (entry_table e) rows \<Longrightarrow>
      table_rows (wpool w') (entry_table e) rows"
proof -
  obtain ps where c: "catalog_ok ps w" and ap: "heaps_apart w ps" and first: "table_first_page (catalog_table (tx_data w)) = kCATALOG_FIRST_PAGE_ID"
    using ok by (auto simp: database_ok_def)
  note F = find_table_tables [OF same(1)]
  have ct: "heap_in w (catalog_table (tx_data w)) ps" using c by (simp add: catalog_holds_def)
  obtain xs where "heap_in w' (catalog_table (tx_data w)) (ps @ xs)" by (rule grown_heap [OF g ct])
  then obtain ps' where ct': "heap_in w' (catalog_table (tx_data w)) ps'" by blast
  have heap': "\<exists>qs qs'. heap_in w (entry_table e) qs \<and> set qs \<inter> set ps = {} \<and> heap_in w' (entry_table e) qs' \<and> set qs' \<inter> set ps' = {}"
    if f: "find_table n (tx_data w) = Some e" for n e
  proof -
    obtain qs where q: "heap_in w (entry_table e) qs" "set qs \<inter> set ps = {}" by (rule heaps_apart_heap [OF ap f])
    obtain ys where y: "heap_in w' (entry_table e) (qs @ ys)" by (rule grown_heap [OF g q(1)])
    have "set (qs @ ys) \<inter> set ps' = {}" by (rule grown_apart [OF g q(1) ct q(2) y ct'])
    with q y show ?thesis by blast
  qed
  have apart': "set qs' \<inter> set rs' = {}"
    if f: "find_table n (tx_data w) = Some e" "find_table m (tx_data w) = Some d" "n \<noteq> m"
      and h: "heap_in w' (entry_table e) qs'" "heap_in w' (entry_table d) rs'" for n e m d qs' rs'
  proof -
    obtain qs where q: "heap_in w (entry_table e) qs" using heap' [OF f(1)] by blast
    obtain rs where r: "heap_in w (entry_table d) rs" using heap' [OF f(2)] by blast
    show ?thesis by (rule grown_apart [OF g q r heaps_apart_two [OF ap f q r] h])
  qed
  have cat_same: "pool_rows (wpool w') r = pool_rows (wpool w) r" if r: "rid_page r \<in> set ps'" for r
  proof (rule ccontr)
    assume "pool_rows (wpool w') r \<noteq> pool_rows (wpool w) r"
    then obtain e qs where e: "find_table name (tx_data w) = Some e" "heap_in w' (entry_table e) qs" "rid_page r \<in> set qs" using change by blast
    obtain qs' where "heap_in w' (entry_table e) qs'" "set qs' \<inter> set ps' = {}" using heap' [OF e(1)] by blast
    then show False using e(2,3) r heap_pages_unique by blast
  qed
  have "catalog_holds (wpool w') (catalog_table (tx_data w)) ps' (tables (tx_data w))" by (rule grown_catalog [OF g c ct' cat_same])
  moreover have "heaps_apart w' ps'"
  proof (rule heaps_apartI)
    show "\<exists>qs. heap_in w' (entry_table e) qs \<and> set qs \<inter> set ps' = {}" if "find_table name (tx_data w') = Some e" for name e
      using heap' that unfolding F by blast
  qed (use apart' in \<open>simp add: F\<close>)
  ultimately show "database_ok w'" unfolding database_ok_def same using p first by blast
  show "table_rows (wpool w') (entry_table e) rows"
    if f: "find_table other (tx_data w) = Some e" "other \<noteq> name" and t: "table_rows (wpool w) (entry_table e) rows"
  proof -
    obtain qs' where q: "heap_in w' (entry_table e) qs'" using heap' [OF f(1)] by blast
    have "pool_rows (wpool w') r = pool_rows (wpool w) r" if r: "rid_page r \<in> set qs'" for r
    proof (rule ccontr)
      assume "pool_rows (wpool w') r \<noteq> pool_rows (wpool w) r"
      then obtain d rs where d: "find_table name (tx_data w) = Some d" "heap_in w' (entry_table d) rs" "rid_page r \<in> set rs" using change by blast
      show False using apart' [OF f(1) d(1) f(2) q d(2)] d(3) r by blast
    qed
    then show ?thesis by (rule grown_table_rows [OF g t q])
  qed
qed

lemma nothing_changes:
  assumes ok: "database_ok w" and a: "represents w a" and p: "pool_ok (wpool w')" and g: "grown (wpool w) (wpool w')"
    and same: "tables (tx_data w') = tables (tx_data w)" "catalog_table (tx_data w') = catalog_table (tx_data w)"
    and rows: "pool_rows (wpool w') = pool_rows (wpool w)"
  shows "database_ok w' \<and> represents w' a"
proof
  note F = find_table_tables [OF same(1)]
  show "database_ok w'" by (rule one_table_changes(1) [OF ok p g same, of "[]"]) (simp add: rows)
  show "represents w' a"
    by (rule representsI; simp only: F) (use representsD [OF a] same_table_rows [OF g rows] in blast)+
qed

lemma one_table_represents:
  assumes ok: "database_ok w" and a: "represents w a" and p: "pool_ok (wpool w')" and g: "grown (wpool w) (wpool w')"
    and same: "tables (tx_data w') = tables (tx_data w)" "catalog_table (tx_data w') = catalog_table (tx_data w)"
    and f: "find_table name (tx_data w) = Some e" and h: "heap_in w' (entry_table e) qs"
    and change: "\<And>r. pool_rows (wpool w') r \<noteq> pool_rows (wpool w) r \<Longrightarrow> rid_page r \<in> set qs"
    and t: "table_rows (wpool w') (entry_table e) rows"
  shows "database_ok w' \<and> represents w' (a(name \<mapsto> (table_schema (entry_table e), mset rows)))"
proof
  note F = find_table_tables [OF same(1)]
  have c: "\<exists>e qs. find_table name (tx_data w) = Some e \<and> heap_in w' (entry_table e) qs \<and> rid_page r \<in> set qs"
    if "pool_rows (wpool w') r \<noteq> pool_rows (wpool w) r" for r using f h change [OF that] by blast
  show "database_ok w'" by (rule one_table_changes(1) [OF ok p g same c])
  show "represents w' (a(name \<mapsto> (table_schema (entry_table e), mset rows)))"
  proof (rule representsI)
    show "(a(name \<mapsto> (table_schema (entry_table e), mset rows))) n = None" if "find_table n (tx_data w') = None" for n
      using that f representsD(1) [OF a, of n] by (auto simp: F)
    show "\<exists>rows'. table_rows (wpool w') (entry_table d) rows' \<and>
        (a(name \<mapsto> (table_schema (entry_table e), mset rows))) n = Some (table_schema (entry_table d), mset rows')"
      if d: "find_table n (tx_data w') = Some d" for n d
    proof (cases "n = name")
      case True
      then show ?thesis using d f t by (auto simp: F)
    next
      case False
      have d': "find_table n (tx_data w) = Some d" using d by (simp add: F)
      then obtain rows' where "table_rows (wpool w) (entry_table d) rows'" "a n = Some (table_schema (entry_table d), mset rows')"
        using representsD(2) [OF a] by blast
      then show ?thesis using one_table_changes(2) [OF ok p g same c d' False] False by auto
    qed
  qed
qed

end
