(* ===== verification/Query_Sound.thy ===== *)
theory Query_Sound
  imports Query_Properties Catalog_Properties
begin

text \<open>
  What a query cannot break: a property of the world that locks and the three operations of a table scan
  keep is kept by binding, building and running any query, whether it returns or throws.
\<close>

locale scan_invariant =
  fixes I :: "world \<Rightarrow> bool"
  assumes locks: "keeps I (tx_lock lock_shared tx r)"
    and opens: "keeps I (table_scan_open tb tx)"
    and closes: "keeps I (table_scan_close sc)"
    and steps: "keeps I (table_scan_next sc)"
begin

lemma op_init_keeps: "keeps I (op_init c)"
  by (induction c) (auto intro!: keeps_and_then keeps_Pair)

lemma op_reset_keeps: "keeps I (op_reset c)"
  by (induction c) (auto intro!: keeps_and_then opens closes)

lemma op_close_keeps: "keeps I (op_close c)"
  by (induction c) (auto intro!: keeps_and_then closes)

lemma filter_next_keeps: "(\<And>c. keeps I (nxt c)) \<Longrightarrow> keeps I (filter_next n e nxt c)"
  by (induction n arbitrary: c) (auto intro!: keeps_and_then split: option.split)

lemma fetch_block_keeps: "(\<And>c. keeps I (nxt c)) \<Longrightarrow> keeps I (fetch_block n nxt c)"
  by (induction n arbitrary: c) (auto intro!: keeps_and_then split: option.split)

lemma join_next_keeps:
  assumes "\<And>c. keeps I (nxt c)" and "\<And>c. keeps I (rst c)"
  shows "keeps I (join_next n e nxt rst js)"
proof (induction n arbitrary: js)
  case (Suc n)
  have "keeps I (load_left nxt rst js)" "keeps I (load_right nxt js)" for js
    unfolding load_left_def load_right_def by (auto intro!: keeps_and_then fetch_block_keeps assms)
  then show ?case using Suc by (auto intro!: keeps_and_then simp: Let_def)
qed simp

lemma op_next_keeps: "keeps I (op_next k d op)"
proof (induction d arbitrary: op)
  case (Suc d)
  then show ?case
    by (cases op) (auto intro!: keeps_and_then steps filter_next_keeps join_next_keeps op_reset_keeps keeps_Pair
      simp: seq_scan_next_def projection_next_def limit_next_def split: option.split)
qed simp

lemma query_rows_keeps: "keeps I (query_rows k n root)"
  by (induction n arbitrary: root) (auto intro!: keeps_and_then op_next_keeps op_close_keeps simp: query_result_next_def split: option.split)

lemma bind_query_keeps: "keeps I (bind_query q tx)"
proof -
  have l: "keeps I (lookup_table what name tx)" for what name tx
    unfolding lookup_table_def get_table_def Let_def by (auto intro!: keeps_and_then locks split: option.split)
  have "keeps I (bind_joins js tx pc)" for js pc
    by (induction js tx pc rule: bind_joins.induct) (auto intro!: keeps_and_then l keeps_Pair simp: Let_def)
  then show ?thesis unfolding bind_query_def by (auto intro!: keeps_and_then l split: option.split)
qed

lemma build_keeps: "keeps I (build tx p)"
proof (induction p)
  case (NestedLoopJoinPlan l r e s)
  have "keeps I (or_close left (build tx r))" for left
    unfolding or_close_def using NestedLoopJoinPlan(2) op_close_keeps [of left] by (auto simp: keeps_def split: prod.split sum.split)
  then show ?case using NestedLoopJoinPlan(1) by (auto intro!: keeps_and_then)
qed (auto intro!: keeps_and_then opens)

lemma engine_keeps: "keeps I (engine_execute q tx)"
  unfolding engine_execute_def executor_execute_def
  by (auto intro!: keeps_and_then bind_query_keeps build_keeps op_init_keeps)

end

interpretation query_sound: scan_invariant "\<lambda>w. sound_disk (bdisk (pool (tx_data w)))"
proof
  show "keeps sound_world (tx_lock lock_shared tx r)" for tx r by (rule tx_steps_sound)
qed (rule table_scan_sound)+

end
