(* ===== verification/Lock_Keeping.thy ===== *)
theory Lock_Keeping
  imports Rollback Query_Sound
begin

text \<open>
  What an operation of the database does to the locks of others: nothing. \<open>lock_kept E A\<close> says that the
  exclusive locks \<open>E\<close> are held and the transactions \<open>A\<close> are active; every operation run alone keeps
  this, and reading, creating and dropping tables keep the undo logs too.
\<close>

section \<open>Lock calls run alone\<close>

text \<open>No call is waiting between two operations.\<close>

definition lock_quiet :: "'u lock_state \<Rightarrow> bool" where
  "lock_quiet s \<longleftrightarrow> lock_inv s \<and> waiting s = Map.empty"

lemma lock_quiet_good: "lock_quiet s \<Longrightarrow> lock_good s"
  by (simp add: lock_quiet_def lock_good_def)

lemma await_quiet:
  assumes inv: "lock_inv s" and w: "waiting s = [t \<mapsto> (r, m)]" and x: "txs s t = Some x"
  shows "lock_quiet (snd (await t r m (None, s)))"
    and "Lock_Safety.holds s u k q \<Longrightarrow> Lock_Safety.holds (snd (await t r m (None, s))) u k q"
proof -
  have wt: "waiting s t = Some (r, m)" using w by simp
  have "lock_quiet (grant t r m s)" if "can_grant (lock_table s r) t m"
    using grant_inv [OF inv wt that x] w by (simp add: lock_quiet_def grant_def)
  moreover have "lock_quiet (time_out t r s)" using time_out_inv [OF inv wt] w by (simp add: lock_quiet_def time_out_def)
  ultimately show "lock_quiet (snd (await t r m (None, s)))" by (simp add: await_def)
  assume "Lock_Safety.holds s u k q"
  then have "Lock_Safety.holds (grant t r m s) u k q" "Lock_Safety.holds (time_out t r s) u k q"
    by (simp_all add: holds_grant [OF x] time_out_def)
  then show "Lock_Safety.holds (snd (await t r m (None, s))) u k q" by (simp add: await_def)
qed

lemma lock_shared_quiet:
  assumes q: "lock_quiet s"
  shows "lock_quiet (snd (lock_shared t r s))"
    "Lock_Safety.holds s u EXCLUSIVE p \<Longrightarrow> Lock_Safety.holds (snd (lock_shared t r s)) u EXCLUSIVE p"
proof -
  have inv: "lock_inv s" and w: "waiting s = Map.empty" using q by (simp_all add: lock_quiet_def)
  show "lock_quiet (snd (lock_shared t r s))"
    "Lock_Safety.holds s u EXCLUSIVE p \<Longrightarrow> Lock_Safety.holds (snd (lock_shared t r s)) u EXCLUSIVE p"
  proof (atomize (full), cases "fst (request_shared t r s)")
    case (Some b)
    then have "lock_shared t r s = (b, s)" by (auto simp: lock_shared_def request_shared_def await_def split: option.splits if_splits)
    then show "lock_quiet (snd (lock_shared t r s)) \<and>
      (Lock_Safety.holds s u EXCLUSIVE p \<longrightarrow> Lock_Safety.holds (snd (lock_shared t r s)) u EXCLUSIVE p)" using q by simp
  next
    case None
    then obtain x where x: "txs s t = Some x" and e: "request_shared t r s = (None, enqueue t r SHARED s)"
      by (auto simp: request_shared_def split: option.splits if_splits)
    have "lock_inv (enqueue t r SHARED s)" using request_shared_inv [OF inv _ x] w e by (metis snd_conv)
    moreover have "waiting (enqueue t r SHARED s) = [t \<mapsto> (r, SHARED)]" "txs (enqueue t r SHARED s) t = Some x"
      using w x by (simp_all add: enqueue_def)
    ultimately show "lock_quiet (snd (lock_shared t r s)) \<and>
      (Lock_Safety.holds s u EXCLUSIVE p \<longrightarrow> Lock_Safety.holds (snd (lock_shared t r s)) u EXCLUSIVE p)"
      unfolding lock_shared_def e by (auto intro: await_quiet)
  qed
qed

lemma lock_exclusive_quiet:
  assumes q: "lock_quiet s"
  shows "lock_quiet (snd (lock_exclusive t r s))"
    "Lock_Safety.holds s u EXCLUSIVE p \<Longrightarrow> Lock_Safety.holds (snd (lock_exclusive t r s)) u EXCLUSIVE p"
    "fst (lock_exclusive t r s) \<Longrightarrow> Lock_Safety.holds (snd (lock_exclusive t r s)) t EXCLUSIVE r"
proof -
  have inv: "lock_inv s" and w: "waiting s = Map.empty" using q by (simp_all add: lock_quiet_def)
  have "lock_quiet (snd (lock_exclusive t r s)) \<and>
    (Lock_Safety.holds s u EXCLUSIVE p \<longrightarrow> Lock_Safety.holds (snd (lock_exclusive t r s)) u EXCLUSIVE p)"
  proof (cases "fst (request_exclusive t r s)")
    case (Some b)
    then have "lock_exclusive t r s = (b, s)"
      by (auto simp: lock_exclusive_def request_exclusive_def await_def Let_def split: option.splits if_splits)
    then show ?thesis using q by simp
  next
    case None
    then obtain x where x: "txs s t = Some x" by (auto simp: request_exclusive_def split: option.splits)
    obtain a where e: "request_exclusive t r s = (None, enqueue t r EXCLUSIVE a)" and a: "a = s \<or> a = drop_shared t r s"
      and nx: "\<not> Lock_Safety.holds s t EXCLUSIVE r"
      using None by (auto simp: request_exclusive_cases [OF x] split: if_splits)
    have i: "lock_inv (enqueue t r EXCLUSIVE a)" using request_exclusive_inv [OF inv _ x] w e by (metis snd_conv)
    have wt: "waiting (enqueue t r EXCLUSIVE a) = [t \<mapsto> (r, EXCLUSIVE)]" using a w by (auto simp: enqueue_def drop_shared_def)
    obtain y where y: "txs (enqueue t r EXCLUSIVE a) t = Some y" using a x by (auto simp: enqueue_def drop_shared_def set_tx_def)
    have "Lock_Safety.holds (enqueue t r EXCLUSIVE a) u EXCLUSIVE p" if "Lock_Safety.holds s u EXCLUSIVE p"
      using a that drop_shared_inv(4) [OF inv _ nx] w by auto
    then show ?thesis unfolding lock_exclusive_def e using await_quiet [OF i wt y] by blast
  qed
  then show "lock_quiet (snd (lock_exclusive t r s))"
    "Lock_Safety.holds s u EXCLUSIVE p \<Longrightarrow> Lock_Safety.holds (snd (lock_exclusive t r s)) u EXCLUSIVE p" by simp_all
  assume f: "fst (lock_exclusive t r s)"
  then obtain x where "txs s t = Some x" "tx_state x = GROWING"
    by (cases "txs s t") (auto simp: lock_exclusive_def request_exclusive_def await_def split: if_splits)
  from lock_exclusive_case [OF lock_quiet_good [OF q] _ this, of r] f w
  show "Lock_Safety.holds (snd (lock_exclusive t r s)) t EXCLUSIVE r" by (simp split: prod.splits)
qed

section \<open>Operations of the database\<close>

text \<open>A property of locks that survives every lock call survives the operations that push no undo record \<dots>\<close>

locale quiet_ops =
  fixes I :: "world \<Rightarrow> bool"
  assumes data: "I w \<Longrightarrow> I (w\<lparr>tx_data := d\<rparr>)"
    and shared: "keeps I (tx_lock lock_shared tx r)"
    and exclusive: "keeps I (tx_lock lock_exclusive tx r)"
begin

lemma on_pool_keeps: "keeps I (on_pool m)"
  using data by (auto simp: keeps_def on_pool_def zoom_def put_pool_def split: prod.splits)

lemma put_tables_keeps: "keeps I (modify (\<lambda>w. put_tables (f w) w))"
  using data by (auto intro!: keeps_modify simp: put_tables_def)

lemma scan_keeps: "keeps I (table_scan_open tb tx)" "keeps I (table_scan_close sc)" "keeps I (table_scan_next sc)"
  unfolding table_scan_open_def table_scan_close_def table_scan_next_def
  by (auto intro!: keeps_and_then on_pool_keeps shared split: option.split prod.split)

lemma table_insert_plain: "keeps I (table_insert tb t None)"
  unfolding table_insert_def by (auto intro!: keeps_and_then on_pool_keeps exclusive simp: tx_push_def split: option.split)

lemma table_delete_plain: "keeps I (table_delete tb r None)"
  unfolding table_delete_def by (auto intro!: keeps_and_then on_pool_keeps exclusive simp: tx_push_def split: option.split)

lemma create_table_plain: "keeps I (create_table name s None)"
  unfolding create_table_def Let_def
  by (auto intro!: keeps_and_then on_pool_keeps table_insert_plain put_tables_keeps simp: tx_push_def split: option.split)

lemma drop_table_keeps: "keeps I (drop_table name tx)"
  unfolding drop_table_def Let_def
  by (auto intro!: keeps_and_then on_pool_keeps exclusive table_delete_plain put_tables_keeps split: option.split)

lemma load_keeps: "keeps I load_existing_tables"
proof -
  have e: "keeps I (load_entry r t)" for r t
    unfolding load_entry_def by (auto intro!: keeps_and_then put_tables_keeps)
  have "keeps I (load_from n sc)" for n sc
  proof (induction n arbitrary: sc)
    case (Suc n)
    have "keeps I (\<lambda>w. case load_entry r t w of (Inl x, w') \<Rightarrow> (Inl x, snd (table_scan_close sc w')) | (Inr _, w') \<Rightarrow> load_from n sc w')"
      for r t sc
      using e [of r t] Suc scan_keeps(2) [of sc] by (auto simp: keeps_def split: prod.split sum.split)
    then show ?case by (auto intro!: keeps_and_then scan_keeps split: option.split prod.split)
  qed simp
  then show ?thesis unfolding load_existing_tables_def by (auto intro!: keeps_and_then scan_keeps)
qed

end

sublocale quiet_ops \<subseteq> reading: scan_invariant I
  by unfold_locales (rule shared scan_keeps)+

text \<open>\<dots> and, if it does not speak of the undo logs, every operation.\<close>

locale logged_ops = quiet_ops +
  assumes push: "keeps I (tx_push tx u)"
begin

lemma table_insert_keeps: "keeps I (table_insert tb t tx)"
  unfolding table_insert_def by (auto intro!: keeps_and_then on_pool_keeps exclusive push split: option.split)

lemma table_delete_keeps: "keeps I (table_delete tb r tx)"
  unfolding table_delete_def by (auto intro!: keeps_and_then on_pool_keeps exclusive push split: option.split)

lemma table_update_keeps: "keeps I (table_update tb r t tx)"
  unfolding table_update_def by (auto intro!: keeps_and_then on_pool_keeps exclusive push split: option.split)

end

definition lock_kept :: "(transaction_id \<times> rid) set \<Rightarrow> transaction_id set \<Rightarrow> world \<Rightarrow> bool" where
  "lock_kept E A w \<longleftrightarrow> lock_quiet (locks w) \<and> active_txs w = A \<and> (\<forall>(t, r)\<in>E. has_lock w t EXCLUSIVE r)"

definition log_kept :: "(transaction_id \<Rightarrow> undo_record list option) \<Rightarrow> (transaction_id \<times> rid) set \<Rightarrow> transaction_id set \<Rightarrow> world \<Rightarrow> bool" where
  "log_kept U E A w \<longleftrightarrow> lock_kept E A w \<and> (\<forall>t. undo_log_of t w = U t)"

lemma lock_shared_log: "map_option undo_log (txs (snd (lock_shared t r s)) u) = map_option undo_log (txs s u)"
proof -
  have "map_option undo_log (txs (snd (request_shared t r s)) u) = map_option undo_log (txs s u)"
    by (auto simp: request_shared_def enqueue_def split: option.splits)
  then show ?thesis using await_log [of t r SHARED "request_shared t r s"] by (simp add: lock_shared_def) (metis prod.collapse)
qed

lemma lock_kept_locks:
  assumes k: "lock_kept E A w" and q: "lock_quiet l" and h: "\<And>t r. has_lock w t EXCLUSIVE r \<Longrightarrow> Lock_Safety.holds l t EXCLUSIVE r"
  shows "lock_kept E A (w\<lparr>locks := l\<rparr>)"
  using k q h unfolding lock_kept_def by auto

lemma tx_lock_keeps:
  assumes f: "\<And>t s. lock_quiet s \<Longrightarrow> lock_quiet (snd (f t r s))"
    "\<And>t s u p. lock_quiet s \<Longrightarrow> Lock_Safety.holds s u EXCLUSIVE p \<Longrightarrow> Lock_Safety.holds (snd (f t r s)) u EXCLUSIVE p"
  shows "keeps (lock_kept E A) (tx_lock f tx r)"
proof (rule keepsI)
  fix w assume w: "lock_kept E A w"
  then have q: "lock_quiet (locks w)" by (simp add: lock_kept_def)
  have "lock_kept E A (w\<lparr>locks := snd (f t r (locks w))\<rparr>)" for t by (rule lock_kept_locks [OF w f(1) [OF q] f(2) [OF q]])
  then show "lock_kept E A (snd (tx_lock f tx r w))" using w by (simp add: tx_lock_def split: option.split prod.split) (metis snd_conv)
qed

lemma push_undo_quiet: "lock_quiet (locks (push_undo t u w)) = lock_quiet (locks w)" "has_lock (push_undo t u w) = has_lock w"
proof -
  have h: "Lock_Safety.holds (set_tx t (\<lambda>x. x\<lparr>undo_log := undo_log x @ [u]\<rparr>) s) v m r = Lock_Safety.holds s v m r"
    for s :: "undo_record lock_state" and v m r by (cases m) (auto simp: Lock_Safety.holds_def set_tx_def split: option.splits)
  show "lock_quiet (locks (push_undo t u w)) = lock_quiet (locks w)" by (simp add: push_undo_def lock_quiet_def lock_inv_def h)
  show "has_lock (push_undo t u w) = has_lock w" by (simp add: push_undo_def h fun_eq_iff)
qed

interpretation lock_logged: logged_ops "lock_kept E A" for E A
proof
  show "lock_kept E A w \<Longrightarrow> lock_kept E A (w\<lparr>tx_data := d\<rparr>)" for w d by (simp add: lock_kept_def)
  show "keeps (lock_kept E A) (tx_lock lock_shared tx r)" for tx r by (rule tx_lock_keeps) (rule lock_shared_quiet; assumption)+
  show "keeps (lock_kept E A) (tx_lock lock_exclusive tx r)" for tx r by (rule tx_lock_keeps) (rule lock_exclusive_quiet(1,2); assumption)+
  show "keeps (lock_kept E A) (tx_push tx u)" for tx u
  proof (rule keepsI)
    fix w assume "lock_kept E A w"
    moreover have "active_txs (push_undo t u w) = active_txs w" for t by (simp add: push_undo_def)
    ultimately show "lock_kept E A (snd (tx_push tx u w))"
      by (simp add: lock_kept_def tx_push_def push_undo_quiet modify_def ret_def split: option.split)
  qed
qed

interpretation log_quiet: quiet_ops "log_kept U E A" for U E A
proof
  show "log_kept U E A w \<Longrightarrow> log_kept U E A (w\<lparr>tx_data := d\<rparr>)" for w d by (simp add: log_kept_def lock_kept_def)
  show "keeps (log_kept U E A) (tx_lock lock_shared tx r)" for tx r
  proof (rule keepsI)
    fix w assume w: "log_kept U E A w"
    then have "lock_kept E A (snd (tx_lock lock_shared tx r w))" using lock_logged.shared [of E A tx r] by (simp add: keeps_def log_kept_def)
    then show "log_kept U E A (snd (tx_lock lock_shared tx r w))"
      using w lock_shared_log [of _ r "locks w"] by (auto simp: log_kept_def tx_lock_def split: option.split prod.split) (metis snd_conv)+
  qed
  show "keeps (log_kept U E A) (tx_lock lock_exclusive tx r)" for tx r
  proof (rule keepsI)
    fix w assume w: "log_kept U E A w"
    then have "lock_kept E A (snd (tx_lock lock_exclusive tx r w))" using lock_logged.exclusive [of E A tx r] by (simp add: keeps_def log_kept_def)
    then show "log_kept U E A (snd (tx_lock lock_exclusive tx r w))"
      using w tx_lock_exclusive_run [of tx r w] by (auto simp: log_kept_def)
  qed
qed

text \<open>A database is opened with no transaction.\<close>

interpretation fresh_locks: quiet_ops "\<lambda>w. locks w = lock_init \<and> active_txs w = {}"
  by unfold_locales
    (auto simp: keeps_def tx_lock_def lock_init_def lock_shared_def lock_exclusive_def request_shared_def request_exclusive_def await_def
      split: option.split)

lemma database_open_fresh:
  assumes "database_open c = (Inr w, b)"
  shows "locks w = lock_init \<and> active_txs w = {}"
proof -
  obtain tb d where i: "init_table c = (Inr tb, d)" "(case load_existing_tables \<lparr>locks = lock_init, next_tx_id = 0, active_txs = {},
         tx_data = \<lparr>pool = d, catalog_table = tb, tables = []\<rparr>\<rparr> of
       (Inl e, w) \<Rightarrow> (Inl e, pool (tx_data w)) | (Inr _, w) \<Rightarrow> (Inr w, pool (tx_data w))) = (Inr w, b)"
    using assms unfolding database_open_def and_then_eq_Inr by blast
  then obtain x where "load_existing_tables \<lparr>locks = lock_init, next_tx_id = 0, active_txs = {},
         tx_data = \<lparr>pool = d, catalog_table = tb, tables = []\<rparr>\<rparr> = (Inr x, w)"
    by (auto split: prod.splits sum.splits)
  from keepsD [OF fresh_locks.load_keeps _ this] show ?thesis by simp
qed

section \<open>Beginning and ending\<close>

lemma begin_kept:
  assumes k: "lock_kept E A w" and b: "tm_begin w = (t, v)" and new: "txs (locks w) t = None"
  shows "lock_kept E (insert t A) v" "undo_log_of u v = (if u = t then Some [] else undo_log_of u w)" "tx_data v = tx_data w"
proof -
  have v: "v = w\<lparr>next_tx_id := t + 1, active_txs := insert t (active_txs w), locks := (locks w)\<lparr>txs := (txs (locks w))(t \<mapsto> tx_object)\<rparr>\<rparr>"
    using b by (auto simp: tm_begin_def Let_def)
  have h: "has_lock v u m r = has_lock w u m r" for u m r
    using new by (cases m) (auto simp: v Lock_Safety.holds_def tx_object_def)
  then show "lock_kept E (insert t A) v" using k by (simp add: lock_kept_def lock_quiet_def lock_inv_def) (simp add: v)
  show "undo_log_of u v = (if u = t then Some [] else undo_log_of u w)" "tx_data v = tx_data w" by (simp_all add: v tx_object_def)
qed

text \<open>The end of a transaction, whatever its state is set to.\<close>

definition ended :: "transaction_id \<Rightarrow> tx_state \<Rightarrow> world \<Rightarrow> world" where
  "ended t st w =
     (tx_set_state t st (w\<lparr>locks := unlock_all t (locks (tx_set_state t SHRINKING w))\<rparr>))\<lparr>active_txs := active_txs w - {t}\<rparr>"

lemma commit_ended: "tm_commit t w = ended t COMMITTED w"
  by (simp add: tm_commit_def ended_def tx_set_state_def Let_def)

lemma ended_kept:
  assumes k: "lock_kept E A w" and E: "\<And>r. (t, r) \<notin> E"
  shows "lock_kept E (A - {t}) (ended t st w)" "undo_log_of u (ended t st w) = undo_log_of u w" "tx_data (ended t st w) = tx_data w"
proof -
  have q: "lock_inv (locks w)" "waiting (locks w) = Map.empty" using k by (simp_all add: lock_kept_def lock_quiet_def)
  let ?s = "set_tx t (\<lambda>x. x\<lparr>tx_state := SHRINKING\<rparr>) (locks w)"
  have w: "waiting (unlock_all t ?s) = Map.empty" using q(2) by (auto simp: unlock_all_def split: option.split)
  moreover have "lock_inv (unlock_all t ?s)" using unlock_inv [OF set_state_inv [OF q(1)]] q(2) by simp
  ultimately have "lock_quiet (locks (ended t st w))" by (simp add: ended_def tx_set_state_def lock_quiet_def set_state_inv)
  moreover have "has_lock (ended t st w) u m r \<longleftrightarrow> has_lock w u m r \<and> u \<noteq> t" for u m r
    by (simp add: ended_def tx_set_state_def holds_unlock)
  moreover have "active_txs (ended t st w) = A - {t}" using k by (simp add: ended_def lock_kept_def)
  ultimately show "lock_kept E (A - {t}) (ended t st w)" using k E by (auto simp: lock_kept_def)
  show "undo_log_of u (ended t st w) = undo_log_of u w"
    by (auto simp: ended_def tx_set_state_def unlock_all_def set_tx_def split: option.splits)
  show "tx_data (ended t st w) = tx_data w" by (simp add: ended_def tx_set_state_def)
qed

lemma abort_ended:
  assumes x: "undo_log_of t w = Some us" and ab: "rollback_tx t w = (Inr (), w')"
  obtains d where "run_undo undo (rev us) (tx_data w) = (Inr (), d)" "w' = ended t ABORTED (w\<lparr>tx_data := d\<rparr>)"
proof -
  have log: "(case txs (locks (tx_set_state t SHRINKING w)) t of None \<Rightarrow> [] | Some x \<Rightarrow> undo_log x) = us"
    using x by (auto simp: tx_set_state_def set_tx_def)
  obtain a where a: "tx_undo undo t (tx_set_state t SHRINKING w) = (Inr (), a)"
    and w': "w' = (tx_set_state t ABORTED (a\<lparr>locks := unlock_all t (locks a)\<rparr>))\<lparr>active_txs := active_txs a - {t}\<rparr>"
    using ab by (auto simp: rollback_tx_def tm_abort_def and_then_eq_Inr tx_set_state_def)
  obtain d where d: "run_undo undo (rev us) (tx_data w) = (Inr (), d)" "a = (tx_set_state t SHRINKING w)\<lparr>tx_data := d\<rparr>"
    using a log by (auto simp: tx_undo_def zoom_def tx_set_state_def split: prod.splits)
  show thesis by (rule that [OF d(1)]) (simp add: w' d(2) ended_def tx_set_state_def)
qed

end
