(* ===== verification/Open_Changes.thy ===== *)
theory Open_Changes
  imports Database_Rows Lock_Keeping Page_Properties
begin

text \<open>
  What open transactions have done, told in rows. Every record of an undo log stands for a row added to a
  table or removed from it; \<open>undoable\<close> says that the records of a log, from the last to the first, find
  the rows they are about, and \<open>open_work\<close> that this is so for every active transaction and that it
  holds the locks of the rows it has changed. Whatever else happens meanwhile keeps this.
\<close>

section \<open>Changes and undo records\<close>

fun undo_rid :: "undo_record \<Rightarrow> rid set" where
  "undo_rid (DeleteUndoRecord tb r) = {r}"
| "undo_rid (RestoreUndoRecord tb r t) = {r}"
| "undo_rid (DropTableUndoRecord name) = {}"

definition undo_rids :: "undo_record list \<Rightarrow> rid set" where
  "undo_rids us = \<Union> (undo_rid ` set us)"

lemma undo_rids_simps [simp]: "undo_rids [] = {}" "undo_rids (u # us) = undo_rid u \<union> undo_rids us" "undo_rids (rev us) = undo_rids us"
    "undo_rids (us @ vs) = undo_rids us \<union> undo_rids vs"
  by (auto simp: undo_rids_def)

text \<open>Row number \<open>r\<close> is on a page of the heap of table \<open>name\<close>.\<close>

definition belongs :: "world \<Rightarrow> string \<Rightarrow> table \<Rightarrow> rid \<Rightarrow> bool" where
  "belongs w name tb r \<longleftrightarrow> (\<exists>e qs. find_table name (tx_data w) = Some e \<and> entry_table e = tb \<and> heap_in w tb qs \<and> rid_page r \<in> set qs)"

definition encodes :: "table \<Rightarrow> byte list \<Rightarrow> row \<Rightarrow> bool" where
  "encodes tb bs vs \<longleftrightarrow> length bs < 65536 \<and> (\<exists>t. tuple_deserialize bs (table_schema tb) = Inr t \<and> tvalues t = vs)"

text \<open>The records and the changes are given from the last to the first, \<open>f\<close> are the rows before the next undo.\<close>

fun undoable :: "world \<Rightarrow> (rid \<Rightarrow> byte list option) \<Rightarrow> undo_record list \<Rightarrow> change list \<Rightarrow> bool" where
  "undoable w f [] [] \<longleftrightarrow> True"
| "undoable w f (DeleteUndoRecord tb r # us) (Added name vs # cs) \<longleftrightarrow>
     belongs w name tb r \<and> (\<exists>bs. f r = Some bs \<and> encodes tb bs vs) \<and> undoable w (f(r := None)) us cs"
| "undoable w f (RestoreUndoRecord tb r bs # us) (Removed name vs # cs) \<longleftrightarrow>
     belongs w name tb r \<and> f r = None \<and> encodes tb bs vs \<and> undoable w (f(r \<mapsto> bs)) us cs"
| "undoable w f us cs \<longleftrightarrow> False"

lemma undoable_kept:
  "undoable w f us cs \<Longrightarrow> \<forall>r\<in>undo_rids us. g r = f r \<Longrightarrow>
   \<forall>c\<in>set cs. \<forall>tb r. belongs w (change_table c) tb r \<longrightarrow> belongs w' (change_table c) tb r \<Longrightarrow> undoable w' g us cs"
  by (induction w f us cs arbitrary: g rule: undoable.induct) auto

lemma undoable_table: "undoable w f us cs \<Longrightarrow> c \<in> set cs \<Longrightarrow> \<exists>r\<in>undo_rids us. \<exists>tb. belongs w (change_table c) tb r"
  by (induction w f us cs rule: undoable.induct) auto

lemma undoable_length: "undoable w f us cs \<Longrightarrow> length cs = length us"
  by (induction w f us cs rule: undoable.induct) auto

section \<open>The work of open transactions\<close>

definition work_of :: "world \<Rightarrow> transaction_id \<Rightarrow> change list \<Rightarrow> bool" where
  "work_of w t cs \<longleftrightarrow> (\<exists>us. undo_log_of t w = Some us \<and> undoable w (pool_rows (wpool w)) (rev us) (rev cs) \<and>
     (\<forall>r\<in>undo_rids us. has_lock w t EXCLUSIVE r))"

definition open_work :: "world \<Rightarrow> open_changes \<Rightarrow> bool" where
  "open_work w p \<longleftrightarrow> lock_quiet (locks w) \<and> dom p = active_txs w \<and> (\<forall>t cs. p t = Some cs \<longrightarrow> work_of w t cs)"

lemma open_workD:
  assumes "open_work w p"
  shows "lock_quiet (locks w)" "dom p = active_txs w" "p t = Some cs \<Longrightarrow> work_of w t cs"
  using assms by (simp_all add: open_work_def)

text \<open>The rows active transactions have changed and so locked, and those of all but \<open>tx\<close>.\<close>

definition own_locks :: "world \<Rightarrow> (transaction_id \<times> rid) set" where
  "own_locks w = {(t, r). t \<in> active_txs w \<and> (\<exists>us. undo_log_of t w = Some us \<and> r \<in> undo_rids us)}"

definition open_rows :: "world \<Rightarrow> transaction_id option \<Rightarrow> rid set" where
  "open_rows w tx = {r. \<exists>t. (t, r) \<in> own_locks w \<and> tx \<noteq> Some t}"

lemma open_work_locks: "open_work w p \<Longrightarrow> lock_kept (own_locks w) (active_txs w) w"
  by (fastforce simp: open_work_def lock_kept_def own_locks_def work_of_def)

text \<open>Under a transaction the locks alone keep the rows of others out of reach.\<close>

lemma locked_not_open:
  assumes k: "lock_kept (own_locks w) A w'" and h: "has_lock w' t EXCLUSIVE r"
  shows "r \<notin> open_rows w (Some t)"
proof
  assume "r \<in> open_rows w (Some t)"
  then obtain u where u: "(u, r) \<in> own_locks w" "u \<noteq> t" by (auto simp: open_rows_def)
  then have "has_lock w' u EXCLUSIVE r" "lock_inv (locks w')" using k by (auto simp: lock_kept_def lock_quiet_def)
  then show False using lock_invD(4) h u(2) by blast
qed

lemma work_kept:
  assumes k: "work_of w t cs" and log: "undo_log_of t w' = undo_log_of t w"
    and rows: "\<And>us r. undo_log_of t w = Some us \<Longrightarrow> r \<in> undo_rids us \<Longrightarrow> pool_rows (wpool w') r = pool_rows (wpool w) r"
    and locks: "\<And>us r. undo_log_of t w = Some us \<Longrightarrow> r \<in> undo_rids us \<Longrightarrow> has_lock w' t EXCLUSIVE r"
    and b: "\<And>c tb r. c \<in> set cs \<Longrightarrow> belongs w (change_table c) tb r \<Longrightarrow> belongs w' (change_table c) tb r"
  shows "work_of w' t cs"
proof -
  obtain us where us: "undo_log_of t w = Some us" "undoable w (pool_rows (wpool w)) (rev us) (rev cs)" using k by (auto simp: work_of_def)
  have "undoable w' (pool_rows (wpool w')) (rev us) (rev cs)" by (rule undoable_kept [OF us(2)]) (use rows [OF us(1)] b in auto)
  then show ?thesis using us(1) locks [OF us(1)] log by (auto simp: work_of_def)
qed

text \<open>An operation that touches no row of an open transaction and leaves its heap where it is.\<close>

lemma open_work_kept:
  assumes w: "open_work w p" and k: "lock_kept (own_locks w) (active_txs w) w'"
    and log: "\<And>t. undo_log_of t w' = undo_log_of t w"
    and rows: "\<And>r. r \<in> open_rows w None \<Longrightarrow> pool_rows (wpool w') r = pool_rows (wpool w) r"
    and b: "\<And>t cs c tb r. p t = Some cs \<Longrightarrow> c \<in> set cs \<Longrightarrow> belongs w (change_table c) tb r \<Longrightarrow> belongs w' (change_table c) tb r"
  shows "open_work w' p"
proof -
  note W = open_workD [OF w]
  have "work_of w' t cs" if c: "p t = Some cs" for t cs
  proof (rule work_kept [OF W(3) [OF c] log])
    fix us r assume u: "undo_log_of t w = Some us" "r \<in> undo_rids us"
    have "(t, r) \<in> own_locks w" using u W(2) c by (auto simp: own_locks_def)
    then show "pool_rows (wpool w') r = pool_rows (wpool w) r" "has_lock w' t EXCLUSIVE r"
      using rows [of r] k by (auto simp: open_rows_def lock_kept_def)
  qed (rule b [OF c])
  then show ?thesis using W(2) k by (simp add: open_work_def lock_kept_def)
qed

lemma belongs_grown:
  assumes g: "grown (wpool w) (wpool w')" and t: "tables (tx_data w') = tables (tx_data w)" and b: "belongs w name tb r"
  shows "belongs w' name tb r"
proof -
  obtain e qs where e: "find_table name (tx_data w) = Some e" "entry_table e = tb" "heap_in w tb qs" "rid_page r \<in> set qs"
    using b by (auto simp: belongs_def)
  obtain xs where "heap_in w' tb (qs @ xs)" by (rule grown_heap [OF g e(3)])
  then show ?thesis using e find_table_tables [OF t] by (auto simp: belongs_def intro!: exI [of _ "qs @ xs"])
qed

text \<open>
  An operation of transaction \<open>tx\<close> that pushes the records \<open>new\<close> for the changes \<open>cs\<close>: undoing them
  leads back to the rows before it.
\<close>

lemma open_work_written:
  assumes w: "open_work w p" and k: "lock_kept (own_locks w) (active_txs w) w'"
    and g: "grown (wpool w) (wpool w')" and t: "tables (tx_data w') = tables (tx_data w)"
    and log: "\<And>t. undo_log_of t w' = (if tx = Some t then map_option (\<lambda>us. us @ new) (undo_log_of t w) else undo_log_of t w)"
    and rows: "\<And>r. r \<in> open_rows w tx \<Longrightarrow> pool_rows (wpool w') r = pool_rows (wpool w) r"
    and locks: "\<And>t r. tx = Some t \<Longrightarrow> r \<in> undo_rids new \<Longrightarrow> has_lock w' t EXCLUSIVE r"
    and undone: "\<And>us cs'. undoable w' (pool_rows (wpool w)) us cs' \<Longrightarrow> undoable w' (pool_rows (wpool w')) (rev new @ us) (rev cs @ cs')"
  shows "open_work w' (note_changes tx cs p)"
proof -
  note W = open_workD [OF w]
  have b: "belongs w name tb r \<Longrightarrow> belongs w' name tb r" for name tb r by (rule belongs_grown [OF g t])
  have "work_of w' t ds" if d: "note_changes tx cs p t = Some ds" for t ds
  proof (cases "tx = Some t")
    case False
    then have c: "p t = Some ds" using d note_changes_other by simp
    have "undo_log_of t w' = undo_log_of t w" using log False by simp
    from W(3) [OF c] this show ?thesis
    proof (rule work_kept)
      fix us r assume u: "undo_log_of t w = Some us" "r \<in> undo_rids us"
      have "(t, r) \<in> own_locks w" using u W(2) c by (auto simp: own_locks_def)
      then show "pool_rows (wpool w') r = pool_rows (wpool w) r" "has_lock w' t EXCLUSIVE r"
        using rows [of r] k False by (auto simp: open_rows_def lock_kept_def)
    qed (rule b)
  next
    case True
    then obtain old where old: "p t = Some old" "ds = old @ cs"
      using d by (auto simp: note_changes_def split: option.splits)
    obtain us where us: "undo_log_of t w = Some us" "undoable w (pool_rows (wpool w)) (rev us) (rev old)"
      using W(3) [OF old(1)] by (auto simp: work_of_def)
    have "undoable w' (pool_rows (wpool w)) (rev us) (rev old)" by (rule undoable_kept [OF us(2)]) (use b in auto)
    from undone [OF this] have "undoable w' (pool_rows (wpool w')) (rev (us @ new)) (rev ds)" by (simp add: old(2))
    moreover have "has_lock w' t EXCLUSIVE r" if r: "r \<in> undo_rids (us @ new)" for r
    proof (cases "r \<in> undo_rids new")
      case False
      then have "(t, r) \<in> own_locks w" using r us(1) W(2) old(1) by (auto simp: own_locks_def)
      then show ?thesis using k by (auto simp: lock_kept_def)
    qed (rule locks [OF True])
    moreover have "undo_log_of t w' = Some (us @ new)" using us(1) log [of t] True by simp
    ultimately show ?thesis unfolding work_of_def by blast
  qed
  then show ?thesis using W(2) k by (simp add: open_work_def lock_kept_def note_changes_dom)
qed

text \<open>Outside of transactions nothing keeps an operation from a row that an open transaction has changed.\<close>

definition spares :: "world \<Rightarrow> world \<Rightarrow> bool" where
  "spares w w' \<longleftrightarrow> (\<forall>r\<in>open_rows w None. pool_rows (wpool w') r = pool_rows (wpool w) r)"

lemma changed_rows_not_open:
  assumes k: "lock_kept (own_locks w) A w'" and ch: "\<And>x. pool_rows (wpool w') x \<noteq> pool_rows (wpool w) x \<Longrightarrow> x \<in> R"
    and l: "\<And>t x. tx = Some t \<Longrightarrow> x \<in> R \<Longrightarrow> has_lock w' t EXCLUSIVE x" and s: "tx = None \<longrightarrow> spares w w'" and x: "x \<in> open_rows w tx"
  shows "pool_rows (wpool w') x = pool_rows (wpool w) x"
proof (cases tx)
  case None
  then show ?thesis using s x by (simp add: spares_def)
next
  case (Some t)
  show ?thesis
  proof (rule ccontr)
    assume "pool_rows (wpool w') x \<noteq> pool_rows (wpool w) x"
    then have "has_lock w' t EXCLUSIVE x" using ch l [OF Some] by blast
    with locked_not_open [OF k] x Some show False by simp
  qed
qed

lemma undoable_rid: "undoable w f us cs \<Longrightarrow> r \<in> undo_rids us \<Longrightarrow> \<exists>c\<in>set cs. \<exists>tb. belongs w (change_table c) tb r"
  by (induction w f us cs rule: undoable.induct) auto

lemma open_rows_belong:
  assumes w: "open_work w p" and r: "r \<in> open_rows w None"
  obtains name tb where "belongs w name tb r"
proof -
  obtain t us where t: "t \<in> active_txs w" "undo_log_of t w = Some us" "r \<in> undo_rids us"
    using r by (auto simp: open_rows_def own_locks_def)
  obtain cs where "p t = Some cs" using t(1) open_workD(2) [OF w] by blast
  then have "work_of w t cs" by (rule open_workD(3) [OF w])
  then have "undoable w (pool_rows (wpool w)) (rev us) (rev cs)" using t(2) by (auto simp: work_of_def)
  from undoable_rid [OF this] t(3) that show thesis by auto
qed

end
