(* ===== verification/Database_Undo.thy ===== *)
theory Database_Undo
  imports Open_Changes
begin

text \<open>
  Undo records run on a database: each takes one row out of its table or puts one back, and a rollback
  that ends takes back what its transaction has done, whatever others have done meanwhile.
\<close>

section \<open>One row less, one row more\<close>

lemma deleted_table_rows:
  assumes hb: "heap_pages (bpm_view b) (bpm_pages b) (table_first_page tb) ps"
    and he: "heap_pages (bpm_view e) (bpm_pages e) (table_first_page tb) (ps @ xs)" and xs: "set xs \<inter> bpm_pages b = {}"
    and d: "pool_rows e = (pool_rows b)(r := None)" and bs: "pool_rows b r = Some bs" and r: "rid_page r \<in> set ps"
    and t: "tuple_deserialize bs (table_schema tb) = Inr t" and rows: "table_rows b tb rows"
  shows "\<exists>rows'. table_rows e tb rows' \<and> mset rows = add_mset (tvalues t) (mset rows')"
proof -
  let ?s = "table_schema tb" and ?old = "rows_from (bpm_view b) ps 0" and ?new = "rows_from (bpm_view e) (ps @ xs) 0"
  have "pool_rows b x = None" if "rid_page x \<in> set xs" for x using xs that by (auto simp: pool_rows_def)
  then have "heap_row (bpm_view e) (ps @ xs) r = None" "heap_row (bpm_view b) ps = (heap_row (bpm_view e) (ps @ xs))(r \<mapsto> bs)"
    using r bs by (auto simp: fun_eq_iff heap_row_pool [OF hb] heap_row_pool [OF he] d)
  note m = rows_from_add [OF he hb this]
  have dec: "\<forall>x\<in>set ?old. \<exists>z. tuple_deserialize (snd x) ?s = Inr z" "rows = map (decoded ?s) ?old"
    using rows unfolding table_rows_iff [OF hb] decodes_iff by auto
  have "set ?old = insert (r, bs) (set ?new)" using arg_cong [OF m, of set_mset] by simp
  then have "table_rows e tb (map (decoded ?s) ?new)" using dec(1) unfolding table_rows_iff [OF he] decodes_iff by auto
  moreover have "mset rows = add_mset (tvalues t) (mset (map (decoded ?s) ?new))" using m t by (simp add: dec(2) decoded_def)
  ultimately show ?thesis by blast
qed

lemma added_table_rows:
  assumes hb: "heap_pages (bpm_view b) (bpm_pages b) (table_first_page tb) ps"
    and he: "heap_pages (bpm_view e) (bpm_pages e) (table_first_page tb) ps"
    and d: "pool_rows e = (pool_rows b)(r \<mapsto> bs)" and n: "pool_rows b r = None" and r: "rid_page r \<in> set ps"
    and t: "tuple_deserialize bs (table_schema tb) = Inr t" and rows: "table_rows b tb rows"
  shows "\<exists>rows'. table_rows e tb rows' \<and> mset rows' = add_mset (tvalues t) (mset rows)"
proof -
  let ?s = "table_schema tb" and ?old = "rows_from (bpm_view b) ps 0" and ?new = "rows_from (bpm_view e) ps 0"
  have "heap_row (bpm_view b) ps r = None" "heap_row (bpm_view e) ps = (heap_row (bpm_view b) ps)(r \<mapsto> bs)"
    using r n by (auto simp: fun_eq_iff heap_row_pool [OF hb] heap_row_pool [OF he] d)
  note m = rows_from_add [OF hb he this]
  have dec: "\<forall>x\<in>set ?old. \<exists>z. tuple_deserialize (snd x) ?s = Inr z" "rows = map (decoded ?s) ?old"
    using rows unfolding table_rows_iff [OF hb] decodes_iff by auto
  have "set ?new = insert (r, bs) (set ?old)" using arg_cong [OF m, of set_mset] by simp
  then have "table_rows e tb (map (decoded ?s) ?new)" using dec(1) t unfolding table_rows_iff [OF he] decodes_iff by auto
  moreover have "mset (map (decoded ?s) ?new) = add_mset (tvalues t) (mset rows)" using m t by (simp add: dec(2) decoded_def)
  ultimately show ?thesis by blast
qed

section \<open>One record\<close>

lemma database_poolD:
  assumes "database_ok w"
  shows "pool_ok (wpool w)" "held {} {#} (wpool w)" "pages_wf (wpool w)" "sound_world w" "size {#} + 1 < pool_capacity (wpool w)"
  using assms by (simp_all add: database_ok_def pool_ok_def)

lemma pool_okI:
  assumes "held {} {#} b" and "pages_wf b" and "sound_disk (bdisk b)" and "1 < pool_capacity b"
  shows "pool_ok b"
  using assms by (simp add: pool_ok_def)

lemma row_undone:
  assumes ok: "database_ok w" and a: "represents w a" and b: "belongs w name tb r"
    and c: "page_changed {#} (wpool w) (rid_page r) z c" "wf_page z" "sp_next z = sp_next (bpm_view (wpool w) (rid_page r))"
      "tuple_at z = (tuple_at (bpm_view (wpool w) (rid_page r)))(unat (rid_slot r) := x)" and s: "sound_disk (bdisk c)"
    and x: "case x of None \<Rightarrow> \<exists>bs. pool_rows (wpool w) r = Some bs \<and> encodes tb bs vs | Some bs \<Rightarrow> pool_rows (wpool w) r = None \<and> encodes tb bs vs"
  shows "\<exists>a'. make_change (if x = None then Removed name vs else Added name vs) a = Some a' \<and>
    database_ok (put_pool c w) \<and> represents (put_pool c w) a'"
    "grown (wpool w) c" "pool_rows c = (pool_rows (wpool w))(r := x)"
proof -
  note D = database_poolD [OF ok]
  obtain e qs where e: "find_table name (tx_data w) = Some e" "entry_table e = tb" "heap_in w tb qs" "rid_page r \<in> set qs"
    using b by (auto simp: belongs_def)
  have rp: "rid_page r \<in> bpm_pages (wpool w)" using e(3,4) chain_in by (auto simp: heap_pages_def)
  note R = row_changed_pages [OF c disjI2 [OF rp]]
  have he: "heap_in (put_pool c w) tb qs" using row_changed_heap [OF c(1-3) e(3)] by simp
  have C: "held {} {#} c" "pool_capacity c = pool_capacity (wpool w)" "bpm_pages c = bpm_pages (wpool w)"
    using c(1) by (simp_all add: page_changed_def pool_shape_def)
  have p: "pool_ok (wpool (put_pool c w))" using pool_okI [OF C(1) R(2) [OF D(3)] s] C(2) D(5) by simp
  show g: "grown (wpool w) c" "pool_rows c = (pool_rows (wpool w))(r := x)" by (rule R)+
  obtain rows where rows: "table_rows (wpool w) tb rows" "a name = Some (table_schema tb, mset rows)"
    using representsD(2) [OF a e(1)] e(2) by blast
  obtain rows' where t: "table_rows c tb rows'"
    "if x = None then mset rows = add_mset vs (mset rows') else mset rows' = add_mset vs (mset rows)"
  proof (cases x)
    case None
    then obtain bs t where bs: "pool_rows (wpool w) r = Some bs" "tuple_deserialize bs (table_schema tb) = Inr t" "tvalues t = vs"
      using x by (auto simp: encodes_def)
    have n: "pool_rows c = (pool_rows (wpool w))(r := None)" using g(2) None by simp
    have "heap_pages (bpm_view c) (bpm_pages c) (table_first_page tb) (qs @ [])" using he by simp
    from deleted_table_rows [OF e(3) this _ n bs(1) e(4) bs(2) rows(1)] show thesis using that None bs(3) by auto
  next
    case (Some bs)
    then obtain t where bs: "pool_rows (wpool w) r = None" "tuple_deserialize bs (table_schema tb) = Inr t" "tvalues t = vs"
      using x by (auto simp: encodes_def)
    have n: "pool_rows c = (pool_rows (wpool w))(r \<mapsto> bs)" using g(2) Some by simp
    have "heap_pages (bpm_view c) (bpm_pages c) (table_first_page tb) qs" using he by simp
    from added_table_rows [OF e(3) this n bs(1) e(4) bs(2) rows(1)] show thesis using that Some bs(3) by auto
  qed
  have ch: "rid_page y \<in> set qs" if "pool_rows (wpool (put_pool c w)) y \<noteq> pool_rows (wpool w) y" for y
    using that e(4) by (auto simp: g(2) split: if_splits)
  have g': "grown (wpool w) (wpool (put_pool c w))" using g(1) by simp
  have he': "heap_in (put_pool c w) (entry_table e) qs" and t': "table_rows (wpool (put_pool c w)) (entry_table e) rows'"
    using he t(1) e(2) by simp_all
  have "database_ok (put_pool c w) \<and> represents (put_pool c w) (a(name \<mapsto> (table_schema (entry_table e), mset rows')))"
    by (rule one_table_represents [OF ok a p g' _ _ e(1) he' ch t']) simp_all
  moreover have "make_change (if x = None then Removed name vs else Added name vs) a = Some (a(name \<mapsto> (table_schema tb, mset rows')))"
    using t(2) rows(2) by (cases x) auto
  ultimately show "\<exists>a'. make_change (if x = None then Removed name vs else Added name vs) a = Some a' \<and>
      database_ok (put_pool c w) \<and> represents (put_pool c w) a'" using e(2) by blast
qed

lemma undo_added:
  assumes ok: "database_ok w" and a: "represents w a" and b: "belongs w name tb r"
    and bs: "pool_rows (wpool w) r = Some bs" "encodes tb bs vs"
  obtains c a' where "undo (DeleteUndoRecord tb r) (tx_data w) = (Inr (), tx_data (put_pool c w))" "make_change (Removed name vs) a = Some a'"
    "database_ok (put_pool c w)" "represents (put_pool c w) a'" "grown (wpool w) c" "pool_rows c = (pool_rows (wpool w))(r := None)"
    "\<And>S. rid_page r \<in> S \<Longrightarrow> \<forall>p\<in>S. dirty_at (wpool w) p \<Longrightarrow> \<forall>p\<in>S. dirty_at c p"
proof -
  note D = database_poolD [OF ok]
  have rp: "rid_page r \<in> bpm_pages (wpool w)" using bs(1) by (auto simp: pool_rows_def split: if_splits)
  have "size {#} < pool_capacity (wpool w)" "wf_page (bpm_view (wpool w) (rid_page r))" using D(3,5) rp by (simp_all add: pages_wf_def)
  from heap_delete_ok [OF D(2) rp this] obtain y z c where z: "heap_delete r (wpool w) = (Inr y, c)"
    "page_changed {#} (wpool w) (rid_page r) z c" "wf_page z" "sp_next z = sp_next (bpm_view (wpool w) (rid_page r))"
    "tuple_at z = (tuple_at (bpm_view (wpool w) (rid_page r)))(unat (rid_slot r) := None)" by blast
  have s: "sound_disk (bdisk c)" using keepsD [OF sound.heap_row_keeps(2) D(4) z(1)] .
  have x: "case None of None \<Rightarrow> \<exists>bs. pool_rows (wpool w) r = Some bs \<and> encodes tb bs vs | Some bs \<Rightarrow> pool_rows (wpool w) r = None \<and> encodes tb bs vs"
    using bs by simp
  note R = row_undone [OF ok a b z(2-5) s x]
  have "store_pool (heap_delete r) (tx_data w) = (Inr y, tx_data (put_pool c w))" using z(1) by (simp add: store_pool_def zoom_def put_pool_def)
  then have u: "undo (DeleteUndoRecord tb r) (tx_data w) = (Inr (), tx_data (put_pool c w))"
    by (simp add: and_then_Inr [of "store_pool (heap_delete r)" "tx_data w"])
  have d: "\<forall>p\<in>S. dirty_at c p" if "rid_page r \<in> S" "\<forall>p\<in>S. dirty_at (wpool w) p" for S
    using keepsD [OF row_op_dirty(1) [OF that(1)] that(2) z(1)] .
  from R(1) show thesis using that [OF u _ _ _ R(2,3) d] by auto
qed

text \<open>A record that puts a row back fails on the assertions of the page unless there is room for it.\<close>

lemma heap_restore_done:
  assumes h: "held {} {#} b" and p: "rid_page r \<in> bpm_pages b" and P: "0 < pool_capacity b" and wf: "wf_page (bpm_view b (rid_page r))"
    and t: "length t < 65536" and run: "heap_restore r t b = (Inr (), e)"
  shows "restorable (bpm_view b (rid_page r)) (rid_slot r) t"
proof (rule ccontr)
  let ?p = "rid_page r" and ?g = "\<lambda>d. bind_res (sp_restore_tuple d (rid_slot r) t) (\<lambda>d. Inr ((), d))"
  assume "\<not> restorable (bpm_view b ?p) (rid_slot r) t"
  then obtain m where m: "sp_restore_tuple (bpm_view b ?p) (rid_slot r) t = Inl m" using restore_refused [OF wf t] by blast
  obtain f c where c: "fetch_page ?p b = (Inr (Some f), c)" "held {} {#?p#} c" "page_table c ?p = Some f" "bpm_view c = bpm_view b"
    using held_fetch [OF h p] P by auto
  have "on_page (make_pinned (Some f)) ?g c = (Inl m, c)"
    using m c(4) by (simp add: on_page_def and_then_Inr [of "pinned_data _" c, OF held_data [OF c(2,3)]] bind_res_def)
  then have "and_then (on_page (make_pinned (Some f)) ?g) k c = (Inl m, c)" for k :: "unit \<Rightarrow> (bpm, unit \<times> pinned) proc"
    by (rule and_then_Inl)
  then show False using run by (simp add: heap_restore_def and_then_Inr [of "fetch_page ?p" b, OF c(1)] Let_def scope_def)
qed

lemma undo_removed:
  assumes ok: "database_ok w" and a: "represents w a" and b: "belongs w name tb r"
    and bs: "pool_rows (wpool w) r = None" "encodes tb bs vs" and S: "rid_page r \<in> S" "\<forall>p\<in>S. dirty_at (wpool w) p"
    and run: "undo (RestoreUndoRecord tb r bs) (tx_data w) = (Inr (), d)"
  obtains c a' where "d = tx_data (put_pool c w)" "make_change (Added name vs) a = Some a'"
    "database_ok (put_pool c w)" "represents (put_pool c w) a'" "grown (wpool w) c" "pool_rows c = (pool_rows (wpool w))(r \<mapsto> bs)"
    "\<forall>p\<in>S. dirty_at c p"
proof -
  note D = database_poolD [OF ok]
  have rp: "rid_page r \<in> bpm_pages (wpool w)" using b chain_in by (auto simp: belongs_def heap_pages_def)
  have P: "0 < pool_capacity (wpool w)" "size {#} < pool_capacity (wpool w)" and wf: "wf_page (bpm_view (wpool w) (rid_page r))"
    using D(3,5) rp by (simp_all add: pages_wf_def)
  obtain c where c: "heap_restore r bs (wpool w) = (Inr (), c)" "d = tx_data (put_pool c w)"
    using run by (auto simp: store_pool_def zoom_def put_pool_def split: prod.splits)
  have "restorable (bpm_view (wpool w) (rid_page r)) (rid_slot r) bs"
    using heap_restore_done [OF D(2) rp P(1) wf _ c(1)] bs(2) by (simp add: encodes_def)
  from heap_restore_ok [OF D(2) rp P(2) wf this] S obtain z where z: "page_changed {#} (wpool w) (rid_page r) z c" "wf_page z"
    "sp_next z = sp_next (bpm_view (wpool w) (rid_page r))"
    "tuple_at z = (tuple_at (bpm_view (wpool w) (rid_page r)))(unat (rid_slot r) := Some bs)" using c(1) by auto
  have s: "sound_disk (bdisk c)" using keepsD [OF sound.heap_row_keeps(3) D(4) c(1)] .
  have x: "case Some bs of None \<Rightarrow> \<exists>bs. pool_rows (wpool w) r = Some bs \<and> encodes tb bs vs | Some bs \<Rightarrow> pool_rows (wpool w) r = None \<and> encodes tb bs vs"
    using bs by simp
  note R = row_undone [OF ok a b z s x]
  have "\<forall>p\<in>S. dirty_at c p" using keepsD [OF row_op_dirty(2) [OF S(1)] S(2) c(1)] .
  with R(1) show thesis using that [OF c(2) _ _ _ R(2,3)] by auto
qed

section \<open>The log of a transaction\<close>

definition restores :: "undo_record list \<Rightarrow> bool" where
  "restores us \<longleftrightarrow> (\<exists>tb r bs. RestoreUndoRecord tb r bs \<in> set us)"

lemma restores_Cons: "restores us \<Longrightarrow> restores (u # us)"
  by (auto simp: restores_def)

lemma run_undo_done:
  assumes "database_ok w" and "represents w a" and "undoable w (pool_rows (wpool w)) us cs" and "run_undo undo us (tx_data w) = (Inr (), d)"
    and "\<forall>u\<in>set us. undo_pages u \<subseteq> S" and "restores us \<longrightarrow> (\<forall>p\<in>S. dirty_at (wpool w) p)"
  shows "\<exists>a'. make_changes (map opposite cs) a = Some a' \<and> database_ok (w\<lparr>tx_data := d\<rparr>) \<and> represents (w\<lparr>tx_data := d\<rparr>) a' \<and>
    grown (wpool w) (pool d) \<and> tables d = tables (tx_data w) \<and>
    (\<forall>x. x \<notin> undo_rids us \<longrightarrow> pool_rows (pool d) x = pool_rows (wpool w) x)"
  using assms
proof (induction us arbitrary: w a cs)
  case Nil
  then show ?case using grown_refl by (cases cs) auto
next
  case (Cons u us)
  obtain s where u: "undo u (tx_data w) = (Inr (), s)" and us: "run_undo undo us s = (Inr (), d)"
    using Cons.prems(4) by (auto simp: and_then_eq_Inr)
  have next_step: ?case
    if c: "cs = ch # cs'" "s = tx_data (put_pool c w)" "make_change (opposite ch) a = Some b" "database_ok (put_pool c w)"
      "represents (put_pool c w) b" "grown (wpool w) c" "pool_rows c = (pool_rows (wpool w))(r := x)" "undo_rid u = {r}"
      "restores us \<longrightarrow> (\<forall>p\<in>S. dirty_at c p)" "undoable w ((pool_rows (wpool w))(r := x)) us cs'" for ch cs' c b r x
  proof -
    let ?v = "put_pool c w"
    have b: "belongs w n tb q \<Longrightarrow> belongs ?v n tb q" for n tb q by (rule belongs_grown) (use c(6) in simp_all)
    have "undoable ?v (pool_rows (wpool ?v)) us cs'" by (rule undoable_kept [OF c(10)]) (use b c(7) in auto)
    from Cons.IH [OF c(4,5) this us [unfolded c(2)]] Cons.prems(5) c(9)
    obtain a' where a': "make_changes (map opposite cs') b = Some a'" "database_ok (?v\<lparr>tx_data := d\<rparr>)" "represents (?v\<lparr>tx_data := d\<rparr>) a'"
      "grown c (pool d)" "tables d = tables (tx_data w)" "\<forall>x. x \<notin> undo_rids us \<longrightarrow> pool_rows (pool d) x = pool_rows c x" by auto
    have "?v\<lparr>tx_data := d\<rparr> = w\<lparr>tx_data := d\<rparr>" by (simp add: put_pool_def)
    then show ?thesis using a' c(1,3,7,8) grown_trans [OF c(6) a'(4)] by auto
  qed
  show ?case
  proof (cases u)
    case (DeleteUndoRecord tb r)
    then obtain name vs cs' bs where c: "cs = Added name vs # cs'" "belongs w name tb r" "pool_rows (wpool w) r = Some bs" "encodes tb bs vs"
      "undoable w ((pool_rows (wpool w))(r := None)) us cs'"
      using Cons.prems(3) by (cases cs; cases "hd cs") auto
    obtain c b where u': "undo (DeleteUndoRecord tb r) (tx_data w) = (Inr (), tx_data (put_pool c w))" "make_change (Removed name vs) a = Some b"
      "database_ok (put_pool c w)" "represents (put_pool c w) b" "grown (wpool w) c" "pool_rows c = (pool_rows (wpool w))(r := None)"
      "\<And>S. rid_page r \<in> S \<Longrightarrow> \<forall>p\<in>S. dirty_at (wpool w) p \<Longrightarrow> \<forall>p\<in>S. dirty_at c p"
      by (rule undo_added [OF Cons.prems(1,2) c(2-4)], rule that)
    have "restores us \<longrightarrow> (\<forall>p\<in>S. dirty_at c p)"
      using u'(7) [of S] Cons.prems(5,6) restores_Cons [of us u] DeleteUndoRecord by auto
    moreover have "s = tx_data (put_pool c w)" using u u'(1) by (simp add: DeleteUndoRecord)
    ultimately show ?thesis using next_step [of "Added name vs" cs' c b r None] c u' by (simp add: DeleteUndoRecord)
  next
    case (RestoreUndoRecord tb r bs)
    then obtain name vs cs' where c: "cs = Removed name vs # cs'" "belongs w name tb r" "pool_rows (wpool w) r = None" "encodes tb bs vs"
      "undoable w ((pool_rows (wpool w))(r \<mapsto> bs)) us cs'"
      using Cons.prems(3) by (cases cs; cases "hd cs") auto
    have "restores (u # us)" by (auto simp: RestoreUndoRecord restores_def)
    then have S: "rid_page r \<in> S" "\<forall>p\<in>S. dirty_at (wpool w) p" using Cons.prems(5,6) by (simp_all add: RestoreUndoRecord)
    obtain c b where u': "s = tx_data (put_pool c w)" "make_change (Added name vs) a = Some b"
      "database_ok (put_pool c w)" "represents (put_pool c w) b" "grown (wpool w) c" "pool_rows c = (pool_rows (wpool w))(r \<mapsto> bs)"
      "\<forall>p\<in>S. dirty_at c p"
      by (rule undo_removed [OF Cons.prems(1,2) c(2-4) S u [unfolded RestoreUndoRecord]])
    then show ?thesis using next_step [of "Removed name vs" cs' c b r "Some bs"] c by (simp add: RestoreUndoRecord)
  next
    case (DropTableUndoRecord n)
    then show ?thesis using Cons.prems(3) by (cases cs) auto
  qed
qed

text \<open>Taking rows out always works: a transaction that has only inserted can be rolled back.\<close>

lemma run_undo_ends:
  assumes "database_ok w" and "represents w a" and "undoable w (pool_rows (wpool w)) us cs" and "\<not> restores us"
  shows "\<exists>d. run_undo undo us (tx_data w) = (Inr (), d)"
  using assms
proof (induction us arbitrary: w a cs)
  case (Cons u us)
  then obtain tb r name vs cs' bs where u: "u = DeleteUndoRecord tb r" and c: "cs = Added name vs # cs'" "belongs w name tb r"
    "pool_rows (wpool w) r = Some bs" "encodes tb bs vs" "undoable w ((pool_rows (wpool w))(r := None)) us cs'"
    by (cases u; cases cs; cases "hd cs") (auto simp: restores_def)
  obtain c b where v: "undo (DeleteUndoRecord tb r) (tx_data w) = (Inr (), tx_data (put_pool c w))" "make_change (Removed name vs) a = Some b"
    "database_ok (put_pool c w)" "represents (put_pool c w) b" "grown (wpool w) c" "pool_rows c = (pool_rows (wpool w))(r := None)"
    by (rule undo_added [OF Cons.prems(1,2) c(2-4)], rule that)
  have b: "belongs w n tb q \<Longrightarrow> belongs (put_pool c w) n tb q" for n tb q by (rule belongs_grown) (use v(5) in simp_all)
  have "undoable (put_pool c w) (pool_rows (wpool (put_pool c w))) us cs'" by (rule undoable_kept [OF c(5)]) (use b v(6) in auto)
  from Cons.IH [OF v(3,4) this] Cons.prems(4) restores_Cons [of us u]
  obtain d where "run_undo undo us (tx_data (put_pool c w)) = (Inr (), d)" by blast
  then have "run_undo undo (u # us) (tx_data w) = (Inr (), d)"
    unfolding u run_undo.simps by (simp only: and_then_Inr [of "undo (DeleteUndoRecord tb r)" "tx_data w", OF v(1)])
  then show ?case by blast
qed simp

section \<open>The end of a transaction among others\<close>

lemma open_work_ended:
  assumes w: "open_work w p" and rows: "\<And>r. r \<in> open_rows w (Some t) \<Longrightarrow> pool_rows (pool d) r = pool_rows (wpool w) r"
    and g: "grown (wpool w) (pool d)" and ts: "tables d = tables (tx_data w)"
  shows "open_work (ended t st (w\<lparr>tx_data := d\<rparr>)) (p(t := None))"
proof -
  let ?v = "w\<lparr>tx_data := d\<rparr>" and ?E = "{(u, r). (u, r) \<in> own_locks w \<and> u \<noteq> t}"
  note W = open_workD [OF w]
  have "lock_kept ?E (active_txs w) ?v" using open_work_locks [OF w] by (auto simp: lock_kept_def)
  note K = ended_kept [OF this, of t st]
  have k: "lock_kept ?E (active_txs w - {t}) (ended t st ?v)" by (rule K) simp
  have b: "belongs w n tb q \<Longrightarrow> belongs (ended t st ?v) n tb q" for n tb q by (rule belongs_grown) (use K(3) g ts in simp_all)
  have "work_of (ended t st ?v) u cs" if u: "(p(t := None)) u = Some cs" for u cs
  proof -
    have c: "p u = Some cs" "u \<noteq> t" using u by (auto split: if_splits)
    show ?thesis
    proof (rule work_kept [OF W(3) [OF c(1)]])
      show "undo_log_of u (ended t st ?v) = undo_log_of u w" using K(2) by simp
      fix us r assume r: "undo_log_of u w = Some us" "r \<in> undo_rids us"
      then have "(u, r) \<in> ?E" using W(2) c by (auto simp: own_locks_def)
      then show "pool_rows (wpool (ended t st ?v)) r = pool_rows (wpool w) r" "has_lock (ended t st ?v) u EXCLUSIVE r"
        using rows [of r] k K(3) by (auto simp: open_rows_def lock_kept_def)
    qed (rule b)
  qed
  then show ?thesis using W(2) k by (auto simp: open_work_def lock_kept_def)
qed

lemma same_data:
  assumes "tx_data v = tx_data w"
  shows "database_ok v = database_ok w" "represents v a = represents w a"
  unfolding database_ok_def heaps_apart_def represents_def assms by (rule refl)+

lemma rollback_takes_back:
  assumes ok: "database_ok w" and a: "represents w a" and w: "open_work w p" and t: "t \<in> active_txs w"
    and m: "\<And>us u. undo_log_of t w = Some us \<Longrightarrow> restores us \<Longrightarrow> u \<in> set us \<Longrightarrow> \<forall>q\<in>undo_pages u. dirty_at (wpool w) q"
    and run: "rollback_tx t w = (Inr (), w')"
  shows "\<exists>cs a'. p t = Some cs \<and> take_back cs a = Some a' \<and> database_ok w' \<and> represents w' a' \<and> open_work w' (p(t := None))"
proof -
  note W = open_workD [OF w]
  obtain cs where cs: "p t = Some cs" using t W(2) by blast
  obtain us where us: "undo_log_of t w = Some us" "undoable w (pool_rows (wpool w)) (rev us) (rev cs)" "\<forall>r\<in>undo_rids us. has_lock w t EXCLUSIVE r"
    using W(3) [OF cs] by (auto simp: work_of_def)
  obtain d where d: "run_undo undo (rev us) (tx_data w) = (Inr (), d)" "w' = ended t ABORTED (w\<lparr>tx_data := d\<rparr>)"
    by (rule abort_ended [OF us(1) run])
  have S: "\<forall>u\<in>set (rev us). undo_pages u \<subseteq> \<Union> (undo_pages ` set us)" by auto
  have "restores (rev us) \<longrightarrow> (\<forall>q\<in>\<Union> (undo_pages ` set us). dirty_at (wpool w) q)" using m [OF us(1)] by (auto simp: restores_def)
  from run_undo_done [OF ok a us(2) d(1) S this] obtain a' where a': "make_changes (map opposite (rev cs)) a = Some a'"
    "database_ok (w\<lparr>tx_data := d\<rparr>)" "represents (w\<lparr>tx_data := d\<rparr>) a'" "grown (wpool w) (pool d)" "tables d = tables (tx_data w)"
    "\<forall>x. x \<notin> undo_rids us \<longrightarrow> pool_rows (pool d) x = pool_rows (wpool w) x" by auto
  have "x \<notin> undo_rids us" if "x \<in> open_rows w (Some t)" for x
    using locked_not_open [OF open_work_locks [OF w]] us(3) that by blast
  then have "open_work w' (p(t := None))" unfolding d(2) using a'(4-6) by (intro open_work_ended [OF w]) auto
  moreover have "tx_data w' = tx_data (w\<lparr>tx_data := d\<rparr>)" by (simp add: d(2) ended_def tx_set_state_def)
  from same_data [OF this] have "database_ok w'" "represents w' a'" using a'(2,3) by simp_all
  ultimately show ?thesis using cs a'(1) by (auto simp: take_back_def)
qed

lemma rollback_of_inserts_ends:
  assumes ok: "database_ok w" and a: "represents w a" and w: "open_work w p" and us: "undo_log_of t w = Some us" "\<not> restores us" and t: "t \<in> active_txs w"
  shows "\<exists>w'. rollback_tx t w = (Inr (), w')"
proof -
  obtain cs where "p t = Some cs" using t open_workD(2) [OF w] by blast
  then have "work_of w t cs" by (rule open_workD(3) [OF w])
  then have "undoable w (pool_rows (wpool w)) (rev us) (rev cs)" using us(1) by (auto simp: work_of_def)
  moreover have "\<not> restores (rev us)" using us(2) by (simp add: restores_def)
  ultimately obtain d where d: "run_undo undo (rev us) (tx_data w) = (Inr (), d)" using run_undo_ends [OF ok a] by blast
  have "(case txs (locks (tx_set_state t SHRINKING w)) t of None \<Rightarrow> [] | Some x \<Rightarrow> undo_log x) = us" "tx_data (tx_set_state t SHRINKING w) = tx_data w"
    using us(1) by (auto simp: tx_set_state_def set_tx_def)
  then have "tx_undo undo t (tx_set_state t SHRINKING w) = (Inr (), (tx_set_state t SHRINKING w)\<lparr>tx_data := d\<rparr>)"
    using d by (simp add: tx_undo_def zoom_def)
  then show ?thesis by (simp add: rollback_tx_def tm_abort_def and_then_Inr [of "tx_undo undo t"])
qed

end
