(* ===== verification/Heap_Drop.thy ===== *)
theory Heap_Drop
  imports Heap_Properties Table
begin

text \<open>
  Giving pages back: \<open>BufferPoolManager::delete_page\<close> on a page nobody has pinned, and dropping all the
  pages of a heap, while the free list of the disk has room for them.
\<close>

section \<open>Deleting a page\<close>

text \<open>Page \<open>p\<close> is gone; every other page has its bytes and its frame.\<close>

definition page_deleted :: "bpm \<Rightarrow> page_id \<Rightarrow> bpm \<Rightarrow> bool" where
  "page_deleted b p c \<longleftrightarrow> bpm_ok c \<and> bpm_pages c = bpm_pages b - {p} \<and> page_table c = (page_table b)(p := None) \<and>
     (\<forall>q f. q \<noteq> p \<longrightarrow> page_table b q = Some f \<longrightarrow> frames c ! unat f = frames b ! unat f) \<and>
     pool_capacity c = pool_capacity b \<and> bdisk c = (bdisk b)\<lparr>free_list := free_list (bdisk b) @ [p]\<rparr>"

lemma deallocate_ok:
  assumes ok: "bpm_ok b" and m: "page_table b p = None" and p: "p \<in> bpm_pages b" and l: "length (free_list (bdisk b)) \<le> 1024"
  shows "\<exists>c. on_disk (deallocate_page p) b = (Inr (), c) \<and> page_deleted b p c"
proof -
  let ?d = "(bdisk b)\<lparr>free_list := free_list (bdisk b) @ [p]\<rparr>"
  have dk: "disk_ok (bdisk b)" "free_ok (bdisk b)" and F: "frames_ok {} b" and R: "replacer_ok (replacer b)" "set (lru_order (replacer b)) = dom (page_table b)"
    using ok by (simp_all add: bpm_inv_def)
  have d: "deallocate_page p (bdisk b) = (Inr (), ?d)" "free_ok ?d" "in_use ?d = bpm_pages b - {p}"
    using deallocate_page_cases [OF dk(2) p] l by simp_all
  let ?c = "b\<lparr>bdisk := ?d\<rparr>"
  have "disk_view ?d = disk_view (bdisk b)" by (simp add: disk_view_def [abs_def])
  then have v: "disk_view ?d q = disk_view (bdisk b) q" for q by simp
  have "mapped_ok {} ?c"
  proof (rule mapped_okI)
    fix q f assume "page_table ?c q = Some f"
    then have q: "page_table b q = Some f" "q \<noteq> p" using m by auto
    show "unat f < pool_size ?c \<and> f \<notin> set (free_frames ?c) \<and> f \<notin> {} \<and> pg_id (frames ?c ! unat f) = q \<and>
        q \<in> bpm_pages ?c \<and> (\<not> pg_dirty (frames ?c ! unat f) \<longrightarrow> pg_pin (frames ?c ! unat f) = 0 \<longrightarrow>
          pg_data (frames ?c ! unat f) = disk_view (bdisk ?c) q)"
      using mappedD [OF ok q(1)] q(2) v by (simp add: d(3))
  next
    fix f assume "unat f < pool_size ?c" "f \<notin> set (free_frames ?c)" "f \<notin> {}"
    then show "page_table ?c (pg_id (frames ?c ! unat f)) = Some f" using frameD [OF ok, of f] by simp
  qed
  moreover have "frames_ok {} ?c" using F by (simp add: frames_ok_def)
  moreover have "disk_ok ?d" using dk(1) by (simp add: disk_ok_def)
  ultimately have "bpm_ok ?c" using d(2) R by (simp add: bpm_inv_def)
  moreover have "page_table b = (page_table b)(p := None)" using m by (simp add: fun_upd_idem)
  ultimately have "page_deleted b p ?c" by (simp add: page_deleted_def d(3))
  then show ?thesis using on_disk_ok [of "deallocate_page p" b, OF d(1)] by blast
qed

text \<open>The frame of the page becomes a free frame.\<close>

lemma unmap_inv:
  assumes ok: "bpm_ok b" and m: "page_table b p = Some f" and r: "replacer_ok r" "lru_order r = removeAll p (lru_order (replacer b))"
  shows "bpm_ok (b\<lparr>page_table := (page_table b)(p := None), replacer := r, frames := (frames b)[unat f := fresh_frame],
    free_frames := free_frames b @ [f]\<rparr>)"
proof -
  let ?c = "b\<lparr>page_table := (page_table b)(p := None), replacer := r, frames := (frames b)[unat f := fresh_frame], free_frames := free_frames b @ [f]\<rparr>"
  have F: "frames_ok {} b" and L: "set (lru_order (replacer b)) = dom (page_table b)" using ok by (simp_all add: bpm_inv_def)
  note D = mappedD [OF ok m]
  have other: "unat g = unat h \<longleftrightarrow> g = h" for g h :: frame_id by (auto dest: unsigned_word_eqI)
  have nof: "page_table b q \<noteq> Some f" if "q \<noteq> p" for q using mapped_inj [OF ok _ m] that by blast
  have "frames_ok {} ?c" using F D(1-3) by (auto simp: frames_ok_def nth_list_update other fresh_frame_def)
  moreover have "mapped_ok {} ?c"
  proof (rule mapped_okI)
    fix q g assume "page_table ?c q = Some g"
    then have q: "page_table b q = Some g" "q \<noteq> p" by (auto split: if_splits)
    then have "g \<noteq> f" using nof by auto
    then show "unat g < pool_size ?c \<and> g \<notin> set (free_frames ?c) \<and> g \<notin> {} \<and> pg_id (frames ?c ! unat g) = q \<and>
        q \<in> bpm_pages ?c \<and> (\<not> pg_dirty (frames ?c ! unat g) \<longrightarrow> pg_pin (frames ?c ! unat g) = 0 \<longrightarrow>
          pg_data (frames ?c ! unat g) = disk_view (bdisk ?c) q)"
      using mappedD [OF ok q(1)] by (simp add: other)
  next
    fix g assume g: "unat g < pool_size ?c" "g \<notin> set (free_frames ?c)" "g \<notin> {}"
    then have "page_table b (pg_id (frames b ! unat g)) = Some g" "g \<noteq> f" using frameD [OF ok, of g] by simp_all
    then show "page_table ?c (pg_id (frames ?c ! unat g)) = Some g" using m by (auto simp: other)
  qed
  moreover have "set (lru_order r) = dom ((page_table b)(p := None))" using L r(2) by auto
  ultimately show ?thesis using ok r by (simp add: bpm_inv_def)
qed

lemma delete_page_ok:
  assumes ok: "bpm_ok b" and p: "p \<in> bpm_pages b" and pin: "pins b p = 0" and l: "length (free_list (bdisk b)) \<le> 1024"
  shows "\<exists>c. delete_page p b = (Inr True, c) \<and> page_deleted b p c"
proof (cases "page_table b p")
  case None
  obtain c where c: "on_disk (deallocate_page p) b = (Inr (), c)" "page_deleted b p c" using deallocate_ok [OF ok None p l] by blast
  then show ?thesis using None by (simp add: delete_page_def and_then_Inr [of "on_disk (deallocate_page p)" b, OF c(1)])
next
  case (Some f)
  note D = mappedD [OF ok Some]
  obtain r where r: "replacer_remove p (replacer b) = (Inr (), r)" "replacer_ok r" "lru_order r = removeAll p (lru_order (replacer b))"
    using replacer_remove_ok ok by (metis bpm_inv_def)
  let ?a = "b\<lparr>page_table := (page_table b)(p := None)\<rparr>" and ?fr = "frames b ! unat f"
  let ?c = "b\<lparr>page_table := (page_table b)(p := None), replacer := r, frames := (frames b)[unat f := fresh_frame], free_frames := free_frames b @ [f]\<rparr>"
  have rem: "on_replacer (replacer_remove p) ?a = (Inr (), ?a\<lparr>replacer := r\<rparr>)" by (rule on_replacer_ok) (simp add: r(1))
  have fresh: "reset_memory INVALID_PAGE_ID fr = fresh_frame" for fr by (simp add: reset_memory_def fresh_frame_def)
  have chg: "change_frame f (reset_memory INVALID_PAGE_ID) (?a\<lparr>replacer := r\<rparr>) = (Inr (), ?a\<lparr>replacer := r, frames := (frames b)[unat f := fresh_frame]\<rparr>)"
    using D(2) by (subst change_frame_ok) (simp_all add: fresh)
  have okc: "bpm_ok ?c" by (rule unmap_inv [OF ok Some r(2,3)])
  obtain c where c: "on_disk (deallocate_page p) ?c = (Inr (), c)" "page_deleted ?c p c" using deallocate_ok [OF okc, of p] p l by auto
  have "pg_pin ?fr = 0" using pin Some by (simp add: pins_def)
  then have "delete_page p b = (Inr True, c)"
    using Some D(2) by (simp add: delete_page_def and_then_Inr [of "frame_at f" b] and_then_assoc and_then_Inr [of "on_replacer (replacer_remove p)" ?a, OF rem]
        and_then_Inr [of "change_frame f _" "?a\<lparr>replacer := r\<rparr>", OF chg] and_then_Inr [of "on_disk (deallocate_page p)" ?c, OF c(1)])
  moreover have "unat f \<noteq> unat g" if "q \<noteq> p" "page_table b q = Some g" for q g
    using that mapped_inj [OF ok _ Some] by (auto dest: unsigned_word_eqI)
  then have "page_deleted b p c" using c(2) by (auto simp: page_deleted_def)
  ultimately show ?thesis by blast
qed


section \<open>Dropping the pages of a heap\<close>

definition pages_dropped :: "page_id multiset \<Rightarrow> bpm \<Rightarrow> page_id list \<Rightarrow> bpm \<Rightarrow> bool" where
  "pages_dropped P b ps c \<longleftrightarrow> held {} P c \<and> bpm_pages c = bpm_pages b - set ps \<and> (\<forall>q. q \<notin> set ps \<longrightarrow> bpm_view c q = bpm_view b q) \<and>
     pool_capacity c = pool_capacity b \<and> free_list (bdisk c) = free_list (bdisk b) @ ps"

lemma held_delete:
  assumes h: "held {} P b" and p: "p \<in> bpm_pages b" "p \<notin># P" and l: "length (free_list (bdisk b)) \<le> 1024"
  shows "\<exists>c. delete_page p b = (Inr True, c) \<and> pages_dropped P b [p] c"
proof -
  note H = heldD [OF h]
  have "pins b p = 0" using H(3) [of p] p(2) by (simp add: not_in_iff)
  then obtain c where run: "delete_page p b = (Inr True, c)" and c: "bpm_ok c" "bpm_pages c = bpm_pages b - {p}"
    "page_table c = (page_table b)(p := None)" "pool_capacity c = pool_capacity b" "bdisk c = (bdisk b)\<lparr>free_list := free_list (bdisk b) @ [p]\<rparr>"
    "\<And>q f. q \<noteq> p \<Longrightarrow> page_table b q = Some f \<Longrightarrow> frames c ! unat f = frames b ! unat f"
    using delete_page_ok [OF H(1) p(1) _ l] unfolding page_deleted_def by blast
  have d: "disk_view (bdisk c) q = disk_view (bdisk b) q" for q by (simp add: c(5) disk_view_def)
  have v: "bpm_view c q = bpm_view b q \<and> pins c q = pins b q" if "q \<noteq> p" for q
    using that c(3,6) d by (auto simp: bpm_view_def pins_def split: option.split)
  have "pins c q = of_nat (count P q)" for q
    using v [of q] H(3) [of q] c(3) p(2) by (cases "q = p") (simp_all add: pins_def not_in_iff)
  moreover have "tidy {} c" using H(2) c(3,6) d by (auto simp: tidy_def)
  ultimately have "held {} P c" using c(1,4) H(4) by (simp add: held_def)
  then show ?thesis using run c(2,4,5) v by (auto simp: pages_dropped_def)
qed

lemma drop_each_ok:
  "held {} P b \<Longrightarrow> distinct ps \<Longrightarrow> set ps \<subseteq> bpm_pages b \<Longrightarrow> set ps \<inter> set_mset P = {} \<Longrightarrow> length (free_list (bdisk b)) + length ps \<le> 1025 \<Longrightarrow>
   \<exists>c. drop_each ps b = (Inr 0, c) \<and> pages_dropped P b ps c"
proof (induction ps arbitrary: b)
  case Nil
  then show ?case by (simp add: pages_dropped_def)
next
  case (Cons p ps)
  then have "p \<in> bpm_pages b" "p \<notin># P" "length (free_list (bdisk b)) \<le> 1024" by auto
  from held_delete [OF Cons.prems(1) this] obtain c where c: "delete_page p b = (Inr True, c)" "pages_dropped P b [p] c" by blast
  then have C: "held {} P c" "set ps \<subseteq> bpm_pages c" "length (free_list (bdisk c)) + length ps \<le> 1025"
    using Cons.prems by (auto simp: pages_dropped_def)
  from Cons.IH [OF C(1) _ C(2) _ C(3)] Cons.prems obtain e where e: "drop_each ps c = (Inr 0, e)" "pages_dropped P c ps e" by auto
  have "drop_each (p # ps) b = (Inr 0, e)"
    by (simp add: heap_drop_page_def and_then_Inr [of "delete_page p" b, OF c(1)] and_then_Inr [of "drop_each ps" c, OF e(1)])
  moreover have "pages_dropped P b (p # ps) e" using c(2) e(2) by (auto simp: pages_dropped_def)
  ultimately show ?case by blast
qed

lemma table_drop_pages_ok:
  assumes h: "held {} P b" and P: "size P < pool_capacity b" and hp: "heap_pages (bpm_view b) (bpm_pages b) (table_first_page tb) ps"
    and free: "set ps \<inter> set_mset P = {}" and l: "length (free_list (bdisk b)) + length ps \<le> 1025"
  shows "\<exists>c. table_drop_pages tb b = (Inr (0, DROP_SUCCESS), c) \<and> pages_dropped P b ps c"
proof -
  obtain a where a: "heap_all_pages (table_first_page tb) b = (Inr (ps, SUCCESS), a)" "held {} P a" "bpm_view a = bpm_view b"
    "bpm_pages a = bpm_pages b" "pool_shape a = pool_shape b" using heap_all_pages_ok [OF h P hp] by blast
  have s: "free_list (bdisk a) = free_list (bdisk b)" "pool_capacity a = pool_capacity b" using a(5) by (simp_all add: pool_shape_def)
  have "distinct ps" "set ps \<subseteq> bpm_pages a" using hp chain_in by (auto simp: heap_pages_def a(4))
  from drop_each_ok [OF a(2) this free] l s obtain c where c: "drop_each ps a = (Inr 0, c)" "pages_dropped P a ps c" by auto
  have "table_drop_pages tb b = (Inr (0, DROP_SUCCESS), c)"
    by (simp add: table_drop_pages_def and_then_Inr [of "heap_all_pages _" b, OF a(1)] and_then_Inr [of "drop_each ps" a, OF c(1)])
  then show ?thesis using c(2) s by (auto simp: pages_dropped_def a(3,4))
qed

end
