(* ===== verification/Database_Drop.thy ===== *)
theory Database_Drop
  imports Database_Rows Heap_Drop
begin

text \<open>
  \<open>Catalog::drop_table\<close> on a database: the row of the table leaves the catalog table, its entry leaves
  the map in memory, its pages go to the free list of the disk.
\<close>

section \<open>The catalog without an entry\<close>

lemma delete_filter: "AList.delete k xs = filter (\<lambda>x. fst x \<noteq> k) xs"
  by (induction xs) simp_all

lemma find_dropped: "find_table n (s\<lparr>tables := AList.delete name (tables s)\<rparr>) = (if n = name then None else find_table n s)"
  by (simp add: find_table_def AList.delete_conv')

text \<open>The numbers of the rows are distinct, so the entry loses exactly its own row.\<close>

lemma catalog_rows_delete:
  assumes d: "distinct (map fst ts)" "distinct (map fst (catalog_rows ts))" and e: "(name, e) \<in> set ts"
  shows "distinct (map fst (AList.delete name ts))" "distinct (map fst (catalog_rows (AList.delete name ts)))"
    "map_of (catalog_rows (AList.delete name ts)) = (map_of (catalog_rows ts))(entry_rid e := None)"
proof -
  have fe: "map fst (catalog_rows xs) = map (entry_rid \<circ> snd) xs" for xs by (induction xs) (auto simp: catalog_rows_def)
  show D1: "distinct (map fst (AList.delete name ts))" unfolding delete_filter using d(1) by (rule distinct_map_filter)
  show D2: "distinct (map fst (catalog_rows (AList.delete name ts)))"
    using d(2) unfolding fe delete_filter by (rule distinct_map_filter)
  have inj: "n = name \<longleftrightarrow> entry_rid x = entry_rid e" if "(n, x) \<in> set ts" for n x
    using d e that unfolding fe distinct_map inj_on_def by fastforce
  have "set (catalog_rows (AList.delete name ts)) = {x \<in> set (catalog_rows ts). fst x \<noteq> entry_rid e}"
    unfolding catalog_rows_def using inj by (auto simp: delete_filter image_iff) (metis (mono_tags, lifting) case_prod_conv)+
  then have "map_of (catalog_rows (AList.delete name ts)) r = Some t \<longleftrightarrow> ((map_of (catalog_rows ts))(entry_rid e := None)) r = Some t" for r t
    using map_of_eq_Some_iff [OF d(2), of r t] map_of_eq_Some_iff [OF D2, of r t] by auto
  then show "map_of (catalog_rows (AList.delete name ts)) = (map_of (catalog_rows ts))(entry_rid e := None)"
    by (intro ext option.expand) (metis option.exhaust_sel option.sel option.simps(3))+
qed


lemma catalog_entry:
  assumes c: "catalog_holds b ct ps ts" and f: "map_of ts name = Some e"
  shows "(name, e) \<in> set ts" "heap_row (bpm_view b) ps (entry_rid e) = Some (entry_bytes (entry_table e))" "rid_page (entry_rid e) \<in> set ps"
    "pool_rows b (entry_rid e) = Some (entry_bytes (entry_table e))"
proof -
  show m: "(name, e) \<in> set ts" using f by (rule map_of_SomeD)
  have d: "distinct (map fst (catalog_rows ts))" and r: "heap_row (bpm_view b) ps = map_of (catalog_rows ts)"
    and hp: "heap_pages (bpm_view b) (bpm_pages b) (table_first_page ct) ps" using c by (simp_all add: catalog_holds_def)
  have "(entry_rid e, entry_bytes (entry_table e)) \<in> set (catalog_rows ts)" using m by (force simp: catalog_rows_def)
  then show h: "heap_row (bpm_view b) ps (entry_rid e) = Some (entry_bytes (entry_table e))" using d r by simp
  then show "rid_page (entry_rid e) \<in> set ps" "pool_rows b (entry_rid e) = Some (entry_bytes (entry_table e))"
    using heap_row_pool [OF hp] by (simp_all split: if_splits)
qed

text \<open>The row goes first, the catalog is then the one of the other entries.\<close>

lemma catalog_without_entry:
  assumes c: "catalog_holds b ct ps ts" and f: "map_of ts name = Some e" and g: "grown b d" and U: "bpm_pages d = bpm_pages b"
    and rows: "pool_rows d = (pool_rows b)(entry_rid e := None)"
  shows "catalog_holds d ct ps (AList.delete name ts)"
proof -
  note E = catalog_entry [OF c f]
  have C: "distinct (map fst ts)" "distinct (map fst (catalog_rows ts))" "table_schema ct = catalog_schema"
    "heap_pages (bpm_view b) (bpm_pages b) (table_first_page ct) ps" "heap_row (bpm_view b) ps = map_of (catalog_rows ts)"
    "\<forall>(name, e)\<in>set ts. table_name (entry_table e) = name \<and> fits_entry (entry_table e)"
    using c by (simp_all add: catalog_holds_def)
  have hd: "heap_pages (bpm_view d) (bpm_pages d) (table_first_page ct) ps" by (rule grown_same_pages [OF g U C(4)])
  have "heap_row (bpm_view d) ps = (heap_row (bpm_view b) ps)(entry_rid e := None)"
    by (rule ext) (simp add: heap_row_pool [OF hd] heap_row_pool [OF C(4)] rows)
  then show ?thesis
    using catalog_rows_delete [OF C(1,2) E(1)] C hd by (auto simp: catalog_holds_def delete_filter)
qed

lemma catalog_moved:
  assumes c: "catalog_holds b ct ps ts" and v: "\<forall>q\<in>set ps. bpm_view d q = bpm_view b q \<and> q \<in> bpm_pages d"
  shows "catalog_holds d ct ps ts"
proof -
  have "heap_row (bpm_view d) ps = heap_row (bpm_view b) ps" using v by (auto simp: heap_row_def fun_eq_iff)
  moreover have "heap_pages (bpm_view d) (bpm_pages d) (table_first_page ct) ps"
    using heap_pages_moved [OF _ v] c unfolding catalog_holds_def by blast
  ultimately show ?thesis using c by (simp add: catalog_holds_def)
qed

section \<open>Dropping a table\<close>

text \<open>What \<open>drop_table\<close> leaves when it answers true: \<open>e\<close> was the entry, on the heap pages \<open>qs\<close>.\<close>

definition dropped :: "world \<Rightarrow> string \<Rightarrow> page_id list \<Rightarrow> page_id list \<Rightarrow> world \<Rightarrow> bool" where
  "dropped w name ps qs w' \<longleftrightarrow> held {} {#} (wpool w') \<and> pages_wf (wpool w') \<and> pool_capacity (wpool w') = pool_capacity (wpool w) \<and>
     catalog_ok ps w' \<and> catalog_table (tx_data w') = catalog_table (tx_data w) \<and>
     tables (tx_data w') = AList.delete name (tables (tx_data w)) \<and> bpm_pages (wpool w') = bpm_pages (wpool w) - set qs \<and>
     (\<forall>tb rs rows. heap_in w tb rs \<longrightarrow> set rs \<inter> (set ps \<union> set qs) = {} \<longrightarrow>
        heap_in w' tb rs \<and> (\<forall>x. rid_page x \<in> set rs \<longrightarrow> pool_rows (wpool w') x = pool_rows (wpool w) x) \<and>
        (table_rows (wpool w) tb rows \<longrightarrow> table_rows (wpool w') tb rows))"

lemma drop_table_run:
  assumes c: "catalog_ok ps w" and h: "held {} {#} (wpool w)" and P: "0 < pool_capacity (wpool w)" and wf: "pages_wf (wpool w)"
    and f: "find_table name (tx_data w) = Some e" and hp: "heap_in w (entry_table e) qs" and ap: "set qs \<inter> set ps = {}"
    and room: "length (free_list (bdisk (wpool w))) + length qs \<le> 1025"
  shows "\<exists>gone w'. drop_table name tx w = (Inr gone, w') \<and> (tx = None \<longrightarrow> gone) \<and>
    (if gone then dropped w name ps qs w' else tx_data w' = tx_data w)"
proof -
  let ?r = "entry_rid e" and ?ct = "catalog_table (tx_data w)" and ?b = "wpool w"
  have F: "map_of (tables (tx_data w)) name = Some e" using f by (simp add: find_table_def)
  note E = catalog_entry [OF c F]
  obtain ok l where l: "tx_lock lock_exclusive tx ?r w = (Inr ok, w\<lparr>locks := l\<rparr>)" "\<not> ok \<longrightarrow> tx \<noteq> None" using tx_lock_exclusive_run by blast
  let ?w = "w\<lparr>locks := l\<rparr>"
  have "entry_bytes (entry_table e) \<noteq> []" using entry_bytes_length [of "entry_table e"] by auto
  from table_delete_run [of "{#}" ?w ?r _ ?ct None] h P wf E(4) this obtain v where
    v: "table_delete ?ct ?r None ?w = (Inr True, v)" "held {} {#} (wpool v)" "grown ?b (wpool v)" "pages_wf (wpool v)"
      "bpm_pages (wpool v) = bpm_pages ?b" "pool_rows (wpool v) = (pool_rows ?b)(?r := None)" "pool_shape (wpool v) = pool_shape ?b"
      "tables (tx_data v) = tables (tx_data w)" "catalog_table (tx_data v) = ?ct" by auto
  have hv: "heap_in v (entry_table e) qs" by (rule grown_same_pages [OF v(3,5) hp])
  have "0 < pool_capacity (wpool v)" "length (free_list (bdisk (wpool v))) + length qs \<le> 1025" using v(7) P room by (simp_all add: pool_shape_def)
  with table_drop_pages_ok [OF v(2) _ hv] obtain d where d: "table_drop_pages (entry_table e) (wpool v) = (Inr (0, DROP_SUCCESS), d)"
    "pages_dropped {#} (wpool v) qs d" by auto
  have dp: "on_pool (table_drop_pages (entry_table e)) v = (Inr (0, DROP_SUCCESS), put_pool d v)" by (rule on_pool_run) (rule d(1))
  let ?w' = "put_tables (AList.delete name (tables (tx_data v))) (put_pool d v)"
  have f': "find_table name (tx_data ?w) = Some e" using f by simp
  have run: "drop_table name tx w = (if ok then (Inr True, ?w') else (Inr False, ?w))"
    using f f' by (simp add: drop_table_def and_then_Inr [of "tx_lock lock_exclusive tx ?r" w, OF l(1)] and_then_Inr [of "table_delete ?ct ?r None" ?w, OF v(1)]
        and_then_Inr [of "on_pool _" v, OF dp] Let_def)
  have D: "held {} {#} d" "bpm_pages d = bpm_pages ?b - set qs" "\<And>q. q \<notin> set qs \<Longrightarrow> bpm_view d q = bpm_view (wpool v) q" "pool_capacity d = pool_capacity ?b"
    using d(2) v(5,7) by (simp_all add: pages_dropped_def pool_shape_def)
  have pool: "wpool ?w' = d" "tables (tx_data ?w') = AList.delete name (tables (tx_data w))" "catalog_table (tx_data ?w') = ?ct"
    using v(8,9) by (simp_all add: put_tables_def)
  have in_b: "set rs \<subseteq> bpm_pages ?b" if "heap_in w tb rs" for tb rs using that chain_in by (auto simp: heap_pages_def)
  have ct: "catalog_holds (wpool v) ?ct ps (AList.delete name (tables (tx_data w)))" by (rule catalog_without_entry [OF c F v(3,5,6)])
  have "catalog_holds d ?ct ps (AList.delete name (tables (tx_data w)))"
    by (rule catalog_moved [OF ct]) (use D(2,3) ap in_b [of ?ct ps] c in \<open>auto simp: catalog_holds_def\<close>)
  moreover have "pages_wf d" using v(4,5) D(2,3) by (auto simp: pages_wf_def)
  moreover have "heap_in ?w' tb rs \<and> (\<forall>x. rid_page x \<in> set rs \<longrightarrow> pool_rows (wpool ?w') x = pool_rows ?b x) \<and>
      (table_rows ?b tb rows \<longrightarrow> table_rows (wpool ?w') tb rows)"
    if t: "heap_in w tb rs" "set rs \<inter> (set ps \<union> set qs) = {}" for tb rs rows
  proof (intro conjI)
    have hr: "heap_in v tb rs" by (rule grown_same_pages [OF v(3,5) t(1)])
    have m: "\<forall>q\<in>set rs. bpm_view d q = bpm_view (wpool v) q \<and> q \<in> bpm_pages d" using D(2,3) in_b [OF t(1)] t(2) by auto
    show "heap_in ?w' tb rs" unfolding pool(1) by (rule heap_pages_moved [OF hr m])
    have same: "pool_rows (wpool v) x = pool_rows ?b x" if "rid_page x \<in> set rs" for x using that t(2) E(3) v(6) by auto
    show "\<forall>x. rid_page x \<in> set rs \<longrightarrow> pool_rows (wpool ?w') x = pool_rows ?b x"
    proof (intro allI impI)
      fix x :: rid assume x: "rid_page x \<in> set rs"
      have "rid_page x \<in> bpm_pages (wpool v)" using in_b [OF t(1)] x v(5) by auto
      then have "pool_rows d x = pool_rows (wpool v) x" using m x by (simp add: pool_rows_def)
      then show "pool_rows (wpool ?w') x = pool_rows ?b x" using same [OF x] by (simp only: pool(1))
    qed
    from same show "table_rows ?b tb rows \<longrightarrow> table_rows (wpool ?w') tb rows"
      using grown_table_rows [OF v(3) _ hr] table_rows_untouched [OF _ hr, of rows d] m unfolding pool(1) by blast
  qed
  ultimately have "dropped w name ps qs ?w'" using D pool by (simp add: dropped_def)
  then show ?thesis using run l(2) by (intro exI [of _ ok] exI [of _ "if ok then ?w' else ?w"]) simp
qed

section \<open>The database after a drop\<close>

lemma dropped_tables:
  assumes "dropped w name ps qs w'"
  shows "find_table n (tx_data w') = (if n = name then None else find_table n (tx_data w))"
proof -
  have "tables (tx_data w') = AList.delete name (tables (tx_data w))" using assms by (simp add: dropped_def)
  then show ?thesis by (simp add: find_table_def AList.delete_conv')
qed

text \<open>Every other table keeps its pages and its rows.\<close>

lemma dropped_kept:
  assumes d: "dropped w name ps qs w'" and ap: "heaps_apart w ps" and e: "find_table name (tx_data w) = Some e" and hp: "heap_in w (entry_table e) qs"
    and f: "find_table n (tx_data w) = Some x" "n \<noteq> name"
  obtains rs where "heap_in w (entry_table x) rs" "heap_in w' (entry_table x) rs" "set rs \<inter> set ps = {}"
    "\<forall>rows. table_rows (wpool w) (entry_table x) rows \<longrightarrow> table_rows (wpool w') (entry_table x) rows"
proof -
  obtain rs where r: "heap_in w (entry_table x) rs" "set rs \<inter> set ps = {}" by (rule heaps_apart_heap [OF ap f(1)])
  moreover have "set rs \<inter> set qs = {}" by (rule heaps_apart_two [OF ap f(1) e f(2) r(1) hp])
  ultimately have "set rs \<inter> (set ps \<union> set qs) = {}" by auto
  then show thesis using that r d unfolding dropped_def by blast
qed

lemma dropped_ok:
  assumes d: "dropped w name ps qs w'" and ap: "heaps_apart w ps" and e: "find_table name (tx_data w) = Some e" and hp: "heap_in w (entry_table e) qs"
    and first: "table_first_page (catalog_table (tx_data w)) = kCATALOG_FIRST_PAGE_ID" and s: "sound_disk (bdisk (wpool w'))" and cap: "1 < pool_capacity (wpool w)"
  shows "database_ok w'"
proof -
  note K = dropped_kept [OF d ap e hp]
  have F: "find_table n (tx_data w') = Some x \<longleftrightarrow> n \<noteq> name \<and> find_table n (tx_data w) = Some x" for n x by (auto simp: dropped_tables [OF d])
  have "heaps_apart w' ps"
  proof (rule heaps_apartI)
    show "\<exists>rs. heap_in w' (entry_table x) rs \<and> set rs \<inter> set ps = {}" if "find_table n (tx_data w') = Some x" for n x
    proof -
      have "find_table n (tx_data w) = Some x" "n \<noteq> name" using that by (simp_all add: F)
      then show ?thesis by (rule K) blast
    qed
    fix n x rs m y rs'
    assume f: "find_table n (tx_data w') = Some x" "find_table m (tx_data w') = Some y" "n \<noteq> m"
      and h: "heap_in w' (entry_table x) rs" "heap_in w' (entry_table y) rs'"
    have f': "find_table n (tx_data w) = Some x" "n \<noteq> name" "find_table m (tx_data w) = Some y" "m \<noteq> name" using f by (simp_all add: F)
    have "heap_in w (entry_table x) rs" by (rule K [OF f'(1,2)]) (use h(1) heap_pages_unique in metis)
    moreover have "heap_in w (entry_table y) rs'" by (rule K [OF f'(3,4)]) (use h(2) heap_pages_unique in metis)
    ultimately show "set rs \<inter> set rs' = {}" by (rule heaps_apart_two [OF ap f'(1,3) f(3)])
  qed
  then show ?thesis using d first s cap by (auto simp: database_ok_def pool_ok_def dropped_def)
qed

lemma dropped_represents:
  assumes d: "dropped w name ps qs w'" and ap: "heaps_apart w ps" and e: "find_table name (tx_data w) = Some e" and hp: "heap_in w (entry_table e) qs"
    and a: "represents w a"
  shows "represents w' (a(name := None))"
proof (rule representsI)
  note F = dropped_tables [OF d]
  show "(a(name := None)) n = None" if "find_table n (tx_data w') = None" for n
    using that representsD(1) [OF a, of n] by (auto simp: F split: if_splits)
  show "\<exists>rows. table_rows (wpool w') (entry_table x) rows \<and> (a(name := None)) n = Some (table_schema (entry_table x), mset rows)"
    if "find_table n (tx_data w') = Some x" for n x
  proof -
    have f: "find_table n (tx_data w) = Some x" "n \<noteq> name" using that by (auto simp: F split: if_splits)
    obtain rows where r: "table_rows (wpool w) (entry_table x) rows" "a n = Some (table_schema (entry_table x), mset rows)" using representsD(2) [OF a f(1)] by blast
    have "table_rows (wpool w') (entry_table x) rows" by (rule dropped_kept [OF d ap e hp f]) (use r(1) in blast)
    then show ?thesis using r(2) f(2) by auto
  qed
qed

end
