(* ===== verification/Database_Steps.thy ===== *)
theory Database_Steps
  imports Database_Undo Database_Drop
begin

text \<open>
  The steps of a database: one call of the engine each, with the conditions under which it is a step of
  the abstract database. Calls of different transactions, and calls outside of transactions, follow each
  other in any order.
\<close>

text \<open>The space \<open>create_table\<close> asks for.\<close>

definition creatable :: "world \<Rightarrow> string \<Rightarrow> schema \<Rightarrow> bool" where
  "creatable w name s \<longleftrightarrow> entry_fits name s \<and> 1 < page_budget (bdisk (wpool w)) \<and>
     (\<forall>ps. heap_in w (catalog_table (tx_data w)) ps \<longrightarrow> (\<forall>x\<in>set (butlast ps). \<forall>t. length t = 9 + length name + length (schema_serialize s) \<longrightarrow>
        settled (bpm_view (wpool w) x) t))"

text \<open>
  The conditions under which a query is answered: \<open>plan\<close> is its plan, \<open>R\<close> the rows of the tables. Under a
  transaction all its shared locks can be granted.
\<close>

definition queryable :: "world \<Rightarrow> select_query \<Rightarrow> transaction_id option \<Rightarrow> logical_plan \<Rightarrow> (table \<Rightarrow> row list) \<Rightarrow> nat \<Rightarrow> nat \<Rightarrow> bool" where
  "queryable w q tx plan R k n \<longleftrightarrow> plan_typed plan \<and> tables_typed R plan \<and> lockable tx w \<and>
     (\<forall>name e. find_table name (tx_data w) = Some e \<longrightarrow> table_rows (wpool w) (entry_table e) (R (entry_table e))) \<and>
     length (query_tables q) < pool_capacity (wpool w) \<and> plan_fuel R plan \<le> k \<and> length (plan_rows R plan) < n"

text \<open>
  The pages of the undo log are still marked in the pool if a row must be put back: \<open>restore_tuple\<close> does not mark them.
\<close>

definition marked :: "world \<Rightarrow> transaction_id \<Rightarrow> bool" where
  "marked w t \<longleftrightarrow> (\<forall>us u. undo_log_of t w = Some us \<longrightarrow> restores us \<longrightarrow> u \<in> set us \<longrightarrow> (\<forall>p\<in>undo_pages u. dirty_at (wpool w) p))"

text \<open>
  An update whose row has moved and whose second lock is refused answers nothing, but the row is replaced
  and no undo record is pushed: a change outside of the transaction.
\<close>

inductive db_step :: "world \<Rightarrow> db_action \<Rightarrow> world \<Rightarrow> bool" where
  Step_create: "find_table name (tx_data w) = None \<Longrightarrow> creatable w name s \<Longrightarrow>
    create_table name s None w = (Inr tb, w') \<Longrightarrow> db_step w (Create name s) w'"
| Step_insert: "find_table name (tx_data w) = Some e \<Longrightarrow> list_all2 storable (table_schema (entry_table e)) vs \<Longrightarrow>
    insertable (wpool w) (table_first_page (entry_table e)) ps (row_bytes (table_schema (entry_table e)) vs) \<Longrightarrow>
    table_insert (entry_table e) \<lparr>tvalues = vs, tschema = table_schema (entry_table e)\<rparr> tx w = (Inr m, w') \<Longrightarrow>
    tx = None \<longrightarrow> spares w w' \<Longrightarrow>
    db_step w (if m = None then Nothing else Insert tx name vs) w'"
| Step_delete: "find_table name (tx_data w) = Some e \<Longrightarrow> heap_in w (entry_table e) ps \<Longrightarrow> rid_page r \<in> set ps \<Longrightarrow>
    table_get (entry_table e) r None w = (Inr (Some t), v) \<Longrightarrow> table_delete (entry_table e) r tx w = (Inr deleted, w') \<Longrightarrow>
    tx = None \<longrightarrow> spares w w' \<Longrightarrow>
    db_step w (if deleted then Delete tx name (tvalues t) else Nothing) w'"
| Step_update: "find_table name (tx_data w) = Some e \<Longrightarrow> list_all2 storable (table_schema (entry_table e)) vs \<Longrightarrow>
    updatable (wpool w) (table_first_page (entry_table e)) ps r (row_bytes (table_schema (entry_table e)) vs) \<Longrightarrow>
    table_get (entry_table e) r None w = (Inr (Some t), v) \<Longrightarrow>
    table_update (entry_table e) r \<lparr>tvalues = vs, tschema = table_schema (entry_table e)\<rparr> tx w = (Inr m, w') \<Longrightarrow>
    tx = None \<or> m = None \<longrightarrow> spares w w' \<Longrightarrow>
    db_step w (if m = None \<and> tx_data w' = tx_data w then Nothing else Update (if m = None then None else tx) name (tvalues t) vs) w'"
| Step_drop: "find_table name (tx_data w) = Some e \<Longrightarrow> heap_in w (entry_table e) qs \<Longrightarrow>
    length (free_list (bdisk (wpool w))) + length qs \<le> 1025 \<Longrightarrow> \<forall>r\<in>open_rows w None. rid_page r \<notin> set qs \<Longrightarrow>
    drop_table name tx w = (Inr gone, w') \<Longrightarrow> db_step w (if gone then Drop name else Nothing) w'"
| Step_query: "bind_query q tx w = (Inr (plan, q'), wb) \<Longrightarrow> queryable w q tx plan R k n \<Longrightarrow>
    engine_execute q tx w = (Inr (root, q'), w1) \<Longrightarrow> query_rows k n root w1 = (Inr rows, w') \<Longrightarrow> db_step w (Query q rows) w'"
| Step_begin: "tm_begin w = (t, w') \<Longrightarrow> txs (locks w) t = None \<Longrightarrow> db_step w (Begin t) w'"
| Step_commit: "db_step w (Commit t) (tm_commit t w)"
| Step_roll_back: "t \<in> active_txs w \<Longrightarrow> marked w t \<Longrightarrow> rollback_tx t w = (Inr (), w') \<Longrightarrow> db_step w (Roll_back t) w'"
| Step_restart: "bpm_flush_all (wpool w) = (Inr (), b) \<Longrightarrow> disk_open (Some (disk_close (bdisk b))) = Inr e \<Longrightarrow>
    1 < n \<Longrightarrow> n < 2 ^ 32 - 1 \<Longrightarrow> database_open (bpm_object e n) = (Inr w', c) \<Longrightarrow> db_step w Restart w'"

inductive db_run :: "world \<Rightarrow> db_action list \<Rightarrow> world \<Rightarrow> bool" where
  Run_nil: "db_run w [] w"
| Run_step: "db_step w x v \<Longrightarrow> db_run v xs w' \<Longrightarrow> db_run w (x # xs) w'"

text \<open>What the pages, the locks and the logs say together.\<close>

definition simulated :: "world \<Rightarrow> spec \<times> open_changes \<Rightarrow> bool" where
  "simulated w s \<longleftrightarrow> (case s of (a, p) \<Rightarrow> database_ok w \<and> represents w a \<and> open_work w p)"

end
