(* ===== verification/Database_Properties.thy ===== *)
theory Database_Properties
  imports Database_Steps
begin

text \<open>
  The database does what the abstract database does: every step of the engine, from creating a table to a
  rollback among other transactions and a restart, is a step of the abstract database.
\<close>

section \<open>One step\<close>

lemma step_nothing:
  assumes ok: "database_ok w" and a: "represents w a" and w': "pool_ok (wpool w')" "bpm_view (wpool w') = bpm_view (wpool w)"
    "bpm_pages (wpool w') = bpm_pages (wpool w)" "tables (tx_data w') = tables (tx_data w)" "catalog_table (tx_data w') = catalog_table (tx_data w)"
  shows "database_ok w' \<and> represents w' a"
  by (rule nothing_changes [OF ok a w'(1) grown_same [OF w'(2,3)] w'(4,5)]) (unfold pool_rows_def [abs_def] w'(2,3), rule refl)

lemma step_unchanged:
  assumes ok: "database_ok w" and a: "represents w a" and same: "tx_data w' = tx_data w"
  shows "database_ok w' \<and> represents w' a"
  using step_nothing [OF ok a] database_poolD(1) [OF ok] same by simp

lemma open_work_same:
  assumes w: "open_work w p" and k: "lock_kept (own_locks w) (active_txs w) w'" and log: "\<And>t. undo_log_of t w' = undo_log_of t w"
    and d: "tx_data w' = tx_data w"
  shows "open_work w' p"
  by (rule open_work_kept [OF w k log]) (use d in \<open>simp_all add: belongs_def\<close>)

text \<open>A call that has done nothing.\<close>

lemma nothing_done:
  assumes "simulated w (a, p)" and "lock_kept (own_locks w) (active_txs w) w'" and "\<And>t. undo_log_of t w' = undo_log_of t w"
    and "tx_data w' = tx_data w"
  shows "\<exists>s'. spec_step (a, p) Nothing s' \<and> simulated w' s'"
proof -
  have "database_ok w' \<and> represents w' a" using step_unchanged [OF _ _ assms(4)] assms(1) by (auto simp: simulated_def)
  moreover have "open_work w' p" using open_work_same [OF _ assms(2-4)] assms(1) by (simp add: simulated_def)
  ultimately have "simulated w' (a, p)" by (simp add: simulated_def)
  then show ?thesis using Spec_nothing by blast
qed

lemma step_insert:
  assumes sim: "simulated w (a, p)" and f: "find_table name (tx_data w) = Some e"
    and st: "list_all2 storable (table_schema (entry_table e)) vs"
    and i: "insertable (wpool w) (table_first_page (entry_table e)) ps (row_bytes (table_schema (entry_table e)) vs)"
    and run: "table_insert (entry_table e) \<lparr>tvalues = vs, tschema = table_schema (entry_table e)\<rparr> tx w = (Inr m, w')"
    and sp: "tx = None \<longrightarrow> spares w w'"
  shows "\<exists>s'. spec_step (a, p) (if m = None then Nothing else Insert tx name vs) s' \<and> simulated w' s'"
proof -
  let ?tb = "entry_table e"
  let ?bs = "row_bytes (table_schema ?tb) vs"
  have ok: "database_ok w" and a: "represents w a" and w: "open_work w p" using sim by (simp_all add: simulated_def)
  note D = database_poolD [OF ok]
  have hp: "heap_in w ?tb ps" and len: "length ?bs < 2 ^ 16" using i by (auto simp: insertable_def)
  have af: "after_insert {#} ?tb ps ?bs tx w m w'" using table_insert_run [OF st i D(2,5), of tx] run by auto
  have same: "tables (tx_data w') = tables (tx_data w)" "catalog_table (tx_data w') = catalog_table (tx_data w)"
    using af by (simp_all add: after_insert_def)
  have s': "sound_world w'" using keepsD [OF table_insert_sound D(4) run] .
  have k: "lock_kept (own_locks w) (active_txs w) w'" using keepsD [OF lock_logged.table_insert_keeps open_work_locks [OF w] run] .
  show ?thesis
  proof (cases m)
    case None
    then have w': "held {} {#} (wpool w')" "grown (wpool w) (wpool w')" "pages_wf (wpool w')" "pool_rows (wpool w') = pool_rows (wpool w)"
      "pool_capacity (wpool w') = pool_capacity (wpool w)" "\<And>t. undo_log_of t w' = undo_log_of t w"
      using af D(3) by (simp_all add: after_insert_def)
    have "pool_ok (wpool w')" using pool_okI [OF w'(1,3) s'] w'(5) D(5) by simp
    from nothing_changes [OF ok a this w'(2) same w'(4)] have "database_ok w'" "represents w' a" by simp_all
    moreover have "open_work w' p"
      by (rule open_work_kept [OF w k w'(6)]) (use w'(4) belongs_grown [OF w'(2) same(1)] in simp_all)
    ultimately show ?thesis using None Spec_nothing by (auto simp: simulated_def)
  next
    case (Some r)
    then obtain qs where q: "inserted {#} (wpool w) (table_first_page ?tb) ps ?bs r qs (wpool w')" using af by (auto simp: after_insert_def)
    note I = inserted_pages [OF q hp]
    have w': "held {} {#} (wpool w')" "pool_capacity (wpool w') = pool_capacity (wpool w)" "heap_in w' ?tb qs"
      using q by (simp_all add: inserted_def)
    have pl: "pool_ok (wpool w')" using pool_okI [OF w'(1) I(2) [OF D(3)] s'] w'(2) D(5) by simp
    obtain rows where rows: "table_rows (wpool w) ?tb rows" "a name = Some (table_schema ?tb, mset rows)"
      using representsD(2) [OF a f] by blast
    note ds = tuple_deserialize_row [OF st len]
    obtain rows' where r': "table_rows (wpool w') ?tb rows'" "mset rows' = add_mset vs (mset rows)"
      using inserted_table_rows [OF q hp ds rows(1)] by blast
    have rq: "rid_page r \<in> set qs" by (rule inserted_in_heap [OF q])
    have ch: "x \<in> {r}" if "pool_rows (wpool w') x \<noteq> pool_rows (wpool w) x" for x
      using that I(4) by (auto split: if_splits)
    have db: "database_ok w' \<and> represents w' (a(name \<mapsto> (table_schema ?tb, mset rows')))"
      by (rule one_table_represents [OF ok a pl I(1) same f w'(3) _ r'(1)]) (use ch rq in auto)
    have lk: "has_lock w' t EXCLUSIVE x" if "tx = Some t" "x \<in> {r}" for t x
      using af that Some lock_exclusive_quiet(3) [OF open_workD(1) [OF w]] by (auto simp: after_insert_def)
    have bel: "belongs w' name ?tb r" using f w'(3) rq find_table_tables [OF same(1)] by (auto simp: belongs_def)
    have rows_back: "(pool_rows (wpool w))(r := None) = pool_rows (wpool w)" using I(3) by (simp add: fun_eq_iff)
    have "open_work w' (note_changes tx [Added name vs] p)"
    proof (rule open_work_written [OF w k I(1) same(1)])
      show "undo_log_of t w' = (if tx = Some t then map_option (\<lambda>us. us @ [DeleteUndoRecord ?tb r]) (undo_log_of t w) else undo_log_of t w)" for t
        using af Some by (simp add: after_insert_def)
      show "pool_rows (wpool w') x = pool_rows (wpool w) x" if "x \<in> open_rows w tx" for x
        by (rule changed_rows_not_open [OF k ch lk sp that])
      show "has_lock w' t EXCLUSIVE x" if "tx = Some t" "x \<in> undo_rids [DeleteUndoRecord ?tb r]" for t x using lk that by simp
      show "undoable w' (pool_rows (wpool w')) (rev [DeleteUndoRecord ?tb r] @ us) (rev [Added name vs] @ cs)"
        if "undoable w' (pool_rows (wpool w)) us cs" for us cs
        using that bel ds len by (simp add: I(4) rows_back encodes_def)
    qed
    then show ?thesis using Some rows(2) r'(2) db by (auto simp: spec_step_simps simulated_def)
  qed
qed

lemma row_length: "pages_wf b \<Longrightarrow> pool_rows b r = Some bs \<Longrightarrow> length bs < 65536"
proof -
  assume "pages_wf b" "pool_rows b r = Some bs"
  then have "wf_page (bpm_view b (rid_page r))" "tuple_at (bpm_view b (rid_page r)) (unat (rid_slot r)) = Some bs"
    by (auto simp: pages_wf_def pool_rows_def split: if_splits)
  from tuple_at_length [OF this] show ?thesis
    using unsigned_less [of "slot_length (bpm_view b (rid_page r)) (unat (rid_slot r))"] by simp
qed

lemma step_delete:
  assumes sim: "simulated w (a, p)" and f: "find_table name (tx_data w) = Some e"
    and hp: "heap_in w (entry_table e) ps" and r: "rid_page r \<in> set ps"
    and get: "table_get (entry_table e) r None w = (Inr (Some t), v)" and run: "table_delete (entry_table e) r tx w = (Inr deleted, w')"
    and sp: "tx = None \<longrightarrow> spares w w'"
  shows "\<exists>s'. spec_step (a, p) (if deleted then Delete tx name (tvalues t) else Nothing) s' \<and> simulated w' s'"
proof -
  let ?tb = "entry_table e" and ?b = "wpool w"
  have ok: "database_ok w" and a: "represents w a" and w: "open_work w p" using sim by (simp_all add: simulated_def)
  note D = database_poolD [OF ok]
  have rp: "rid_page r \<in> bpm_pages ?b" using hp r chain_in by (auto simp: heap_pages_def)
  have P: "size {#} < pool_capacity ?b" using D(5) by simp
  obtain bs where bs: "pool_rows ?b r = Some bs" "tuple_deserialize bs (table_schema ?tb) = Inr t" "bs \<noteq> []"
    using table_get_run [OF D(2) P D(3) rp get] by blast
  note R = table_delete_run [OF D(2) P D(3) bs(1,3), of ?tb tx, unfolded run]
  have k: "lock_kept (own_locks w) (active_txs w) w'" using keepsD [OF lock_logged.table_delete_keeps open_work_locks [OF w] run] .
  show ?thesis
  proof (cases deleted)
    case False
    with R have d: "tx_data w' = tx_data w" "\<And>t. undo_log_of t w' = undo_log_of t w" by (auto split: if_splits)
    from nothing_done [OF sim k d(2,1)] show ?thesis using False by simp
  next
    case True
    with R have w': "held {} {#} (wpool w')" "grown ?b (wpool w')" "pages_wf (wpool w')" "pool_rows (wpool w') = (pool_rows ?b)(r := None)"
      "pool_capacity (wpool w') = pool_capacity ?b" "tables (tx_data w') = tables (tx_data w)" "catalog_table (tx_data w') = catalog_table (tx_data w)"
      and L: "\<And>t. tx = Some t \<Longrightarrow> fst (lock_exclusive t r (locks w)) \<and> has_lock w' = Lock_Safety.holds (snd (lock_exclusive t r (locks w)))"
        "\<And>t. undo_log_of t w' = (if tx = Some t then map_option (\<lambda>us. us @ [RestoreUndoRecord ?tb r bs]) (undo_log_of t w) else undo_log_of t w)"
      by (auto simp: pool_shape_def split: if_splits)
    have "sound_world w'" using keepsD [OF table_delete_sound D(4) run] .
    with pool_okI [OF w'(1,3)] w'(5) D(5) have pl: "pool_ok (wpool w')" by simp
    obtain xs where h': "heap_in w' ?tb (ps @ xs)" "set xs \<inter> bpm_pages ?b = {}" by (rule grown_heap [OF w'(2) hp])
    obtain rows where rows: "table_rows ?b ?tb rows" "a name = Some (table_schema ?tb, mset rows)" using representsD(2) [OF a f] by blast
    obtain rows' where t': "table_rows (wpool w') ?tb rows'" "mset rows = add_mset (tvalues t) (mset rows')"
      using deleted_table_rows [OF hp h' w'(4) bs(1) r bs(2) rows(1)] by blast
    have ch: "x \<in> {r}" if "pool_rows (wpool w') x \<noteq> pool_rows ?b x" for x using that by (auto simp: w'(4) split: if_splits)
    have db: "database_ok w' \<and> represents w' (a(name \<mapsto> (table_schema ?tb, mset rows')))"
      by (rule one_table_represents [OF ok a pl w'(2,6,7) f h'(1) _ t'(1)]) (use ch r in auto)
    have lk: "has_lock w' u EXCLUSIVE x" if "tx = Some u" "x \<in> {r}" for u x
      using L(1) [OF that(1)] that(2) lock_exclusive_quiet(3) [OF open_workD(1) [OF w]] by auto
    have bel: "belongs w' name ?tb r" using f h'(1) r find_table_tables [OF w'(6)] by (auto simp: belongs_def)
    have rows_back: "(pool_rows (wpool w'))(r \<mapsto> bs) = pool_rows ?b" using bs(1) by (simp add: w'(4) fun_eq_iff)
    have "open_work w' (note_changes tx [Removed name (tvalues t)] p)"
    proof (rule open_work_written [OF w k w'(2,6) L(2)])
      show "pool_rows (wpool w') x = pool_rows (wpool w) x" if "x \<in> open_rows w tx" for x
        by (rule changed_rows_not_open [OF k ch lk sp that])
      show "has_lock w' u EXCLUSIVE x" if "tx = Some u" "x \<in> undo_rids [RestoreUndoRecord ?tb r bs]" for u x using lk that by simp
      show "undoable w' (pool_rows (wpool w')) (rev [RestoreUndoRecord ?tb r bs] @ us) (rev [Removed name (tvalues t)] @ cs)"
        if "undoable w' (pool_rows (wpool w)) us cs" for us cs
        using that bel bs(2) row_length [OF D(3) bs(1)] by (simp add: rows_back encodes_def) (simp add: w'(4))
    qed
    then show ?thesis using rows(2) t'(2) True db by (auto simp: spec_step_simps simulated_def)
  qed
qed

lemma step_update:
  assumes sim: "simulated w (a, p)" and f: "find_table name (tx_data w) = Some e"
    and st: "list_all2 storable (table_schema (entry_table e)) vs"
    and u: "updatable (wpool w) (table_first_page (entry_table e)) ps r (row_bytes (table_schema (entry_table e)) vs)"
    and get: "table_get (entry_table e) r None w = (Inr (Some t), v)"
    and run: "table_update (entry_table e) r \<lparr>tvalues = vs, tschema = table_schema (entry_table e)\<rparr> tx w = (Inr m, w')"
    and sp: "tx = None \<or> m = None \<longrightarrow> spares w w'"
  shows "\<exists>s'. spec_step (a, p) (if m = None \<and> tx_data w' = tx_data w then Nothing else Update (if m = None then None else tx) name (tvalues t) vs) s' \<and>
    simulated w' s'"
proof -
  let ?tb = "entry_table e" and ?b = "wpool w"
  let ?bs = "row_bytes (table_schema ?tb) vs"
  have ok: "database_ok w" and a: "represents w a" and w: "open_work w p" using sim by (simp_all add: simulated_def)
  note D = database_poolD [OF ok]
  have hp: "heap_in w ?tb ps" and r: "rid_page r \<in> set ps" and len: "length ?bs < 2 ^ 16" using u by (auto simp: updatable_def)
  have rp: "rid_page r \<in> bpm_pages ?b" using hp r chain_in by (auto simp: heap_pages_def)
  have P: "size {#} < pool_capacity ?b" using D(5) by simp
  obtain old where old: "pool_rows ?b r = Some old" "old \<noteq> []" "tuple_deserialize old (table_schema ?tb) = Inr t"
    using table_get_run [OF D(2) P D(3) rp get] by blast
  have af: "after_update {#} ?tb r old ?bs tx w m w'" using table_update_run [OF st u old(1,2) D(2,5,3), of tx] run by auto
  have k: "lock_kept (own_locks w) (active_txs w) w'" using keepsD [OF lock_logged.table_update_keeps open_work_locks [OF w] run] .
  have same: "tables (tx_data w') = tables (tx_data w)" "catalog_table (tx_data w') = catalog_table (tx_data w)"
    using af by (simp_all add: after_update_def)
  show ?thesis
  proof (cases "m = None \<and> tx_data w' = tx_data w")
    case True
    then have "\<And>t. undo_log_of t w' = undo_log_of t w" using af by (simp add: after_update_def)
    with nothing_done [OF sim k] True show ?thesis by simp
  next
    case False
    then obtain q qs where q: "updated {#} ?b (table_first_page ?tb) r ?bs q qs (wpool w')" and m: "m = Some q \<or> m = None"
      using af by (auto simp: after_update_def split: option.splits)
    have w': "held {} {#} (wpool w')" "grown ?b (wpool w')" "pages_wf (wpool w')" "pool_capacity (wpool w') = pool_capacity ?b"
      "pool_rows (wpool w') = (pool_rows ?b)(r := None, q := Some ?bs)" "heap_in w' ?tb qs" "rid_page r \<in> set qs" "rid_page q \<in> set qs"
      "q = r \<or> pool_rows ?b q = None"
      using q by (simp_all add: updated_def)
    have "sound_world w'" using keepsD [OF table_update_sound D(4) run] .
    with pool_okI [OF w'(1,3)] w'(4) D(5) have pl: "pool_ok (wpool w')" by simp
    obtain rows where rows: "table_rows ?b ?tb rows" "a name = Some (table_schema ?tb, mset rows)" using representsD(2) [OF a f] by blast
    note ds = tuple_deserialize_row [OF st len]
    obtain rows' rest where t': "table_rows (wpool w') ?tb rows'" "mset rows = add_mset (tvalues t) rest" "mset rows' = add_mset vs rest"
      using updated_table_rows [OF q hp old(1) r old(3) ds rows(1)] by blast
    have ch: "x \<in> {r, q}" if "pool_rows (wpool w') x \<noteq> pool_rows ?b x" for x using that by (auto simp: w'(5) split: if_splits)
    have db: "database_ok w' \<and> represents w' (a(name \<mapsto> (table_schema ?tb, mset rows')))"
      by (rule one_table_represents [OF ok a pl w'(2) same f w'(6) _ t'(1)]) (use ch w'(7,8) in auto)
    have step: "make_changes [Removed name (tvalues t), Added name vs] a = Some (a(name \<mapsto> (table_schema ?tb, mset rows')))"
      using rows(2) t'(2,3) by simp
    show ?thesis
    proof (cases m)
      case None
      then have "\<And>t. undo_log_of t w' = undo_log_of t w" using af by (simp add: after_update_def)
      then have "open_work w' p"
        by (rule open_work_kept [OF w k]) (use sp None belongs_grown [OF w'(2) same(1)] in \<open>simp_all add: spares_def\<close>)
      then show ?thesis using None False db step by (auto simp: simulated_def spec_step_simps note_changes_def)
    next
      case (Some q')
      then have q': "m = Some q" using m by simp
      have lk: "has_lock w' u EXCLUSIVE x" if tx: "tx = Some u" and x: "x \<in> {r, q}" for u x
      proof -
        let ?l = "snd (lock_exclusive u r (locks w))"
        note Q = lock_exclusive_quiet [OF open_workD(1) [OF w]]
        note Q' = lock_exclusive_quiet [OF Q(1)]
        have "fst (lock_exclusive u r (locks w))" and h: "if q = r then has_lock w' = Lock_Safety.holds ?l
            else fst (lock_exclusive u q ?l) \<and> has_lock w' = Lock_Safety.holds (snd (lock_exclusive u q ?l))"
          using af q' tx by (auto simp: after_update_def Let_def split: if_splits)
        then have "Lock_Safety.holds ?l u EXCLUSIVE r" by (intro Q(3))
        then show ?thesis using h x Q'(2,3) by (auto split: if_splits)
      qed
      have bel: "belongs w' name ?tb r" "belongs w' name ?tb q"
        using f w'(6-8) find_table_tables [OF same(1)] by (auto simp: belongs_def)
      have rows_back: "(pool_rows (wpool w'))(q := None, r \<mapsto> old) = pool_rows ?b" using old(1) w'(9) by (auto simp: w'(5) fun_eq_iff)
      have "open_work w' (note_changes tx [Removed name (tvalues t), Added name vs] p)"
      proof (rule open_work_written [OF w k w'(2) same(1)])
        show "undo_log_of u w' = (if tx = Some u then map_option (\<lambda>us. us @ [RestoreUndoRecord ?tb r old, DeleteUndoRecord ?tb q]) (undo_log_of u w)
          else undo_log_of u w)" for u using af q' by (simp add: after_update_def)
        show "pool_rows (wpool w') x = pool_rows (wpool w) x" if "x \<in> open_rows w tx" for x
          by (rule changed_rows_not_open [OF k ch lk _ that]) (use sp in simp_all)
        show "has_lock w' u EXCLUSIVE x" if "tx = Some u" "x \<in> undo_rids [RestoreUndoRecord ?tb r old, DeleteUndoRecord ?tb q]" for u x
          using lk that by auto
        show "undoable w' (pool_rows (wpool w')) (rev [RestoreUndoRecord ?tb r old, DeleteUndoRecord ?tb q] @ us)
            (rev [Removed name (tvalues t), Added name vs] @ cs)" if "undoable w' (pool_rows (wpool w)) us cs" for us cs
          using that bel ds len old(3) row_length [OF D(3) old(1)] rows_back by (simp add: encodes_def) (simp add: w'(5))
      qed
      then show ?thesis using q' db step by (auto simp: simulated_def spec_step_simps)
    qed
  qed
qed

lemma belongs_dropped:
  assumes d: "dropped w name ps qs w'" and ap: "heaps_apart w ps" and e: "find_table name (tx_data w) = Some e" and hp: "heap_in w (entry_table e) qs"
    and b: "belongs w n tb r" and n: "n \<noteq> name"
  shows "belongs w' n tb r" "pool_rows (wpool w') r = pool_rows (wpool w) r"
proof -
  obtain x rs where x: "find_table n (tx_data w) = Some x" "entry_table x = tb" "heap_in w tb rs" "rid_page r \<in> set rs"
    using b by (auto simp: belongs_def)
  obtain rs' where "heap_in w (entry_table x) rs'" "set rs' \<inter> set ps = {}" by (rule heaps_apart_heap [OF ap x(1)])
  then have "set rs \<inter> set ps = {}" using heap_pages_unique [OF x(3)] x(2) by blast
  moreover have "set rs \<inter> set qs = {}" using heaps_apart_two [OF ap x(1) e n _ hp] x(2,3) by blast
  ultimately have "set rs \<inter> (set ps \<union> set qs) = {}" by auto
  then have k: "heap_in w' tb rs \<and> (\<forall>y. rid_page y \<in> set rs \<longrightarrow> pool_rows (wpool w') y = pool_rows (wpool w) y)"
    using d x(3) unfolding dropped_def by blast
  then show "pool_rows (wpool w') r = pool_rows (wpool w) r" using x(4) by blast
  show "belongs w' n tb r" using k x n dropped_tables [OF d] by (auto simp: belongs_def)
qed

lemma step_drop:
  assumes sim: "simulated w (a, p)" and f: "find_table name (tx_data w) = Some e" and hp: "heap_in w (entry_table e) qs"
    and room: "length (free_list (bdisk (wpool w))) + length qs \<le> 1025" and unused: "\<forall>r\<in>open_rows w None. rid_page r \<notin> set qs"
    and run: "drop_table name tx w = (Inr gone, w')"
  shows "\<exists>s'. spec_step (a, p) (if gone then Drop name else Nothing) s' \<and> simulated w' s'"
proof -
  have ok: "database_ok w" and a: "represents w a" and w: "open_work w p" using sim by (simp_all add: simulated_def)
  note D = database_poolD [OF ok]
  obtain ps where c: "catalog_ok ps w" and ap: "heaps_apart w ps" and first: "table_first_page (catalog_table (tx_data w)) = kCATALOG_FIRST_PAGE_ID"
    using ok by (auto simp: database_ok_def)
  obtain rs where "heap_in w (entry_table e) rs" "set rs \<inter> set ps = {}" by (rule heaps_apart_heap [OF ap f])
  then have sep: "set qs \<inter> set ps = {}" using heap_pages_unique [OF hp] by blast
  have cap: "0 < pool_capacity (wpool w)" "1 < pool_capacity (wpool w)" using D(5) by simp_all
  from drop_table_run [OF c D(2) cap(1) D(3) f hp sep room, of tx] run
  have R: "if gone then dropped w name ps qs w' else tx_data w' = tx_data w" by auto
  have "log_kept (\<lambda>t. undo_log_of t w) (own_locks w) (active_txs w) w" using open_work_locks [OF w] by (simp add: log_kept_def)
  from keepsD [OF log_quiet.drop_table_keeps this run]
  have k: "lock_kept (own_locks w) (active_txs w) w'" "\<And>t. undo_log_of t w' = undo_log_of t w" by (simp_all add: log_kept_def)
  show ?thesis
  proof (cases gone)
    case False
    then show ?thesis using nothing_done [OF sim k] R by simp
  next
    case True
    then have d: "dropped w name ps qs w'" using R by simp
    have "sound_world w'" using keepsD [OF drop_table_sound D(4) run] .
    from dropped_ok [OF d ap f hp first this cap(2)] dropped_represents [OF d ap f hp a]
    have db: "database_ok w'" "represents w' (a(name := None))" .
    have other: "n \<noteq> name" if "belongs w n tb r" "rid_page r \<notin> set qs" for n tb r
      using that f heap_pages_unique [OF hp] by (auto simp: belongs_def)
    have free: "change_table ch \<noteq> name" if cs: "p t = Some cs" "ch \<in> set cs" for t cs ch
    proof -
      obtain us where us: "undo_log_of t w = Some us" "undoable w (pool_rows (wpool w)) (rev us) (rev cs)"
        using open_workD(3) [OF w cs(1)] by (auto simp: work_of_def)
      obtain r tb where r: "r \<in> undo_rids us" "belongs w (change_table ch) tb r" using undoable_table [OF us(2), of ch] cs(2) that by auto
      have "r \<in> open_rows w None" using us(1) r(1) cs(1) open_workD(2) [OF w] by (auto simp: open_rows_def own_locks_def)
      then show ?thesis using other [OF r(2)] unused by blast
    qed
    have "open_work w' p"
    proof (rule open_work_kept [OF w k])
      fix r assume r: "r \<in> open_rows w None"
      obtain n tb where b: "belongs w n tb r" by (rule open_rows_belong [OF w r])
      show "pool_rows (wpool w') r = pool_rows (wpool w) r"
        using belongs_dropped(2) [OF d ap f hp b other [OF b]] unused r by blast
    qed (use belongs_dropped(1) [OF d ap f hp] free in blast)
    moreover obtain x where "a name = Some x" using representsD(2) [OF a f] by blast
    ultimately show ?thesis using True db free by (auto simp: simulated_def spec_step_simps)
  qed
qed

lemma step_query:
  assumes sim: "simulated w (a, p)" and b: "bind_query q tx w = (Inr (plan, q'), wb)"
    and k: "queryable w q tx plan R k n" and run: "engine_execute q tx w = (Inr (root, q'), w1)" "query_rows k n root w1 = (Inr rows, w')"
  shows "answers (contents_in a) q (mset rows) \<and> simulated w' (a, p)"
proof -
  have ok: "database_ok w" and a: "represents w a" and w: "open_work w p" using sim by (simp_all add: simulated_def)
  note D = database_poolD [OF ok]
  have K: "plan_typed plan" "tables_typed R plan" "lockable tx w" "length (query_tables q) < pool_capacity (wpool w)" "plan_fuel R plan \<le> k"
    "length (plan_rows R plan) < n" and R: "\<And>name e. find_table name (tx_data w) = Some e \<Longrightarrow> table_rows (wpool w) (entry_table e) (R (entry_table e))"
    using k by (auto simp: queryable_def)
  have "list_all2 (named_table w) (query_tables q) (plan_tables plan)" using bind_query_ok [OF b] by blast
  then have T: "\<forall>tb\<in>set (plan_tables plan). table_rows (wpool w) tb (R tb)"
    by (induction rule: list_all2_induct) (auto simp: named_table_def dest: R)
  have s': "sound_world w'" using keepsD [OF query_sound.query_rows_keeps keepsD [OF query_sound.engine_keeps D(4) run(1)] run(2)] .
  have W: "world_ok tx {#} w" using D(2,5) K(3) by (simp add: world_ok_def)
  have "size {#} + length (query_tables q) < pool_capacity (wpool w)" using K(4) by simp
  from engine_run [OF b K(1,2) T W this K(5,6)] run
  have E: "answers (contents_of R w) q (mset rows)" "world_ok tx {#} w'" "world_kept {#} w w'" by auto
  have "contents_of R w = contents_in a"
  proof (rule ext)
    fix name
    show "contents_of R w name = contents_in a name"
    proof (cases "find_table name (tx_data w)")
      case None
      then show ?thesis using representsD(1) [OF a] by (simp add: contents_of_def contents_in_def)
    next
      case (Some e)
      then obtain rows where "table_rows (wpool w) (entry_table e) rows" "a name = Some (table_schema (entry_table e), mset rows)"
        using representsD(2) [OF a] by blast
      then show ?thesis using Some table_rows_unique [OF R [OF Some]] by (simp add: contents_of_def contents_in_def)
    qed
  qed
  moreover have "pool_ok (wpool w')"
    using E(2,3) D(3,5) s' by (simp add: pool_ok_def world_ok_def world_kept_def pool_kept_def pages_wf_def pool_shape_def)
  then have "database_ok w' \<and> represents w' a" using E(3) step_nothing [OF ok a] by (simp add: world_kept_def pool_kept_def)
  moreover have "open_work w' p"
  proof -
    have l: "log_kept (\<lambda>t. undo_log_of t w) (own_locks w) (active_txs w) w" using open_work_locks [OF w] by (simp add: log_kept_def)
    have "log_kept (\<lambda>t. undo_log_of t w) (own_locks w) (active_txs w) w'"
      using keepsD [OF log_quiet.reading.query_rows_keeps keepsD [OF log_quiet.reading.engine_keeps l run(1)] run(2)] .
    then have k': "lock_kept (own_locks w) (active_txs w) w'" "\<And>t. undo_log_of t w' = undo_log_of t w" by (simp_all add: log_kept_def)
    have v: "bpm_view (wpool w') = bpm_view (wpool w)" "bpm_pages (wpool w') = bpm_pages (wpool w)" "tables (tx_data w') = tables (tx_data w)"
      using E(3) by (simp_all add: world_kept_def pool_kept_def)
    have rows: "pool_rows (wpool w') = pool_rows (wpool w)" by (rule pool_rows_cong [OF v(1,2)])
    show ?thesis by (rule open_work_kept [OF w k']) (use rows belongs_grown [OF grown_same [OF v(1,2)] v(3)] in simp_all)
  qed
  ultimately show ?thesis using E(1) by (simp add: simulated_def)
qed

lemma restart_represents:
  assumes ok: "database_ok w" and a: "represents w a" and f: "bpm_flush_all (wpool w) = (Inr (), b)"
    and o: "disk_open (Some (disk_close (bdisk b))) = Inr e" and n: "1 < n" "n < 2 ^ 32 - 1" and run: "database_open (bpm_object e n) = (Inr w', c)"
  shows "database_ok w'" "represents w' a"
proof -
  note D = database_poolD [OF ok]
  obtain ps where c: "catalog_ok ps w" and ap: "heaps_apart w ps" and first: "table_first_page (catalog_table (tx_data w)) = kCATALOG_FIRST_PAGE_ID"
    using ok by (auto simp: database_ok_def)
  have "0 < n" using n(1) by simp
  from restart_run [OF c first D(2,4) this n(2)] f o run
  have w': "world_ok None {#} w'" "pool_capacity (wpool w') = n" "catalog_table (tx_data w') = catalog_object" "sound_world w'"
    "bpm_pages (wpool w') = bpm_pages (wpool w)" "\<forall>q\<in>bpm_pages (wpool w). bpm_view (wpool w') q = bpm_view (wpool w) q"
    "map_of (tables (tx_data w')) = map_of (tables (tx_data w))" "catalog_ok ps w'"
    "\<And>tb rows. table_rows (wpool w) tb rows \<Longrightarrow> table_rows (wpool w') tb rows"
    by auto
  have F: "find_table name (tx_data w') = find_table name (tx_data w)" for name using w'(7) by (simp add: find_table_def)
  have heap: "heap_in w' tb qs \<longleftrightarrow> heap_in w tb qs" for tb qs
    using chain_cong [of qs "bpm_view (wpool w)" "bpm_view (wpool w')"] chain_cong [of qs "bpm_view (wpool w')" "bpm_view (wpool w)"] chain_in w'(5,6)
    unfolding heap_pages_def by (metis order_refl)
  have "heaps_apart w' ps" using ap unfolding heaps_apart_def F heap .
  moreover have "pool_ok (wpool w')" using w'(1,2,4-6) D(3) n(1) by (simp add: pool_ok_def world_ok_def pages_wf_def)
  ultimately show "database_ok w'" using w'(3,8) by (auto simp: database_ok_def catalog_object_def)
  show "represents w' a" by (rule representsI; simp only: F) (use representsD [OF a] w'(9) in blast)+
qed

lemma step_restart:
  assumes sim: "simulated w (a, p)" and f: "bpm_flush_all (wpool w) = (Inr (), b)"
    and o: "disk_open (Some (disk_close (bdisk b))) = Inr e" and n: "1 < n" "n < 2 ^ 32 - 1" and run: "database_open (bpm_object e n) = (Inr w', c)"
  shows "simulated w' (a, Map.empty)"
proof -
  have ok: "database_ok w" and a: "represents w a" using sim by (simp_all add: simulated_def)
  note r = restart_represents [OF ok a f o n run]
  have "open_work w' Map.empty"
    using database_open_fresh [OF run] lock_init_good by (simp add: open_work_def lock_quiet_def lock_good_def lock_init_def)
  with r show ?thesis by (simp add: simulated_def)
qed

section \<open>Beginning and ending\<close>

lemma step_begin:
  assumes sim: "simulated w (a, p)" and b: "tm_begin w = (t, w')" and new: "txs (locks w) t = None"
  shows "p t = None \<and> simulated w' (a, p(t \<mapsto> []))"
proof
  have ok: "database_ok w" "represents w a" and w: "open_work w p" using sim by (simp_all add: simulated_def)
  note W = open_workD [OF w]
  show n: "p t = None"
  proof (rule ccontr)
    assume "p t \<noteq> None"
    then obtain cs where "p t = Some cs" by blast
    from W(3) [OF this] show False using new by (auto simp: work_of_def)
  qed
  note B = begin_kept [OF open_work_locks [OF w] b new]
  have "work_of w' u cs" if u: "(p(t \<mapsto> [])) u = Some cs" for u cs
  proof (cases "u = t")
    case True
    then show ?thesis using u B(2) by (simp add: work_of_def)
  next
    case False
    then have c: "p u = Some cs" using u by simp
    show ?thesis
    proof (rule work_kept [OF W(3) [OF c]])
      fix us r assume "undo_log_of u w = Some us" "r \<in> undo_rids us"
      then have "(u, r) \<in> own_locks w" using c W(2) by (auto simp: own_locks_def)
      then show "has_lock w' u EXCLUSIVE r" using B(1) by (auto simp: lock_kept_def)
    qed (use B(2,3) False in \<open>simp_all add: belongs_def\<close>)
  qed
  then have "open_work w' (p(t \<mapsto> []))" using W(2) B(1) by (simp add: open_work_def lock_kept_def)
  then show "simulated w' (a, p(t \<mapsto> []))" using ok same_data [OF B(3)] by (simp add: simulated_def)
qed

lemma step_commit:
  assumes sim: "simulated w (a, p)"
  shows "simulated (tm_commit t w) (a, p(t := None))"
proof -
  have ok: "database_ok w" "represents w a" and w: "open_work w p" using sim by (simp_all add: simulated_def)
  have "open_work (ended t COMMITTED (w\<lparr>tx_data := tx_data w\<rparr>)) (p(t := None))" by (rule open_work_ended [OF w]) (simp_all add: grown_refl)
  then have "open_work (tm_commit t w) (p(t := None))" by (simp add: commit_ended)
  moreover have d: "tx_data (tm_commit t w) = tx_data w" by (simp add: commit_ended ended_def tx_set_state_def)
  ultimately show ?thesis using ok unfolding simulated_def prod.case same_data [OF d] by blast
qed

lemma step_roll_back:
  assumes sim: "simulated w (a, p)" and t: "t \<in> active_txs w" and m: "marked w t" and run: "rollback_tx t w = (Inr (), w')"
  shows "\<exists>s'. spec_step (a, p) (Roll_back t) s' \<and> simulated w' s'"
proof -
  have ok: "database_ok w" "represents w a" and w: "open_work w p" using sim by (simp_all add: simulated_def)
  from rollback_takes_back [OF ok w t _ run] m obtain cs a' where
    "p t = Some cs" "take_back cs a = Some a'" "database_ok w'" "represents w' a'" "open_work w' (p(t := None))"
    by (auto simp: marked_def)
  then show ?thesis by (auto simp: simulated_def spec_step_simps)
qed

section \<open>A new table\<close>

text \<open>What \<open>create_table\<close> leaves: table \<open>tb\<close> on a page of its own, the catalog on pages \<open>qs\<close> instead of \<open>ps\<close>.\<close>

definition created :: "world \<Rightarrow> table \<Rightarrow> page_id list \<Rightarrow> page_id list \<Rightarrow> world \<Rightarrow> bool" where
  "created w tb ps qs w' \<longleftrightarrow>
     (\<exists>r. \<forall>n. find_table n (tx_data w') =
        (if n = table_name tb then Some \<lparr>entry_rid = r, entry_table = tb\<rparr> else find_table n (tx_data w))) \<and>
     catalog_table (tx_data w') = catalog_table (tx_data w) \<and> catalog_ok qs w' \<and> held {} {#} (wpool w') \<and>
     pool_capacity (wpool w') = pool_capacity (wpool w) \<and> heap_in w' tb [table_first_page tb] \<and> table_rows (wpool w') tb [] \<and>
     table_first_page tb \<notin> bpm_pages (wpool w) \<union> set qs \<and> bpm_pages (wpool w) \<subseteq> bpm_pages (wpool w') \<and>
     bpm_pages (wpool w') \<subseteq> insert (table_first_page tb) (bpm_pages (wpool w) \<union> set qs) \<and>
     set ps \<subseteq> set qs \<and> set qs \<subseteq> set ps \<union> - bpm_pages (wpool w) \<and>
     (\<forall>q\<in>bpm_pages (wpool w). q \<notin> set ps \<longrightarrow> bpm_view (wpool w') q = bpm_view (wpool w) q)"

lemma create_table_created:
  assumes c: "catalog_ok ps w" and h: "held {} {#} (wpool w)" "size ({#} :: page_id multiset) + 1 < pool_capacity (wpool w)"
    and new: "find_table name (tx_data w) = None" and cr: "creatable w name s" and run: "create_table name s None w = (Inr tb, w')"
  shows "\<exists>qs. created w tb ps qs w'" "table_name tb = name" "table_schema tb = s"
proof -
  have "heap_in w (catalog_table (tx_data w)) ps" using c by (simp add: catalog_holds_def)
  then have cr': "entry_fits name s" "1 < page_budget (bdisk (wpool w))"
    "\<forall>x\<in>set (butlast ps). \<forall>t. length t = 9 + length name + length (schema_serialize s) \<longrightarrow> settled (bpm_view (wpool w) x) t"
    using cr by (simp_all add: creatable_def)
  obtain p r v qs e where v: "create_table name s None w = (Inr \<lparr>table_name = name, table_first_page = p, table_schema = s\<rparr>, v)"
    and w'0: "v = put_tables (tables (tx_data w) @ [(name, \<lparr>entry_rid = r, entry_table = \<lparr>table_name = name, table_first_page = p, table_schema = s\<rparr>\<rparr>)]) (put_pool e w)"
      "catalog_ok qs v" "held {} {#} e"
      "pool_capacity e = pool_capacity (wpool w)" "p \<notin> bpm_pages (wpool w)" "p \<notin> set qs" "heap_pages (bpm_view e) (bpm_pages e) p [p]"
      "bpm_view e p = sp_init zero_page" "bpm_pages (wpool w) \<subseteq> bpm_pages e" "\<forall>q\<in>bpm_pages (wpool w). q \<notin> set ps \<longrightarrow> bpm_view e q = bpm_view (wpool w) q"
      "bpm_pages e \<subseteq> insert p (bpm_pages (wpool w) \<union> set qs)" "set ps \<subseteq> set qs" "set qs \<subseteq> set ps \<union> - bpm_pages (wpool w)"
    using create_table_ok [OF c h new cr'] unfolding Let_def by blast
  have tb: "tb = \<lparr>table_name = name, table_first_page = p, table_schema = s\<rparr>" "w' = v" using v run by simp_all
  note w' = w'0 [folded tb]
  have e: "wpool w' = e" "catalog_table (tx_data w') = catalog_table (tx_data w)" by (simp_all add: w'(1) put_tables_def)
  have F: "find_table n (tx_data w') = (if n = table_name tb then Some \<lparr>entry_rid = r, entry_table = tb\<rparr> else find_table n (tx_data w))" for n
    using new find_added_other [of n name w] tb(1) by (simp add: w'(1) find_added)
  have "table_rows e tb []" using w'(7,8) fresh_rows [of e tb p] by (simp add: tb(1))
  then show "\<exists>qs. created w tb ps qs w'"
    using w'(2-13) F unfolding created_def e by (intro exI [of _ qs]) (auto simp: tb(1))
  show "table_name tb = name" "table_schema tb = s" by (simp_all add: tb(1))
qed

lemma created_old_heap:
  assumes c: "created w tb ps qs w'" and ap: "heaps_apart w ps" and d: "find_table n (tx_data w) = Some d"
  obtains rs where "heap_in w' (entry_table d) rs" "heap_in w (entry_table d) rs" "set rs \<inter> set qs = {}" "table_first_page tb \<notin> set rs"
    "\<forall>rows. table_rows (wpool w) (entry_table d) rows \<longrightarrow> table_rows (wpool w') (entry_table d) rows"
proof -
  have C: "table_first_page tb \<notin> bpm_pages (wpool w)" "set qs \<subseteq> set ps \<union> - bpm_pages (wpool w)" "bpm_pages (wpool w) \<subseteq> bpm_pages (wpool w')"
    "\<forall>q\<in>bpm_pages (wpool w). q \<notin> set ps \<longrightarrow> bpm_view (wpool w') q = bpm_view (wpool w) q" using c by (simp_all add: created_def)
  obtain rs where rs: "heap_in w (entry_table d) rs" "set rs \<inter> set ps = {}" by (rule heaps_apart_heap [OF ap d])
  have sub: "set rs \<subseteq> bpm_pages (wpool w)" using rs(1) chain_in by (auto simp: heap_pages_def)
  then have v: "\<forall>q\<in>set rs. bpm_view (wpool w') q = bpm_view (wpool w) q" using C(4) rs(2) by auto
  have "heap_in w' (entry_table d) rs"
    using rs(1) chain_cong [of rs "bpm_view (wpool w)" "bpm_view (wpool w')"] v C(3) by (auto simp: heap_pages_def)
  moreover have "\<forall>rows. table_rows (wpool w) (entry_table d) rows \<longrightarrow> table_rows (wpool w') (entry_table d) rows"
    using table_rows_untouched [OF _ rs(1) v] sub C(3) by auto
  ultimately show thesis using that rs sub C(1,2) by blast
qed

lemma created_apart:
  assumes c: "created w tb ps qs w'" and ap: "heaps_apart w ps"
  shows "heaps_apart w' qs"
proof (rule heaps_apartI)
  let ?p = "table_first_page tb"
  obtain r where F: "\<And>n. find_table n (tx_data w') =
      (if n = table_name tb then Some \<lparr>entry_rid = r, entry_table = tb\<rparr> else find_table n (tx_data w))" and h: "heap_in w' tb [?p]" "?p \<notin> set qs"
    using c by (auto simp: created_def)
  show "\<exists>rs. heap_in w' (entry_table d) rs \<and> set rs \<inter> set qs = {}" if d: "find_table n (tx_data w') = Some d" for n d
  proof (cases "n = table_name tb")
    case True
    then show ?thesis using d h by (auto simp: F intro!: exI [of _ "[?p]"])
  next
    case False
    then have "find_table n (tx_data w) = Some d" using d by (simp add: F)
    then obtain rs where "heap_in w' (entry_table d) rs" "set rs \<inter> set qs = {}" by (rule created_old_heap [OF c ap])
    then show ?thesis by blast
  qed
  have one: "set rs \<inter> set rs' = {}"
    if n: "find_table (table_name tb) (tx_data w') = Some d" "find_table m (tx_data w') = Some d'" "m \<noteq> table_name tb"
      and k: "heap_in w' (entry_table d) rs" "heap_in w' (entry_table d') rs'" for m d d' rs rs'
  proof -
    have "find_table m (tx_data w) = Some d'" using n by (simp add: F)
    from created_old_heap [OF c ap this] have "?p \<notin> set rs'" using k(2) heap_pages_unique by metis
    moreover have "rs = [?p]" using n(1) k(1) h(1) heap_pages_unique by (auto simp: F)
    ultimately show ?thesis by simp
  qed
  fix n d rs m d' rs'
  assume a: "find_table n (tx_data w') = Some d" "find_table m (tx_data w') = Some d'" "n \<noteq> m"
    "heap_in w' (entry_table d) rs" "heap_in w' (entry_table d') rs'"
  show "set rs \<inter> set rs' = {}"
  proof (cases "n = table_name tb \<or> m = table_name tb")
    case True
    then show ?thesis using one [of d m d' rs rs'] one [of d' n d rs' rs] a by blast
  next
    case False
    then have f: "find_table n (tx_data w) = Some d" "find_table m (tx_data w) = Some d'" using a(1,2) by (simp_all add: F)
    have "heap_in w (entry_table d) rs" using created_old_heap [OF c ap f(1)] a(4) heap_pages_unique by metis
    moreover have "heap_in w (entry_table d') rs'" using created_old_heap [OF c ap f(2)] a(5) heap_pages_unique by metis
    ultimately show ?thesis using heaps_apart_two [OF ap f a(3)] by blast
  qed
qed

lemma created_represents:
  assumes c: "created w tb ps qs w'" and ap: "heaps_apart w ps" and a: "represents w a"
  shows "represents w' (a(table_name tb \<mapsto> (table_schema tb, {#})))"
proof (rule representsI)
  obtain r where F: "\<And>n. find_table n (tx_data w') =
      (if n = table_name tb then Some \<lparr>entry_rid = r, entry_table = tb\<rparr> else find_table n (tx_data w))" and t: "table_rows (wpool w') tb []"
    using c by (auto simp: created_def)
  show "(a(table_name tb \<mapsto> (table_schema tb, {#}))) n = None" if "find_table n (tx_data w') = None" for n
    using that representsD(1) [OF a, of n] by (auto simp: F split: if_splits)
  show "\<exists>rows. table_rows (wpool w') (entry_table d) rows \<and> (a(table_name tb \<mapsto> (table_schema tb, {#}))) n = Some (table_schema (entry_table d), mset rows)"
    if d: "find_table n (tx_data w') = Some d" for n d
  proof (cases "n = table_name tb")
    case True
    then show ?thesis using d t by (auto simp: F)
  next
    case False
    then have f: "find_table n (tx_data w) = Some d" using d by (simp add: F)
    obtain rows where "table_rows (wpool w) (entry_table d) rows" "a n = Some (table_schema (entry_table d), mset rows)"
      using representsD(2) [OF a f] by blast
    with created_old_heap [OF c ap f] False show ?thesis by auto
  qed
qed

lemma created_pages_wf:
  assumes c: "created w tb ps qs w'" and wf: "pages_wf (wpool w)"
  shows "pages_wf (wpool w')"
  unfolding pages_wf_def
proof
  fix q assume q: "q \<in> bpm_pages (wpool w')"
  show "wf_page (bpm_view (wpool w') q)"
  proof (cases "q = table_first_page tb \<or> q \<in> set qs")
    case True
    then show ?thesis using c chain_in by (auto simp: created_def catalog_holds_def heap_pages_def)
  next
    case False
    then have "q \<in> bpm_pages (wpool w)" "q \<notin> set ps" using c q by (auto simp: created_def)
    then show ?thesis using c wf by (simp add: created_def pages_wf_def)
  qed
qed

lemma belongs_created:
  assumes c: "created w tb ps qs w'" and ap: "heaps_apart w ps" and new: "find_table (table_name tb) (tx_data w) = None" and b: "belongs w n tb' r"
  shows "belongs w' n tb' r" "pool_rows (wpool w') r = pool_rows (wpool w) r"
proof -
  obtain e ks where e: "find_table n (tx_data w) = Some e" "entry_table e = tb'" "heap_in w tb' ks" "rid_page r \<in> set ks"
    using b by (auto simp: belongs_def)
  obtain rs where rs: "heap_in w' (entry_table e) rs" "heap_in w (entry_table e) rs" "set rs \<inter> set qs = {}" by (rule created_old_heap [OF c ap e(1)])
  then have k: "ks = rs" using heap_pages_unique e(2,3) by blast
  have "n \<noteq> table_name tb" using e(1) new by auto
  then have "find_table n (tx_data w') = Some e" using c e(1) by (auto simp: created_def)
  then show "belongs w' n tb' r" using rs(1) e(2,4) k by (auto simp: belongs_def)
  have "rid_page r \<in> bpm_pages (wpool w)" using rs(2) e(4) k chain_in by (auto simp: heap_pages_def)
  moreover have "rid_page r \<notin> set ps" using c rs(3) e(4) k by (auto simp: created_def)
  ultimately show "pool_rows (wpool w') r = pool_rows (wpool w) r" using c by (auto simp: created_def pool_rows_def)
qed

lemma step_create:
  assumes sim: "simulated w (a, p)" and new: "find_table name (tx_data w) = None" and cr: "creatable w name s"
    and run: "create_table name s None w = (Inr tb, w')"
  shows "spec_step (a, p) (Create name s) (a(name \<mapsto> (s, {#})), p) \<and> simulated w' (a(name \<mapsto> (s, {#})), p)"
proof -
  have ok: "database_ok w" and a: "represents w a" and w: "open_work w p" using sim by (simp_all add: simulated_def)
  note D = database_poolD [OF ok]
  obtain ps where ps: "catalog_ok ps w" and ap: "heaps_apart w ps" and first: "table_first_page (catalog_table (tx_data w)) = kCATALOG_FIRST_PAGE_ID"
    using ok by (auto simp: database_ok_def)
  obtain qs where c: "created w tb ps qs w'" and tb: "table_name tb = name" "table_schema tb = s"
    using create_table_created [OF ps D(2,5) new cr run] by blast
  have "sound_world w'" using keepsD [OF create_table_sound D(4) run] .
  then have "pool_ok (wpool w')" using c D(5) created_pages_wf [OF c D(3)] by (simp add: pool_ok_def created_def)
  then have ok': "database_ok w'" using c first created_apart [OF c ap] by (auto simp: database_ok_def created_def)
  have "log_kept (\<lambda>t. undo_log_of t w) (own_locks w) (active_txs w) w" using open_work_locks [OF w] by (simp add: log_kept_def)
  from keepsD [OF log_quiet.create_table_plain this run]
  have k: "lock_kept (own_locks w) (active_txs w) w'" "\<And>t. undo_log_of t w' = undo_log_of t w" by (simp_all add: log_kept_def)
  have n: "find_table (table_name tb) (tx_data w) = None" using new tb(1) by simp
  have "open_work w' p"
  proof (rule open_work_kept [OF w k])
    fix r assume "r \<in> open_rows w None"
    then obtain n' tb' where "belongs w n' tb' r" by (rule open_rows_belong [OF w])
    then show "pool_rows (wpool w') r = pool_rows (wpool w) r" by (rule belongs_created(2) [OF c ap n])
  qed (rule belongs_created(1) [OF c ap n])
  then show ?thesis using ok' created_represents [OF c ap a] representsD(1) [OF a new] by (simp add: spec_step_simps simulated_def tb)
qed

section \<open>The refinement\<close>

lemma step_simulated:
  assumes "db_step w x w'" and sim: "simulated w (a, p)"
  shows "\<exists>s'. spec_step (a, p) x s' \<and> simulated w' s'"
  using assms(1)
proof cases
  case (Step_create name s tb)
  then show ?thesis using step_create [OF sim Step_create(2-4)] by blast
next
  case (Step_insert name e vs ps tx m)
  then show ?thesis using step_insert [OF sim Step_insert(2-6)] by blast
next
  case (Step_delete name e ps r t v tx deleted)
  then show ?thesis using step_delete [OF sim Step_delete(2-7)] by blast
next
  case (Step_update name e vs ps r t v tx m)
  then show ?thesis using step_update [OF sim Step_update(2-7)] by blast
next
  case (Step_drop name e qs tx gone)
  then show ?thesis using step_drop [OF sim Step_drop(2-6)] by blast
next
  case (Step_query q tx plan q' wb R k n root w1 rows)
  then show ?thesis using step_query [OF sim Step_query(2-5)] Spec_query by blast
next
  case (Step_begin t)
  then show ?thesis using step_begin [OF sim Step_begin(2,3)] Spec_begin by blast
next
  case (Step_commit t)
  then show ?thesis using step_commit [OF sim] Spec_commit by blast
next
  case (Step_roll_back t)
  then show ?thesis using step_roll_back [OF sim Step_roll_back(2-4)] by blast
next
  case (Step_restart b e n c)
  then show ?thesis using step_restart [OF sim Step_restart(2-6)] Spec_restart by blast
qed


lemma new_world_database: "database_ok new_world" "represents new_world Map.empty"
proof -
  have "pool_ok (wpool new_world)" using new_world_ok first_table_ok(3) by (simp add: pool_ok_def)
  moreover have none: "find_table name (tx_data new_world) = None" for name using new_world_ok(5) by (simp add: find_table_def)
  then have "heaps_apart new_world [kCATALOG_FIRST_PAGE_ID]" by (simp add: heaps_apart_def)
  ultimately show "database_ok new_world" using new_world_ok(4,6) by (auto simp: database_ok_def catalog_object_def)
  show "represents new_world Map.empty" using none by (simp add: represents_def)
qed

lemma new_world_creatable: "creatable new_world ''t'' sample_schema"
proof -
  have "butlast ps = []" if "heap_in new_world (catalog_table (tx_data new_world)) ps" for ps
    using that first_table_ok(1) heap_pages_unique new_world_ok(4) by (fastforce simp: first_table_def catalog_object_def)
  then show ?thesis using sample_entry_fits(1) new_world_ok(8) by (auto simp: creatable_def)
qed

lemma new_world_simulated: "simulated new_world (Map.empty, Map.empty)"
proof -
  have "locks new_world = lock_init \<and> active_txs new_world = {}" by (rule database_open_fresh [OF new_world_ok(1)])
  then have "open_work new_world Map.empty" using lock_init_good by (simp add: open_work_def lock_quiet_def lock_good_def lock_init_def)
  then show ?thesis using new_world_database by (simp add: simulated_def)
qed

text \<open>A database with one table, just created.\<close>

lemma table_on_new_world:
  obtains w p r where "create_table ''t'' sample_schema None new_world =
      (Inr \<lparr>table_name = ''t'', table_first_page = p, table_schema = sample_schema\<rparr>, w)"
    "db_step new_world (Create ''t'' sample_schema) w" "simulated w ([''t'' \<mapsto> (sample_schema, {#})], Map.empty)"
    "find_table ''t'' (tx_data w) = Some \<lparr>entry_rid = r, entry_table = \<lparr>table_name = ''t'', table_first_page = p, table_schema = sample_schema\<rparr>\<rparr>"
    "heap_pages (bpm_view (wpool w)) (bpm_pages (wpool w)) p [p]" "bpm_view (wpool w) p = sp_init zero_page"
    "locks w = lock_init" "active_txs w = {}"
proof -
  have new: "find_table ''t'' (tx_data new_world) = None" using new_world_ok(5) by (simp add: find_table_def)
  obtain p r w c where w: "create_table ''t'' sample_schema None new_world =
      (Inr \<lparr>table_name = ''t'', table_first_page = p, table_schema = sample_schema\<rparr>, w)"
    "w = put_tables (tables (tx_data new_world) @ [(''t'', \<lparr>entry_rid = r,
      entry_table = \<lparr>table_name = ''t'', table_first_page = p, table_schema = sample_schema\<rparr>\<rparr>)]) (put_pool c new_world)"
    "heap_pages (bpm_view c) (bpm_pages c) p [p]" "bpm_view c p = sp_init zero_page"
    using create_table_ok [OF new_world_ok(6,2) _ new sample_entry_fits(1)] new_world_ok(3,8) unfolding Let_def by auto
  have s: "db_step new_world (Create ''t'' sample_schema) w" by (rule Step_create [OF new new_world_creatable w(1)])
  have sim: "simulated w ([''t'' \<mapsto> (sample_schema, {#})], Map.empty)"
    using step_create [OF new_world_simulated new new_world_creatable w(1)] by simp
  have "locks w = lock_init \<and> active_txs w = {}"
    using keepsD [OF fresh_locks.create_table_plain _ w(1)] database_open_fresh [OF new_world_ok(1)] by blast
  moreover have "find_table ''t'' (tx_data w) = Some \<lparr>entry_rid = r, entry_table = \<lparr>table_name = ''t'', table_first_page = p, table_schema = sample_schema\<rparr>\<rparr>"
    using new by (simp add: w(2) find_added)
  moreover have "wpool w = c" by (simp add: w(2) put_tables_def)
  ultimately show thesis using that [OF w(1) s sim] w(3,4) by simp
qed


section \<open>Dropping a table\<close>

text \<open>
  C12: \<open>drop_table\<close> undoes \<open>create_table\<close>. On a database whose tables are the map \<open>a\<close>, dropping a name not
  in use answers false and changes nothing. Dropping a table, outside a transaction and with room in the
  free list for its pages, answers true: the name is free again, the map is \<open>a\<close> without it, so every
  other table keeps its schema and rows, exactly the pages of its heap leave the pool, and the database is
  as good as before.
\<close>

theorem drop_table_once:
  assumes ok: "database_ok w" and a: "represents w a"
  shows "case find_table name (tx_data w) of
       None \<Rightarrow> drop_table name tx w = (Inr False, w)
     | Some e \<Rightarrow> \<forall>qs. heap_in w (entry_table e) qs \<longrightarrow> length (free_list (bdisk (wpool w))) + length qs \<le> 1025 \<longrightarrow>
         (\<exists>w'. drop_table name None w = (Inr True, w') \<and> get_table name None w' = (Inr None, w') \<and>
           bpm_pages (wpool w') = bpm_pages (wpool w) - set qs \<and> database_ok w' \<and> represents w' (a(name := None)))"
proof (cases "find_table name (tx_data w)")
  case None
  then show ?thesis by (simp add: drop_table_def)
next
  case (Some e)
  note D = database_poolD [OF ok]
  obtain ps where c: "catalog_ok ps w" and ap: "heaps_apart w ps" and first: "table_first_page (catalog_table (tx_data w)) = kCATALOG_FIRST_PAGE_ID"
    using ok by (auto simp: database_ok_def)
  have cap: "0 < pool_capacity (wpool w)" "1 < pool_capacity (wpool w)" using D(5) by simp_all
  have "\<exists>w'. drop_table name None w = (Inr True, w') \<and> get_table name None w' = (Inr None, w') \<and>
      bpm_pages (wpool w') = bpm_pages (wpool w) - set qs \<and> database_ok w' \<and> represents w' (a(name := None))"
    if q: "heap_in w (entry_table e) qs" "length (free_list (bdisk (wpool w))) + length qs \<le> 1025" for qs
  proof -
    obtain rs where "heap_in w (entry_table e) rs" "set rs \<inter> set ps = {}" by (rule heaps_apart_heap [OF ap Some])
    then have sep: "set qs \<inter> set ps = {}" using heap_pages_unique [OF q(1)] by blast
    obtain w' where w': "drop_table name None w = (Inr True, w')" "dropped w name ps qs w'"
      using drop_table_run [OF c D(2) cap(1) D(3) Some q(1) sep q(2), of None] by auto
    have "sound_world w'" using keepsD [OF drop_table_sound D(4) w'(1)] .
    then have "database_ok w'" by (rule dropped_ok [OF w'(2) ap Some q(1) first _ cap(2)])
    moreover have "get_table name None w' = (Inr None, w')" using dropped_tables [OF w'(2), of name] by (simp add: get_table_def)
    ultimately show ?thesis using w' dropped_represents [OF w'(2) ap Some q(1) a] by (auto simp: dropped_def)
  qed
  then show ?thesis using Some by simp
qed

lemma few_free_pages:
  assumes "free_ok d"
  shows "length (free_list d) \<le> unat (dcapacity d)"
proof -
  have "length (free_list d) = card (unat ` set (free_list d))"
    using assms by (subst card_image) (auto simp: free_ok_def distinct_card inj_on_def word_unat_eq_iff)
  also have "\<dots> \<le> card {..<unat (dcapacity d)}" using assms by (intro card_mono) (auto simp: free_ok_def word_less_nat_alt)
  finally show ?thesis by simp
qed

theorem drop_table_once_witness:
  "\<exists>tb w w'. create_table ''t'' sample_schema None new_world = (Inr tb, w) \<and> drop_table ''t'' None w = (Inr True, w') \<and>
     get_table ''t'' None w' = (Inr None, w') \<and> represents w' Map.empty"
proof -
  obtain w p r where w: "create_table ''t'' sample_schema None new_world =
      (Inr \<lparr>table_name = ''t'', table_first_page = p, table_schema = sample_schema\<rparr>, w)"
    "simulated w ([''t'' \<mapsto> (sample_schema, {#})], Map.empty)"
    "find_table ''t'' (tx_data w) = Some \<lparr>entry_rid = r, entry_table = \<lparr>table_name = ''t'', table_first_page = p, table_schema = sample_schema\<rparr>\<rparr>"
    "heap_pages (bpm_view (wpool w)) (bpm_pages (wpool w)) p [p]"
    by (rule table_on_new_world)
  have ok: "database_ok w" "represents w [''t'' \<mapsto> (sample_schema, {#})]" using w(2) by (simp_all add: simulated_def)
  have "flimit (dfile (bdisk (wpool w))) = 2 ^ 20" using keepsD [OF limit.create_table_keeps new_world_ok(11) w(1)] .
  moreover have "disk_ok (bdisk (wpool w))" "free_ok (bdisk (wpool w))" using database_poolD(2) [OF ok(1)] by (simp_all add: held_def bpm_inv_def)
  ultimately have "length (free_list (bdisk (wpool w))) < 1025"
    using few_free_pages [of "bdisk (wpool w)"] by (simp add: disk_ok_def kPAGE_SIZE_def)
  then show ?thesis using drop_table_once [OF ok, of "''t''"] w(1,3,4) by fastforce
qed

end
