(* ===== verification/Rendering.thy ===== *)
theory Rendering
  imports Expression Tuple_Codec
begin

text \<open>
  The text of values, rows and schemas: \<open>Value::to_string\<close> (\<open>src/tuple/value.cpp\<close>), \<open>Tuple::to_string\<close>
  (\<open>src/tuple/tuple.cpp\<close>), \<open>Record::to_string\<close> (\<open>include/duck/record/record.hpp\<close>) and
  \<open>Schema::to_string\<close> (\<open>src/tuple/schema.cpp\<close>), with \<open>std::to_string\<close> as C++23 defines it: decimal
  digits for integers, \<open>printf\<close>'s \<open>%f\<close> for doubles. Numbers read back from their text.
\<close>

section \<open>Numbers\<close>

definition digit :: "nat \<Rightarrow> char" where
  "digit d = char_of (48 + d)"

function decimal :: "nat \<Rightarrow> string" where
  "decimal n = (if n < 10 then [digit n] else decimal (n div 10) @ [digit (n mod 10)])"
  by pat_completeness auto
termination
  by (relation "measure id") auto

declare decimal.simps [simp del]

definition signed_decimal :: "int \<Rightarrow> string" where
  "signed_decimal i = (if i < 0 then CHR ''-'' # decimal (nat (- i)) else decimal (nat i))"

text \<open>
  The magnitude of a finite double in units of \<open>2 ^ (-1074)\<close>, the smallest there is, and the number of
  millionths nearest to it, ties to even. A value without a sign bit prints without a sign.
\<close>

definition f64_units :: "f64 \<Rightarrow> nat" where
  "f64_units w = (if f64_exp w = 0 then nat (f64_man w) else nat (2 ^ 52 + f64_man w) * 2 ^ nat (f64_exp w - 1))"

definition f64_negative :: "f64 \<Rightarrow> bool" where
  "f64_negative w \<longleftrightarrow> 2 ^ 63 \<le> uint w"

definition millionths :: "f64 \<Rightarrow> nat" where
  "millionths w =
     (let n = f64_units w * 10 ^ 6; q = n div 2 ^ 1074; r = n mod 2 ^ 1074 in
      if 2 ^ 1073 < r \<or> (r = 2 ^ 1073 \<and> odd q) then q + 1 else q)"

definition six_digits :: "nat \<Rightarrow> string" where
  "six_digits n = map (\<lambda>k. digit (n div 10 ^ k mod 10)) [5, 4, 3, 2, 1, 0]"

definition f64_to_string :: "f64 \<Rightarrow> string" where
  "f64_to_string w = (if f64_negative w then ''-'' else []) @
     (if f64_isnan w then ''nan'' else if f64_exp w = 2047 then ''inf''
      else decimal (millionths w div 10 ^ 6) @ CHR ''.'' # six_digits (millionths w mod 10 ^ 6))"

section \<open>Values, rows and schemas\<close>

definition value_to_string :: "sql_value \<Rightarrow> string res" where
  "value_to_string v =
     (if is_null v then Inr ''null''
      else case vtype v of
        INT64 \<Rightarrow> bind_res (as_int64 v) (\<lambda>w. Inr (signed_decimal (sint w)))
      | UINT64 \<Rightarrow> bind_res (as_uint64 v) (\<lambda>w. Inr (signed_decimal (uint w)))
      | INT32 \<Rightarrow> bind_res (as_int32 v) (\<lambda>w. Inr (signed_decimal (sint w)))
      | UINT32 \<Rightarrow> bind_res (as_uint32 v) (\<lambda>w. Inr (signed_decimal (uint w)))
      | DOUBLE \<Rightarrow> bind_res (as_double v) (\<lambda>w. Inr (f64_to_string w))
      | FLOAT \<Rightarrow> bind_res (as_float v) (\<lambda>w. Inr (f64_to_string (f64_of_f32 w)))
      | BOOL \<Rightarrow> bind_res (as_bool v) (\<lambda>b. Inr (if b then ''true'' else ''false''))
      | STRING \<Rightarrow> as_string v
      | BYTES \<Rightarrow> bind_res (as_bytes v) (\<lambda>b. Inr (''BYTES('' @ decimal (length b) @ '')'')))"

fun barred :: "string list \<Rightarrow> string" where
  "barred [] = []"
| "barred [s] = s"
| "barred (s # t # ss) = s @ '' | '' @ barred (t # ss)"

definition tuple_to_string :: "tuple \<Rightarrow> string res" where
  "tuple_to_string t =
     bind_res (map_res (\<lambda>i. bind_res (tuple_get t i) value_to_string) [0..<length (tschema t)]) (\<lambda>ss. Inr (barred ss))"

definition record_to_string :: "row \<Rightarrow> string res" where
  "record_to_string r = bind_res (map_res value_to_string r) (\<lambda>ss. Inr (concat (map (\<lambda>s. '' | '' @ s) ss)))"

text \<open>A type code without an enumerator adds no text.\<close>

fun column_text :: "type_id \<Rightarrow> 16 word \<Rightarrow> string" where
  "column_text T_INT32 n = ''INT32''"
| "column_text T_UINT32 n = ''UINT32''"
| "column_text T_INT64 n = ''INT64''"
| "column_text T_UINT64 n = ''UINT64''"
| "column_text T_FLOAT n = ''FLOAT''"
| "column_text T_DOUBLE n = ''DOUBLE''"
| "column_text T_BOOL n = ''BOOL''"
| "column_text T_VARCHAR n = ''VARCHAR''"
| "column_text T_VARBINARY n = ''VARBINARY''"
| "column_text T_CHAR n = ''CHAR('' @ decimal (unat n) @ '')''"
| "column_text (Unknown_TypeId c) n = []"

definition schema_to_string :: "schema \<Rightarrow> string" where
  "schema_to_string s = barred (map (\<lambda>c. column_text (col_type c) (col_length c)) s)"

section \<open>Reading numbers back\<close>

fun read_digits :: "nat \<Rightarrow> string \<Rightarrow> nat" where
  "read_digits n [] = n"
| "read_digits n (c # s) = read_digits (10 * n + (of_char c - 48)) s"

definition read_int :: "string \<Rightarrow> int" where
  "read_int s = (case s of c # t \<Rightarrow> if c = CHR ''-'' then - int (read_digits 0 t) else int (read_digits 0 s) | [] \<Rightarrow> 0)"

definition read_millionths :: "string \<Rightarrow> int" where
  "read_millionths s = read_int (filter (\<lambda>c. c \<noteq> CHR ''.'') s)"

lemma digit_value: "d < 10 \<Longrightarrow> of_char (digit d) = 48 + d"
  by (simp add: digit_def of_char_of)

lemma digit_plain:
  assumes "d < 10"
  shows "digit d \<noteq> CHR ''-''" "digit d \<noteq> CHR ''.''"
  using digit_value [OF assms] by auto

lemma read_digits_append: "read_digits n (s @ t) = read_digits (read_digits n s) t"
  by (induction n s rule: read_digits.induct) simp_all

lemma decimal_plain: "set (decimal n) \<subseteq> digit ` {..<10}"
proof (induction n rule: decimal.induct)
  case (1 n)
  then show ?case by (subst decimal.simps) auto
qed

lemma read_decimal: "read_digits 0 (decimal n) = n"
proof (induction n rule: decimal.induct)
  case (1 n)
  show ?case
  proof (cases "n < 10")
    case True
    then show ?thesis by (simp add: decimal.simps [of n] digit_value)
  next
    case False
    then show ?thesis using 1 by (simp add: decimal.simps [of n] read_digits_append digit_value)
  qed
qed

lemma decimal_cons: "\<exists>c s. decimal n = c # s \<and> c \<noteq> CHR ''-''"
proof (cases "decimal n")
  case Nil
  then show ?thesis by (subst (asm) decimal.simps) (simp split: if_splits)
next
  case (Cons c s)
  then show ?thesis using decimal_plain [of n] digit_plain(1) by auto
qed

lemma read_unsigned: "read_int (decimal n @ s) = int (read_digits 0 (decimal n @ s))"
  using decimal_cons [of n] by (auto simp: read_int_def)

lemma read_signed_decimal: "read_int (signed_decimal i) = i"
  using read_unsigned [of "nat i" "[]"] by (simp add: signed_decimal_def read_int_def [of "CHR ''-'' # _"] read_decimal)

lemma no_dots: "set s \<subseteq> digit ` {..<10} \<Longrightarrow> filter (\<lambda>c. c \<noteq> CHR ''.'') s = s"
  by (rule filter_True) (use digit_plain(2) in \<open>force simp: subset_iff image_iff\<close>)

lemma six_digits_plain: "set (six_digits n) \<subseteq> digit ` {..<10}"
  by (auto simp: six_digits_def)

lemma read_six_digits:
  assumes "n < 10 ^ 6"
  shows "read_digits m (six_digits n) = 10 ^ 6 * m + n"
proof -
  have "n div 100 = n div 10 div 10" "n div 1000 = n div 100 div 10" "n div 10000 = n div 1000 div 10" "n div 100000 = n div 10000 div 10"
    by (simp_all add: div_mult2_eq [symmetric])
  then have "10 * (n div 10) + n mod 10 = n" "10 * (n div 100) + n div 10 mod 10 = n div 10" "10 * (n div 1000) + n div 100 mod 10 = n div 100"
    "10 * (n div 10000) + n div 1000 mod 10 = n div 1000" "10 * (n div 100000) + n div 10000 mod 10 = n div 10000"
    by (metis mult_div_mod_eq)+
  moreover have "n div 100000 < 10" using assms by (simp add: less_mult_imp_div_less)
  then have "read_digits m (six_digits n) = 10 ^ 6 * m + (100000 * (n div 100000) + 10000 * (n div 10000 mod 10) + 1000 * (n div 1000 mod 10) +
      100 * (n div 100 mod 10) + 10 * (n div 10 mod 10) + n mod 10)"
    by (simp add: six_digits_def digit_value)
  ultimately show ?thesis by linarith
qed

text \<open>The millionths printed are nearest to the value.\<close>

lemma nearest_even:
  fixes n h :: nat
  assumes "0 < h"
  shows "2 * \<bar>int (if h < n mod (2 * h) \<or> (n mod (2 * h) = h \<and> odd (n div (2 * h))) then n div (2 * h) + 1 else n div (2 * h)) * int (2 * h) - int n\<bar>
    \<le> int (2 * h)"
proof -
  define k r where "k = int (n div (2 * h) * (2 * h))" and "r = n mod (2 * h)"
  have n: "int n = k + int r" unfolding k_def r_def by (simp only: of_nat_add [symmetric] div_mult_mod_eq)
  have r: "r < 2 * h" using assms by (simp add: r_def)
  have up: "int (n div (2 * h) + 1) * int (2 * h) = k + int (2 * h)" and down: "int (n div (2 * h)) * int (2 * h) = k"
    by (simp_all add: k_def distrib_right)
  show ?thesis
  proof (cases "h < n mod (2 * h) \<or> (n mod (2 * h) = h \<and> odd (n div (2 * h)))")
    case True
    then have "h \<le> r" by (auto simp: r_def)
    then show ?thesis unfolding if_P [OF True] up n using r by simp
  next
    case False
    then have "r \<le> h" by (simp add: r_def)
    then show ?thesis unfolding if_not_P [OF False] down n by simp
  qed
qed

lemma millionths_nearest: "2 * \<bar>int (millionths w) * int (2 ^ 1074) - int (f64_units w * 10 ^ 6)\<bar> \<le> int (2 ^ 1074)"
proof -
  have h: "(2::nat) ^ 1074 = 2 * 2 ^ 1073" by (simp only: power_Suc [symmetric] eval_nat_numeral BitM.simps)
  have "0 < (2::nat) ^ 1073" by (rule zero_less_power) simp
  from nearest_even [OF this] show ?thesis unfolding millionths_def Let_def h .
qed

lemma read_f64:
  assumes "f64_exp w \<noteq> 2047"
  shows "read_millionths (f64_to_string w) = (if f64_negative w then - int (millionths w) else int (millionths w))"
proof -
  let ?m = "millionths w"
  let ?d = "decimal (?m div 10 ^ 6) @ six_digits (?m mod 10 ^ 6)"
  have f: "filter (\<lambda>c. c \<noteq> CHR ''.'') (f64_to_string w) = (if f64_negative w then ''-'' else []) @ ?d"
    using assms no_dots [OF decimal_plain] no_dots [OF six_digits_plain] by (simp add: f64_to_string_def f64_isnan_def)
  have "read_digits 0 ?d = ?m" by (simp add: read_digits_append read_decimal read_six_digits)
  then show ?thesis
    using read_unsigned [of "?m div 10 ^ 6" "six_digits (?m mod 10 ^ 6)"] unfolding read_millionths_def f by (simp add: read_int_def [of "CHR ''-'' # _"])
qed

text \<open>The exact value of a finite number of the code, in millionths of \<open>2 ^ (-1074)\<close>.\<close>

definition exact_value :: "f64 \<Rightarrow> int" where
  "exact_value w = (if f64_negative w then - int (f64_units w * 10 ^ 6) else int (f64_units w * 10 ^ 6))"

definition read_nearest :: "string \<Rightarrow> f64 \<Rightarrow> bool" where
  "read_nearest s w \<longleftrightarrow> 2 * \<bar>read_millionths s * int (2 ^ 1074) - exact_value w\<bar> \<le> int (2 ^ 1074)"

lemma f64_read_nearest: "f64_exp w \<noteq> 2047 \<Longrightarrow> read_nearest (f64_to_string w) w"
proof -
  assume "f64_exp w \<noteq> 2047"
  then have r: "read_millionths (f64_to_string w) = (if f64_negative w then - int (millionths w) else int (millionths w))" by (rule read_f64)
  have "\<bar>- a * k - (- b)\<bar> = \<bar>a * k - b\<bar>" for a k b :: int by (simp add: abs_if)
  then show ?thesis using millionths_nearest [of w] unfolding read_nearest_def exact_value_def r by (cases "f64_negative w") (simp_all only: if_True if_False)
qed

text \<open>
  C34: The text of a number is the number. Every value that is not null has a text. An integer of any
  width and sign reads back exactly from it; a finite double or float reads back as the multiple of
  0.000001 nearest to it. Strings are their own text.
\<close>

theorem rendered_values_read_back:
  assumes "wf_value v" and "\<not> is_null v"
  shows "\<exists>s. value_to_string v = Inr s \<and>
    (is_integral v \<longrightarrow> read_int s = int_value v) \<and>
    (is_floating v \<and> f64_exp (double_value v) \<noteq> 2047 \<longrightarrow> read_nearest s (double_value v)) \<and>
    (vtype v = STRING \<longrightarrow> vdata v = V_string s)"
  using assms
  by (cases "vdata v") (auto simp: wf_value_def value_to_string_def as_defs get_defs is_integral_def is_floating_def int_value_def
      double_value_def read_signed_decimal f64_read_nearest)

theorem rendered_values_read_back_witness:
  "value_to_string (of_int64 (- 5212)) = Inr ''-5212'' \<and> read_int ''-5212'' = - 5212"
proof -
  have v: "wf_value (of_int64 (- 5212))" "\<not> is_null (of_int64 (- 5212))" "is_integral (of_int64 (- 5212))" "int_value (of_int64 (- 5212)) = - 5212"
    by (simp_all add: of_int64_def wf_value_def is_integral_def int_value_def)
  have "value_to_string (of_int64 (- 5212)) = Inr ''-5212''"
    by (simp add: value_to_string_def of_int64_def as_defs get_defs signed_decimal_def decimal.simps digit_def char_of_def bit_0)
  then show ?thesis using rendered_values_read_back [OF v(1,2)] v(3,4) by auto
qed

end
