(* ===== verification/Demo.thy ===== *)
theory Demo
  imports Query Rendering
begin

text \<open>
  The demo program (\<open>src/main.cpp\<close>): it opens the database, begins a transaction, joins two tables in a
  query and prints the rows of the result. The console is the list of the lines printed. The expression
  \<open>b_expr\<close> and the tuples are built and not used. The inserts are commented out in the code.
\<close>

section \<open>What is printed\<close>

record console =
  con_world :: world
  printed :: "string list"

definition on_world :: "(world, 'a) proc \<Rightarrow> (console, 'a) proc" where
  "on_world = zoom con_world (\<lambda>w c. c\<lparr>con_world := w\<rparr>)"

definition println :: "string \<Rightarrow> (console, unit) proc" where
  "println s = modify (\<lambda>c. c\<lparr>printed := printed c @ [s]\<rparr>)"

section \<open>Schemas, tuples and the query\<close>

definition user_schema :: schema where
  "user_schema =
     [\<lparr>col_name = ''id'', col_type = T_UINT64, col_length = 0\<rparr>, \<lparr>col_name = ''username'', col_type = T_VARCHAR, col_length = 0\<rparr>,
      \<lparr>col_name = ''password'', col_type = T_VARCHAR, col_length = 64\<rparr>]"

definition payments_schema :: schema where
  "payments_schema =
     [\<lparr>col_name = ''id'', col_type = T_UINT64, col_length = 0\<rparr>, \<lparr>col_name = ''user_id'', col_type = T_UINT64, col_length = 0\<rparr>,
      \<lparr>col_name = ''amount'', col_type = T_INT64, col_length = 0\<rparr>]"

definition demo_tuples :: "tuple list res" where
  "demo_tuples = map_res (\<lambda>(vs, s). tuple_make vs s)
     [([of_uint64 1, of_string ''nikola'', of_string ''12345678!''], user_schema),
      ([of_uint64 2, of_string ''sava'', of_string ''321123''], user_schema),
      ([of_uint64 3, of_string ''anastasija'', of_string ''malakuca''], user_schema),
      ([of_uint64 1, of_uint64 2, of_int64 (- 5212)], payments_schema),
      ([of_uint64 2, of_uint64 2, of_int64 948], payments_schema),
      ([of_uint64 3, of_uint64 1, of_int64 (- 465)], payments_schema),
      ([of_uint64 4, of_uint64 3, of_int64 312], payments_schema)]"

definition column_of :: "string \<Rightarrow> string \<Rightarrow> unbound_expression" where
  "column_of q c = UnboundColumnExpression \<lparr>cr_qualifier = Some q, cr_name = c\<rparr>"

definition demo_on :: unbound_expression where
  "demo_on = UnboundComparisonExpression (column_of ''u'' ''id'') EQUAL (column_of ''p'' ''user_id'')"

definition demo_where :: unbound_expression where
  "demo_where = UnboundComparisonExpression (column_of ''p'' ''amount'') GREATER (UnboundConstantExpression (of_int32 (- 3000)))"

definition demo_query :: select_query where
  "demo_query =
     query_limit 3
       (query_where demo_where
         (query_join \<lparr>jc_table = \<lparr>tr_name = ''payments'', tr_alias = Some ''p''\<rparr>, jc_on = demo_on, jc_type = INNER\<rparr>
           (query_from \<lparr>tr_name = ''users'', tr_alias = Some ''u''\<rparr>
             (query_columns [\<lparr>cr_qualifier = None, cr_name = ''*''\<rparr>] empty_query))))"

section \<open>The program\<close>

text \<open>\<open>while (auto entry = result.next())\<close>, then the destructor of the result.\<close>

fun print_entries :: "nat \<Rightarrow> nat \<Rightarrow> oper \<Rightarrow> (console, unit) proc" where
  "print_entries k 0 root = throw Out_of_fuel"
| "print_entries k (Suc n) root = and_then (on_world (query_result_next k root)) (\<lambda>(m, root). case m of
       None \<Rightarrow> on_world (op_close root)
     | Some entry \<Rightarrow> and_then (lift (record_to_string entry)) (\<lambda>s. and_then (println (''Entry: '' @ s)) (\<lambda>_. print_entries k n root)))"

definition demo_session :: "nat \<Rightarrow> nat \<Rightarrow> (console, unit) proc" where
  "demo_session k n =
     and_then (on_world begin_tx) (\<lambda>tx.
     and_then (lift demo_tuples) (\<lambda>_.
     and_then (on_world (engine_execute demo_query (Some tx))) (\<lambda>(root, q).
     and_then (println (''Schema: '' @ schema_to_string (query_result_schema root))) (\<lambda>_.
     print_entries k n root))))"

text \<open>The destructor of \<open>Database\<close>: the pool is flushed and the file closed. An exception there ends the program.\<close>

definition close_database :: "bpm \<Rightarrow> os_file option res" where
  "close_database b = (case bpm_flush_all b of (Inl e, _) \<Rightarrow> Inl e | (Inr _, b) \<Rightarrow> Inr (Some (disk_close (bdisk b))))"

text \<open>
  \<open>e.what()\<close>; the texts of the exceptions of the standard library are a parameter. A failed assertion and
  undefined behaviour are not exceptions: they end the program.
\<close>

fun exn_text :: "(exn \<Rightarrow> string) \<Rightarrow> exn \<Rightarrow> string" where
  "exn_text lib (Runtime_error s) = s"
| "exn_text lib (Invalid_argument s) = s"
| "exn_text lib e = lib e"

fun caught :: "exn \<Rightarrow> bool" where
  "caught (Assert_failed s) = False"
| "caught Undefined = False"
| "caught Out_of_fuel = False"
| "caught e = True"

text \<open>The end of the \<open>try\<close> block: the objects in it are destroyed, leaving \<open>f\<close>, then the handler runs.\<close>

definition end_try :: "(exn \<Rightarrow> string) \<Rightarrow> unit res \<Rightarrow> string list \<Rightarrow> os_file option res \<Rightarrow> string list \<times> os_file option res" where
  "end_try lib r out f = (case r of
       Inr _ \<Rightarrow> (out, f)
     | Inl e \<Rightarrow>
         if \<not> caught e then (out, Inl e)
         else (case f of
             Inl e' \<Rightarrow> (out, Inl e')
           | Inr f \<Rightarrow> (out @ [''Exception: '' @ exn_text lib e], Inr f)))"

text \<open>The lines printed, and the file left or what ended the program. The message of a file that cannot be opened
  ends in its path in the code.\<close>

definition demo_main :: "(exn \<Rightarrow> string) \<Rightarrow> nat \<Rightarrow> nat \<Rightarrow> os_file option \<Rightarrow> string list \<times> os_file option res" where
  "demo_main lib k n f = (case disk_open f of
       Inl e \<Rightarrow> end_try lib (Inl e) [] (Inr f)
     | Inr d \<Rightarrow> (case database_open (bpm_object d 128) of
           (Inl e, b) \<Rightarrow> end_try lib (Inl e) [] (close_database b)
         | (Inr w, _) \<Rightarrow> (case demo_session k n \<lparr>con_world = w, printed = []\<rparr> of
               (r, c) \<Rightarrow> end_try lib r (printed c) (close_database (pool (tx_data (con_world c)))))))"

end
