(* ===== verification/Demo_Properties.thy ===== *)
theory Demo_Properties
  imports Demo Database_Properties
begin

text \<open>
  What the demo program prints: the join of its two tables, and an exception when a table is missing.
\<close>

section \<open>Printing a result\<close>

lemma wf_value_text: "wf_value v \<Longrightarrow> \<exists>s. value_to_string v = Inr s"
  by (cases "vdata v"; cases "is_null v") (auto simp: wf_value_def value_to_string_def as_defs get_defs)

lemma typed_rows_text: "\<forall>r\<in>set rows. row_of_type ts r \<Longrightarrow> \<exists>ss. map_res record_to_string rows = Inr ss"
proof -
  have one: "\<exists>ss. map_res value_to_string r = Inr ss" if "list_all2 (\<lambda>t v. wf_value v \<and> vtype v = t) us r" for us r
    using that by (induction rule: list_all2_induct) (auto dest: wf_value_text)
  show "\<forall>r\<in>set rows. row_of_type ts r \<Longrightarrow> ?thesis"
    by (induction rows) (use one in \<open>fastforce simp: row_of_type_def record_to_string_def\<close>)+
qed

lemma print_entries_rows:
  "query_rows k n root w = (Inr rows, w') \<Longrightarrow> map_res record_to_string rows = Inr ss \<Longrightarrow>
   print_entries k n root \<lparr>con_world = w, printed = out\<rparr> = (Inr (), \<lparr>con_world = w', printed = out @ map ((@) ''Entry: '') ss\<rparr>)"
proof (induction n arbitrary: root w rows ss out)
  case (Suc n)
  let ?c = "\<lparr>con_world = w, printed = out\<rparr>"
  from Suc.prems(1) obtain m root' w1 where x: "query_result_next k root w = (Inr (m, root'), w1)"
    and rest: "(case m of None \<Rightarrow> and_then (op_close root') (\<lambda>_. ret []) | Some r \<Rightarrow> and_then (query_rows k n root') (\<lambda>rs. ret (r # rs))) w1 = (Inr rows, w')"
    by (auto simp: and_then_eq_Inr)
  have x': "on_world (query_result_next k root) ?c = (Inr (m, root'), \<lparr>con_world = w1, printed = out\<rparr>)"
    by (simp add: on_world_def zoom_def x)
  show ?case
  proof (cases m)
    case None
    then have c: "op_close root' w1 = (Inr (), w')" "rows = []" using rest by (auto simp: and_then_eq_Inr)
    then have "on_world (op_close root') \<lparr>con_world = w1, printed = out\<rparr> = (Inr (), \<lparr>con_world = w', printed = out\<rparr>)" by (simp add: on_world_def zoom_def)
    then show ?thesis using None c(2) Suc.prems(2) by (simp add: and_then_Inr [of "on_world _" ?c, OF x'])
  next
    case (Some r)
    then obtain rs where rs: "query_rows k n root' w1 = (Inr rs, w')" "rows = r # rs" using rest by (auto simp: and_then_eq_Inr)
    then obtain s ts where s: "record_to_string r = Inr s" "map_res record_to_string rs = Inr ts" "ss = s # ts"
      using Suc.prems(2) by (auto simp: bind_res_eq_Inr)
    show ?thesis using Suc.IH [OF rs(1) s(2)] by (simp add: and_then_Inr [of "on_world _" ?c, OF x'] Some s println_def)
  qed
qed simp

section \<open>The query of the demo\<close>

lemma lookup_table_run:
  assumes "named_table w name tb" and "lockable tx w"
  shows "\<exists>l. lookup_table what name tx w = (Inr tb, w\<lparr>locks := l\<rparr>) \<and> lockable tx (w\<lparr>locks := l\<rparr>)"
proof -
  obtain e where e: "find_table name (tx_data w) = Some e" "entry_table e = tb" using assms(1) by (auto simp: named_table_def)
  obtain l where l: "tx_lock lock_shared tx (entry_rid e) w = (Inr True, w\<lparr>locks := l\<rparr>)" "lockable tx (w\<lparr>locks := l\<rparr>)"
    using tx_lock_shared_ok [OF assms(2)] by blast
  have "get_table name tx w = (Inr (Some tb), w\<lparr>locks := l\<rparr>)"
    using e by (simp add: get_table_def Let_def and_then_Inr [of "tx_lock lock_shared tx (entry_rid e)" w, OF l(1)])
  then show ?thesis using l(2) by (auto simp: lookup_table_def and_then_Inr [of "get_table name tx" w])
qed

definition demo_plan :: "table \<Rightarrow> table \<Rightarrow> logical_plan" where
  "demo_plan tu tp = LogicalLimit (LogicalFilterPlan
     (LogicalJoin (LogicalScan tu) (LogicalScan tp) (ComparisonExpression (ColumnExpression 0) EQUAL (ColumnExpression 4)) (user_schema @ payments_schema))
     (ComparisonExpression (ColumnExpression 5) GREATER (ConstantExpression (of_int32 (- 3000))))) 3"

lemma demo_query_binds:
  assumes u: "named_table w ''users'' tu" "table_schema tu = user_schema" and p: "named_table w ''payments'' tp" "table_schema tp = payments_schema"
    and l: "lockable tx w"
  shows "\<exists>w'. bind_query demo_query tx w = (Inr (demo_plan tu tp, query_taken demo_query), w')"
proof -
  have q: "sq_table demo_query = Some \<lparr>tr_name = ''users'', tr_alias = Some ''u''\<rparr>" "sq_columns demo_query = None" "sq_limit demo_query = Some 3"
    "sq_joins demo_query = [\<lparr>jc_table = \<lparr>tr_name = ''payments'', tr_alias = Some ''p''\<rparr>, jc_on = demo_on, jc_type = INNER\<rparr>]"
    "sq_predicate demo_query = demo_where"
    by (simp_all add: demo_query_def query_limit_def query_where_def query_join_def query_from_def query_columns_def empty_query_def)
  obtain l1 where l1: "lookup_table ''Binder::bind: table '' ''users'' tx w = (Inr tu, w\<lparr>locks := l1\<rparr>)" "lockable tx (w\<lparr>locks := l1\<rparr>)"
    using lookup_table_run [OF u(1) l] by blast
  have "named_table (w\<lparr>locks := l1\<rparr>) ''payments'' tp" using p(1) by (simp add: named_table_def)
  from lookup_table_run [OF this l1(2)] obtain w2 where
    l2: "lookup_table ''Binder::bind: join table '' ''payments'' tx (w\<lparr>locks := l1\<rparr>) = (Inr tp, w2)" by blast
  let ?ctx = "[\<lparr>tb_name = ''u'', tb_schema = user_schema, tb_offset = 0\<rparr>, \<lparr>tb_name = ''p'', tb_schema = payments_schema, tb_offset = 3\<rparr>]"
  have e: "bind_expression demo_on ?ctx = Inr (ComparisonExpression (ColumnExpression 0) EQUAL (ColumnExpression 4))"
    "bind_expression demo_where ?ctx = Inr (ComparisonExpression (ColumnExpression 5) GREATER (ConstantExpression (of_int32 (- 3000))))"
    by (simp_all add: demo_on_def demo_where_def column_of_def resolve_column_def user_schema_def payments_schema_def column_index_def)
  have n: "length user_schema = 3" "user_schema \<noteq> []" by (simp_all add: user_schema_def)
  let ?start = "(LogicalScan tu, [\<lparr>tb_name = ''u'', tb_schema = user_schema, tb_offset = 0\<rparr>])"
  let ?join = "LogicalJoin (LogicalScan tu) (LogicalScan tp) (ComparisonExpression (ColumnExpression 0) EQUAL (ColumnExpression 4)) (user_schema @ payments_schema)"
  have j: "bind_joins (sq_joins demo_query) tx ?start (w\<lparr>locks := l1\<rparr>) = (Inr (?join, ?ctx), w2)"
    using e(1) n by (simp add: q(4) and_then_Inr [of "lookup_table _ _ _" "w\<lparr>locks := l1\<rparr>", OF l2] Let_def ref_name_def u(2) p(2) logical_join_def
        schema_plus_def schema_make_def)
  have w: "demo_where \<noteq> UnboundNull" by (simp add: demo_where_def)
  show ?thesis
    by (intro exI [of _ w2])
       (simp add: bind_query_def q(1-3,5) ref_name_def and_then_Inr [of "lookup_table _ _ _" w, OF l1(1)] u(2)
        and_then_Inr [of "bind_joins _ _ _" "w\<lparr>locks := l1\<rparr>", OF j] w e(2) bind_filter_def bind_projection_def demo_plan_def)
qed

section \<open>The rows that match\<close>

definition demo_match :: "row \<Rightarrow> bool" where
  "demo_match r \<longleftrightarrow> (\<exists>i m. r ! 0 = of_uint64 i \<and> r ! 4 = of_uint64 i \<and> r ! 5 = of_int64 m \<and> - 3000 < sint m)"

lemma holds_comparison:
  assumes "evaluate l rec = Inr a" and "evaluate r rec = Inr b" and "wf_value a" and "wf_value b"
  shows "holds (ComparisonExpression l op r) rec \<longleftrightarrow> comparison_value op (compare_ref a b) = of_boolean True"
  using assms by (cases op) (auto simp: holds_def predicate_holds_def compare_wf comparison_value_def of_value_defs null_value_def as_defs get_defs)

lemma typed_integers:
  "wf_value v \<Longrightarrow> vtype v = UINT64 \<Longrightarrow> v = null_value UINT64 \<or> (\<exists>i. v = of_uint64 i)"
  "wf_value v \<Longrightarrow> vtype v = INT64 \<Longrightarrow> v = null_value INT64 \<or> (\<exists>i. v = of_int64 i)"
  by (cases v; cases "vdata v"; auto simp: wf_value_def null_value_def of_value_defs split: if_splits)+

lemmas compare_ref_defs = compare_ref_def comparison_value_def of_value_defs null_value_def is_numeric_def is_integral_def is_floating_def
  int_value_def compare_generic_def

lemma equal_uint64:
  assumes "wf_value a" "vtype a = UINT64" and "wf_value b" "vtype b = UINT64"
  shows "comparison_value EQUAL (compare_ref a b) = of_boolean True \<longleftrightarrow> (\<exists>i. a = of_uint64 i \<and> b = of_uint64 i)"
  using typed_integers(1) [OF assms(1,2)] typed_integers(1) [OF assms(3,4)] by (elim disjE exE) (auto simp: compare_ref_defs word_uint_eq_iff)

lemma greater_int64:
  assumes "wf_value a" "vtype a = INT64"
  shows "comparison_value GREATER (compare_ref a (of_int32 (- 3000))) = of_boolean True \<longleftrightarrow> (\<exists>m. a = of_int64 m \<and> - 3000 < sint m)"
  using typed_integers(2) [OF assms] by (elim disjE exE) (simp_all add: compare_ref_defs)

lemma demo_holds:
  assumes "row_of_schema (user_schema @ payments_schema) r"
  shows "holds (ComparisonExpression (ColumnExpression 0) EQUAL (ColumnExpression 4)) r \<and>
    holds (ComparisonExpression (ColumnExpression 5) GREATER (ConstantExpression (of_int32 (- 3000)))) r \<longleftrightarrow> demo_match r"
proof -
  note a = assms [unfolded row_of_type_def]
  have n: "length r = 6" "r \<noteq> []" using list_all2_lengthD [OF a] by (auto simp: user_schema_def payments_schema_def)
  have r: "length r = 6" "wf_value (r ! 0)" "vtype (r ! 0) = UINT64" "wf_value (r ! 4)" "vtype (r ! 4) = UINT64" "wf_value (r ! 5)" "vtype (r ! 5) = INT64"
    using n list_all2_nthD2 [OF a, of 0] list_all2_nthD2 [OF a, of 4] list_all2_nthD2 [OF a, of 5]
    by (auto simp: user_schema_def payments_schema_def column_type_def)
  have e: "evaluate (ColumnExpression 0) r = Inr (r ! 0)" "evaluate (ColumnExpression 4) r = Inr (r ! 4)" "evaluate (ColumnExpression 5) r = Inr (r ! 5)"
    using n by (simp_all add: record_get_def)
  have c: "evaluate (ConstantExpression v) r = Inr v" for v by simp
  show ?thesis
    unfolding holds_comparison [OF e(1,2) r(2,4)] holds_comparison [OF e(3) c r(6) wf_factories(4)]
      equal_uint64 [OF r(2-5)] greater_int64 [OF r(6,7)] demo_match_def by blast
qed

lemma demo_tuples_made: "\<exists>ts. demo_tuples = Inr ts"
  by (simp add: demo_tuples_def tuple_make_def user_schema_def payments_schema_def of_value_defs)

lemma length_join_rows: "length (join_rows e ls rs) \<le> length ls * length rs"
proof -
  have "length (join_rows e ls rs) = length (filter (holds e) (concat (map (\<lambda>l. map (record_plus l) rs) ls)))"
    using mset_join_rows [of e ls rs] by (rule mset_eq_length)
  also have "\<dots> \<le> length (concat (map (\<lambda>l. map (record_plus l) rs) ls))" by (rule length_filter_le)
  also have "\<dots> = length ls * length rs" by (induction ls) simp_all
  finally show ?thesis .
qed

section \<open>The program on its tables\<close>

definition demo_header :: string where
  "demo_header = ''Schema: UINT64 | VARCHAR | VARCHAR | UINT64 | UINT64 | INT64''"

lemma begin_lockable:
  assumes "held {} {#} (wpool w)" and "0 < pool_capacity (wpool w)" and "\<forall>r. can_grant (lock_table (locks w) r) (next_tx_id w) SHARED"
  obtains w1 where "begin_tx w = (Inr (next_tx_id w), w1)" "tx_data w1 = tx_data w" "world_ok (Some (next_tx_id w)) {#} w1"
proof -
  obtain w1 where w1: "tm_begin w = (next_tx_id w, w1)" "tx_data w1 = tx_data w" "txs (locks w1) (next_tx_id w) = Some tx_object"
    "lock_table (locks w1) = lock_table (locks w)"
    by (simp add: tm_begin_def Let_def)
  then show thesis using that [of w1] assms by (simp add: begin_tx_def world_ok_def lockable_def tx_object_def)
qed

lemma demo_plan_ok:
  assumes "table_schema tu = user_schema" and "table_schema tp = payments_schema"
    and "\<forall>r\<in>set us. row_of_schema user_schema r" and "\<forall>r\<in>set ps. row_of_schema payments_schema r"
  defines "R \<equiv> (\<lambda>tb. if tb = tu then us else ps)" and "M \<equiv> filter_mset demo_match (product (mset us) (mset ps))"
  shows "plan_typed (demo_plan tu tp)" "tables_typed R (demo_plan tu tp)" "mset (plan_rows R (demo_plan tu tp)) \<subseteq># M"
    "length (plan_rows R (demo_plan tu tp)) = min 3 (size M)" "plan_fuel R (demo_plan tu tp) \<le> Suc (length us * Suc (length ps * Suc kBLOCK_SIZE))"
proof -
  let ?e = "ComparisonExpression (ColumnExpression 0) EQUAL (ColumnExpression 4)"
    and ?f = "ComparisonExpression (ColumnExpression 5) GREATER (ConstantExpression (of_int32 (- 3000)))"
  have ne: "tp \<noteq> tu" using assms(1,2) by (auto simp: user_schema_def payments_schema_def)
  have R: "R tu = us" "R tp = ps" using ne by (simp_all add: R_def)
  show "plan_typed (demo_plan tu tp)"
    by (simp add: demo_plan_def assms(1,2)) (simp add: user_schema_def payments_schema_def column_type_def of_value_defs wf_value_def)
  show "tables_typed R (demo_plan tu tp)" using assms(1-4) by (simp add: tables_typed_def demo_plan_def R)
  let ?rows = "filter (holds ?f) (join_rows ?e us ps)"
  have rows: "plan_rows R (demo_plan tu tp) = take 3 ?rows" by (simp add: demo_plan_def R)
  have typed: "row_of_schema (user_schema @ payments_schema) r" if "r \<in># product (mset us) (mset ps)" for r
    using that assms(3,4) row_of_schema_append by (force simp: product_def)
  have "mset ?rows = filter_mset (holds ?f) (filter_mset (holds ?e) (product (mset us) (mset ps)))"
    by (simp add: mset_join_rows mset_product)
  also have "\<dots> = M" unfolding M_def filter_filter_mset by (rule filter_mset_cong) (use demo_holds [OF typed] in blast)+
  finally have m: "mset ?rows = M" .
  have "mset (take 3 ?rows) \<subseteq># mset ?rows" by (metis append_take_drop_id mset_append mset_subset_eq_add_left)
  then show "mset (plan_rows R (demo_plan tu tp)) \<subseteq># M" by (simp only: rows m)
  have "length ?rows = size M" by (simp only: m [symmetric] size_mset)
  then show "length (plan_rows R (demo_plan tu tp)) = min 3 (size M)" by (simp add: rows)
  have "length us * length ps \<le> length us * Suc (length ps * Suc kBLOCK_SIZE)" by (rule mult_le_mono2) simp
  then have "length (join_rows ?e us ps) \<le> length us * Suc (length ps * Suc kBLOCK_SIZE)" using length_join_rows [of ?e us ps] by (rule le_trans [rotated])
  then show "plan_fuel R (demo_plan tu tp) \<le> Suc (length us * Suc (length ps * Suc kBLOCK_SIZE))" by (simp add: demo_plan_def R)
qed

text \<open>The run, also used for the whole program below.\<close>

lemma demo_session_run:
  assumes u: "named_table w ''users'' tu" "table_schema tu = user_schema" "table_rows (wpool w) tu us" "\<forall>r\<in>set us. row_of_schema user_schema r"
    and p: "named_table w ''payments'' tp" "table_schema tp = payments_schema" "table_rows (wpool w) tp ps" "\<forall>r\<in>set ps. row_of_schema payments_schema r"
    and w: "held {} {#} (wpool w)" "2 < pool_capacity (wpool w)" "\<forall>r. can_grant (lock_table (locks w) r) (next_tx_id w) SHARED"
    and k: "length us * Suc (length ps * Suc kBLOCK_SIZE) < k" and n: "3 < n"
  shows "\<exists>rows ss w'. demo_session k n \<lparr>con_world = w, printed = []\<rparr> =
      (Inr (), \<lparr>con_world = w', printed = demo_header # map ((@) ''Entry: '') ss\<rparr>) \<and>
    map_res record_to_string rows = Inr ss \<and> mset rows \<subseteq># filter_mset demo_match (product (mset us) (mset ps)) \<and>
    length rows = min 3 (size (filter_mset demo_match (product (mset us) (mset ps)))) \<and> held {} {#} (wpool w') \<and> world_kept {#} w w' \<and>
    (sound_world w \<longrightarrow> sound_world w')"
proof -
  define R where "R = (\<lambda>tb. if tb = tu then us else ps)"
  let ?p = "demo_plan tu tp" and ?c = "\<lparr>con_world = w, printed = []\<rparr>"
  note P = demo_plan_ok [OF u(2) p(2) u(4) p(4), folded R_def]
  have cap: "0 < pool_capacity (wpool w)" using w(2) by simp
  obtain w1 where w1: "begin_tx w = (Inr (next_tx_id w), w1)" "tx_data w1 = tx_data w" "world_ok (Some (next_tx_id w)) {#} w1"
    by (rule begin_lockable [OF w(1) cap w(3)])
  let ?tx = "Some (next_tx_id w)"
  have named: "named_table w1 ''users'' tu" "named_table w1 ''payments'' tp" "lockable ?tx w1"
    using u(1) p(1) w1(2,3) by (simp_all add: named_table_def world_ok_def)
  obtain w2 where b: "bind_query demo_query ?tx w1 = (Inr (?p, query_taken demo_query), w2)"
    using demo_query_binds [OF named(1) u(2) named(2) p(2) named(3)] by blast
  have ne: "tp \<noteq> tu" using u(2) p(2) by (auto simp: user_schema_def payments_schema_def)
  have rows: "\<forall>tb\<in>set (plan_tables ?p). table_rows (wpool w1) tb (R tb)" using u(3) p(3) ne by (simp add: demo_plan_def R_def w1(2))
  have "length (query_tables demo_query) = 2"
    by (simp add: query_tables_def demo_query_def query_limit_def query_where_def query_join_def query_from_def query_columns_def empty_query_def)
  then have room: "size {#} + length (query_tables demo_query) < pool_capacity (wpool w1)" using w(2) by (simp add: w1(2))
  have fuel: "plan_fuel R ?p \<le> k" "length (plan_rows R ?p) < n" using P(4,5) k n by linarith+
  obtain root w3 w' where e: "engine_execute demo_query ?tx w1 = (Inr (root, query_taken demo_query), w3)" "query_result_schema root = logical_schema ?p"
    "query_rows k n root w3 = (Inr (plan_rows R ?p), w')" "world_ok ?tx {#} w'" "world_kept {#} w1 w'"
    by (rule engine_plan_rows [OF b P(1,2) rows w1(3) room fuel])
  obtain ss where ss: "map_res record_to_string (plan_rows R ?p) = Inr ss" using typed_rows_text plan_rows_typed [OF P(1,2)] by blast
  obtain ts where ts: "demo_tuples = Inr ts" using demo_tuples_made by blast
  have c: "on_world begin_tx ?c = (Inr (next_tx_id w), \<lparr>con_world = w1, printed = []\<rparr>)"
    "on_world (engine_execute demo_query ?tx) \<lparr>con_world = w1, printed = []\<rparr> = (Inr (root, query_taken demo_query), \<lparr>con_world = w3, printed = []\<rparr>)"
    by (simp_all add: on_world_def zoom_def w1(1) e(1))
  have "''Schema: '' @ schema_to_string (query_result_schema root) = demo_header"
    by (simp add: e(2) demo_plan_def demo_header_def schema_to_string_def user_schema_def payments_schema_def)
  then have "demo_session k n ?c = (Inr (), \<lparr>con_world = w', printed = demo_header # map ((@) ''Entry: '') ss\<rparr>)"
    using print_entries_rows [OF e(3) ss] by (simp add: demo_session_def and_then_Inr [of "on_world begin_tx" ?c, OF c(1)] ts println_def
        and_then_Inr [of "on_world (engine_execute demo_query ?tx)" "\<lparr>con_world = w1, printed = []\<rparr>", OF c(2)])
  moreover have "held {} {#} (wpool w')" "world_kept {#} w w'" using e(4,5) w1(2) by (simp_all add: world_ok_def world_kept_def)
  moreover have "sound_world w'" if "sound_world w"
    using keepsD [OF query_sound.query_rows_keeps keepsD [OF query_sound.engine_keeps _ e(1)] e(3)] that w1(2) by simp
  ultimately show ?thesis using ss P(3,4) by blast
qed

text \<open>
  C13: The demo prints the join it asks for. On a database with the tables \<open>users\<close> and \<open>payments\<close> of its
  schemas, three free frames and no exclusive lock, the session ends without an exception; the first line
  names the six column types, then comes a line for each of at most three rows: pairs of a user and one of
  the user's payments above -3000, three of them if there are as many. The database is unchanged.
\<close>

theorem demo_prints_join:
  assumes "named_table w ''users'' tu" "table_schema tu = user_schema" "table_rows (wpool w) tu us" "\<forall>r\<in>set us. row_of_schema user_schema r"
    and "named_table w ''payments'' tp" "table_schema tp = payments_schema" "table_rows (wpool w) tp ps" "\<forall>r\<in>set ps. row_of_schema payments_schema r"
    and "held {} {#} (wpool w)" "2 < pool_capacity (wpool w)" "\<forall>r. can_grant (lock_table (locks w) r) (next_tx_id w) SHARED"
    and "length us * Suc (length ps * Suc kBLOCK_SIZE) < k" and "3 < n"
  shows "\<exists>rows ss w'. demo_session k n \<lparr>con_world = w, printed = []\<rparr> =
      (Inr (), \<lparr>con_world = w', printed = demo_header # map ((@) ''Entry: '') ss\<rparr>) \<and>
    map_res record_to_string rows = Inr ss \<and> mset rows \<subseteq># filter_mset demo_match (product (mset us) (mset ps)) \<and>
    length rows = min 3 (size (filter_mset demo_match (product (mset us) (mset ps)))) \<and> held {} {#} (wpool w') \<and> world_kept {#} w w'"
  using demo_session_run [OF assms] by blast

text \<open>A user and one payment of that user.\<close>

lemma inserted_table_row:
  assumes i: "inserted P b p [p] (row_bytes s vs) r qs e" and v: "bpm_view b p = sp_init zero_page"
    and st: "list_all2 storable s vs" "length (row_bytes s vs) < 2 ^ 16"
  shows "table_rows e \<lparr>table_name = name, table_first_page = p, table_schema = s\<rparr> [vs]"
  using tuple_deserialize_row [OF st] i inserted_only_row [OF i v] by (auto simp: table_rows_def inserted_def decodes_to_def)

abbreviation demo_user :: row where
  "demo_user \<equiv> [of_uint64 1, of_string ''nikola'', of_string ''12345678!'']"

abbreviation demo_payment :: row where
  "demo_payment \<equiv> [of_uint64 3, of_uint64 1, of_int64 (- 465)]"

lemma demo_rows_ok:
  "list_all2 storable user_schema demo_user" "length (row_bytes user_schema demo_user) \<le> 8180" "row_of_schema user_schema demo_user"
  "list_all2 storable payments_schema demo_payment" "length (row_bytes payments_schema demo_payment) \<le> 8180"
  "row_of_schema payments_schema demo_payment" "demo_match (demo_user @ demo_payment)"
  "record_to_string (demo_user @ demo_payment) = Inr '' | 1 | nikola | 12345678! | 3 | 1 | -465''"
proof -
  show "demo_match (demo_user @ demo_payment)" by (simp add: demo_match_def of_value_defs)
  show "record_to_string (demo_user @ demo_payment) = Inr '' | 1 | nikola | 12345678! | 3 | 1 | -465''"
    by (simp add: record_to_string_def value_to_string_def of_value_defs as_defs get_defs signed_decimal_def decimal.simps digit_def char_of_def bit_0)
qed (simp_all add: user_schema_def payments_schema_def storable_def of_value_defs wf_value_def strip_nul_def row_bytes_def
    row_fields_def field_bytes_def payload_def bitmap_size_def is_fixed_size_def bitmap_set_null_def row_of_type_def column_type_def)

text \<open>A pool with a heap for each of them.\<close>

lemma demo_pool:
  obtains g x y where "held {} {#} g" "pool_capacity g = 4"
    "table_rows g \<lparr>table_name = ''users'', table_first_page = x, table_schema = user_schema\<rparr> [demo_user]"
    "table_rows g \<lparr>table_name = ''payments'', table_first_page = y, table_schema = payments_schema\<rparr> [demo_payment]"
proof -
  let ?b = "bpm_object new_disk 4"
  have d: "disk_ok new_disk" "free_ok new_disk" "page_budget new_disk = 127"
    using empty_file_opens by (simp_all add: disk_ok_def free_ok_def sound_disk_def kPAGE_SIZE_def page_budget_def)
  have b: "held {} {#} ?b" "pool_capacity ?b = 4" "page_budget (bdisk ?b) = 127" using fresh_pool_held [OF d(1,2), of 4] d(3) by (simp_all add: bpm_object_def)
  obtain x c where c: "heap_create ?b = (Inr x, c)" "held {} {#} c" "heap_pages (bpm_view c) (bpm_pages c) x [x]" "bpm_view c x = sp_init zero_page"
    "pool_capacity c = 4" "x \<in> bpm_pages c"
    using heap_create_ok [OF b(1)] b(2,3) by (auto simp: disk_room_budget)
  have "Suc (page_budget (bdisk c)) = 127" using heap_create_budget [OF b(1) _ _ c(1)] b(2,3) by (simp add: disk_room_budget)
  then obtain y e where e: "held {} {#} e" "y \<notin> bpm_pages c" "heap_pages (bpm_view e) (bpm_pages e) y [y]"
    "bpm_view e = (bpm_view c)(y := sp_init zero_page)" "pool_capacity e = 4" "bpm_pages e = insert y (bpm_pages c)"
    using heap_create_ok [OF c(2)] c(5) by (auto simp: disk_room_budget)
  have xy: "x \<noteq> y" using c(6) e(2) by auto
  then have x: "heap_pages (bpm_view e) (bpm_pages e) x [x]" "bpm_view e x = sp_init zero_page" using heap_pages_moved [OF c(3)] c(4,6) e(4,6) by auto
  note rows = demo_rows_ok
  have cap: "size ({#} :: page_id multiset) + 1 < pool_capacity e" using e(5) by simp
  obtain r qs f where f: "inserted {#} e x [x] (row_bytes user_schema demo_user) r qs f"
    using heap_insert_ok [OF e(1) x(1) cap rows(2)] takes_new_page [of "row_bytes user_schema demo_user"] rows(2) by (auto simp: x(2))
  have F: "held {} {#} f" "pool_capacity f = 4" "set qs \<subseteq> insert x (- bpm_pages e)" "bpm_pages e \<subseteq> bpm_pages f" "heap_pages (bpm_view f) (bpm_pages f) x qs"
    "\<And>q. q \<notin> set qs \<Longrightarrow> bpm_view f q = bpm_view e q" using f e(5) by (auto simp: inserted_def)
  have y: "y \<notin> set qs" using F(3) xy e(6) by auto
  have y': "heap_pages (bpm_view f) (bpm_pages f) y [y]" "bpm_view f y = sp_init zero_page" using heap_pages_moved [OF e(3)] y F(4,6) e(4,6) by auto
  have cap': "size ({#} :: page_id multiset) + 1 < pool_capacity f" using F(2) by simp
  obtain s rs g where g: "inserted {#} f y [y] (row_bytes payments_schema demo_payment) s rs g"
    using heap_insert_ok [OF F(1) y'(1) cap' rows(5)] takes_new_page [of "row_bytes payments_schema demo_payment"] rows(5) by (auto simp: y'(2))
  let ?tu = "\<lparr>table_name = ''users'', table_first_page = x, table_schema = user_schema\<rparr>"
    and ?tp = "\<lparr>table_name = ''payments'', table_first_page = y, table_schema = payments_schema\<rparr>"
  have G: "held {} {#} g" "pool_capacity g = 4" "set rs \<subseteq> insert y (- bpm_pages f)" "bpm_pages f \<subseteq> bpm_pages g"
    "\<And>q. q \<notin> set rs \<Longrightarrow> bpm_view g q = bpm_view f q" using g F(2) by (auto simp: inserted_def)
  have "table_rows f ?tu [demo_user]" using inserted_table_row [OF f x(2) rows(1)] rows(2) by simp
  moreover have qs: "set qs \<subseteq> bpm_pages f" using F(5) chain_in by (auto simp: heap_pages_def)
  then have "\<forall>q\<in>set qs. bpm_view g q = bpm_view f q" using G(3,5) y by blast
  ultimately have tu: "table_rows g ?tu [demo_user]" using table_rows_untouched [of f ?tu "[demo_user]" qs g] F(5) qs G(4) by auto
  have tp: "table_rows g ?tp [demo_payment]" using inserted_table_row [OF g y'(2) rows(4)] rows(5) by simp
  show thesis by (rule that [OF G(1,2) tu tp])
qed

theorem demo_prints_join_witness:
  "\<exists>w w'. demo_session 3000 4 \<lparr>con_world = w, printed = []\<rparr> =
     (Inr (), \<lparr>con_world = w', printed = [demo_header, ''Entry:  | 1 | nikola | 12345678! | 3 | 1 | -465'']\<rparr>)"
proof -
  obtain g x y where g: "held {} {#} g" "pool_capacity g = 4"
    "table_rows g \<lparr>table_name = ''users'', table_first_page = x, table_schema = user_schema\<rparr> [demo_user]"
    "table_rows g \<lparr>table_name = ''payments'', table_first_page = y, table_schema = payments_schema\<rparr> [demo_payment]"
    by (rule demo_pool)
  let ?tu = "\<lparr>table_name = ''users'', table_first_page = x, table_schema = user_schema\<rparr>"
    and ?tp = "\<lparr>table_name = ''payments'', table_first_page = y, table_schema = payments_schema\<rparr>"
  let ?w = "\<lparr>locks = lock_init, next_tx_id = 0, active_txs = {}, tx_data = \<lparr>pool = g, catalog_table = ?tu,
     tables = [(''users'', \<lparr>entry_rid = \<lparr>rid_page = 1, rid_slot = 0\<rparr>, entry_table = ?tu\<rparr>), (''payments'', \<lparr>entry_rid = \<lparr>rid_page = 1, rid_slot = 1\<rparr>, entry_table = ?tp\<rparr>)]\<rparr>\<rparr> :: world"
  have names: "named_table ?w ''users'' ?tu" "named_table ?w ''payments'' ?tp" by (simp_all add: named_table_def find_table_def)
  have "product (mset [demo_user]) (mset [demo_payment]) = {#demo_user @ demo_payment#}" by (simp add: product_def)
  with demo_rows_ok(7) have M: "filter_mset demo_match (product (mset [demo_user]) (mset [demo_payment])) = {#demo_user @ demo_payment#}" by simp
  have "\<exists>rws ss w'. demo_session 3000 4 \<lparr>con_world = ?w, printed = []\<rparr> = (Inr (), \<lparr>con_world = w', printed = demo_header # map ((@) ''Entry: '') ss\<rparr>) \<and>
    map_res record_to_string rws = Inr ss \<and> mset rws \<subseteq># {#demo_user @ demo_payment#} \<and> length rws = 1"
    using demo_prints_join [OF names(1) _ _ _ names(2), of "[demo_user]" "[demo_payment]" 3000 4] g demo_rows_ok(3,6) unfolding M
    by (auto simp: lock_init_def kBLOCK_SIZE_def)
  then obtain rws ss w' where s: "demo_session 3000 4 \<lparr>con_world = ?w, printed = []\<rparr> = (Inr (), \<lparr>con_world = w', printed = demo_header # map ((@) ''Entry: '') ss\<rparr>)"
    "map_res record_to_string rws = Inr ss" "mset rws \<subseteq># {#demo_user @ demo_payment#}" "length rws = 1" by blast
  have "rws = [demo_user @ demo_payment]" using s(3,4) by (cases rws) auto
  then have "ss = ['' | 1 | nikola | 12345678! | 3 | 1 | -465'']" using s(2) demo_rows_ok(8) by simp
  then show ?thesis using s(1) by auto
qed

section \<open>The whole program\<close>

text \<open>A database that is kept can be closed, and the file opens as the same abstract database.\<close>

lemma close_open:
  assumes ok: "database_ok w" and a: "represents w a" and n: "1 < n" "n < 2 ^ 32 - 1"
  obtains b d v where "bpm_flush_all (wpool w) = (Inr (), b)" "close_database (wpool w) = Inr (Some (disk_close (bdisk b)))"
    "disk_open (Some (disk_close (bdisk b))) = Inr d" "database_open (bpm_object d n) = (Inr v, wpool v)" "database_ok v" "represents v a"
    "pool_capacity (wpool v) = n" "locks v = lock_init" "\<forall>name. find_table name (tx_data v) = find_table name (tx_data w)"
    "\<forall>tb rows. table_rows (wpool w) tb rows \<longrightarrow> table_rows (wpool v) tb rows"
proof -
  note D = database_poolD [OF ok]
  obtain ps where c: "catalog_ok ps w" "table_first_page (catalog_table (tx_data w)) = kCATALOG_FIRST_PAGE_ID"
    using ok by (auto simp: database_ok_def)
  have "0 < n" using n(1) by simp
  from restart_run [OF c D(2,4) this n(2)] obtain b d v where v: "bpm_flush_all (wpool w) = (Inr (), b)"
    "disk_open (Some (disk_close (bdisk b))) = Inr d" "database_open (bpm_object d n) = (Inr v, wpool v)" "pool_capacity (wpool v) = n"
    "locks v = lock_init" "map_of (tables (tx_data v)) = map_of (tables (tx_data w))"
    "\<forall>tb rows. table_rows (wpool w) tb rows \<longrightarrow> table_rows (wpool v) tb rows" by blast
  have "database_ok v" "represents v a" using restart_represents [OF ok a v(1,2) n v(3)] by simp_all
  moreover have "\<forall>name. find_table name (tx_data v) = find_table name (tx_data w)" using v(6) by (simp add: find_table_def)
  moreover have "close_database (wpool w) = Inr (Some (disk_close (bdisk b)))" by (simp add: close_database_def v(1))
  ultimately show thesis using that v(1-5,7) by blast
qed

text \<open>
  \<open>main\<close> on the file of a closed database with the two tables prints the join and leaves a file that
  opens as the same database.
\<close>

lemma demo_main_run:
  assumes ok: "database_ok v" and a: "represents v a" and b: "close_database (wpool v) = Inr f"
    and u: "named_table v ''users'' tu" "table_schema tu = user_schema" "table_rows (wpool v) tu us" "\<forall>r\<in>set us. row_of_schema user_schema r"
    and p: "named_table v ''payments'' tp" "table_schema tp = payments_schema" "table_rows (wpool v) tp ps" "\<forall>r\<in>set ps. row_of_schema payments_schema r"
    and k: "length us * Suc (length ps * Suc kBLOCK_SIZE) < k" and n: "3 < n"
  shows "\<exists>rows ss g d w. demo_main lib k n f = (demo_header # map ((@) ''Entry: '') ss, Inr g) \<and>
    map_res record_to_string rows = Inr ss \<and> mset rows \<subseteq># filter_mset demo_match (product (mset us) (mset ps)) \<and>
    length rows = min 3 (size (filter_mset demo_match (product (mset us) (mset ps)))) \<and>
    disk_open g = Inr d \<and> database_open (bpm_object d 128) = (Inr w, wpool w) \<and> database_ok w \<and> represents w a"
proof -
  have lim: "1 < (128::nat)" "(128::nat) < 2 ^ 32 - 1" by simp_all
  obtain c :: bpm and d w where w: "close_database (wpool v) = Inr (Some (disk_close (bdisk c)))" "disk_open (Some (disk_close (bdisk c))) = Inr d"
    "database_open (bpm_object d 128) = (Inr w, wpool w)" "database_ok w" "represents w a" "pool_capacity (wpool w) = 128" "locks w = lock_init"
    "\<forall>name. find_table name (tx_data w) = find_table name (tx_data v)" "\<forall>tb rows. table_rows (wpool v) tb rows \<longrightarrow> table_rows (wpool w) tb rows"
    by (rule close_open [OF ok a lim]) blast
  note D = database_poolD [OF w(4)]
  have names: "named_table w ''users'' tu" "named_table w ''payments'' tp" using u(1) p(1) by (simp_all add: named_table_def w(8))
  have free: "2 < pool_capacity (wpool w)" "\<forall>r. can_grant (lock_table (locks w) r) (next_tx_id w) SHARED" by (simp_all add: w(6,7) lock_init_def)
  from demo_session_run [OF names(1) u(2) w(9) [rule_format, OF u(3)] u(4) names(2) p(2) w(9) [rule_format, OF p(3)] p(4) D(2) free k n] D(4)
  obtain rows ss w' where s: "demo_session k n \<lparr>con_world = w, printed = []\<rparr> = (Inr (), \<lparr>con_world = w', printed = demo_header # map ((@) ''Entry: '') ss\<rparr>)"
    "map_res record_to_string rows = Inr ss" "mset rows \<subseteq># filter_mset demo_match (product (mset us) (mset ps))"
    "length rows = min 3 (size (filter_mset demo_match (product (mset us) (mset ps))))" "held {} {#} (wpool w')" "world_kept {#} w w'" "sound_world w'"
    by blast
  have "pool_ok (wpool w')" using s(5-7) D(3,5) by (simp add: pool_ok_def world_kept_def pool_kept_def pages_wf_def pool_shape_def)
  then have w': "database_ok w'" "represents w' a" using s(6) step_nothing [OF w(4,5)] by (simp_all add: world_kept_def pool_kept_def)
  obtain c' :: bpm and d' x where x: "close_database (wpool w') = Inr (Some (disk_close (bdisk c')))" "disk_open (Some (disk_close (bdisk c'))) = Inr d'"
    "database_open (bpm_object d' 128) = (Inr x, wpool x)" "database_ok x" "represents x a"
    by (rule close_open [OF w' lim]) blast
  have "f = Some (disk_close (bdisk c))" using b w(1) by simp
  then have "demo_main lib k n f = (demo_header # map ((@) ''Entry: '') ss, Inr (Some (disk_close (bdisk c'))))"
    by (simp add: demo_main_def w(2,3) s(1) x(1) end_try_def)
  then show ?thesis using s(2-4) x(2-5) by blast
qed

text \<open>Without the table \<open>users\<close> the program prints the exception of the binder.\<close>

lemma demo_main_without_users:
  assumes "disk_open f = Inr d" and "database_open (bpm_object d 128) = (Inr w, c)" and "find_table ''users'' (tx_data w) = None"
    and "close_database (wpool w) = Inr g"
  shows "demo_main lib k n f = ([''Exception: Binder::bind: table users doesn't exist''], Inr g)"
proof -
  obtain t w1 where t: "begin_tx w = (Inr t, w1)" "tx_data w1 = tx_data w" by (simp add: begin_tx_def tm_begin_def Let_def)
  let ?m = "''Binder::bind: table users doesn't exist''"
  have "get_table ''users'' (Some t) w1 = (Inr None, w1)" using assms(3) t(2) by (simp add: get_table_def)
  then have l: "lookup_table ''Binder::bind: table '' ''users'' (Some t) w1 = (Inl (Runtime_error ?m), w1)"
    by (simp add: lookup_table_def and_then_Inr [of "get_table _ _" w1])
  have q: "sq_table demo_query = Some \<lparr>tr_name = ''users'', tr_alias = Some ''u''\<rparr>"
    by (simp add: demo_query_def query_limit_def query_where_def query_join_def query_from_def)
  have "engine_execute demo_query (Some t) w1 = (Inl (Runtime_error ?m), w1)"
    using l by (simp add: engine_execute_def bind_query_def q and_then_def)
  then have e: "on_world (engine_execute demo_query (Some t)) \<lparr>con_world = w1, printed = []\<rparr> = (Inl (Runtime_error ?m), \<lparr>con_world = w1, printed = []\<rparr>)"
    by (simp add: on_world_def zoom_def)
  have c: "on_world begin_tx \<lparr>con_world = w, printed = []\<rparr> = (Inr t, \<lparr>con_world = w1, printed = []\<rparr>)" by (simp add: on_world_def zoom_def t(1))
  obtain ts where ts: "demo_tuples = Inr ts" using demo_tuples_made by blast
  have "demo_session k n \<lparr>con_world = w, printed = []\<rparr> = (Inl (Runtime_error ?m), \<lparr>con_world = w1, printed = []\<rparr>)"
    by (simp only: demo_session_def ts and_then_Inr [of "on_world begin_tx", OF c] and_then_Inl [of "on_world (engine_execute demo_query (Some t))", OF e] and_then_run)
  then show ?thesis using assms(1,2,4) t(2) by (simp add: demo_main_def end_try_def)
qed

end
