(* ===== verification/Spec2Isabelle.thy ===== *)
theory Spec2Isabelle
  imports Row_Properties Page_Properties Disk_Properties Recency Transaction_Properties Expression_Properties Heap_Properties Query_Properties Catalog_Properties Table_Properties Database_Properties Demo_Properties
begin

text \<open>
  A model of duck-duck-dbms, a relational database engine in C++: \<open>include/duck\<close> and \<open>src\<close>, from the
  database file to the rows of a query.

  The parts, bottom up. \<open>DiskManager\<close> keeps one file of 8192-byte pages with a header page and a list
  of free pages. \<open>BufferPoolManager\<close> caches pages in frames, pins the ones in use and replaces the
  least recently used. A \<open>SlottedPage\<close> packs rows of bytes into a page. A \<open>TableHeap\<close> links pages into
  a heap of rows. \<open>Value\<close>, \<open>Column\<close>, \<open>Schema\<close> and \<open>Tuple\<close> give bytes the meaning of a typed row.
  \<open>LockManager\<close>, \<open>Transaction\<close> and \<open>TransactionManager\<close> lock rows and undo changes. \<open>Table\<close> is a heap
  under a schema and locks; \<open>Catalog\<close> is a table of tables; \<open>Database\<close> is the facade. A \<open>SelectQuery\<close>
  is bound against the catalog to a logical plan, translated to a physical plan, built into a tree of
  operators and pulled row by row.

  Conventions. A function that may throw is a \<open>'a res\<close> (\<open>Inl\<close> an exception, \<open>Inr\<close> a value); one that
  also changes state is a \<open>('s, 'a) proc\<close>, from a state to a result and the state left, the state also
  after an exception (\<open>Proc\<close>; \<open>and_then\<close> sequences, \<open>zoom\<close> runs a component inside a larger state).
  \<open>Assert_failed\<close> is a failed assertion, \<open>Undefined\<close> undefined behaviour of C++, \<open>Out_of_fuel\<close> a loop
  bound that was too small. Integers are words of their width; \<open>size_t\<close> positions and counts that index
  a container are \<open>nat\<close>. Bytes are 8-bit words, strings character lists. An object that owns a resource
  (\<open>PinnedPage\<close>, a scan) has its destructor modelled where the code runs it.

  Theories, in the order of the code they model:
  \<^item> \<open>Prelude\<close>, \<open>Proc\<close>: results, procedures, byte codecs (locale \<open>fixed_codec\<close>); \<open>Floats\<close>: the part of
    IEEE 754 that comparing needs, on bit patterns.
  \<^item> \<open>Common_Types\<close> (\<open>common/*.hpp\<close>, \<open>config/*.hpp\<close>), \<open>Value_Model\<close> (\<open>tuple/value\<close>), \<open>Schema_Model\<close>
    (\<open>tuple/column\<close>, \<open>tuple/schema\<close>, locale \<open>record_codec\<close>), \<open>Tuple_Codec\<close> (\<open>tuple/tuple\<close>);
    \<open>Row_Properties\<close>: rows and schemas read back as written, length limits, lookup by name.
  \<^item> \<open>Disk\<close> (\<open>storage/disk_manager\<close>), \<open>Page_Store\<close> (the contract of a store of pages, locale
    \<open>page_store\<close>); \<open>Disk_Properties\<close>: reads, allocation, reopening.
  \<^item> \<open>Replacer\<close>, \<open>Buffer_Pool\<close> (\<open>buffer/*\<close>), \<open>Buffer_Inv\<close>, \<open>Buffer_Steps\<close> (invariant and what each
    operation does to it), \<open>Buffer_Properties\<close>: the pool is a page store like the disk below it; \<open>Recency\<close>: the
    list of the replacer against the history of the uses of pages.
  \<^item> \<open>Slotted_Page\<close> (\<open>table/slotted_page\<close>), \<open>Page_Layout\<close>, \<open>Page_Ops\<close>, \<open>Page_Compact\<close>: the page against a
    list of optional rows; \<open>Page_Properties\<close>.
  \<^item> \<open>Lock_Manager\<close>, \<open>Transactions\<close> (\<open>transaction/*\<close>, locale \<open>undo_records\<close>), \<open>Lock_Safety\<close>: the lock
    manager as a step relation, one step per critical section, under every interleaving;
    \<open>Transaction_Properties\<close>.
  \<^item> \<open>Expression\<close> (\<open>record/*\<close>, \<open>expression/*\<close>), \<open>Expression_Properties\<close>.
  \<^item> \<open>Table_Heap\<close> (\<open>table/table_heap\<close>), \<open>Heap_Pins\<close>, \<open>Heap_Scan\<close>, \<open>Heap_Rows\<close>: the pool as a client holds
    it, the heap as a list of pages and a map of rows; \<open>Heap_Properties\<close>.
  \<^item> \<open>Table\<close> (\<open>table/table\<close>, \<open>transaction/undo.hpp\<close>), \<open>Catalog\<close> (\<open>catalog/*\<close>, \<open>transaction/undo.cpp\<close>,
    \<open>database/*\<close>).
  \<^item> \<open>Operators\<close> (\<open>execution/operator\<close>), \<open>Row_Source\<close>, \<open>Join_Source\<close> (the contract of a pull iterator,
    locale \<open>row_source\<close>), \<open>Operator_Rows\<close> (the operators keep it); \<open>Plan\<close> (\<open>plan/*\<close>, \<open>execution/*.cpp\<close>),
    \<open>Plan_Rows\<close> (what a plan means).
  \<^item> \<open>Query\<close> (\<open>query/*\<close>), \<open>Query_Binding\<close> (what a bound query looks like), \<open>Query_Meaning\<close> (what a query
    means by its names alone); \<open>Query_Properties\<close>.
  \<^item> \<open>Catalog_Rows\<close> (the catalog table against the map in memory), \<open>Sound_Disk\<close>, \<open>Query_Sound\<close> (what keeps the
    file fit to be opened again); \<open>Catalog_Properties\<close>: restarting.
  \<^item> \<open>Table_Rows\<close> (all rows of a pool as one map, the pages of all heaps), \<open>Table_Properties\<close>: creating
    tables, inserting and deleting rows, rolling inserts back; \<open>Heap_Update\<close>, \<open>Table_Update\<close>: updating rows, in place and moved;
    \<open>Heap_Restore\<close>, \<open>Rollback\<close>: putting deleted rows back, rolling inserts, deletes and updates back;
    \<open>Heap_Drop\<close>: the pages of a dropped heap go back to the disk.
  \<^item> \<open>Abstract_Database\<close>: a map from names to a schema and a multiset of rows, the changes of every open
    transaction, and the steps on them (\<open>spec_step\<close>). \<open>Lock_Keeping\<close>: what the operations leave of the locks and
    logs of transactions. \<open>Database_Rows\<close>, \<open>Database_Drop\<close>: the map that the pages represent. \<open>Open_Changes\<close>: the
    undo logs against the changes of the open transactions; \<open>Database_Undo\<close>: a rollback takes the changes of
    its transaction back among the others. \<open>Database_Steps\<close>: the steps of the engine (\<open>db_step\<close>);
    \<open>Database_Properties\<close>: each is a step of the abstract database.
  \<^item> \<open>Rendering\<close> (the \<open>to_string\<close> functions of values, tuples, records and schemas): numbers read back from
    their text; \<open>Demo\<close> (\<open>src/main.cpp\<close>), \<open>Demo_Properties\<close>: what the demo program prints.

  Interfaces between the parts are locales, interpreted on the model: the disk and the pool are both a
  \<open>page_store\<close>, the operators are \<open>row_source\<close>s, the undo of page changes and of inserted rows is
  \<open>undo_records\<close>, that of deletes and updates \<open>undo_when_ready\<close>; a \<open>disk_invariant\<close> is kept by the pool and the heap above the disk, a \<open>scan_invariant\<close> by
  every query above the scans;
  what is kept by all operations of the database is a \<open>quiet_ops\<close> or, if they may push undo records, a \<open>logged_ops\<close>.

  The refinement covers creating and dropping tables, inserting, updating and deleting rows, queries,
  begin, commit, rollback and restarts, the calls of several transactions and of none following each other
  in any order. An operation under a transaction cannot change a row that another open transaction has
  changed, because its locks are refused; an operation outside of transactions takes no lock, so the run
  must spare such rows. A rollback takes back the changes of its transaction only. A restart ends all
  transactions and keeps what they have done, as there is no log on the disk.

  Its conditions are those of the code: two free
  frames, room on disk, a row or catalog entry of at most 8180 bytes, and pages before the last that
  either take the row or are compacted already (\<open>settled\<close>: \<open>compact\<close> changes a page without marking it
  dirty when the row still does not fit); a drop needs room for its pages in the free list of 1025 entries; a
  query under a transaction must find its shared locks free, because a scan that is refused a lock ends
  without an error. A rollback of inserts always ends. \<open>restore_tuple\<close> does
  not mark the page dirty (\<open>heap_restore_unmarked\<close>) and its slot may not fit again, so a rollback that puts
  rows back is covered while the changed pages are still marked in the pool and when it ends without an
  exception; for a transaction alone it does so if no slot directory has grown since a row was taken out of
  its page (\<open>Rollback\<close>). Tables are created outside of transactions in the refinement. Outside it is the
  rollback of created tables, which fails when the transaction has dropped the table again
  (\<open>drop_then_rollback_fails\<close>).

  Bounds and fuel. Loops over linked pages get as many rounds as the disk has pages (\<open>page_fuel\<close>), more
  than any chain without a cycle is long. The loops of the operators get a bound \<open>k\<close>; \<open>plan_fuel\<close>
  computes one from the rows of the tables, and the property of plans shows that it is enough. A client
  loop (\<open>query_rows\<close>, \<open>scan_rest\<close>) needs one round more than there are rows.

  Not modelled. Threads: latches and mutexes only order the operations, which run one after the other
  here, but for the lock manager, whose critical sections interleave freely. Its wait ends when the lock
  is granted or by the timeout, at any moment. Frames are as many as there is memory; of the I/O errors
  of the operating system only a file size limit, an unreadable file and a failing \<open>fstat\<close> are modelled. The warnings the engine prints to the
  console are left out. The state of an operator or query object after an exception is
  not modelled, as no code uses it. \<open>src/sql\<close> holds empty classes.
\<close>

end
